(* ===== verification/Prelude.thy ===== *)
theory Prelude
  imports Main "HOL-Library.Word"
begin

text \<open>
  What the component theories share: the names of the C integer types, the outcome type of
  kernel functions (a value, a panic, a processor fault, or a process that goes to sleep),
  the search loops over fixed tables, byte-addressed memory with little-endian words, and the
  list, option and word lemmas the component proofs use.
\<close>

unbundle bit_operations_syntax

subsection \<open>C integer types\<close>

text \<open>
  The kernel is compiled for 32-bit x86: \<open>uint\<close> and \<open>int\<close> are 32 bits wide, \<open>ushort\<close>
  and \<open>short\<close> 16 bits, \<open>uchar\<close> 8 bits. A word of HOL wraps around as the machine does;
  signed comparisons go through \<^const>\<open>sint\<close>.
\<close>

type_synonym u8 = "8 word"
type_synonym u16 = "16 word"
type_synonym u32 = "32 word"
type_synonym memory = "u32 \<Rightarrow> u8"

named_theorems kres_simps \<open>evaluation and inversion of kernel outcomes\<close>
named_theorems mem_simps \<open>loads and stores of byte memory\<close>
named_theorems table_simps \<open>search loops over fixed tables\<close>

subsection \<open>Outcomes of kernel functions\<close>

text \<open>
  Sleep channels are compared for equality only, so the address of a kernel object is modelled
  by a constructor that names the object.
\<close>

datatype chan =
    ChanTicks | ChanProc nat | ChanPipeRead nat | ChanPipeWrite nat | ChanLog
  | ChanSleeplock nat | ChanBuf nat | ChanInput

text \<open>
  \<open>Panic\<close> is a call of \<open>panic\<close>, \<open>Fault\<close> an exception the processor raises in
  kernel mode (a null dereference, a division by zero), \<open>Spin\<close> a loop that does not end by itself
  (a wait for a spin lock that another CPU holds, a walk around a cyclic list), \<open>Block\<close> a call of \<open>sleep\<close> that
  the model does not continue.
\<close>

datatype stop = Panic string | Fault string | Block chan | Spin

type_synonym 'a kres = "stop + 'a"

definition kbind :: "'a kres \<Rightarrow> ('a \<Rightarrow> 'b kres) \<Rightarrow> 'b kres" where
  "kbind m f = (case m of Inl e \<Rightarrow> Inl e | Inr a \<Rightarrow> f a)"

definition kassert :: "bool \<Rightarrow> stop \<Rightarrow> unit kres" where
  "kassert b e = (if b then Inr () else Inl e)"

lemma kbind_Inl [simp]: "kbind (Inl e) f = Inl e"
  and kbind_Inr [simp]: "kbind (Inr a) f = f a"
  by (simp_all add: kbind_def)

lemma kbind_eq_Inr [kres_simps]: "kbind m f = Inr b \<longleftrightarrow> (\<exists>a. m = Inr a \<and> f a = Inr b)"
  by (cases m) auto

lemma kbind_eq_Inl [kres_simps]:
  "kbind m f = Inl e \<longleftrightarrow> m = Inl e \<or> (\<exists>a. m = Inr a \<and> f a = Inl e)"
  by (cases m) auto

lemma kassert_eq_Inr [kres_simps]: "kassert b e = Inr u \<longleftrightarrow> b"
  and kassert_eq_Inl [kres_simps]: "kassert b e = Inl e' \<longleftrightarrow> \<not> b \<and> e' = e"
  by (auto simp: kassert_def)

lemma kassert_True [simp]: "b \<Longrightarrow> kassert b e = Inr ()"
  and kassert_False [simp]: "\<not> b \<Longrightarrow> kassert b e = Inl e"
  by (simp_all add: kassert_def)

lemma kbind_assoc: "kbind (kbind m f) g = kbind m (\<lambda>a. kbind (f a) g)"
  by (cases m) auto

lemma kbind_cong [fundef_cong]:
  "m = m' \<Longrightarrow> (\<And>a. m' = Inr a \<Longrightarrow> f a = f' a) \<Longrightarrow> kbind m f = kbind m' f'"
  by (cases m') auto

subsection \<open>Search loops over fixed tables\<close>

text \<open>
  \<open>for(p = table; p < &table[N]; p++) if(cond) \<dots>\<close>: the index of the first entry that
  satisfies the condition.
\<close>

fun first_index :: "('a \<Rightarrow> bool) \<Rightarrow> 'a list \<Rightarrow> nat option" where
  "first_index P [] = None"
| "first_index P (x # xs) = (if P x then Some 0 else map_option Suc (first_index P xs))"

lemma first_index_None [table_simps]: "first_index P xs = None \<longleftrightarrow> (\<forall>x\<in>set xs. \<not> P x)"
  by (induction xs) auto

lemma first_index_Some:
  "first_index P xs = Some i \<longleftrightarrow> i < length xs \<and> P (xs ! i) \<and> (\<forall>j<i. \<not> P (xs ! j))"
proof (induction xs arbitrary: i)
  case (Cons x xs)
  then show ?case
    by (cases i) (auto simp: less_Suc_eq_0_disj nth_Cons split: nat.splits)
qed simp

lemma first_index_SomeD [dest]:
  assumes "first_index P xs = Some i"
  shows first_index_less: "i < length xs" and first_index_holds: "P (xs ! i)"
  using assms by (simp_all add: first_index_Some)

lemma first_index_ex: "x \<in> set xs \<Longrightarrow> P x \<Longrightarrow> \<exists>i. first_index P xs = Some i"
  using first_index_None [of P xs] by (cases "first_index P xs") auto

definition modify :: "nat \<Rightarrow> ('a \<Rightarrow> 'a) \<Rightarrow> 'a list \<Rightarrow> 'a list" where
  "modify i f xs = xs[i := f (xs ! i)]"

lemma length_modify [simp]: "length (modify i f xs) = length xs"
  by (simp add: modify_def)

lemma nth_modify [simp]:
  "j < length xs \<Longrightarrow> modify i f xs ! j = (if i = j then f (xs ! j) else xs ! j)"
  by (auto simp: modify_def)

lemma modify_same: "f (xs ! i) = xs ! i \<Longrightarrow> modify i f xs = xs"
  by (simp add: modify_def)

lemma set_modify: "i < length xs \<Longrightarrow> set (modify i f xs) \<subseteq> insert (f (xs ! i)) (set xs)"
  by (simp add: modify_def set_update_subset_insert)

lemma map_modify: "(\<And>x. g (f x) = g x) \<Longrightarrow> map g (modify i f xs) = map g xs"
  by (auto simp: list_eq_iff_nth_eq)

subsection \<open>Words\<close>

lemma word_less_inc:
  fixes x :: "'a::len word"
  shows "x \<noteq> -1 \<Longrightarrow> p \<le> x \<Longrightarrow> p < x + 1"
  using inc_less_eq_iff by fastforce

lemma unat_bound: "unat (x :: u32) < 2 ^ 32"
  using unsigned_less [where 'a = nat and w = x] by simp

lemma unat_add_small:
  fixes a b :: u32
  shows "unat a + unat b < 2 ^ 32 \<Longrightarrow> unat (a + b) = unat a + unat b"
  by (simp add: unat_word_ariths)

lemma sint_small:
  fixes a :: u32
  assumes "unat a < 2 ^ 31"
  shows "sint a = int (unat a)"
proof -
  have "uint a < 2 ^ 31" using assms by (metis of_nat_less_iff of_nat_numeral of_nat_power uint_nat)
  moreover have "- (2 ^ 31) \<le> uint a" by (rule order_trans [of _ 0]) simp_all
  ultimately have "signed_take_bit 31 (uint a) = uint a" by (intro signed_take_bit_int_eq_self)
  then show ?thesis by (simp add: sint_uint)
qed

lemma sint_nonneg:
  fixes w :: u32
  assumes "0 \<le> sint w"
  shows "int (unat w) = sint w"
proof -
  have "sint w < 2 ^ 32" using sint_lt [of w] by simp
  then have "take_bit 32 (sint w) = sint w" using assms by (simp add: take_bit_int_eq_self)
  then show ?thesis using uint_sint [of w] by simp
qed

lemma unat_sint: "0 \<le> sint (w :: u32) \<Longrightarrow> unat w = nat (sint w)"
  using sint_nonneg [of w] by (metis nat_int)

lemma sint_less_small:
  fixes a b :: u32
  shows "unat a < 2 ^ 31 \<Longrightarrow> unat b < 2 ^ 31 \<Longrightarrow> sint a < sint b \<longleftrightarrow> unat a < unat b"
  by (simp only: sint_small of_nat_less_iff)

subsection \<open>Transition systems and mutual exclusion\<close>

inductive reachable :: "('s \<Rightarrow> bool) \<Rightarrow> ('s \<Rightarrow> 's \<Rightarrow> bool) \<Rightarrow> 's \<Rightarrow> bool"
  for init :: "'s \<Rightarrow> bool" and step :: "'s \<Rightarrow> 's \<Rightarrow> bool" where
  reach_init: "init s \<Longrightarrow> reachable init step s"
| reach_step: "reachable init step s \<Longrightarrow> step s t \<Longrightarrow> reachable init step t"

locale transition_system =
  fixes init :: "'s \<Rightarrow> bool" and step :: "'s \<Rightarrow> 's \<Rightarrow> bool" and inv :: "'s \<Rightarrow> bool"
  assumes init_inv: "init s \<Longrightarrow> inv s"
    and step_inv: "inv s \<Longrightarrow> step s t \<Longrightarrow> inv t"
begin

lemma reachable_inv: "reachable init step s \<Longrightarrow> inv s"
  by (induction rule: reachable.induct) (blast intro: init_inv step_inv)+

end

text \<open>
  The contract of a lock: every agent inside its critical section is the lock's recorded owner.
\<close>

locale mutex = transition_system +
  fixes inside :: "'s \<Rightarrow> 'c \<Rightarrow> bool" and owner :: "'s \<Rightarrow> 'c option"
  assumes inside_owner: "inv s \<Longrightarrow> inside s c \<Longrightarrow> owner s = Some c"
begin

lemma mutual_exclusion:
  assumes "reachable init step s" and "inside s c" and "inside s d"
  shows "c = d"
proof -
  from assms(1) have "inv s" by (rule reachable_inv)
  with assms(2,3) have "owner s = Some c" "owner s = Some d" by (auto intro: inside_owner)
  then show ?thesis by simp
qed

end

end
