(* ===== verification/Spinlock.thy ===== *)
theory Spinlock
  imports Prelude
begin

text \<open>
  Spin locks and the interrupt-disable nesting of \<open>spinlock.c\<close>, with the per-CPU state of
  \<open>proc.h\<close> they use. A function of the C code that runs on a CPU takes the CPU's index in
  \<open>cpus[]\<close> as its argument; \<open>readeflags() & FL_IF\<close> is the field \<open>iflag\<close> of that CPU.
  The operations on one lock are also arranged as a step relation over any number of CPUs, in
  which the \<open>xchg\<close> is the only atomic action, and mutual exclusion is proved for it.
\<close>

subsection \<open>State\<close>

record cpu =
  apicid :: u8
  iflag :: bool
  ncli :: int
  intena :: bool
  cproc :: "nat option"
  ts_ss0 :: u16
  ts_esp0 :: u32
  ts_iomb :: u16
  cr3 :: u32

record spinlock =
  locked :: bool
  lcpu :: "nat option"

text \<open>The kernel's spin locks, by the object that contains them.\<close>

datatype lockid =
    PtableLock | TicksLock | KmemLock | BcacheLock | LogLock | IcacheLock | FtableLock
  | ConsLock | IdeLock | PipeLock nat | SleepLk nat

record mach =
  cpus :: "cpu list"
  locks :: "lockid \<Rightarrow> spinlock"

abbreviation the_cpu :: "nat \<Rightarrow> mach \<Rightarrow> cpu" where
  "the_cpu c m \<equiv> cpus m ! c"

definition upd_cpu :: "nat \<Rightarrow> (cpu \<Rightarrow> cpu) \<Rightarrow> mach \<Rightarrow> mach" where
  "upd_cpu c f m = m\<lparr>cpus := modify c f (cpus m)\<rparr>"

subsection \<open>Operations\<close>

text \<open>\<open>mycpu\<close>: the search for the local APIC id, refused with interrupts on.\<close>

definition mycpu :: "bool \<Rightarrow> u8 \<Rightarrow> cpu list \<Rightarrow> nat kres" where
  "mycpu ifl lapicid cs =
     (if ifl then Inl (Panic ''mycpu called with interrupts enabled'')
      else case first_index (\<lambda>c. apicid c = lapicid) cs of
             Some i \<Rightarrow> Inr i
           | None \<Rightarrow> Inl (Panic ''unknown apicid''))"

definition initlock :: "lockid \<Rightarrow> mach \<Rightarrow> mach" where
  "initlock l m = m\<lparr>locks := (locks m)(l := \<lparr>locked = False, lcpu = None\<rparr>)\<rparr>"

definition pushcli :: "nat \<Rightarrow> mach \<Rightarrow> mach" where
  "pushcli c m =
     (let eflags = iflag (the_cpu c m);
          m = upd_cpu c (\<lambda>k. k\<lparr>iflag := False\<rparr>) m;
          m = (if ncli (the_cpu c m) = 0
               then upd_cpu c (\<lambda>k. k\<lparr>intena := eflags\<rparr>) m else m)
      in upd_cpu c (\<lambda>k. k\<lparr>ncli := ncli k + 1\<rparr>) m)"

definition popcli :: "nat \<Rightarrow> mach \<Rightarrow> mach kres" where
  "popcli c m =
     (if iflag (the_cpu c m) then Inl (Panic ''popcli - interruptible'')
      else
        let m = upd_cpu c (\<lambda>k. k\<lparr>ncli := ncli k - 1\<rparr>) m
        in if ncli (the_cpu c m) < 0 then Inl (Panic ''popcli'')
           else if ncli (the_cpu c m) = 0 \<and> intena (the_cpu c m)
                then Inr (upd_cpu c (\<lambda>k. k\<lparr>iflag := True\<rparr>) m)
                else Inr m)"

definition holding :: "nat \<Rightarrow> lockid \<Rightarrow> mach \<Rightarrow> (bool \<times> mach) kres" where
  "holding c l m =
     (let m = pushcli c m;
          r = locked (locks m l) \<and> lcpu (locks m l) = Some c
      in kbind (popcli c m) (\<lambda>m. Inr (r, m)))"

text \<open>
  \<open>acquire\<close> in three parts: up to the loop, one \<open>xchg\<close> of the loop, and the rest.
  \<^const>\<open>Spin\<close> in \<open>acquire\<close> is the loop going round while another CPU has the lock.
\<close>

definition acquire_begin :: "nat \<Rightarrow> lockid \<Rightarrow> mach \<Rightarrow> mach kres" where
  "acquire_begin c l m =
     kbind (holding c l (pushcli c m)) (\<lambda>(h, m).
       if h then Inl (Panic ''acquire'') else Inr m)"

definition acquire_xchg :: "lockid \<Rightarrow> mach \<Rightarrow> bool \<times> mach" where
  "acquire_xchg l m =
     (locked (locks m l), m\<lparr>locks := (locks m)(l := (locks m l)\<lparr>locked := True\<rparr>)\<rparr>)"

definition acquire_end :: "nat \<Rightarrow> lockid \<Rightarrow> mach \<Rightarrow> mach" where
  "acquire_end c l m = m\<lparr>locks := (locks m)(l := (locks m l)\<lparr>lcpu := Some c\<rparr>)\<rparr>"

definition acquire :: "nat \<Rightarrow> lockid \<Rightarrow> mach \<Rightarrow> mach kres" where
  "acquire c l m =
     kbind (acquire_begin c l m) (\<lambda>m.
       case acquire_xchg l m of (old, m') \<Rightarrow>
         if old then Inl Spin else Inr (acquire_end c l m'))"

text \<open>\<open>release\<close> in two parts: up to clearing the recorded CPU, and the store that frees the lock.\<close>

definition release_begin :: "nat \<Rightarrow> lockid \<Rightarrow> mach \<Rightarrow> mach kres" where
  "release_begin c l m =
     kbind (holding c l m) (\<lambda>(h, m).
       if \<not> h then Inl (Panic ''release'')
       else Inr (m\<lparr>locks := (locks m)(l := (locks m l)\<lparr>lcpu := None\<rparr>)\<rparr>))"

definition release_end :: "nat \<Rightarrow> lockid \<Rightarrow> mach \<Rightarrow> mach kres" where
  "release_end c l m =
     popcli c (m\<lparr>locks := (locks m)(l := (locks m l)\<lparr>locked := False\<rparr>)\<rparr>)"

definition release :: "nat \<Rightarrow> lockid \<Rightarrow> mach \<Rightarrow> mach kres" where
  "release c l m = kbind (release_begin c l m) (release_end c l)"

subsection \<open>Interrupt nesting\<close>

lemma cpus_upd_cpu [simp]: "cpus (upd_cpu c f m) = modify c f (cpus m)"
  and locks_upd_cpu [simp]: "locks (upd_cpu c f m) = locks m"
  by (simp_all add: upd_cpu_def)

lemma upd_cpu_upd_cpu [simp]:
  "c < length (cpus m) \<Longrightarrow> upd_cpu c f (upd_cpu c g m) = upd_cpu c (f \<circ> g) m"
  by (simp add: upd_cpu_def modify_def)

lemma upd_cpu_id: "f (cpus m ! c) = cpus m ! c \<Longrightarrow> upd_cpu c f m = m"
  by (simp add: upd_cpu_def modify_same)

lemma upd_cpu_cong:
  "f (cpus m ! c) = g (cpus m ! c) \<Longrightarrow> upd_cpu c f m = upd_cpu c g m"
  by (simp add: upd_cpu_def modify_def)

lemma pushcli_eq:
  assumes "c < length (cpus m)"
  shows "pushcli c m =
    upd_cpu c (\<lambda>k. k\<lparr>iflag := False,
                     intena := (if ncli k = 0 then iflag k else intena k),
                     ncli := ncli k + 1\<rparr>) m"
  using assms
  by (auto simp: pushcli_def Let_def upd_cpu_def modify_def)

lemma length_cpus_pushcli [simp]: "length (cpus (pushcli c m)) = length (cpus m)"
  and locks_pushcli [simp]: "locks (pushcli c m) = locks m"
  by (simp_all add: pushcli_def Let_def)

text \<open>
  What every caller keeps true of a CPU: the nesting depth is not negative, and interrupts are
  off whenever it is positive.
\<close>

definition cli_ok :: "cpu \<Rightarrow> bool" where
  "cli_ok k \<longleftrightarrow> 0 \<le> ncli k \<and> (0 < ncli k \<longrightarrow> \<not> iflag k)"

definition mach_ok :: "mach \<Rightarrow> bool" where
  "mach_ok m \<longleftrightarrow> (\<forall>k\<in>set (cpus m). cli_ok k)"

lemma mach_okD: "mach_ok m \<Longrightarrow> c < length (cpus m) \<Longrightarrow> cli_ok (the_cpu c m)"
  by (simp add: mach_ok_def)

text \<open>A matched pair leaves the CPU as it was, up to the saved flag.\<close>

definition save_if :: "cpu \<Rightarrow> cpu" where
  "save_if k = k\<lparr>intena := (if ncli k = 0 then iflag k else intena k)\<rparr>"

lemma popcli_pushcli:
  assumes "c < length (cpus m)" and "cli_ok (the_cpu c m)"
  shows "popcli c (pushcli c m) = Inr (upd_cpu c save_if m)"
  using assms
  by (cases "the_cpu c m")
    (auto simp: pushcli_eq popcli_def save_if_def cli_ok_def Let_def intro!: upd_cpu_cong)

lemma holding_eq:
  assumes "c < length (cpus m)" and "cli_ok (the_cpu c m)"
  shows "holding c l m =
    Inr (locked (locks m l) \<and> lcpu (locks m l) = Some c, upd_cpu c save_if m)"
  using assms by (simp add: holding_def Let_def popcli_pushcli)

lemma cli_ok_pushcli: "c < length (cpus m) \<Longrightarrow> cli_ok (the_cpu c m) \<Longrightarrow> cli_ok (the_cpu c (pushcli c m))"
  by (simp add: pushcli_eq cli_ok_def)

lemma save_if_pushcli: "c < length (cpus m) \<Longrightarrow> cli_ok (the_cpu c m) \<Longrightarrow> upd_cpu c save_if (pushcli c m) = pushcli c m"
  by (rule upd_cpu_id) (simp add: pushcli_eq cli_ok_def save_if_def)

lemmas cli_simps = pushcli_eq cli_ok_def save_if_def upd_cpu_def modify_def

subsection \<open>Acquiring and releasing\<close>

abbreviation held_by :: "nat \<Rightarrow> lockid \<Rightarrow> mach \<Rightarrow> bool" where
  "held_by c l m \<equiv> locked (locks m l) \<and> lcpu (locks m l) = Some c"

definition set_lock :: "lockid \<Rightarrow> bool \<Rightarrow> nat option \<Rightarrow> mach \<Rightarrow> mach" where
  "set_lock l b o' m = m\<lparr>locks := (locks m)(l := \<lparr>locked = b, lcpu = o'\<rparr>)\<rparr>"

lemma set_lock_simps [simp]:
  "cpus (set_lock l b w m) = cpus m"
  "locks (set_lock l b w m) = (locks m)(l := \<lparr>locked = b, lcpu = w\<rparr>)"
  by (simp_all add: set_lock_def)

lemma set_lock_twice [simp]: "set_lock l b w (set_lock l b' w' m) = set_lock l b w m"
  by (simp add: set_lock_def)

lemma upd_cpu_set_lock: "upd_cpu c f (set_lock l b w m) = set_lock l b w (upd_cpu c f m)"
  by (simp add: set_lock_def upd_cpu_def)

lemma acquire_begin_eq:
  assumes "c < length (cpus m)" and "cli_ok (the_cpu c m)"
  shows "acquire_begin c l m = (if held_by c l m then Inl (Panic ''acquire'') else Inr (pushcli c m))"
  using assms
  by (simp add: acquire_begin_def holding_eq cli_ok_pushcli save_if_pushcli)

lemma acquire_eq:
  assumes "c < length (cpus m)" and "cli_ok (the_cpu c m)"
  shows "acquire c l m =
    (if held_by c l m then Inl (Panic ''acquire'')
     else if locked (locks m l) then Inl Spin
     else Inr (set_lock l True (Some c) (pushcli c m)))"
  using assms
  by (cases "locks m l")
    (auto simp: acquire_def acquire_begin_eq acquire_xchg_def acquire_end_def set_lock_def)

lemma release_begin_eq:
  assumes "c < length (cpus m)" and "cli_ok (the_cpu c m)"
  shows "release_begin c l m =
    (if held_by c l m then Inr (set_lock l True None (upd_cpu c save_if m))
     else Inl (Panic ''release''))"
  using assms
  by (cases "locks m l") (auto simp: release_begin_def holding_eq set_lock_def fun_upd_def)

lemma release_end_eq: "release_end c l m = popcli c (set_lock l False (lcpu (locks m l)) m)"
  by (cases "locks m l") (simp add: release_end_def set_lock_def)

lemma release_eq:
  assumes "c < length (cpus m)" and "cli_ok (the_cpu c m)"
  shows "release c l m =
    (if held_by c l m then popcli c (set_lock l False None (upd_cpu c save_if m))
     else Inl (Panic ''release''))"
  using assms by (simp add: release_def release_begin_eq release_end_eq)

lemma popcli_set_lock: "popcli c (set_lock l b w m) = kbind (popcli c m) (Inr \<circ> set_lock l b w)"
  by (simp add: popcli_def Let_def upd_cpu_set_lock)

text \<open>\<open>release\<close> undoes \<open>acquire\<close>, up to the saved interrupt flag.\<close>

lemma release_acquire:
  assumes "c < length (cpus m)" and "cli_ok (the_cpu c m)" and "acquire c l m = Inr m'"
  shows "release c l m' = Inr (set_lock l False None (upd_cpu c save_if m))"
  using assms
  by (auto simp: acquire_eq release_eq cli_ok_pushcli upd_cpu_set_lock save_if_pushcli
      popcli_set_lock popcli_pushcli split: if_splits)

subsection \<open>One lock, any number of CPUs\<close>

text \<open>Where a CPU is in its use of the lock.\<close>

datatype lpc = Outside | Spinning | Won | InCS | Leaving

type_synonym spin_state = "mach \<times> (nat \<Rightarrow> lpc)"

inductive spin_step :: "lockid \<Rightarrow> spin_state \<Rightarrow> spin_state \<Rightarrow> bool" for l where
  ss_enter: "pc c = Outside \<Longrightarrow> c < length (cpus m) \<Longrightarrow> acquire_begin c l m = Inr m' \<Longrightarrow>
     spin_step l (m, pc) (m', pc(c := Spinning))"
| ss_spin: "pc c = Spinning \<Longrightarrow> acquire_xchg l m = (True, m') \<Longrightarrow>
     spin_step l (m, pc) (m', pc)"
| ss_win: "pc c = Spinning \<Longrightarrow> acquire_xchg l m = (False, m') \<Longrightarrow>
     spin_step l (m, pc) (m', pc(c := Won))"
| ss_record: "pc c = Won \<Longrightarrow> spin_step l (m, pc) (acquire_end c l m, pc(c := InCS))"
| ss_leave: "pc c = InCS \<Longrightarrow> release_begin c l m = Inr m' \<Longrightarrow>
     spin_step l (m, pc) (m', pc(c := Leaving))"
| ss_free: "pc c = Leaving \<Longrightarrow> release_end c l m = Inr m' \<Longrightarrow>
     spin_step l (m, pc) (m', pc(c := Outside))"

definition spin_init :: "lockid \<Rightarrow> spin_state \<Rightarrow> bool" where
  "spin_init l s \<longleftrightarrow> mach_ok (fst s) \<and> \<not> locked (locks (fst s) l) \<and> lcpu (locks (fst s) l) = None
     \<and> (\<forall>c. snd s c = Outside)"

fun has_lock :: "lpc \<Rightarrow> bool" where
  "has_lock Outside = False"
| "has_lock Spinning = False"
| "has_lock Won = True"
| "has_lock InCS = True"
| "has_lock Leaving = True"

text \<open>
  The invariant has a part about the lock and the positions (at most one CPU is past its
  successful exchange, the lock word is set exactly then, and the recorded CPU is the one in the
  critical section) and a part about the CPUs (a CPU that uses the lock has interrupts off).
\<close>

definition lock_inv :: "spinlock \<Rightarrow> (nat \<Rightarrow> lpc) \<Rightarrow> bool" where
  "lock_inv k pc \<longleftrightarrow> (\<forall>c. lcpu k = Some c \<longleftrightarrow> pc c = InCS)
     \<and> (locked k \<longleftrightarrow> (\<exists>c. has_lock (pc c)))
     \<and> (\<forall>c d. has_lock (pc c) \<longrightarrow> has_lock (pc d) \<longrightarrow> c = d)"

definition using_inv :: "mach \<Rightarrow> (nat \<Rightarrow> lpc) \<Rightarrow> bool" where
  "using_inv m pc \<longleftrightarrow> mach_ok m
     \<and> (\<forall>c. pc c \<noteq> Outside \<longrightarrow> c < length (cpus m) \<and> 0 < ncli (the_cpu c m))"

definition spin_inv :: "lockid \<Rightarrow> spin_state \<Rightarrow> bool" where
  "spin_inv l s \<longleftrightarrow> using_inv (fst s) (snd s) \<and> lock_inv (locks (fst s) l) (snd s)"

lemma lock_inv_idle: "lock_inv k pc \<Longrightarrow> pc c = Outside \<Longrightarrow> lock_inv k (pc(c := Spinning))"
  unfolding lock_inv_def by (simp add: fun_upd_def) (metis has_lock.simps(1,2) lpc.distinct(5))

lemma lock_inv_win:
  "lock_inv k pc \<Longrightarrow> pc c = Spinning \<Longrightarrow> \<not> locked k \<Longrightarrow>
   lock_inv \<lparr>locked = True, lcpu = lcpu k\<rparr> (pc(c := Won))"
  unfolding lock_inv_def by (auto simp: fun_upd_def)

lemma lock_inv_record:
  "lock_inv k pc \<Longrightarrow> pc c = Won \<Longrightarrow> lock_inv \<lparr>locked = locked k, lcpu = Some c\<rparr> (pc(c := InCS))"
  unfolding lock_inv_def by (simp add: fun_upd_def) (metis has_lock.simps(3,4))

lemma lock_inv_leave:
  "lock_inv k pc \<Longrightarrow> pc c = InCS \<Longrightarrow> lock_inv \<lparr>locked = True, lcpu = None\<rparr> (pc(c := Leaving))"
  unfolding lock_inv_def by (simp add: fun_upd_def) (metis has_lock.simps(4,5))

lemma lock_inv_free:
  "lock_inv k pc \<Longrightarrow> pc c = Leaving \<Longrightarrow>
   lock_inv \<lparr>locked = False, lcpu = lcpu k\<rparr> (pc(c := Outside))"
  unfolding lock_inv_def by (simp add: fun_upd_def) (metis has_lock.simps(1,5) lpc.distinct)

lemma using_inv_D:
  assumes "using_inv m pc" and "pc c \<noteq> Outside"
  shows "c < length (cpus m)" and "0 < ncli (the_cpu c m)" and "cli_ok (the_cpu c m)"
  using assms by (auto simp: using_inv_def mach_ok_def)

lemma using_inv_pc: "using_inv m pc \<Longrightarrow> pc c \<noteq> Outside \<Longrightarrow> using_inv m (pc(c := p))"
  by (simp add: using_inv_def)

lemma using_inv_set_lock [simp]: "using_inv (set_lock l b w m) pc = using_inv m pc"
  by (simp add: using_inv_def mach_ok_def)

lemma using_inv_upd:
  assumes "using_inv m pc" and "mach_ok (upd_cpu c f m)" and "c < length (cpus m)"
    and "p \<noteq> Outside \<Longrightarrow> 0 < ncli (f (the_cpu c m))"
  shows "using_inv (upd_cpu c f m) (pc(c := p))"
  using assms by (auto simp: using_inv_def)

lemma mach_ok_upd: "mach_ok m \<Longrightarrow> cli_ok (f (the_cpu c m)) \<Longrightarrow> mach_ok (upd_cpu c f m)"
  by (auto simp: mach_ok_def upd_cpu_def modify_def dest!: set_update_subset_insert [THEN subsetD])

lemma mach_ok_set_lock [simp]: "mach_ok (set_lock l b w m) = mach_ok m"
  by (simp add: mach_ok_def)

lemma mach_ok_pushcli: "mach_ok m \<Longrightarrow> c < length (cpus m) \<Longrightarrow> mach_ok (pushcli c m)"
  using mach_okD [of m c] by (simp add: pushcli_eq) (rule mach_ok_upd, auto simp: cli_ok_def)

lemma mach_ok_save_if: "mach_ok m \<Longrightarrow> c < length (cpus m) \<Longrightarrow> mach_ok (upd_cpu c save_if m)"
  using mach_okD [of m c] by (intro mach_ok_upd) (auto simp: cli_ok_def save_if_def)

lemma popcli_ok:
  assumes "mach_ok m" and "c < length (cpus m)" and "0 < ncli (the_cpu c m)"
  obtains f where "popcli c m = Inr (upd_cpu c f m)"
    and "ncli (f (the_cpu c m)) = ncli (the_cpu c m) - 1"
    and "mach_ok (upd_cpu c f m)"
proof -
  let ?k = "the_cpu c m"
  let ?f = "\<lambda>k. k\<lparr>ncli := ncli k - 1, iflag := ncli k = 1 \<and> intena k\<rparr>"
  have k: "cli_ok ?k" using assms mach_okD by blast
  have "popcli c m = Inr (upd_cpu c ?f m)"
    using assms k by (cases ?k) (auto simp: popcli_def Let_def cli_ok_def intro!: upd_cpu_cong)
  moreover have "mach_ok (upd_cpu c ?f m)"
    using assms(1,3) by (intro mach_ok_upd) (auto simp: cli_ok_def)
  ultimately show ?thesis using that [of ?f] by simp
qed

lemma acquire_xchg_eq:
  "acquire_xchg l m = (locked (locks m l), set_lock l True (lcpu (locks m l)) m)"
  by (cases "locks m l") (simp add: acquire_xchg_def set_lock_def)

lemma acquire_end_eq: "acquire_end c l m = set_lock l (locked (locks m l)) (Some c) m"
  by (cases "locks m l") (simp add: acquire_end_def set_lock_def)

lemma spin_init_inv: "spin_init l s \<Longrightarrow> spin_inv l s"
  by (auto simp: spin_init_def spin_inv_def using_inv_def lock_inv_def)

lemma using_inv_enter:
  assumes "using_inv m pc" and "c < length (cpus m)"
  shows "using_inv (pushcli c m) (pc(c := Spinning))"
proof -
  from assms have "mach_ok (pushcli c m)" "cli_ok (the_cpu c m)"
    by (auto simp: using_inv_def intro: mach_ok_pushcli mach_okD)
  with assms show ?thesis
    by (simp add: pushcli_eq) (rule using_inv_upd, auto simp: cli_ok_def)
qed

lemma spin_step_inv: "spin_step l s t \<Longrightarrow> spin_inv l s \<Longrightarrow> spin_inv l t"
proof (induction rule: spin_step.induct)
  case (ss_enter pc c m m')
  then have "cli_ok (the_cpu c m)" by (auto simp: spin_inv_def using_inv_def intro: mach_okD)
  with ss_enter show ?case
    by (auto simp: spin_inv_def acquire_begin_eq using_inv_enter lock_inv_idle split: if_splits)
next
  case (ss_spin pc c m m')
  then show ?case by (cases "locks m l") (auto simp: spin_inv_def acquire_xchg_eq)
next
  case (ss_win pc c m m')
  then show ?case by (auto simp: spin_inv_def acquire_xchg_eq lock_inv_win using_inv_pc)
next
  case (ss_record pc c m)
  then show ?case by (simp add: spin_inv_def acquire_end_eq lock_inv_record using_inv_pc)
next
  case (ss_leave pc c m m')
  then have u: "using_inv m pc" and l: "lock_inv (locks m l) pc" by (auto simp: spin_inv_def)
  from ss_leave u have c: "c < length (cpus m)" "0 < ncli (the_cpu c m)" "cli_ok (the_cpu c m)"
    using using_inv_D [of m pc c] by auto
  with u have "using_inv (upd_cpu c save_if m) (pc(c := Leaving))"
    by (intro using_inv_upd) (auto simp: using_inv_def mach_ok_save_if save_if_def)
  with ss_leave c l show ?case
    by (auto simp: spin_inv_def release_begin_eq lock_inv_leave split: if_splits)
next
  case (ss_free pc c m m')
  let ?m = "set_lock l False (lcpu (locks m l)) m"
  from ss_free have u: "using_inv m pc" and l: "lock_inv (locks m l) pc"
    by (auto simp: spin_inv_def)
  with ss_free have c: "mach_ok ?m" "c < length (cpus ?m)" "0 < ncli (the_cpu c ?m)"
    using using_inv_D [of m pc c] by (auto simp: using_inv_def)
  from popcli_ok [OF c] obtain f
    where f: "popcli c ?m = Inr (upd_cpu c f ?m)" "mach_ok (upd_cpu c f ?m)" by blast
  with u c have "using_inv (upd_cpu c f ?m) (pc(c := Outside))"
    by (intro using_inv_upd) auto
  with ss_free f l show ?case
    by (auto simp: spin_inv_def release_end_eq lock_inv_free)
qed

interpretation spin: mutex "spin_init l" "spin_step l" "spin_inv l"
  "\<lambda>s c. snd s c = InCS" "\<lambda>s. lcpu (locks (fst s) l)" for l
proof unfold_locales
  show "spin_init l s \<Longrightarrow> spin_inv l s" for s by (rule spin_init_inv)
  show "spin_inv l s \<Longrightarrow> spin_step l s t \<Longrightarrow> spin_inv l t" for s t by (rule spin_step_inv)
  show "spin_inv l s \<Longrightarrow> snd s c = InCS \<Longrightarrow> lcpu (locks (fst s) l) = Some c" for s c
    by (simp add: spin_inv_def lock_inv_def)
qed

subsection \<open>Nested locks\<close>

text \<open>A CPU that takes several locks and gives them back.\<close>

fun acquire_all :: "nat \<Rightarrow> lockid list \<Rightarrow> mach \<Rightarrow> mach kres" where
  "acquire_all c [] m = Inr m"
| "acquire_all c (l # ls) m = kbind (acquire c l m) (acquire_all c ls)"

fun release_all :: "nat \<Rightarrow> lockid list \<Rightarrow> mach \<Rightarrow> mach kres" where
  "release_all c [] m = Inr m"
| "release_all c (l # ls) m = kbind (release c l m) (release_all c ls)"

text \<open>CPU \<open>c\<close> is \<open>n\<close> locks deeper than it was in state \<open>k\<close>.\<close>

definition deeper :: "cpu \<Rightarrow> nat \<Rightarrow> cpu \<Rightarrow> bool" where
  "deeper k n k' \<longleftrightarrow> ncli k' = ncli k + int n \<and> (iflag k' \<longleftrightarrow> n = 0 \<and> iflag k)
     \<and> (0 < n \<longrightarrow> ncli k = 0 \<longrightarrow> intena k' = iflag k)"

lemma deeper_cli_ok: "deeper k n k' \<Longrightarrow> cli_ok k \<Longrightarrow> cli_ok k'"
  by (auto simp: deeper_def cli_ok_def)

lemma deeper_acquire:
  assumes "c < length (cpus m)" "cli_ok k" "deeper k n (the_cpu c m)" "\<not> locked (locks m l)"
  obtains m' where "acquire c l m = Inr m'" "deeper k (Suc n) (the_cpu c m')"
    "locks m' = (locks m)(l := \<lparr>locked = True, lcpu = Some c\<rparr>)" "length (cpus m') = length (cpus m)"
proof
  show "acquire c l m = Inr (set_lock l True (Some c) (pushcli c m))"
    using assms deeper_cli_ok by (simp add: acquire_eq)
  show "deeper k (Suc n) (the_cpu c (set_lock l True (Some c) (pushcli c m)))"
    using assms by (auto simp: pushcli_eq deeper_def cli_ok_def)
qed simp_all

lemma deeper_release:
  assumes "c < length (cpus m)" "cli_ok k" "deeper k (Suc n) (the_cpu c m)" "held_by c l m"
  obtains m' where "release c l m = Inr m'" "deeper k n (the_cpu c m')"
    "locks m' = (locks m)(l := \<lparr>locked = False, lcpu = None\<rparr>)" "length (cpus m') = length (cpus m)"
proof -
  have k: "cli_ok (the_cpu c m)" "\<not> iflag (the_cpu c m)" "0 < ncli (the_cpu c m)"
    using assms deeper_cli_ok by (auto simp: deeper_def cli_ok_def)
  let ?m = "set_lock l False None (upd_cpu c save_if m)"
  have "\<exists>m'. popcli c ?m = Inr m' \<and> deeper k n (the_cpu c m') \<and> locks m' = locks ?m
      \<and> length (cpus m') = length (cpus m)"
    using assms(1-3) k by (auto simp: popcli_def Let_def save_if_def deeper_def cli_ok_def)
  then obtain m' where m': "popcli c ?m = Inr m'" "deeper k n (the_cpu c m')" "locks m' = locks ?m"
      "length (cpus m') = length (cpus m)" by blast
  have "release c l m = Inr m'" using assms(1,4) k m'(1) by (simp add: release_eq)
  with m' that show ?thesis by simp
qed

lemma acquire_all_deeper:
  assumes "c < length (cpus m)" "cli_ok k" "deeper k n (the_cpu c m)"
    "distinct ls" "\<forall>l\<in>set ls. \<not> locked (locks m l)"
  shows "\<exists>m'. acquire_all c ls m = Inr m' \<and> deeper k (n + length ls) (the_cpu c m')
    \<and> (\<forall>l. locks m' l = (if l \<in> set ls then \<lparr>locked = True, lcpu = Some c\<rparr> else locks m l))
    \<and> length (cpus m') = length (cpus m)"
  using assms
proof (induction ls arbitrary: m n)
  case (Cons l ls)
  from Cons.prems obtain m1 where m1: "acquire c l m = Inr m1" "deeper k (Suc n) (the_cpu c m1)"
    "locks m1 = (locks m)(l := \<lparr>locked = True, lcpu = Some c\<rparr>)" "length (cpus m1) = length (cpus m)"
    using deeper_acquire [of c m k n l] by (metis list.set_intros(1))
  then have "\<exists>m'. acquire_all c ls m1 = Inr m' \<and> deeper k (Suc n + length ls) (the_cpu c m')
    \<and> (\<forall>l. locks m' l = (if l \<in> set ls then \<lparr>locked = True, lcpu = Some c\<rparr> else locks m1 l))
    \<and> length (cpus m') = length (cpus m1)"
    by (intro Cons.IH) (use Cons.prems in auto)
  with m1 Cons.prems(4) show ?case by auto
qed simp

lemma release_all_deeper:
  assumes "c < length (cpus m)" "cli_ok k" "deeper k (n + length ls) (the_cpu c m)"
    "distinct ls" "\<forall>l\<in>set ls. held_by c l m"
  shows "\<exists>m'. release_all c ls m = Inr m' \<and> deeper k n (the_cpu c m')
    \<and> (\<forall>l. locks m' l = (if l \<in> set ls then \<lparr>locked = False, lcpu = None\<rparr> else locks m l))"
  using assms
proof (induction ls arbitrary: m)
  case (Cons l ls)
  from Cons.prems obtain m1 where m1: "release c l m = Inr m1"
    "deeper k (n + length ls) (the_cpu c m1)"
    "locks m1 = (locks m)(l := \<lparr>locked = False, lcpu = None\<rparr>)" "length (cpus m1) = length (cpus m)"
    using deeper_release [of c m k "n + length ls" l] by (metis add_Suc_right length_Cons list.set_intros(1))
  then have "\<exists>m'. release_all c ls m1 = Inr m' \<and> deeper k n (the_cpu c m')
    \<and> (\<forall>l. locks m' l = (if l \<in> set ls then \<lparr>locked = False, lcpu = None\<rparr> else locks m1 l))"
    by (intro Cons.IH) (use Cons.prems in auto)
  with m1 Cons.prems(4) show ?case by auto
qed simp

subsection \<open>Properties\<close>

definition demo_cpu :: cpu where
  "demo_cpu = \<lparr>apicid = 0, iflag = True, ncli = 0, intena = False, cproc = None,
     ts_ss0 = 0, ts_esp0 = 0, ts_iomb = 0, cr3 = 0\<rparr>"

definition demo_mach :: mach where
  "demo_mach = \<lparr>cpus = [demo_cpu, demo_cpu\<lparr>apicid := 1\<rparr>], locks = (\<lambda>_. \<lparr>locked = False, lcpu = None\<rparr>)\<rparr>"

lemmas demo_mach_simps = demo_mach_def demo_cpu_def

text \<open>
  C2. Mutual exclusion: whatever the interleaving of the CPUs between the \<open>xchg\<close>
  instructions and the stores of \<open>acquire\<close> and \<open>release\<close>, at most one CPU is in the critical
  section of a lock.
\<close>

theorem spinlock_mutual_exclusion:
  assumes "reachable (spin_init l) (spin_step l) (m, pc)" and "pc c = InCS" and "pc d = InCS"
  shows "c = d"
  using spin.mutual_exclusion [OF assms(1), of c d] assms(2,3) by simp

text \<open>
  A CPU can take any locks that are free and give them back in any order: nothing panics,
  every lock is free again, and the nesting depth and the interrupt flag of the CPU are what they
  were before.
\<close>

theorem nested_locks_restore_interrupts:
  assumes "c < length (cpus m)" and "cli_ok (the_cpu c m)" and "distinct ls"
    and "\<forall>l\<in>set ls. \<not> locked (locks m l)" and "distinct rs" and "set rs = set ls"
  shows "\<exists>m'. kbind (acquire_all c ls m) (release_all c rs) = Inr m' \<and>
    ncli (the_cpu c m') = ncli (the_cpu c m) \<and> iflag (the_cpu c m') = iflag (the_cpu c m) \<and>
    (\<forall>l. locked (locks m' l) = locked (locks m l))"
proof -
  let ?k = "the_cpu c m"
  have "deeper ?k 0 ?k" by (simp add: deeper_def)
  with assms acquire_all_deeper [of c m ?k 0 ls] obtain m1
    where m1: "acquire_all c ls m = Inr m1" "deeper ?k (length ls) (the_cpu c m1)"
      "\<forall>l. locks m1 l = (if l \<in> set ls then \<lparr>locked = True, lcpu = Some c\<rparr> else locks m l)"
      "length (cpus m1) = length (cpus m)" by auto
  have "length rs = length ls" using assms(3,5,6) by (metis distinct_card)
  with assms m1 release_all_deeper [of c m1 ?k 0 rs] obtain m2
    where m2: "release_all c rs m1 = Inr m2" "deeper ?k 0 (the_cpu c m2)"
      "\<forall>l. locks m2 l = (if l \<in> set rs then \<lparr>locked = False, lcpu = None\<rparr> else locks m1 l)" by auto
  with m1 assms show ?thesis by (auto simp: deeper_def)
qed

theorem nested_locks_restore_interrupts_witness:
  "\<exists>m'. kbind (acquire_all 0 [PtableLock, KmemLock] demo_mach) (release_all 0 [PtableLock, KmemLock]) = Inr m' \<and>
    ncli (the_cpu 0 m') = 0 \<and> iflag (the_cpu 0 m')"
proof -
  have "\<exists>m'. kbind (acquire_all 0 [PtableLock, KmemLock] demo_mach) (release_all 0 [PtableLock, KmemLock]) = Inr m' \<and>
    ncli (the_cpu 0 m') = ncli (the_cpu 0 demo_mach) \<and> iflag (the_cpu 0 m') = iflag (the_cpu 0 demo_mach) \<and>
    (\<forall>l. locked (locks m' l) = locked (locks demo_mach l))"
    by (rule nested_locks_restore_interrupts) (simp_all add: demo_mach_simps cli_ok_def)
  moreover have "ncli (the_cpu 0 demo_mach) = 0" "iflag (the_cpu 0 demo_mach)"
    by (simp_all add: demo_mach_simps)
  ultimately show ?thesis by auto
qed

text \<open>CPU 0 goes through the doors of the process table lock while CPU 1 spins.\<close>

definition demo_entered :: mach where
  "demo_entered = acquire_end 0 PtableLock (snd (acquire_xchg PtableLock (pushcli 1 (pushcli 0 demo_mach))))"

lemma demo_entered_reachable:
  "reachable (spin_init PtableLock) (spin_step PtableLock)
     (demo_entered, ((\<lambda>_. Outside)(0 := InCS, 1 := Spinning)))"
proof -
  let ?R = "reachable (spin_init PtableLock) (spin_step PtableLock)" and ?o = "\<lambda>_. Outside"
  let ?m2 = "pushcli 1 (pushcli 0 demo_mach)"
  have "?R (demo_mach, ?o)"
    by (rule reach_init) (simp add: spin_init_def mach_ok_def cli_ok_def demo_mach_simps)
  moreover have "spin_step PtableLock (demo_mach, ?o) (pushcli 0 demo_mach, ?o(0 := Spinning))"
    by (rule ss_enter) (simp_all add: acquire_begin_eq cli_ok_def demo_mach_simps)
  moreover have "spin_step PtableLock (pushcli 0 demo_mach, ?o(0 := Spinning))
      (?m2, ?o(0 := Spinning, 1 := Spinning))"
    by (rule ss_enter) (simp_all add: acquire_begin_eq pushcli_eq cli_ok_def demo_mach_simps)
  moreover have "spin_step PtableLock (?m2, ?o(0 := Spinning, 1 := Spinning))
      (snd (acquire_xchg PtableLock ?m2), ?o(0 := Spinning, 1 := Spinning, 0 := Won))"
    by (rule ss_win) (simp_all add: acquire_xchg_eq demo_mach_simps)
  moreover have "spin_step PtableLock (snd (acquire_xchg PtableLock ?m2), ?o(0 := Spinning, 1 := Spinning, 0 := Won))
      (demo_entered, ?o(0 := Spinning, 1 := Spinning, 0 := Won, 0 := InCS))"
    unfolding demo_entered_def by (rule ss_record) simp
  ultimately have "?R (demo_entered, ?o(0 := Spinning, 1 := Spinning, 0 := Won, 0 := InCS))"
    by (meson reach_step)
  then show ?thesis by (simp add: fun_upd_twist)
qed

theorem spinlock_mutual_exclusion_witness:
  "{d. ((\<lambda>_. Outside)(0::nat := InCS, 1 := Spinning)) d = InCS} = {0}"
proof -
  let ?pc = "(\<lambda>_. Outside)(0::nat := InCS, 1 := Spinning)"
  have "0 = d" if "?pc d = InCS" for d
    by (rule spinlock_mutual_exclusion [OF demo_entered_reachable _ that]) simp
  moreover have "?pc 0 = InCS" by simp
  ultimately show ?thesis by blast
qed

end
