(* ===== verification/ProcTable.thy ===== *)
theory ProcTable
  imports Spinlock
begin

text \<open>
  The process table of \<open>proc.c\<close> and the operations that only change the table: claiming a
  slot, wake-up, kill, the critical sections of exit and wait, and the switch between the
  scheduler and a process (\<open>scheduler\<close>, \<open>sched\<close>, \<open>yield\<close>, \<open>sleep\<close>). The record
  \<open>proc\<close> has the fields that both kernels of the repository share; the lottery kernel and
  the paging kernel extend it with their own fields, and the operations here apply to both.
\<close>

subsection \<open>Process control block\<close>

datatype procstate = UNUSED | EMBRYO | SLEEPING | RUNNABLE | RUNNING | ZOMBIE

record kcontext =
  cx_edi :: u32
  cx_esi :: u32
  cx_ebx :: u32
  cx_ebp :: u32
  cx_eip :: u32

record trapframe =
  tf_edi :: u32
  tf_esi :: u32
  tf_ebp :: u32
  tf_oesp :: u32
  tf_ebx :: u32
  tf_edx :: u32
  tf_ecx :: u32
  tf_eax :: u32
  tf_gs :: u16
  tf_fs :: u16
  tf_es :: u16
  tf_ds :: u16
  tf_trapno :: u32
  tf_err :: u32
  tf_eip :: u32
  tf_cs :: u16
  tf_eflags :: u32
  tf_esp :: u32
  tf_ss :: u16

text \<open>
  A pointer to a process is its index in the table, a pointer to an open file or an in-memory
  inode the index in the file table or the inode cache.
\<close>

record proc =
  p_sz :: u32
  p_pgdir :: u32
  p_kstack :: u32
  p_state :: procstate
  p_pid :: u32
  p_parent :: "nat option"
  p_tf :: trapframe
  p_context :: kcontext
  p_chan :: "chan option"
  p_killed :: bool
  p_ofile :: "nat option list"
  p_cwd :: "nat option"
  p_name :: "u8 list"

text \<open>The zeroed records the kernel starts from (static storage, \<open>memset\<close>).\<close>

definition zero_tf :: trapframe where
  "zero_tf = \<lparr>tf_edi = 0, tf_esi = 0, tf_ebp = 0, tf_oesp = 0, tf_ebx = 0, tf_edx = 0, tf_ecx = 0,
     tf_eax = 0, tf_gs = 0, tf_fs = 0, tf_es = 0, tf_ds = 0, tf_trapno = 0, tf_err = 0, tf_eip = 0,
     tf_cs = 0, tf_eflags = 0, tf_esp = 0, tf_ss = 0\<rparr>"

definition zero_context :: kcontext where
  "zero_context = \<lparr>cx_edi = 0, cx_esi = 0, cx_ebx = 0, cx_ebp = 0, cx_eip = 0\<rparr>"

definition zero_proc :: proc where
  "zero_proc = \<lparr>p_sz = 0, p_pgdir = 0, p_kstack = 0, p_state = UNUSED, p_pid = 0, p_parent = None,
     p_tf = zero_tf, p_context = zero_context, p_chan = None, p_killed = False,
     p_ofile = replicate 16 None, p_cwd = None, p_name = []\<rparr>"

definition zero_cpu :: cpu where
  "zero_cpu = \<lparr>apicid = 0, iflag = False, ncli = 0, intena = False, cproc = None,
     ts_ss0 = 0, ts_esp0 = 0, ts_iomb = 0, cr3 = 0\<rparr>"

definition zero_mach :: mach where
  "zero_mach = \<lparr>cpus = [zero_cpu], locks = (\<lambda>_. \<lparr>locked = False, lcpu = None\<rparr>)\<rparr>"

lemmas zero_defs = zero_tf_def zero_context_def zero_proc_def zero_cpu_def zero_mach_def

record 'p ptab =
  pmach :: mach
  procs :: "'p list"
  nextpid :: u32
  initproc :: "nat option"

definition NPROC :: nat where "NPROC = 64"
definition KSTACKSIZE :: u32 where "KSTACKSIZE = 4096"
definition KERNBASE :: u32 where "KERNBASE = 0x80000000"

abbreviation proc_at :: "nat \<Rightarrow> 'a proc_scheme ptab \<Rightarrow> 'a proc_scheme" where
  "proc_at i s \<equiv> procs s ! i"

definition upd_proc ::
  "nat \<Rightarrow> ('a proc_scheme \<Rightarrow> 'a proc_scheme) \<Rightarrow> 'a proc_scheme ptab \<Rightarrow> 'a proc_scheme ptab" where
  "upd_proc i f s = s\<lparr>procs := modify i f (procs s)\<rparr>"

abbreviation curproc :: "nat \<Rightarrow> 'p ptab \<Rightarrow> nat option" where
  "curproc c s \<equiv> cproc (the_cpu c (pmach s))"

subsection \<open>Operations on the table\<close>

text \<open>\<open>myproc\<close> reads the current process of this CPU with interrupts off.\<close>

definition myproc :: "nat \<Rightarrow> 'p ptab \<Rightarrow> (nat option \<times> 'p ptab) kres" where
  "myproc c s =
     (let m = pushcli c (pmach s); p = cproc (the_cpu c m)
      in kbind (popcli c m) (\<lambda>m. Inr (p, s\<lparr>pmach := m\<rparr>)))"

text \<open>A critical section: take a spin lock, change the state, give the lock back.\<close>

definition critical ::
  "nat \<Rightarrow> lockid \<Rightarrow> ('p ptab \<Rightarrow> 'r \<times> 'p ptab) \<Rightarrow> 'p ptab \<Rightarrow> ('r \<times> 'p ptab) kres" where
  "critical c l f s =
     kbind (acquire c l (pmach s)) (\<lambda>m.
       case f (s\<lparr>pmach := m\<rparr>) of (r, s) \<Rightarrow>
         kbind (release c l (pmach s)) (\<lambda>m. Inr (r, s\<lparr>pmach := m\<rparr>)))"

text \<open>The part of \<open>allocproc\<close> under \<open>ptable.lock\<close>: claim the first unused slot.\<close>

definition claim_slot :: "'a proc_scheme ptab \<Rightarrow> nat option \<times> 'a proc_scheme ptab" where
  "claim_slot s =
     (case first_index (\<lambda>p. p_state p = UNUSED) (procs s) of
        None \<Rightarrow> (None, s)
      | Some i \<Rightarrow>
          (Some i, (upd_proc i (\<lambda>p. p\<lparr>p_state := EMBRYO, p_pid := nextpid s\<rparr>) s)
                     \<lparr>nextpid := nextpid s + 1\<rparr>))"

definition wakeup1 :: "chan option \<Rightarrow> 'a proc_scheme ptab \<Rightarrow> 'a proc_scheme ptab" where
  "wakeup1 ch s = s\<lparr>procs := map (\<lambda>p.
      if p_state p = SLEEPING \<and> p_chan p = ch then p\<lparr>p_state := RUNNABLE\<rparr> else p) (procs s)\<rparr>"

definition wakeup :: "nat \<Rightarrow> chan \<Rightarrow> 'a proc_scheme ptab \<Rightarrow> (unit \<times> 'a proc_scheme ptab) kres" where
  "wakeup c ch = critical c PtableLock (\<lambda>s. ((), wakeup1 (Some ch) s))"

definition kill_scan :: "u32 \<Rightarrow> 'a proc_scheme ptab \<Rightarrow> int \<times> 'a proc_scheme ptab" where
  "kill_scan pid s =
     (case first_index (\<lambda>p. p_pid p = pid) (procs s) of
        None \<Rightarrow> (-1, s)
      | Some i \<Rightarrow>
          (0, upd_proc i (\<lambda>p. let p = p\<lparr>p_killed := True\<rparr> in
                 if p_state p = SLEEPING then p\<lparr>p_state := RUNNABLE\<rparr> else p) s))"

definition kill :: "nat \<Rightarrow> u32 \<Rightarrow> 'a proc_scheme ptab \<Rightarrow> (int \<times> 'a proc_scheme ptab) kres" where
  "kill c pid = critical c PtableLock (kill_scan pid)"

text \<open>
  The part of \<open>exit\<close> under \<open>ptable.lock\<close>: wake the parent, hand the children to init
  (waking init for each one that is already a zombie), become a zombie.
\<close>

fun reparent :: "nat \<Rightarrow> nat \<Rightarrow> nat list \<Rightarrow> 'a proc_scheme ptab \<Rightarrow> 'a proc_scheme ptab" where
  "reparent cur ini [] s = s"
| "reparent cur ini (i # is) s =
     (if p_parent (proc_at i s) = Some cur
      then let s = upd_proc i (\<lambda>p. p\<lparr>p_parent := Some ini\<rparr>) s
           in reparent cur ini is
                (if p_state (proc_at i s) = ZOMBIE then wakeup1 (Some (ChanProc ini)) s else s)
      else reparent cur ini is s)"

definition exit_table :: "nat \<Rightarrow> nat \<Rightarrow> 'a proc_scheme ptab \<Rightarrow> 'a proc_scheme ptab" where
  "exit_table cur ini s =
     (let s = wakeup1 (map_option ChanProc (p_parent (proc_at cur s))) s;
          s = reparent cur ini [0..<length (procs s)] s
      in upd_proc cur (\<lambda>p. p\<lparr>p_state := ZOMBIE\<rparr>) s)"

text \<open>One scan of \<open>wait\<close>: an exited child, no exited child yet, or no child at all.\<close>

datatype wait_scan_result = Exited nat | Alive | NoKids

definition wait_scan :: "nat \<Rightarrow> 'a proc_scheme ptab \<Rightarrow> wait_scan_result" where
  "wait_scan cur s =
     (case first_index (\<lambda>p. p_parent p = Some cur \<and> p_state p = ZOMBIE) (procs s) of
        Some i \<Rightarrow> Exited i
      | None \<Rightarrow> if \<exists>p\<in>set (procs s). p_parent p = Some cur then Alive else NoKids)"

text \<open>The fields \<open>wait\<close> clears in the slot it frees.\<close>

definition reap_slot :: "nat \<Rightarrow> 'a proc_scheme ptab \<Rightarrow> 'a proc_scheme ptab" where
  "reap_slot i = upd_proc i (\<lambda>p. p\<lparr>p_kstack := 0, p_pid := 0, p_parent := None, p_name := [],
     p_killed := False, p_state := UNUSED\<rparr>)"

subsection \<open>Switching between the scheduler and a process\<close>

text \<open>\<open>switchuvm\<close>: the task state (\<open>SEG_KDATA\<close> is 2) and the page table register of this CPU
  follow the process.\<close>

definition switchuvm :: "nat \<Rightarrow> nat \<Rightarrow> 'a proc_scheme ptab \<Rightarrow> 'a proc_scheme ptab kres" where
  "switchuvm c i s =
     (let p = proc_at i s in
      if p_kstack p = 0 then Inl (Panic ''switchuvm: no kstack'')
      else if p_pgdir p = 0 then Inl (Panic ''switchuvm: no pgdir'')
      else
        let m = pushcli c (pmach s);
            m = upd_cpu c (\<lambda>k. k\<lparr>ts_ss0 := push_bit 3 2, ts_esp0 := p_kstack p + KSTACKSIZE,
                                   ts_iomb := 0xFFFF, cr3 := p_pgdir p - KERNBASE\<rparr>) m
        in kbind (popcli c m) (\<lambda>m. Inr (s\<lparr>pmach := m\<rparr>)))"

definition switchkvm :: "nat \<Rightarrow> u32 \<Rightarrow> 'p ptab \<Rightarrow> 'p ptab" where
  "switchkvm c kpgdir s =
     s\<lparr>pmach := upd_cpu c (\<lambda>k. k\<lparr>cr3 := kpgdir - KERNBASE\<rparr>) (pmach s)\<rparr>"

definition set_cproc :: "nat \<Rightarrow> nat option \<Rightarrow> 'p ptab \<Rightarrow> 'p ptab" where
  "set_cproc c v s = s\<lparr>pmach := upd_cpu c (\<lambda>k. k\<lparr>cproc := v\<rparr>) (pmach s)\<rparr>"

text \<open>
  The body of the scheduler's loop for a runnable process, up to \<open>swtch\<close>, and from the return
  of \<open>swtch\<close> on. What the process does in between is the argument \<open>run\<close> of the loop.
\<close>

definition dispatch :: "nat \<Rightarrow> nat \<Rightarrow> 'a proc_scheme ptab \<Rightarrow> 'a proc_scheme ptab kres" where
  "dispatch c i s =
     kbind (switchuvm c i (set_cproc c (Some i) s)) (\<lambda>s.
       Inr (upd_proc i (\<lambda>p. p\<lparr>p_state := RUNNING\<rparr>) s))"

definition undispatch :: "nat \<Rightarrow> u32 \<Rightarrow> 'p ptab \<Rightarrow> 'p ptab" where
  "undispatch c kpgdir s = set_cproc c None (switchkvm c kpgdir s)"

fun scheduler_scan ::
  "(nat \<Rightarrow> 'a proc_scheme ptab \<Rightarrow> 'a proc_scheme ptab kres) \<Rightarrow> nat \<Rightarrow> u32 \<Rightarrow> nat list \<Rightarrow>
   'a proc_scheme ptab \<Rightarrow> 'a proc_scheme ptab kres" where
  "scheduler_scan run c kpgdir [] s = Inr s"
| "scheduler_scan run c kpgdir (i # is) s =
     (if p_state (proc_at i s) \<noteq> RUNNABLE then scheduler_scan run c kpgdir is s
      else kbind (dispatch c i s) (\<lambda>s.
           kbind (run i s) (\<lambda>s.
           scheduler_scan run c kpgdir is (undispatch c kpgdir s))))"

text \<open>One round of the endless loop of \<open>scheduler\<close>: interrupts on, then a scan of the table.\<close>

definition scheduler_round ::
  "(nat \<Rightarrow> 'a proc_scheme ptab \<Rightarrow> 'a proc_scheme ptab kres) \<Rightarrow> nat \<Rightarrow> u32 \<Rightarrow>
   'a proc_scheme ptab \<Rightarrow> 'a proc_scheme ptab kres" where
  "scheduler_round run c kpgdir s =
     (let s = s\<lparr>pmach := upd_cpu c (\<lambda>k. k\<lparr>iflag := True\<rparr>) (pmach s)\<rparr> in
      kbind (acquire c PtableLock (pmach s)) (\<lambda>m.
      kbind (scheduler_scan run c kpgdir [0..<length (procs s)] (s\<lparr>pmach := m\<rparr>)) (\<lambda>s.
      kbind (release c PtableLock (pmach s)) (\<lambda>m. Inr (s\<lparr>pmach := m\<rparr>)))))"

text \<open>
  \<open>sched\<close> up to its \<open>swtch\<close>: the checks, and the saved interrupt flag that the code after
  the \<open>swtch\<close> puts back. The functions that call it are split at the same point.
\<close>

definition sched_enter :: "nat \<Rightarrow> 'a proc_scheme ptab \<Rightarrow> (bool \<times> 'a proc_scheme ptab) kres" where
  "sched_enter c s =
     kbind (holding c PtableLock (pmach s)) (\<lambda>(h, m).
       let s = s\<lparr>pmach := m\<rparr> in
       case curproc c s of
         None \<Rightarrow> Inl (Fault ''null process'')
       | Some i \<Rightarrow>
          if \<not> h then Inl (Panic ''sched ptable.lock'')
          else if ncli (the_cpu c (pmach s)) \<noteq> 1 then Inl (Panic ''sched locks'')
          else if p_state (proc_at i s) = RUNNING then Inl (Panic ''sched running'')
          else if iflag (the_cpu c (pmach s)) then Inl (Panic ''sched interruptible'')
          else Inr (intena (the_cpu c (pmach s)), s))"

definition sched_exit :: "nat \<Rightarrow> bool \<Rightarrow> 'p ptab \<Rightarrow> 'p ptab" where
  "sched_exit c ie s = s\<lparr>pmach := upd_cpu c (\<lambda>k. k\<lparr>intena := ie\<rparr>) (pmach s)\<rparr>"

definition yield_enter :: "nat \<Rightarrow> 'a proc_scheme ptab \<Rightarrow> (bool \<times> 'a proc_scheme ptab) kres" where
  "yield_enter c s =
     kbind (acquire c PtableLock (pmach s)) (\<lambda>m.
       let s = s\<lparr>pmach := m\<rparr> in
       case curproc c s of
         None \<Rightarrow> Inl (Fault ''null process'')
       | Some i \<Rightarrow> sched_enter c (upd_proc i (\<lambda>p. p\<lparr>p_state := RUNNABLE\<rparr>) s))"

definition yield_exit :: "nat \<Rightarrow> bool \<Rightarrow> 'p ptab \<Rightarrow> 'p ptab kres" where
  "yield_exit c ie s =
     (let s = sched_exit c ie s
      in kbind (release c PtableLock (pmach s)) (\<lambda>m. Inr (s\<lparr>pmach := m\<rparr>)))"

definition sleep_enter ::
  "nat \<Rightarrow> chan \<Rightarrow> lockid option \<Rightarrow> 'a proc_scheme ptab \<Rightarrow> (bool \<times> 'a proc_scheme ptab) kres" where
  "sleep_enter c ch lk s =
     (case curproc c s of
        None \<Rightarrow> Inl (Panic ''sleep'')
      | Some i \<Rightarrow>
        (case lk of
           None \<Rightarrow> Inl (Panic ''sleep without lk'')
         | Some l \<Rightarrow>
            kbind (if l \<noteq> PtableLock
                   then kbind (acquire c PtableLock (pmach s)) (release c l)
                   else Inr (pmach s)) (\<lambda>m.
            sched_enter c
              (upd_proc i (\<lambda>p. p\<lparr>p_chan := Some ch, p_state := SLEEPING\<rparr>) (s\<lparr>pmach := m\<rparr>)))))"

definition sleep_exit ::
  "nat \<Rightarrow> nat \<Rightarrow> lockid \<Rightarrow> bool \<Rightarrow> 'a proc_scheme ptab \<Rightarrow> 'a proc_scheme ptab kres" where
  "sleep_exit c i l ie s =
     (let s = upd_proc i (\<lambda>p. p\<lparr>p_chan := None\<rparr>) (sched_exit c ie s) in
      if l \<noteq> PtableLock
      then kbind (release c PtableLock (pmach s)) (\<lambda>m.
           kbind (acquire c l m) (\<lambda>m. Inr (s\<lparr>pmach := m\<rparr>)))
      else Inr s)"

subsection \<open>Facts about single operations\<close>

lemma procs_upd_proc [simp]: "procs (upd_proc i f s) = modify i f (procs s)"
  and pmach_upd_proc [simp]: "pmach (upd_proc i f s) = pmach s"
  and nextpid_upd_proc [simp]: "nextpid (upd_proc i f s) = nextpid s"
  and initproc_upd_proc [simp]: "initproc (upd_proc i f s) = initproc s"
  by (simp_all add: upd_proc_def)

lemma wakeup1_simps [simp]:
  "pmach (wakeup1 ch s) = pmach s" "nextpid (wakeup1 ch s) = nextpid s"
  "initproc (wakeup1 ch s) = initproc s" "length (procs (wakeup1 ch s)) = length (procs s)"
  by (simp_all add: wakeup1_def)

lemma nth_wakeup1:
  "j < length (procs s) \<Longrightarrow> proc_at j (wakeup1 ch s) =
     (let p = proc_at j s in
      if p_state p = SLEEPING \<and> p_chan p = ch then p\<lparr>p_state := RUNNABLE\<rparr> else p)"
  by (simp add: wakeup1_def Let_def)

text \<open>What waking up may do to one process, and what it never does.\<close>

definition woken :: "'a proc_scheme \<Rightarrow> 'a proc_scheme \<Rightarrow> bool" where
  "woken p q \<longleftrightarrow> q = p \<or> p_state p = SLEEPING \<and> q = p\<lparr>p_state := RUNNABLE\<rparr>"

lemma woken_refl [simp]: "woken p p"
  by (simp add: woken_def)

lemma woken_trans: "woken p q \<Longrightarrow> woken q r \<Longrightarrow> woken p r"
  by (auto simp: woken_def)

lemma wokenD:
  assumes "woken p q"
  shows "p_pid q = p_pid p" and "p_parent q = p_parent p" and "p_killed q = p_killed p"
    and "p_state q = p_state p \<or> p_state p = SLEEPING \<and> p_state q = RUNNABLE"
  using assms by (auto simp: woken_def)

lemma woken_wakeup1: "j < length (procs s) \<Longrightarrow> woken (proc_at j s) (proc_at j (wakeup1 ch s))"
  by (auto simp: nth_wakeup1 woken_def Let_def)

lemma critical_eq:
  assumes "c < length (cpus (pmach s))" and "cli_ok (the_cpu c (pmach s))"
    and "\<not> locked (locks (pmach s) l)"
    and "f s = (r, t)" and "\<And>m. f (s\<lparr>pmach := m\<rparr>) = (r, t\<lparr>pmach := m\<rparr>)"
  shows "critical c l f s =
    Inr (r, t\<lparr>pmach := set_lock l False None (upd_cpu c save_if (pmach s))\<rparr>)"
proof -
  let ?m = "set_lock l True (Some c) (pushcli c (pmach s))"
  have a: "acquire c l (pmach s) = Inr ?m"
    using assms(1-3) by (simp add: acquire_eq)
  then have "release c l ?m = Inr (set_lock l False None (upd_cpu c save_if (pmach s)))"
    using assms(1,2) by (intro release_acquire)
  with a show ?thesis by (simp add: critical_def assms(5))
qed

lemma wakeup_eq:
  assumes "c < length (cpus (pmach s))" and "cli_ok (the_cpu c (pmach s))"
    and "\<not> locked (locks (pmach s) PtableLock)"
  shows "wakeup c ch s = Inr ((), (wakeup1 (Some ch) s)
    \<lparr>pmach := set_lock PtableLock False None (upd_cpu c save_if (pmach s))\<rparr>)"
  unfolding wakeup_def by (rule critical_eq [OF assms]) (simp_all add: wakeup1_def)

lemma kill_eq:
  assumes "c < length (cpus (pmach s))" and "cli_ok (the_cpu c (pmach s))"
    and "\<not> locked (locks (pmach s) PtableLock)"
  shows "kill c pid s = Inr (fst (kill_scan pid s), (snd (kill_scan pid s))
    \<lparr>pmach := set_lock PtableLock False None (upd_cpu c save_if (pmach s))\<rparr>)"
  unfolding kill_def
  by (rule critical_eq [OF assms]) (simp_all add: kill_scan_def upd_proc_def split: option.splits)

lemma reparent_simps:
  "pmach (reparent cur ini is s) = pmach s \<and> nextpid (reparent cur ini is s) = nextpid s \<and>
   initproc (reparent cur ini is s) = initproc s \<and>
   length (procs (reparent cur ini is s)) = length (procs s)"
  by (induction "is" arbitrary: s) (simp_all add: Let_def)

lemma reparent_nth:
  assumes "j < length (procs s)" and "set is \<subseteq> {..<length (procs s)}" and "distinct is"
  shows "woken ((proc_at j s)\<lparr>p_parent := (if j \<in> set is \<and> p_parent (proc_at j s) = Some cur
                then Some ini else p_parent (proc_at j s))\<rparr>)
           (proc_at j (reparent cur ini is s))"
  using assms
proof (induction "is" arbitrary: s)
  case (Cons i "is")
  let ?s1 = "upd_proc i (\<lambda>p. p\<lparr>p_parent := Some ini\<rparr>) s"
  let ?s2 = "if p_state (proc_at i ?s1) = ZOMBIE then wakeup1 (Some (ChanProc ini)) ?s1 else ?s1"
  show ?case
  proof (cases "p_parent (proc_at i s) = Some cur")
    case True
    have "woken (proc_at j ?s1) (proc_at j (wakeup1 (Some (ChanProc ini)) ?s1))"
      by (rule woken_wakeup1) (use Cons.prems in simp)
    then have w: "woken (proc_at j ?s1) (proc_at j ?s2)"
      by (simp only: woken_refl simp_thms split: if_split)
    have "woken ((proc_at j ?s2)\<lparr>p_parent := (if j \<in> set is \<and> p_parent (proc_at j ?s2) = Some cur
                then Some ini else p_parent (proc_at j ?s2))\<rparr>) (proc_at j (reparent cur ini is ?s2))"
      by (rule Cons.IH) (use Cons.prems in auto)
    with True w Cons.prems show ?thesis
      by (cases "j = i") (auto simp: Let_def woken_def)
  next
    case False
    with Cons.IH [of s] Cons.prems show ?thesis by (auto split: if_splits)
  qed
qed simp

subsection \<open>Sleeping and scanning\<close>

lemma acquire_spin:
  "c < length (cpus m) \<Longrightarrow> cli_ok (the_cpu c m) \<Longrightarrow> locked (locks m l) \<Longrightarrow> lcpu (locks m l) \<noteq> Some c \<Longrightarrow>
   acquire c l m = Inl Spin"
  by (simp add: acquire_eq)

text \<open>Handing the caller's lock over to the table lock, as \<open>sleep\<close> does.\<close>

lemma swap_locks:
  assumes "c < length (cpus m)" and "ncli (the_cpu c m) = 1" and "\<not> iflag (the_cpu c m)"
    and "held_by c l m" and "\<not> locked (locks m PtableLock)"
  shows "kbind (acquire c PtableLock m) (release c l) =
    Inr (set_lock l False None (set_lock PtableLock True (Some c) m))"
proof -
  let ?m = "set_lock PtableLock True (Some c) (pushcli c m)"
  have k: "cli_ok (the_cpu c m)" using assms by (simp add: cli_ok_def)
  have "l \<noteq> PtableLock" using assms(4,5) by auto
  with assms k have "release c l ?m = popcli c (set_lock l False None (upd_cpu c save_if ?m))"
    using release_eq [of c ?m l] by (simp add: cli_ok_pushcli)
  also have "\<dots> = Inr (set_lock l False None (set_lock PtableLock True (Some c) (upd_cpu c save_if m)))"
    using assms(1) k by (simp add: upd_cpu_set_lock save_if_pushcli popcli_set_lock popcli_pushcli)
  also have "upd_cpu c save_if m = m"
    using assms(2) by (intro upd_cpu_id) (simp add: save_if_def)
  finally show ?thesis using assms k by (simp add: acquire_eq)
qed

lemma sched_enter_eq:
  assumes "c < length (cpus (pmach s))" and "ncli (the_cpu c (pmach s)) = 1"
    and "\<not> iflag (the_cpu c (pmach s))" and "held_by c PtableLock (pmach s)"
    and "curproc c s = Some i" and "p_state (proc_at i s) \<noteq> RUNNING"
  shows "sched_enter c s = Inr (intena (the_cpu c (pmach s)), s)"
proof -
  have "upd_cpu c save_if (pmach s) = pmach s"
    using assms(2) by (intro upd_cpu_id) (simp add: save_if_def)
  then have "holding c PtableLock (pmach s) = Inr (True, pmach s)"
    using assms by (simp add: holding_eq cli_ok_def)
  with assms show ?thesis by (simp add: sched_enter_def Let_def)
qed

lemma sleep_enter_eq:
  assumes "c < length (cpus (pmach s))" and "ncli (the_cpu c (pmach s)) = 1"
    and "\<not> iflag (the_cpu c (pmach s))" and "curproc c s = Some i" and "i < length (procs s)"
    and "held_by c l (pmach s)" and "\<not> locked (locks (pmach s) PtableLock)"
  shows "sleep_enter c ch (Some l) s =
    Inr (intena (the_cpu c (pmach s)), upd_proc i (\<lambda>p. p\<lparr>p_chan := Some ch, p_state := SLEEPING\<rparr>)
      (s\<lparr>pmach := set_lock l False None (set_lock PtableLock True (Some c) (pmach s))\<rparr>))"
proof -
  let ?s = "upd_proc i (\<lambda>p. p\<lparr>p_chan := Some ch, p_state := SLEEPING\<rparr>)
      (s\<lparr>pmach := set_lock l False None (set_lock PtableLock True (Some c) (pmach s))\<rparr>)"
  have l: "l \<noteq> PtableLock" using assms(6,7) by auto
  then have "sched_enter c ?s = Inr (intena (the_cpu c (pmach ?s)), ?s)"
    using assms by (intro sched_enter_eq) auto
  with l assms(4) swap_locks [of c "pmach s" l, OF assms(1,2,3,6,7)] show ?thesis
    by (simp add: sleep_enter_def)
qed

text \<open>
  What a scan of the table guarantees: a fact that running process \<open>i\<close> establishes, and that
  nothing later undoes, holds of every process that was runnable when the scan began.
\<close>

lemma dispatch_procs:
  "dispatch c i s = Inr t \<Longrightarrow> procs t = modify i (\<lambda>p. p\<lparr>p_state := RUNNING\<rparr>) (procs s)"
  by (auto simp: dispatch_def switchuvm_def set_cproc_def Let_def kres_simps upd_proc_def split: if_splits)

lemma procs_undispatch [simp]: "procs (undispatch c kp s) = procs s"
  by (simp add: undispatch_def set_cproc_def switchkvm_def)

lemma scheduler_scan_runs:
  assumes marked: "\<And>j s t. run j s = Inr t \<Longrightarrow> length (procs t) = length (procs s) \<and> marked j (procs t)"
    and keep: "\<And>i j s t. run j s = Inr t \<Longrightarrow> i \<noteq> j \<Longrightarrow> i < length (procs s) \<Longrightarrow>
      (marked i (procs s) \<longrightarrow> marked i (procs t)) \<and>
      (p_state (proc_at i s) = RUNNABLE \<longrightarrow> p_state (proc_at i t) = RUNNABLE)"
    and stable: "\<And>i j ps. marked i ps \<Longrightarrow> i \<noteq> j \<Longrightarrow> marked i (modify j (\<lambda>p. p\<lparr>p_state := RUNNING\<rparr>) ps)"
    and "scheduler_scan run c kp is s = Inr t" and "distinct is" and "set is \<subseteq> {..<length (procs s)}"
    and "i < length (procs s)" and "i \<in> set is \<and> p_state (proc_at i s) = RUNNABLE \<or> i \<notin> set is \<and> marked i (procs s)"
  shows "marked i (procs t)"
  using assms(4-)
proof (induction "is" arbitrary: s)
  case (Cons j js)
  show ?case
  proof (cases "p_state (proc_at j s) = RUNNABLE")
    case False
    with Cons show ?thesis by (auto split: if_splits)
  next
    case True
    with Cons.prems(1) obtain s1 s2 where s1: "dispatch c j s = Inr s1" and s2: "run j s1 = Inr s2"
      and t: "scheduler_scan run c kp js (undispatch c kp s2) = Inr t"
      by (auto simp: kres_simps)
    from dispatch_procs [OF s1] have p1: "procs s1 = modify j (\<lambda>p. p\<lparr>p_state := RUNNING\<rparr>) (procs s)" .
    from marked [OF s2] p1 have len: "length (procs s2) = length (procs s)" by simp
    have "i \<in> set js \<and> p_state (proc_at i s2) = RUNNABLE \<or> i \<notin> set js \<and> marked i (procs s2)"
    proof (cases "i = j")
      case True
      with marked [OF s2] Cons.prems(2) show ?thesis by auto
    next
      case False
      with keep [OF s2 False] stable [of i "procs s" j] p1 Cons.prems(4,5) show ?thesis by auto
    qed
    with Cons.IH [OF t] Cons.prems(2-4) len show ?thesis by auto
  qed
qed simp

subsection \<open>Properties\<close>

definition demo_ptab :: "proc ptab" where
  "demo_ptab = \<lparr>pmach = demo_mach\<lparr>cpus := [demo_cpu\<lparr>iflag := False, ncli := 1, cproc := Some 1\<rparr>, demo_cpu],
       locks := (\<lambda>_. \<lparr>locked = False, lcpu = None\<rparr>)(TicksLock := \<lparr>locked = True, lcpu = Some 0\<rparr>)\<rparr>,
     procs = [zero_proc\<lparr>p_state := SLEEPING, p_pid := 1\<rparr>, zero_proc\<lparr>p_state := RUNNING, p_pid := 2, p_parent := Some 0\<rparr>,
              zero_proc], nextpid = 3, initproc = Some 0\<rparr>"

lemmas demo_ptab_simps = demo_ptab_def demo_mach_simps zero_proc_def




definition demo_ready :: "proc ptab" where
  "demo_ready = \<lparr>pmach = demo_mach, procs = [zero_proc\<lparr>p_state := RUNNABLE, p_pid := 1, p_kstack := 4096, p_pgdir := 8192\<rparr>,
     zero_proc, zero_proc\<lparr>p_state := RUNNABLE, p_pid := 2, p_kstack := 4096, p_pgdir := 8192\<rparr>],
     nextpid = 3, initproc = Some 0\<rparr>"

text \<open>A process that runs until it is killed leaves its kill flag behind.\<close>

definition demo_run :: "nat \<Rightarrow> proc ptab \<Rightarrow> proc ptab kres" where
  "demo_run i s = (if i < length (procs s)
     then Inr (upd_proc i (\<lambda>p. p\<lparr>p_killed := True, p_state := ZOMBIE\<rparr>) s) else Inl (Fault ''slot''))"


text \<open>
  Pid 0 is not refused by \<open>kill\<close>: it matches the first slot that has never been used or has
  been reaped, and reports success. When that slot is the one the next \<open>allocproc\<close> claims, the new
  process is born killed.
\<close>

theorem kill_zero_marks_free_slot:
  assumes "first_index (\<lambda>p. p_pid p = 0) (procs s) = Some i"
    and "first_index (\<lambda>p. p_state p = UNUSED) (procs s) = Some i"
    and "claim_slot (snd (kill_scan 0 s)) = (r, t)"
  shows "fst (kill_scan 0 s) = 0 \<and> r = Some i \<and> p_killed (proc_at i t) \<and> p_state (proc_at i t) = EMBRYO"
proof -
  let ?u = "snd (kill_scan 0 s)"
  have u: "procs ?u = modify i (\<lambda>p. p\<lparr>p_killed := True\<rparr>) (procs s)"
    using assms(1,2) by (auto simp: kill_scan_def upd_proc_def modify_def Let_def)
  have "first_index (\<lambda>p. p_state p = UNUSED) (procs ?u) = Some i"
    using assms(2) by (auto simp: first_index_Some u)
  then have "r = Some i" "p_killed (proc_at i t)" "p_state (proc_at i t) = EMBRYO"
    using assms(3) u first_index_less [OF assms(2)] by (auto simp: claim_slot_def)
  with assms(1) show ?thesis by (simp add: kill_scan_def)
qed

theorem kill_zero_marks_free_slot_witness:
  "\<exists>t. claim_slot (snd (kill_scan 0 demo_ptab)) = (Some 2, t) \<and> p_killed (proc_at 2 t)"
proof -
  obtain r t where c: "claim_slot (snd (kill_scan 0 demo_ptab)) = (r, t)" by fastforce
  have "first_index (\<lambda>p. p_pid p = 0) (procs demo_ptab) = Some 2"
    "first_index (\<lambda>p. p_state p = UNUSED) (procs demo_ptab) = Some 2"
    by (simp_all add: demo_ptab_simps)
  from kill_zero_marks_free_slot [OF this c] c show ?thesis by auto
qed

end
