(* ===== verification/Lifecycle.thy ===== *)
theory Lifecycle
  imports ProcTable
begin

text \<open>
  The life cycle of processes as a transition system over the process table: the steps are the
  critical sections of \<open>proc.c\<close> (each runs under \<open>ptable.lock\<close>), taken by any CPU in any
  order. The invariant says that a running process runs on exactly one CPU, that the process ids
  in use are distinct, and that every process in use has a parent that can still reap it.
\<close>

subsection \<open>Steps\<close>

abbreviation ncpus :: "'p ptab \<Rightarrow> nat" where
  "ncpus s \<equiv> length (cpus (pmach s))"

abbreviation pst :: "'a proc_scheme ptab \<Rightarrow> nat \<Rightarrow> procstate" where
  "pst s i \<equiv> p_state (proc_at i s)"

text \<open>
  \<open>ls_unclaim\<close> is the failure exit of \<open>allocproc\<close> and \<open>fork\<close>, \<open>ls_setup\<close> any of their
  stores to the other fields of the new process, \<open>ls_ready\<close> the end of \<open>fork\<close> by the process
  that runs on the CPU. A process id counter at its last value is not
  incremented: the model stops short of the wrap-around.
\<close>

inductive life_step :: "'a proc_scheme ptab \<Rightarrow> 'a proc_scheme ptab \<Rightarrow> bool" where
  ls_claim: "claim_slot s = (Some i, t) \<Longrightarrow> nextpid s \<noteq> -1 \<Longrightarrow> life_step s t"
| ls_unclaim: "i < length (procs s) \<Longrightarrow> pst s i = EMBRYO \<Longrightarrow>
     life_step s (upd_proc i (\<lambda>p. p\<lparr>p_state := UNUSED\<rparr>) s)"
| ls_setup: "i < length (procs s) \<Longrightarrow> pst s i = EMBRYO \<Longrightarrow>
     (\<And>p. p_state (f p) = p_state p \<and> p_pid (f p) = p_pid p \<and> p_parent (f p) = p_parent p) \<Longrightarrow>
     life_step s (upd_proc i f s)"
| ls_ready: "c < ncpus s \<Longrightarrow> curproc c s = Some q \<Longrightarrow> i < length (procs s) \<Longrightarrow> pst s i = EMBRYO \<Longrightarrow>
     life_step s (upd_proc i (\<lambda>p. p\<lparr>p_parent := Some q, p_state := RUNNABLE\<rparr>) s)"
| ls_dispatch: "c < ncpus s \<Longrightarrow> curproc c s = None \<Longrightarrow> i < length (procs s) \<Longrightarrow> pst s i = RUNNABLE \<Longrightarrow>
     dispatch c i s = Inr t \<Longrightarrow> life_step s t"
| ls_yield: "c < ncpus s \<Longrightarrow> curproc c s = Some i \<Longrightarrow>
     life_step s (undispatch c kp (upd_proc i (\<lambda>p. p\<lparr>p_state := RUNNABLE\<rparr>) s))"
| ls_sleep: "c < ncpus s \<Longrightarrow> curproc c s = Some i \<Longrightarrow>
     life_step s (undispatch c kp (upd_proc i (\<lambda>p. p\<lparr>p_chan := Some ch, p_state := SLEEPING\<rparr>) s))"
| ls_exit: "c < ncpus s \<Longrightarrow> curproc c s = Some i \<Longrightarrow> initproc s = Some ini \<Longrightarrow> i \<noteq> ini \<Longrightarrow>
     life_step s (undispatch c kp (exit_table i ini s))"
| ls_wakeup: "life_step s (wakeup1 ch s)"
| ls_kill: "kill_scan pid s = (r, t) \<Longrightarrow> life_step s t"
| ls_reap: "c < ncpus s \<Longrightarrow> curproc c s = Some q \<Longrightarrow> wait_scan q s = Exited i \<Longrightarrow>
     life_step s (reap_slot i s)"

text \<open>The table \<open>userinit\<close> leaves: the first process is runnable, every other slot is free.\<close>

definition life_init :: "'a proc_scheme ptab \<Rightarrow> bool" where
  "life_init s \<longleftrightarrow> procs s \<noteq> [] \<and> initproc s = Some 0 \<and> pst s 0 = RUNNABLE
     \<and> p_pid (proc_at 0 s) = 1 \<and> nextpid s = 2
     \<and> (\<forall>i<length (procs s). 0 < i \<longrightarrow> pst s i = UNUSED) \<and> (\<forall>c<ncpus s. curproc c s = None)"

subsection \<open>Invariant\<close>

definition live :: "procstate \<Rightarrow> bool" where
  "live st \<longleftrightarrow> st = SLEEPING \<or> st = RUNNABLE \<or> st = RUNNING"

definition cpu_inv :: "'a proc_scheme ptab \<Rightarrow> bool" where
  "cpu_inv s \<longleftrightarrow>
     (\<forall>c i. c < ncpus s \<longrightarrow> curproc c s = Some i \<longrightarrow> i < length (procs s) \<and> pst s i = RUNNING)
   \<and> (\<forall>c d i. c < ncpus s \<longrightarrow> d < ncpus s \<longrightarrow> curproc c s = Some i \<longrightarrow> curproc d s = Some i \<longrightarrow> c = d)
   \<and> (\<forall>i<length (procs s). pst s i = RUNNING \<longrightarrow> (\<exists>c<ncpus s. curproc c s = Some i))"

definition pid_inv :: "'a proc_scheme ptab \<Rightarrow> bool" where
  "pid_inv s \<longleftrightarrow>
     (\<forall>i<length (procs s). pst s i \<noteq> UNUSED \<longrightarrow> 0 < p_pid (proc_at i s) \<and> p_pid (proc_at i s) < nextpid s)
   \<and> (\<forall>i<length (procs s). \<forall>j<length (procs s). i \<noteq> j \<longrightarrow> pst s i \<noteq> UNUSED \<longrightarrow> pst s j \<noteq> UNUSED \<longrightarrow>
        p_pid (proc_at i s) \<noteq> p_pid (proc_at j s))
   \<and> 0 < nextpid s"

definition has_parent :: "'a proc_scheme ptab \<Rightarrow> nat \<Rightarrow> bool" where
  "has_parent s i \<longleftrightarrow> (\<exists>q<length (procs s). p_parent (proc_at i s) = Some q \<and> live (pst s q))"

definition tree_inv :: "'a proc_scheme ptab \<Rightarrow> bool" where
  "tree_inv s \<longleftrightarrow>
     (\<exists>ini<length (procs s). initproc s = Some ini \<and> live (pst s ini))
   \<and> (\<forall>i<length (procs s). pst s i \<noteq> UNUSED \<longrightarrow> pst s i \<noteq> EMBRYO \<longrightarrow> initproc s \<noteq> Some i \<longrightarrow>
        has_parent s i)"

definition life_inv :: "'a proc_scheme ptab \<Rightarrow> bool" where
  "life_inv s \<longleftrightarrow> cpu_inv s \<and> pid_inv s \<and> tree_inv s"

lemma life_init_inv:
  assumes "life_init s"
  shows "life_inv s"
proof -
  have u: "i = 0" if "i < length (procs s)" "pst s i \<noteq> UNUSED" for i
    using assms that by (auto simp: life_init_def)
  have "cpu_inv s"
    using assms by (auto simp: life_init_def cpu_inv_def dest: u)
  moreover have "pid_inv s"
    using assms by (auto simp: life_init_def pid_inv_def dest: u)
  moreover have "tree_inv s"
    using assms by (auto simp: life_init_def tree_inv_def live_def dest: u)
  ultimately show ?thesis by (simp add: life_inv_def)
qed

subsection \<open>What the steps do to states, ids and parents\<close>

lemma claim_slotD:
  assumes "claim_slot s = (Some i, t)"
  shows "i < length (procs s)" "pst s i = UNUSED"
    "t = (upd_proc i (\<lambda>p. p\<lparr>p_state := EMBRYO, p_pid := nextpid s\<rparr>) s)\<lparr>nextpid := nextpid s + 1\<rparr>"
  using assms by (auto simp: claim_slot_def split: option.splits)

lemma kill_scanD:
  assumes "kill_scan pid s = (r, t)"
  obtains (none) "t = s" | (some) i where "i < length (procs s)"
    "t = upd_proc i (\<lambda>p. let p = p\<lparr>p_killed := True\<rparr> in
           if p_state p = SLEEPING then p\<lparr>p_state := RUNNABLE\<rparr> else p) s"
proof (cases "first_index (\<lambda>p. p_pid p = pid) (procs s)")
  case None
  with assms show ?thesis by (simp add: kill_scan_def none)
next
  case (Some i)
  with assms show ?thesis by (intro some [of i]) (auto simp: kill_scan_def)
qed

lemma wait_scanD:
  assumes "wait_scan q s = Exited i"
  shows "i < length (procs s)" "pst s i = ZOMBIE" "p_parent (proc_at i s) = Some q"
  using assms by (auto simp: wait_scan_def split: option.splits if_splits)

lemma undispatch_simps [simp]:
  "procs (undispatch c kp s) = procs s" "nextpid (undispatch c kp s) = nextpid s"
  "initproc (undispatch c kp s) = initproc s" "ncpus (undispatch c kp s) = ncpus s"
  by (simp_all add: undispatch_def set_cproc_def switchkvm_def)

lemma curproc_undispatch:
  "d < ncpus s \<Longrightarrow> curproc d (undispatch c kp s) = (if d = c then None else curproc d s)"
  by (simp add: undispatch_def set_cproc_def switchkvm_def)

lemma dispatchD:
  assumes "dispatch c i s = Inr t"
  shows "procs t = modify i (\<lambda>p. p\<lparr>p_state := RUNNING\<rparr>) (procs s)" "nextpid t = nextpid s"
    "initproc t = initproc s" "ncpus t = ncpus s"
    "d < ncpus s \<Longrightarrow> curproc d t = (if d = c then Some i else curproc d s)"
  using assms
  by (auto simp: dispatch_def switchuvm_def set_cproc_def Let_def kres_simps popcli_def pushcli_def
      upd_proc_def split: if_splits)

lemma woken_parent_upd: "woken p q \<Longrightarrow> woken (p\<lparr>p_parent := v\<rparr>) (q\<lparr>p_parent := v\<rparr>)"
  by (auto simp: woken_def)

lemma exit_table_simps [simp]:
  "pmach (exit_table i ini s) = pmach s" "nextpid (exit_table i ini s) = nextpid s"
  "initproc (exit_table i ini s) = initproc s" "length (procs (exit_table i ini s)) = length (procs s)"
  by (simp_all add: exit_table_def Let_def reparent_simps)

lemma exit_table_nth:
  assumes "j < length (procs s)" and "i < length (procs s)"
  shows "p_pid (proc_at j (exit_table i ini s)) = p_pid (proc_at j s)"
    and "p_parent (proc_at j (exit_table i ini s)) =
         (if p_parent (proc_at j s) = Some i then Some ini else p_parent (proc_at j s))"
    and "pst (exit_table i ini s) i = ZOMBIE"
    and "j \<noteq> i \<Longrightarrow> pst (exit_table i ini s) j = pst s j \<or>
         pst s j = SLEEPING \<and> pst (exit_table i ini s) j = RUNNABLE"
proof -
  let ?w = "wakeup1 (map_option ChanProc (p_parent (proc_at i s))) s"
  let ?r = "reparent i ini [0..<length (procs ?w)] ?w"
  let ?v = "if p_parent (proc_at j s) = Some i then Some ini else p_parent (proc_at j s)"
  have w: "woken (proc_at j s) (proc_at j ?w)"
    by (rule woken_wakeup1 [OF assms(1)])
  have "woken ((proc_at j ?w)\<lparr>p_parent := ?v\<rparr>) (proc_at j ?r)"
    using reparent_nth [of j ?w "[0..<length (procs ?w)]" i ini] assms(1) wokenD(2) [OF w]
    by (simp add: atLeast0LessThan split: if_splits)
  with woken_parent_upd [OF w] have "woken ((proc_at j s)\<lparr>p_parent := ?v\<rparr>) (proc_at j ?r)"
    by (rule woken_trans)
  note r = wokenD [OF this]
  have e: "proc_at j (exit_table i ini s) =
      (if j = i then (proc_at j ?r)\<lparr>p_state := ZOMBIE\<rparr> else proc_at j ?r)"
    using assms by (auto simp: exit_table_def Let_def reparent_simps)
  from e r show "p_pid (proc_at j (exit_table i ini s)) = p_pid (proc_at j s)"
    and "p_parent (proc_at j (exit_table i ini s)) = ?v"
    and "j \<noteq> i \<Longrightarrow> pst (exit_table i ini s) j = pst s j \<or>
         pst s j = SLEEPING \<and> pst (exit_table i ini s) j = RUNNABLE"
    by auto
  show "pst (exit_table i ini s) i = ZOMBIE"
    using assms(2) by (simp add: exit_table_def Let_def reparent_simps)
qed

subsection \<open>Preservation\<close>

lemma cpu_inv_frame:
  assumes "cpu_inv s" and "ncpus t = ncpus s" and "length (procs t) = length (procs s)"
    and "\<And>c. c < ncpus s \<Longrightarrow> curproc c t = curproc c s"
    and "\<And>i. i < length (procs s) \<Longrightarrow> pst t i = RUNNING \<longleftrightarrow> pst s i = RUNNING"
  shows "cpu_inv t"
  using assms unfolding cpu_inv_def by (metis (no_types, lifting))

text \<open>A CPU gives its process up and the process stops running.\<close>

lemma cpu_inv_leave:
  assumes "cpu_inv s" and "ncpus t = ncpus s" and "length (procs t) = length (procs s)"
    and "c < ncpus s" and "curproc c s = Some i"
    and cur: "\<And>d. d < ncpus s \<Longrightarrow> curproc d t = (if d = c then None else curproc d s)"
    and "pst t i \<noteq> RUNNING"
    and run: "\<And>j. j < length (procs s) \<Longrightarrow> j \<noteq> i \<Longrightarrow> pst t j = RUNNING \<longleftrightarrow> pst s j = RUNNING"
  shows "cpu_inv t"
proof -
  have a: "curproc d s = Some j \<and> d \<noteq> c" if "d < ncpus t" "curproc d t = Some j" for d j
    using that cur assms(2) by (auto split: if_splits)
  show ?thesis
    unfolding cpu_inv_def
  proof (intro conjI allI impI)
    fix d j
    assume d: "d < ncpus t" "curproc d t = Some j"
    from a [OF d] have "curproc d s = Some j" "d \<noteq> c" by auto
    with d assms(1,2,4,5) have "j \<noteq> i" "j < length (procs s)" "pst s j = RUNNING"
      by (auto simp: cpu_inv_def)
    with run assms(3) show "j < length (procs t)" "pst t j = RUNNING" by auto
  next
    fix d e j
    assume "d < ncpus t" "e < ncpus t" "curproc d t = Some j" "curproc e t = Some j"
    with a assms(1,2) show "d = e" by (auto simp: cpu_inv_def)
  next
    fix j
    assume j: "j < length (procs t)" "pst t j = RUNNING"
    with assms(3,7) run have "j \<noteq> i" "pst s j = RUNNING" "j < length (procs s)" by metis+
    with assms(1) obtain d where d: "d < ncpus s" "curproc d s = Some j"
      by (auto simp: cpu_inv_def)
    with \<open>j \<noteq> i\<close> assms(5) have "d \<noteq> c" by auto
    with d cur assms(2) show "\<exists>d<ncpus t. curproc d t = Some j" by auto
  qed
qed

lemma pid_inv_frame:
  assumes "pid_inv s" and "nextpid t = nextpid s" and "length (procs t) = length (procs s)"
    and "\<And>i. i < length (procs s) \<Longrightarrow> pst t i \<noteq> UNUSED \<Longrightarrow>
           pst s i \<noteq> UNUSED \<and> p_pid (proc_at i t) = p_pid (proc_at i s)"
  shows "pid_inv t"
  using assms unfolding pid_inv_def by (metis (no_types, lifting))

lemma tree_inv_frame:
  assumes "tree_inv s" and "initproc t = initproc s" and "length (procs t) = length (procs s)"
    and "\<And>i. i < length (procs s) \<Longrightarrow> live (pst s i) \<Longrightarrow> live (pst t i)"
    and "\<And>i. i < length (procs s) \<Longrightarrow> pst t i \<noteq> UNUSED \<Longrightarrow> pst t i \<noteq> EMBRYO \<Longrightarrow>
           pst s i \<noteq> UNUSED \<and> pst s i \<noteq> EMBRYO \<and> p_parent (proc_at i t) = p_parent (proc_at i s)"
  shows "tree_inv t"
  using assms unfolding tree_inv_def has_parent_def by (metis (no_types, lifting))

lemma claim_inv:
  assumes "life_inv s" and "claim_slot s = (Some i, t)" and "nextpid s \<noteq> -1"
  shows "life_inv t"
proof -
  note c = claim_slotD [OF assms(2)]
  have n: "p < nextpid s + 1" if "p < nextpid s" for p
    using that assms(3) by (simp add: word_less_inc)
  have "cpu_inv t"
    by (rule cpu_inv_frame [of s]) (use assms(1) c in \<open>auto simp: life_inv_def\<close>)
  moreover have "pid_inv t"
    using assms(1,3) c n by (auto simp: life_inv_def pid_inv_def word_less_inc)
  moreover have "tree_inv t"
    by (rule tree_inv_frame [of s])
      (use assms(1) c in \<open>auto simp: life_inv_def live_def split: if_splits\<close>)
  ultimately show ?thesis by (simp add: life_inv_def)
qed

lemma ready_inv:
  assumes "life_inv s" and "c < ncpus s" and "curproc c s = Some q"
    and "i < length (procs s)" and "pst s i = EMBRYO"
  shows "life_inv (upd_proc i (\<lambda>p. p\<lparr>p_parent := Some q, p_state := RUNNABLE\<rparr>) s)" (is "life_inv ?t")
proof -
  have q: "q < length (procs s)" "pst s q = RUNNING"
    using assms(1-3) by (auto simp: life_inv_def cpu_inv_def)
  have "cpu_inv ?t"
    by (rule cpu_inv_frame [of s]) (use assms in \<open>auto simp: life_inv_def\<close>)
  moreover have "pid_inv ?t"
    by (rule pid_inv_frame [of s]) (use assms in \<open>auto simp: life_inv_def split: if_splits\<close>)
  moreover have "tree_inv ?t"
    unfolding tree_inv_def
  proof (intro conjI allI impI)
    show "\<exists>ini<length (procs ?t). initproc ?t = Some ini \<and> live (pst ?t ini)"
      using assms(1,4) by (auto simp: life_inv_def tree_inv_def live_def)
    fix j
    assume j: "j < length (procs ?t)" "pst ?t j \<noteq> UNUSED" "pst ?t j \<noteq> EMBRYO" "initproc ?t \<noteq> Some j"
    show "has_parent ?t j"
    proof (cases "j = i")
      case True
      with q assms(4,5) show ?thesis by (auto simp: has_parent_def live_def)
    next
      case False
      with j assms(1) have "has_parent s j" by (simp add: life_inv_def tree_inv_def)
      then obtain r where "r < length (procs s)" "p_parent (proc_at j s) = Some r" "live (pst s r)"
        by (auto simp: has_parent_def)
      with False j assms(4) show ?thesis by (auto simp: has_parent_def live_def)
    qed
  qed
  ultimately show ?thesis by (simp add: life_inv_def)
qed

lemma dispatch_inv:
  assumes "life_inv s" and "c < ncpus s" and "curproc c s = None"
    and "i < length (procs s)" and "pst s i = RUNNABLE" and "dispatch c i s = Inr t"
  shows "life_inv t"
proof -
  note d = dispatchD [OF assms(6)]
  have nr: "curproc e s \<noteq> Some i" if "e < ncpus s" for e
    using assms(1,5) that by (auto simp: life_inv_def cpu_inv_def)
  have "cpu_inv t"
    using assms(1-5) d nr unfolding life_inv_def cpu_inv_def
    by (auto split: if_splits) (metis option.distinct(1))+
  moreover have "pid_inv t"
    by (rule pid_inv_frame [of s]) (use assms d in \<open>auto simp: life_inv_def split: if_splits\<close>)
  moreover have "tree_inv t"
    by (rule tree_inv_frame [of s])
      (use assms d in \<open>auto simp: life_inv_def live_def split: if_splits\<close>)
  ultimately show ?thesis by (simp add: life_inv_def)
qed

text \<open>Giving the CPU up in a live state: \<open>yield\<close> and \<open>sleep\<close>.\<close>

lemma suspend_inv:
  assumes "life_inv s" and "c < ncpus s" and "curproc c s = Some i"
    and f: "\<And>p. p_state (f p) = SLEEPING \<or> p_state (f p) = RUNNABLE"
      "\<And>p. p_pid (f p) = p_pid p" "\<And>p. p_parent (f p) = p_parent p"
  shows "life_inv (undispatch c kp (upd_proc i f s))" (is "life_inv ?t")
proof -
  have i: "i < length (procs s)" "pst s i = RUNNING"
    using assms(1-3) by (auto simp: life_inv_def cpu_inv_def)
  have nr: "p_state (f p) \<noteq> RUNNING" "p_state (f p) \<noteq> UNUSED" "live (p_state (f p))" for p
    using f(1) [of p] by (auto simp: live_def)
  have "cpu_inv ?t"
    by (rule cpu_inv_leave [of s _ c i])
      (use assms i nr in \<open>auto simp: life_inv_def curproc_undispatch\<close>)
  moreover have "pid_inv ?t"
    by (rule pid_inv_frame [of s]) (use assms i in \<open>auto simp: life_inv_def split: if_splits\<close>)
  moreover have "tree_inv ?t"
    by (rule tree_inv_frame [of s])
      (use assms i nr in \<open>auto simp: life_inv_def split: if_splits\<close>)
  ultimately show ?thesis by (simp add: life_inv_def)
qed

lemma exit_inv:
  assumes "life_inv s" and "c < ncpus s" and "curproc c s = Some i"
    and "initproc s = Some ini" and "i \<noteq> ini"
  shows "life_inv (undispatch c kp (exit_table i ini s))" (is "life_inv ?t")
proof -
  have i: "i < length (procs s)" "pst s i = RUNNING"
    using assms(1-3) by (auto simp: life_inv_def cpu_inv_def)
  have ini: "ini < length (procs s)" "live (pst s ini)"
    using assms(1,4) by (auto simp: life_inv_def tree_inv_def)
  note e = exit_table_nth [where i = i and ini = ini and s = s, OF _ i(1)]
  have st: "pst ?t j = pst s j \<or> pst s j = SLEEPING \<and> pst ?t j = RUNNABLE"
    if "j < length (procs s)" "j \<noteq> i" for j
    using e(4) that by auto
  have lv: "live (pst ?t j)" if "j < length (procs s)" "j \<noteq> i" "live (pst s j)" for j
    using st [OF that(1,2)] that(3) by (auto simp: live_def)
  have z: "pst ?t i = ZOMBIE" using e(3) i by auto
  have "cpu_inv ?t"
  proof (rule cpu_inv_leave [of s _ c i])
    show "pst ?t j = RUNNING \<longleftrightarrow> pst s j = RUNNING" if "j < length (procs s)" "j \<noteq> i" for j
      using st [OF that] by auto
  qed (use assms(1-3) z in \<open>auto simp: life_inv_def curproc_undispatch\<close>)
  moreover have "pid_inv ?t"
  proof (rule pid_inv_frame [of s])
    show "pst s j \<noteq> UNUSED \<and> p_pid (proc_at j ?t) = p_pid (proc_at j s)"
      if "j < length (procs s)" "pst ?t j \<noteq> UNUSED" for j
      using that st [of j] e(1) [of j] i by (cases "j = i") auto
  qed (use assms(1) in \<open>auto simp: life_inv_def\<close>)
  moreover have "tree_inv ?t"
    unfolding tree_inv_def
  proof (intro conjI allI impI)
    show "\<exists>k<length (procs ?t). initproc ?t = Some k \<and> live (pst ?t k)"
      using assms(4,5) ini lv [of ini] by auto
    fix j
    assume j: "j < length (procs ?t)" "pst ?t j \<noteq> UNUSED" "pst ?t j \<noteq> EMBRYO" "initproc ?t \<noteq> Some j"
    then have "pst s j \<noteq> UNUSED" "pst s j \<noteq> EMBRYO" using st [of j] i by (cases "j = i"; auto)+
    with j assms(1) have "has_parent s j" by (simp add: life_inv_def tree_inv_def)
    then obtain q where q: "q < length (procs s)" "p_parent (proc_at j s) = Some q" "live (pst s q)"
      by (auto simp: has_parent_def)
    show "has_parent ?t j"
    proof (cases "q = i")
      case True
      with j q e(2) have "p_parent (proc_at j ?t) = Some ini" by simp
      with ini lv [of ini] assms(5) show ?thesis by (auto simp: has_parent_def)
    next
      case False
      with j q e(2) have "p_parent (proc_at j ?t) = Some q" by simp
      with q lv [of q] False show ?thesis by (auto simp: has_parent_def)
    qed
  qed
  ultimately show ?thesis by (simp add: life_inv_def)
qed

text \<open>
  Steps that only move processes from asleep to runnable, set kill flags, or free slots that
  nobody can depend on.
\<close>

definition quiet :: "'a proc_scheme ptab \<Rightarrow> 'a proc_scheme ptab \<Rightarrow> nat \<Rightarrow> bool" where
  "quiet s t j \<longleftrightarrow>
     pst t j = UNUSED \<and> (pst s j = EMBRYO \<or> pst s j = ZOMBIE) \<or>
     (pst t j = pst s j \<or> pst s j = SLEEPING \<and> pst t j = RUNNABLE) \<and>
     p_pid (proc_at j t) = p_pid (proc_at j s) \<and> p_parent (proc_at j t) = p_parent (proc_at j s)"

lemma table_inv:
  assumes "life_inv s" and "pmach t = pmach s" and "nextpid t = nextpid s"
    and "initproc t = initproc s" and "length (procs t) = length (procs s)"
    and q: "\<And>j. j < length (procs s) \<Longrightarrow> quiet s t j"
  shows "life_inv t"
proof -
  have run: "pst t j = RUNNING \<longleftrightarrow> pst s j = RUNNING" if "j < length (procs s)" for j
    using q [OF that] by (auto simp: quiet_def)
  have pid: "pst s j \<noteq> UNUSED \<and> p_pid (proc_at j t) = p_pid (proc_at j s)"
    if "j < length (procs s)" "pst t j \<noteq> UNUSED" for j
    using q [OF that(1)] that(2) by (auto simp: quiet_def)
  have lv: "live (pst t j)" if "j < length (procs s)" "live (pst s j)" for j
    using q [OF that(1)] that(2) by (auto simp: quiet_def live_def)
  have par: "pst s j \<noteq> UNUSED \<and> pst s j \<noteq> EMBRYO \<and> p_parent (proc_at j t) = p_parent (proc_at j s)"
    if "j < length (procs s)" "pst t j \<noteq> UNUSED" "pst t j \<noteq> EMBRYO" for j
    using q [OF that(1)] that(2,3) by (auto simp: quiet_def)
  have "cpu_inv t" "pid_inv t" "tree_inv t"
    using cpu_inv_frame [of s t] pid_inv_frame [of s t] tree_inv_frame [of s t]
      assms(1-5) run pid lv par by (simp_all add: life_inv_def)
  then show ?thesis by (simp add: life_inv_def)
qed

lemma table_upd_inv:
  assumes "life_inv s" and "i < length (procs s)" and "quiet s (upd_proc i f s) i"
  shows "life_inv (upd_proc i f s)"
proof (rule table_inv [OF assms(1)])
  show "quiet s (upd_proc i f s) j" if "j < length (procs s)" for j
    using that assms(3) by (cases "j = i") (simp_all add: quiet_def)
qed simp_all

lemma life_step_inv: "life_step s t \<Longrightarrow> life_inv s \<Longrightarrow> life_inv t"
proof (induction rule: life_step.induct)
  case (ls_claim s i t)
  then show ?case by (blast intro: claim_inv)
next
  case (ls_unclaim i s)
  then show ?case by (intro table_upd_inv) (simp_all add: quiet_def)
next
  case (ls_setup i s f)
  then show ?case by (intro table_upd_inv) (simp_all add: quiet_def)
next
  case (ls_ready c s q i)
  then show ?case by (blast intro: ready_inv)
next
  case (ls_dispatch c s i t)
  then show ?case by (blast intro: dispatch_inv)
next
  case (ls_yield c s i kp)
  then show ?case by (intro suspend_inv) auto
next
  case (ls_sleep c s i kp ch)
  then show ?case by (intro suspend_inv) auto
next
  case (ls_exit c s i ini kp)
  then show ?case by (blast intro: exit_inv)
next
  case (ls_wakeup s ch)
  have q: "quiet s (wakeup1 ch s) j" if "j < length (procs s)" for j
    using wokenD [OF woken_wakeup1 [OF that, of ch]] by (auto simp: quiet_def)
  show ?case by (rule table_inv [OF ls_wakeup]) (simp_all add: q)
next
  case (ls_kill pid s r t)
  from ls_kill(1) show ?case
  proof (cases rule: kill_scanD)
    case none
    with ls_kill show ?thesis by simp
  next
    case (some i)
    then have "quiet s t i" by (auto simp: quiet_def Let_def)
    with some ls_kill show ?thesis by (simp add: table_upd_inv)
  qed
next
  case (ls_reap c s q i)
  with wait_scanD [OF ls_reap(3)] show ?case
    by (simp add: reap_slot_def) (rule table_upd_inv, simp_all add: quiet_def)
qed

interpretation life: transition_system life_init life_step life_inv
  by unfold_locales (blast intro: life_init_inv life_step_inv)+

subsection \<open>Waiting parents\<close>

lemma woken_runnable: "woken p q \<Longrightarrow> p_state p = RUNNABLE \<Longrightarrow> p_state q = RUNNABLE"
  by (auto simp: woken_def)

lemma exit_table_wakes:
  assumes "i < length (procs s)" "q < length (procs s)" "q \<noteq> i" "p_parent (proc_at i s) = Some q"
    "pst s q = SLEEPING" "p_chan (proc_at q s) = Some (ChanProc q)"
  shows "pst (exit_table i ini s) q = RUNNABLE"
proof -
  let ?w = "wakeup1 (map_option ChanProc (p_parent (proc_at i s))) s"
  let ?r = "reparent i ini [0..<length (procs ?w)] ?w"
  have "pst ?w q = RUNNABLE" using assms by (simp add: nth_wakeup1)
  moreover have "woken ((proc_at q ?w)\<lparr>p_parent := (if q \<in> set [0..<length (procs ?w)] \<and>
      p_parent (proc_at q ?w) = Some i then Some ini else p_parent (proc_at q ?w))\<rparr>) (proc_at q ?r)"
    by (rule reparent_nth) (use assms(2) in auto)
  ultimately have "pst ?r q = RUNNABLE" by (auto dest: woken_runnable)
  then show ?thesis using assms(1-3) by (simp add: exit_table_def Let_def reparent_simps)
qed

lemma wait_scan_zombie:
  assumes "i < length (procs s)" "pst s i = ZOMBIE" "p_parent (proc_at i s) = Some q"
  obtains z where "wait_scan q s = Exited z"
proof -
  obtain z where "first_index (\<lambda>p. p_parent p = Some q \<and> p_state p = ZOMBIE) (procs s) = Some z"
    using first_index_ex [of "proc_at i s" "procs s" "\<lambda>p. p_parent p = Some q \<and> p_state p = ZOMBIE"] assms
    by auto
  then show ?thesis using that by (simp add: wait_scan_def)
qed

subsection \<open>Properties\<close>

definition demo_life :: "proc ptab" where
  "demo_life = \<lparr>pmach = demo_mach,
     procs = [zero_proc\<lparr>p_state := RUNNABLE, p_pid := 1, p_kstack := 4096, p_pgdir := 8192\<rparr>, zero_proc, zero_proc],
     nextpid = 2, initproc = Some 0\<rparr>"

text \<open>
  The first process runs on CPU 1 and makes a child, which then runs on CPU 0 and exits.
\<close>

definition after :: "'a kres \<Rightarrow> 'a \<Rightarrow> 'a" where
  "after r d = (case r of Inr t \<Rightarrow> t | Inl _ \<Rightarrow> d)"

definition demo_running :: "proc ptab" where
  "demo_running = upd_proc 1 (\<lambda>p. p\<lparr>p_parent := Some 0, p_state := RUNNABLE\<rparr>)
     (upd_proc 1 (\<lambda>p. p\<lparr>p_kstack := 4096, p_pgdir := 8192\<rparr>) (snd (claim_slot (after (dispatch 1 0 demo_life) demo_life))))"

definition demo_zombie :: "proc ptab" where
  "demo_zombie = undispatch 0 0x80003000 (exit_table 1 0 (after (dispatch 0 1 demo_running) demo_running))"

lemmas demo_life_simps = demo_life_def demo_mach_simps zero_proc_def dispatch_def switchuvm_def after_def
  set_cproc_def pushcli_def popcli_def upd_cpu_def upd_proc_def modify_def claim_slot_def Let_def

lemma demo_running_facts:
  "curproc 1 demo_running = Some 0" "curproc 0 demo_running = None" "ncpus demo_running = 2"
  "length (procs demo_running) = 3" "p_pid (proc_at 0 demo_running) = 1" "initproc demo_running = Some 0"
  "p_pid (proc_at 1 demo_running) = 2" "pst demo_running 0 = RUNNING" "pst demo_running 1 = RUNNABLE"
  by (simp_all add: demo_running_def demo_life_simps)

lemma demo_running_reachable: "reachable life_init life_step demo_running"
proof -
  obtain t where t: "dispatch 1 0 demo_life = Inr t" by (simp add: demo_life_simps)
  let ?u = "snd (claim_slot t)" and ?f = "\<lambda>p. p\<lparr>p_kstack := 4096, p_pgdir := 8192\<rparr>"
  have d: "after (dispatch 1 0 demo_life) demo_life = t" using t by (simp add: after_def)
  have n: "nextpid t \<noteq> -1" "curproc 1 ?u = Some 0" "1 < ncpus ?u" "1 < length (procs ?u)"
    "pst ?u 1 = EMBRYO" "claim_slot t = (Some 1, ?u)"
    using t by (auto simp: demo_life_simps)
  have "reachable life_init life_step demo_life"
    by (rule reach_init) (auto simp: life_init_def demo_life_def demo_mach_simps zero_proc_def nth_Cons
        less_Suc_eq split: nat.splits)
  moreover have "life_step demo_life t"
    by (rule ls_dispatch [OF _ _ _ _ t]) (simp_all add: demo_life_def demo_mach_simps)
  moreover have "life_step t ?u" by (rule ls_claim [OF n(6,1)])
  moreover have "life_step ?u (upd_proc 1 ?f ?u)" by (rule ls_setup [OF n(4,5)]) simp
  moreover have "life_step (upd_proc 1 ?f ?u) demo_running"
    unfolding demo_running_def d by (rule ls_ready [of 1]) (use n in simp_all)
  ultimately show ?thesis by (meson reach_step)
qed

lemma demo_zombie_reachable: "reachable life_init life_step demo_zombie"
proof -
  obtain t where t: "dispatch 0 1 demo_running = Inr t"
    by (simp add: demo_running_def demo_life_simps)
  have "life_step demo_running t"
    by (rule ls_dispatch [OF _ _ _ _ t]) (simp_all add: demo_running_facts [simplified])
  moreover have "life_step t demo_zombie"
    using dispatchD [OF t] demo_running_facts t unfolding demo_zombie_def
    by (simp add: after_def) (rule ls_exit, auto)
  ultimately show ?thesis using demo_running_reachable by (meson reach_step)
qed

lemma demo_zombie_facts: "length (procs demo_zombie) = 3" "pst demo_zombie 1 = ZOMBIE"
  "p_parent (proc_at 1 demo_zombie) = Some 0"
  by (simp_all add: demo_zombie_def demo_running_def exit_table_def wakeup1_def demo_life_simps upt_rec)

text \<open>
  C4. In every reachable state of the process table, with any number of CPUs, a process in state
  RUNNING runs on exactly one CPU, and a CPU's current process is in state RUNNING.
\<close>

theorem running_on_one_cpu:
  assumes "reachable life_init life_step s" and "i < length (procs s)"
  shows "pst s i = RUNNING \<longleftrightarrow> (\<exists>!c. c < ncpus s \<and> curproc c s = Some i)"
  using life.reachable_inv [OF assms(1)] assms(2) unfolding life_inv_def cpu_inv_def
  by (metis (no_types, lifting))

theorem running_on_one_cpu_witness: "\<exists>!c. c < ncpus demo_running \<and> curproc c demo_running = Some 0"
  using running_on_one_cpu [OF demo_running_reachable, of 0] demo_running_facts by simp

text \<open>
  In every reachable state the processes in use have positive, pairwise different process ids
  below the next id to give out.
\<close>

theorem pids_unique:
  assumes "reachable life_init life_step s" and "i < length (procs s)" and "j < length (procs s)"
    and "pst s i \<noteq> UNUSED" and "pst s j \<noteq> UNUSED"
  shows "0 < p_pid (proc_at i s) \<and> p_pid (proc_at i s) < nextpid s \<and>
    (p_pid (proc_at i s) = p_pid (proc_at j s) \<longleftrightarrow> i = j)"
  using life.reachable_inv [OF assms(1)] assms(2-) unfolding life_inv_def pid_inv_def by blast

theorem pids_unique_witness: "p_pid (proc_at 0 demo_running) = p_pid (proc_at 1 demo_running) \<longleftrightarrow> (0::nat) = 1"
  using pids_unique [OF demo_running_reachable, of 0 1] demo_running_facts by simp



text \<open>
  A parent that sleeps in \<open>wait\<close> is woken when a child exits, and its next scan of the table
  finds an exited child, so \<open>wait\<close> returns.
\<close>

theorem exit_wakes_waiting_parent:
  assumes "i < length (procs s)" and "q < length (procs s)" and "q \<noteq> i"
    and "p_parent (proc_at i s) = Some q" and "pst s q = SLEEPING"
    and "p_chan (proc_at q s) = Some (ChanProc q)"
  shows "pst (exit_table i ini s) q = RUNNABLE \<and> (\<exists>z. wait_scan q (exit_table i ini s) = Exited z)"
proof
  show "pst (exit_table i ini s) q = RUNNABLE" by (rule exit_table_wakes [OF assms])
  have "p_parent (proc_at i (exit_table i ini s)) = Some q"
    using exit_table_nth(2) [OF assms(1) assms(1)] assms(3,4) by simp
  then show "\<exists>z. wait_scan q (exit_table i ini s) = Exited z"
    using wait_scan_zombie [of i "exit_table i ini s" q] exit_table_nth(3) [OF assms(1) assms(1)] assms(1)
    by auto
qed

definition demo_waiting :: "proc ptab" where
  "demo_waiting = \<lparr>pmach = demo_mach,
     procs = [zero_proc\<lparr>p_state := SLEEPING, p_pid := 1, p_chan := Some (ChanProc 0)\<rparr>,
       zero_proc\<lparr>p_state := RUNNING, p_pid := 2, p_parent := Some 0\<rparr>], nextpid = 3, initproc = Some 0\<rparr>"

theorem exit_wakes_waiting_parent_witness:
  "pst (exit_table 1 0 demo_waiting) 0 = RUNNABLE \<and> (\<exists>z. wait_scan 0 (exit_table 1 0 demo_waiting) = Exited z)"
  by (rule exit_wakes_waiting_parent) (simp_all add: demo_waiting_def)

end
