(* ===== verification/Lottery.thy ===== *)
theory Lottery
  imports ProcTable
begin

text \<open>
  The lottery scheduler of \<open>offline_3\<close>: the pseudo-random generator, one round of the
  scheduler's endless loop, and the two system calls that come with it. The process table is the
  one of \<open>ProcTable\<close>, with the three fields this kernel adds to \<open>struct proc\<close>.
\<close>

subsection \<open>State\<close>

record lproc = proc +
  tickets :: u32
  init_ticks :: u32
  lticks :: u32

record lkernel =
  ltab :: "lproc ptab"
  gticks :: u32

abbreviation lprocs :: "lkernel \<Rightarrow> lproc list" where
  "lprocs k \<equiv> procs (ltab k)"

definition upd_lproc :: "nat \<Rightarrow> (lproc \<Rightarrow> lproc) \<Rightarrow> lkernel \<Rightarrow> lkernel" where
  "upd_lproc i f k = k\<lparr>ltab := upd_proc i f (ltab k)\<rparr>"

subsection \<open>The random number generator\<close>

text \<open>
  A linear congruence with multiplier 5, increment 11 and the seed as its modulus, iterated 500
  times. The processor raises a divide error when the seed is 0.
\<close>

definition lcg :: "u32 \<Rightarrow> u32 \<Rightarrow> u32" where
  "lcg m xn = (5 * xn + 11) mod m"

definition random :: "u32 \<Rightarrow> u32 kres" where
  "random seed = (if seed = 0 then Inl (Fault ''divide error'') else Inr ((lcg seed ^^ 500) seed))"

subsection \<open>One round of the scheduler\<close>

text \<open>\<open>int total_tickets\<close> and \<open>int ticket_count\<close> are 32-bit; they are compared as signed.\<close>

fun total_tickets :: "u32 \<Rightarrow> lproc list \<Rightarrow> u32" where
  "total_tickets t [] = t"
| "total_tickets t (p # ps) =
     total_tickets (if p_state p = RUNNABLE then t + tickets p else t) ps"

definition winning_ticket :: "u32 \<Rightarrow> u32 \<Rightarrow> u32 kres" where
  "winning_ticket ticks tot =
     kbind (random ticks) (\<lambda>r.
       if tot + 1 = 0 then Inl (Fault ''divide error'') else Inr (r mod (tot + 1)))"

text \<open>The loop that looks for the holder of the winning ticket.\<close>

fun pick :: "u32 \<Rightarrow> u32 \<Rightarrow> lproc list \<Rightarrow> nat option" where
  "pick count win [] = None"
| "pick count win (p # ps) =
     (if p_state p \<noteq> RUNNABLE then map_option Suc (pick count win ps)
      else
        let count = count + tickets p in
        if sint count < sint win then map_option Suc (pick count win ps)
        else Some 0)"

text \<open>
  The winner runs: the tick counter is read before and after, and the difference is credited to
  the process. \<open>run\<close> is what happens between the two context switches.
\<close>

definition run_winner ::
  "(nat \<Rightarrow> lkernel \<Rightarrow> lkernel kres) \<Rightarrow> nat \<Rightarrow> u32 \<Rightarrow> nat \<Rightarrow> lkernel \<Rightarrow> lkernel kres" where
  "run_winner run c kpgdir i k =
     kbind (dispatch c i (ltab k)) (\<lambda>t.
       let k = upd_lproc i (\<lambda>p. p\<lparr>init_ticks := gticks k\<rparr>) (k\<lparr>ltab := t\<rparr>) in
       kbind (run i k) (\<lambda>k.
         let k = k\<lparr>ltab := switchkvm c kpgdir (ltab k)\<rparr>;
             k = upd_lproc i (\<lambda>p. p\<lparr>lticks := lticks p + (gticks k - init_ticks p)\<rparr>) k
         in Inr (k\<lparr>ltab := set_cproc c None (ltab k)\<rparr>)))"

text \<open>
  The table is locked twice in a round; \<open>irq\<close> is what interrupts and other CPUs do to the
  kernel between the two.
\<close>

definition lottery_round ::
  "(lkernel \<Rightarrow> lkernel) \<Rightarrow> (nat \<Rightarrow> lkernel \<Rightarrow> lkernel kres) \<Rightarrow> nat \<Rightarrow> u32 \<Rightarrow> lkernel \<Rightarrow> lkernel kres" where
  "lottery_round irq run c kpgdir k =
     (let tot = total_tickets 0 (lprocs k) in
      kbind (winning_ticket (gticks k) tot) (\<lambda>win.
        let k = irq k in
        case pick 0 win (lprocs k) of
          None \<Rightarrow> Inr k
        | Some i \<Rightarrow> run_winner run c kpgdir i k))"

subsection \<open>System calls\<close>

text \<open>
  \<open>struct pstat\<close> in the caller's memory. \<open>sys_getpinfo\<close> ignores whether \<open>argptr\<close>
  accepted the pointer and writes the entries of the slots in use only.
\<close>

record pstat =
  ps_inuse :: "u32 list"
  ps_tickets :: "u32 list"
  ps_pid :: "u32 list"
  ps_ticks :: "u32 list"

fun fill_pinfo :: "nat \<Rightarrow> lproc list \<Rightarrow> pstat \<Rightarrow> pstat" where
  "fill_pinfo i [] st = st"
| "fill_pinfo i (p # ps) st =
     fill_pinfo (Suc i) ps
       (if p_state p \<noteq> UNUSED
        then st\<lparr>ps_pid := (ps_pid st)[i := p_pid p], ps_ticks := (ps_ticks st)[i := lticks p],
                ps_tickets := (ps_tickets st)[i := tickets p], ps_inuse := (ps_inuse st)[i := 1]\<rparr>
        else st)"

definition sys_getpinfo :: "pstat option \<Rightarrow> lkernel \<Rightarrow> int \<times> pstat option" where
  "sys_getpinfo ptr k =
     (case ptr of None \<Rightarrow> (-1, None) | Some st \<Rightarrow> (0, Some (fill_pinfo 0 (lprocs k) st)))"

definition sys_settickets :: "u32 \<Rightarrow> u32 \<Rightarrow> lkernel \<Rightarrow> int \<times> lkernel" where
  "sys_settickets pid n k =
     (if sint pid < 0 then (-1, k)
      else if sint n < 0 then (-1, k)
      else case first_index (\<lambda>p. p_pid p = pid) (lprocs k) of
             None \<Rightarrow> (-2, k)
           | Some i \<Rightarrow> (0, upd_lproc i (\<lambda>p. p\<lparr>tickets := n\<rparr>) k))"

text \<open>The critical section of this kernel's \<open>allocproc\<close>: one ticket by default.\<close>

definition claim_slot_lottery :: "lkernel \<Rightarrow> nat option \<times> lkernel" where
  "claim_slot_lottery k =
     (case claim_slot (ltab k) of
        (None, t) \<Rightarrow> (None, k\<lparr>ltab := t\<rparr>)
      | (Some i, t) \<Rightarrow> (Some i, upd_lproc i (\<lambda>p. p\<lparr>tickets := 1\<rparr>) (k\<lparr>ltab := t\<rparr>)))"

subsection \<open>The generator\<close>

lemma lcg_less: "m \<noteq> 0 \<Longrightarrow> lcg m x < m"
  by (simp add: lcg_def word_mod_less_divisor word_gt_0)

lemma random_less: "random seed = Inr r \<Longrightarrow> r < seed"
proof -
  assume "random seed = Inr r"
  then have "seed \<noteq> 0" and "r = lcg seed ((lcg seed ^^ 499) seed)"
    by (auto simp: random_def eval_nat_numeral split: if_splits)
  then show ?thesis by (simp add: lcg_less)
qed

subsection \<open>Tickets as natural numbers\<close>

definition share :: "lproc \<Rightarrow> nat" where
  "share p = (if p_state p = RUNNABLE then unat (tickets p) else 0)"

abbreviation pool :: "lproc list \<Rightarrow> nat" where
  "pool ps \<equiv> sum_list (map share ps)"

lemma unat_total_tickets:
  "unat t + pool ps < 2 ^ 32 \<Longrightarrow> unat (total_tickets t ps) = unat t + pool ps"
proof (induction ps arbitrary: t)
  case (Cons p ps)
  then show ?case by (auto simp: share_def unat_add_small)
qed simp

text \<open>The search of the winner over natural numbers.\<close>

fun pickn :: "nat \<Rightarrow> nat \<Rightarrow> lproc list \<Rightarrow> nat option" where
  "pickn n w [] = None"
| "pickn n w (p # ps) =
     (if p_state p = RUNNABLE \<and> w \<le> n + share p then Some 0
      else map_option Suc (pickn (n + share p) w ps))"

lemma pick_pickn:
  "unat n + pool ps < 2 ^ 31 \<Longrightarrow> unat w < 2 ^ 31 \<Longrightarrow> pick n w ps = pickn (unat n) (unat w) ps"
proof (induction ps arbitrary: n)
  case (Cons p ps)
  then have u: "p_state p = RUNNABLE \<Longrightarrow> unat (n + tickets p) = unat n + share p"
    by (simp add: share_def unat_add_small)
  have l: "sint (n + tickets p) < sint w \<longleftrightarrow> unat n + share p < unat w" if "p_state p = RUNNABLE"
    using Cons.prems u [OF that] by (simp add: sint_less_small)
  show ?case
  proof (cases "p_state p = RUNNABLE")
    case True
    with Cons.IH [of "n + tickets p"] Cons.prems u l show ?thesis by (auto simp: Let_def)
  next
    case False
    with Cons show ?thesis by (simp add: share_def)
  qed
qed simp

lemma pickn_Some_runnable:
  "pickn n w ps = Some i \<Longrightarrow> i < length ps \<and> p_state (ps ! i) = RUNNABLE"
  by (induction ps arbitrary: n i) (auto split: if_splits)

lemma pickn_ex: "w \<le> n + pool ps \<Longrightarrow> p \<in> set ps \<Longrightarrow> p_state p = RUNNABLE \<Longrightarrow> \<exists>i. pickn n w ps = Some i"
proof (induction ps arbitrary: n p)
  case (Cons q ps)
  show ?case
  proof (cases "p_state q = RUNNABLE \<and> w \<le> n + share q")
    case False
    show ?thesis
    proof (cases "\<exists>r\<in>set ps. p_state r = RUNNABLE")
      case True
      with Cons False show ?thesis by (auto simp: add.assoc)
    next
      case no: False
      then have z: "pool ps = 0" by (auto simp: share_def)
      from no Cons.prems have "p_state q = RUNNABLE" by auto
      moreover have "w \<le> n + share q"
        using Cons.prems(1) by (simp only: list.map sum_list.Cons z add_0_right)
      ultimately show ?thesis using False by blast
    qed
  qed simp
qed simp

text \<open>Above the tickets counted so far, process \<open>i\<close> wins exactly on its own interval.\<close>

lemma pickn_interval:
  "n < w \<Longrightarrow> pickn n w ps = Some i \<longleftrightarrow>
   i < length ps \<and> n + pool (take i ps) < w \<and> w \<le> n + pool (take i ps) + share (ps ! i)"
proof (induction ps arbitrary: n i)
  case (Cons p ps)
  show ?case
  proof (cases "p_state p = RUNNABLE \<and> w \<le> n + share p")
    case True
    with Cons.prems show ?thesis by (cases i) auto
  next
    case False
    then have "n + share p < w" using Cons.prems by (auto simp: share_def)
    from Cons.IH [OF this] False Cons.prems show ?thesis
      by (cases i) (auto simp: share_def add.assoc)
  qed
qed simp

lemma pickn_low: "w \<le> n \<Longrightarrow> pickn n w ps = first_index (\<lambda>p. p_state p = RUNNABLE) ps"
  by (induction ps arbitrary: n) auto

lemma pool_le_nth: "i < length ps \<Longrightarrow> pool (take i ps) + share (ps ! i) \<le> pool ps"
proof -
  assume "i < length ps"
  then have "pool ps = pool (take i ps) + pool (drop i ps)"
    by (metis append_take_drop_id map_append sum_list_append)
  with \<open>i < length ps\<close> show ?thesis by (simp add: Cons_nth_drop_Suc [symmetric])
qed

lemma pick_of_nat:
  assumes "pool ps < 2 ^ 31 - 1" and "w \<le> pool ps"
  shows "pick 0 (of_nat w) ps = pickn 0 w ps"
proof -
  have "w < 2 ^ 31" using assms by simp
  then have "unat (of_nat w :: u32) = w" by (simp add: unat_of_nat)
  then show ?thesis using pick_pickn [of 0 ps "of_nat w"] assms by simp
qed

lemma lottery_winner:
  assumes "gticks k \<noteq> 0" and "pool (lprocs k) \<le> pool (lprocs (irq k))"
    and "pool (lprocs (irq k)) < 2 ^ 31 - 1" and "p \<in> set (lprocs (irq k))" and "p_state p = RUNNABLE"
  obtains i where "i < length (lprocs (irq k))" "p_state (lprocs (irq k) ! i) = RUNNABLE"
    "lottery_round irq run c kp k = run_winner run c kp i (irq k)"
proof -
  let ?tot = "total_tickets 0 (lprocs k)"
  obtain r where r: "random (gticks k) = Inr r" using assms(1) by (simp add: random_def)
  have tot: "unat ?tot = pool (lprocs k)" using assms(2,3) by (simp add: unat_total_tickets)
  have t1: "unat (?tot + 1) = pool (lprocs k) + 1" using tot assms(2,3) by (subst unat_add_small) auto
  then have "?tot + 1 \<noteq> 0" by (metis add_is_0 one_neq_zero unat_0)
  then have w: "winning_ticket (gticks k) ?tot = Inr (r mod (?tot + 1))"
    by (simp add: winning_ticket_def r)
  have "unat (r mod (?tot + 1)) \<le> pool (lprocs k)" using t1
    by (simp add: unat_mod_distrib)
  then have small: "unat (r mod (?tot + 1)) \<le> pool (lprocs (irq k))" using assms(2) by simp
  moreover have "pick 0 (r mod (?tot + 1)) (lprocs (irq k)) = pickn 0 (unat (r mod (?tot + 1))) (lprocs (irq k))"
    using pick_pickn [of 0 "lprocs (irq k)" "r mod (?tot + 1)"] small assms(3) by simp
  ultimately obtain i where i: "pickn 0 (unat (r mod (?tot + 1))) (lprocs (irq k)) = Some i"
      "pick 0 (r mod (?tot + 1)) (lprocs (irq k)) = Some i"
    using pickn_ex [of _ 0 "lprocs (irq k)" p] assms(4,5) by auto
  then have "lottery_round irq run c kp k = run_winner run c kp i (irq k)"
    by (simp add: lottery_round_def w Let_def)
  with pickn_Some_runnable [OF i(1)] show ?thesis by (intro that) auto
qed

lemma fill_pinfo_nth:
  assumes "i \<le> j" and "length (ps_pid st) = n" "length (ps_ticks st) = n"
    "length (ps_tickets st) = n" "length (ps_inuse st) = n" "i + length ps \<le> n" "j < n"
  shows "(ps_inuse (fill_pinfo i ps st) ! j, ps_pid (fill_pinfo i ps st) ! j,
          ps_ticks (fill_pinfo i ps st) ! j, ps_tickets (fill_pinfo i ps st) ! j) =
    (if j - i < length ps \<and> p_state (ps ! (j - i)) \<noteq> UNUSED
     then (1, p_pid (ps ! (j - i)), lticks (ps ! (j - i)), tickets (ps ! (j - i)))
     else (ps_inuse st ! j, ps_pid st ! j, ps_ticks st ! j, ps_tickets st ! j))"
  using assms
proof (induction i ps st arbitrary: j rule: fill_pinfo.induct)
  case (2 i p ps st)
  show ?case
  proof (cases "j = i")
    case True
    have keep: "(ps_inuse (fill_pinfo m qs t) ! i, ps_pid (fill_pinfo m qs t) ! i,
       ps_ticks (fill_pinfo m qs t) ! i, ps_tickets (fill_pinfo m qs t) ! i) =
       (ps_inuse t ! i, ps_pid t ! i, ps_ticks t ! i, ps_tickets t ! i)" if "i < m" for m qs t
      using that by (induction m qs t rule: fill_pinfo.induct) auto
    from True "2.prems" show ?thesis using keep [of "Suc i"] by simp
  next
    case False
    with "2.prems" have j: "Suc i \<le> j" "j - i = Suc (j - Suc i)" by auto
    from "2.IH" [OF j(1)] "2.prems" j(2) False show ?thesis by simp
  qed
qed simp

subsection \<open>Properties\<close>

definition zero_lproc :: lproc where
  "zero_lproc = \<lparr>p_sz = 0, p_pgdir = 0, p_kstack = 0, p_state = UNUSED, p_pid = 0, p_parent = None,
     p_tf = zero_tf, p_context = zero_context, p_chan = None, p_killed = False,
     p_ofile = replicate 16 None, p_cwd = None, p_name = [],
     tickets = 0, init_ticks = 0, lticks = 0\<rparr>"

definition demo_lprocs :: "lproc list" where
  "demo_lprocs =
     [zero_lproc, zero_lproc\<lparr>p_state := RUNNABLE, p_pid := 1, tickets := 3, p_kstack := 4096, p_pgdir := 8192\<rparr>,
      zero_lproc\<lparr>p_state := RUNNABLE, p_pid := 2, tickets := 5, p_kstack := 4096, p_pgdir := 8192\<rparr>]"

definition demo_lkernel :: lkernel where
  "demo_lkernel =
     \<lparr>ltab = \<lparr>pmach = zero_mach, procs = demo_lprocs, nextpid = 3, initproc = Some 1\<rparr>, gticks = 7\<rparr>"

lemmas demo_lottery = demo_lprocs_def demo_lkernel_def zero_lproc_def zero_mach_def zero_cpu_def
  share_def

text \<open>
  C8. The lottery gives each runnable process its tickets: of the numbers \<open>0..total\<close> the code
  draws from, process \<open>i\<close> wins on as many as it has tickets, and the first runnable process on
  one more (the extra number 0).
\<close>

theorem lottery_fair_shares:
  assumes "pool ps < 2 ^ 31 - 1" and "i < length ps" and "p_state (ps ! i) = RUNNABLE"
  shows "card {w. w \<le> pool ps \<and> pick 0 (of_nat w) ps = Some i} =
    unat (tickets (ps ! i)) + (if first_index (\<lambda>p. p_state p = RUNNABLE) ps = Some i then 1 else 0)"
proof -
  let ?a = "pool (take i ps)" and ?s = "share (ps ! i)"
  have "{w. w \<le> pool ps \<and> pick 0 (of_nat w) ps = Some i} =
      {w. w \<le> pool ps \<and> pickn 0 w ps = Some i}"
    using pick_of_nat [OF assms(1)] by auto
  also have "\<dots> = {?a<..?a + ?s} \<union> {w. w = 0 \<and> pickn 0 0 ps = Some i}"
  proof (rule set_eqI)
    fix w
    show "w \<in> {w. w \<le> pool ps \<and> pickn 0 w ps = Some i} \<longleftrightarrow>
        w \<in> {?a<..?a + ?s} \<union> {w. w = 0 \<and> pickn 0 0 ps = Some i}"
      using pool_le_nth [OF assms(2)] pickn_interval [of 0 w ps i] assms(2)
      by (cases "w = 0") (simp_all del: sum_list_eq_0_iff, linarith)
  qed
  finally show ?thesis
    using assms(3) by (auto simp: card_insert_if pickn_low share_def)
qed

theorem lottery_fair_shares_witness:
  "card {w. w \<le> pool demo_lprocs \<and> pick 0 (of_nat w) demo_lprocs = Some 2} = 5"
  using lottery_fair_shares [of demo_lprocs 2] by (simp add: demo_lottery)

text \<open>
  No round is wasted: when the tick counter is not 0 and the runnable processes hold fewer
  than \<open>2 ^ 31 - 1\<close> tickets, a round that finds a runnable process in the table runs one, also
  when interrupts have made more processes runnable since the tickets were counted.
\<close>

theorem lottery_round_runs_one:
  assumes "gticks k \<noteq> 0" and "pool (lprocs k) \<le> pool (lprocs (irq k))"
    and "pool (lprocs (irq k)) < 2 ^ 31 - 1" and "p \<in> set (lprocs (irq k))" and "p_state p = RUNNABLE"
  shows "\<exists>i<length (lprocs (irq k)). p_state (lprocs (irq k) ! i) = RUNNABLE \<and>
    lottery_round irq run c kp k = run_winner run c kp i (irq k)"
proof -
  obtain i where "i < length (lprocs (irq k))" "p_state (lprocs (irq k) ! i) = RUNNABLE"
    "lottery_round irq run c kp k = run_winner run c kp i (irq k)"
    using assms by (rule lottery_winner)
  then show ?thesis by blast
qed

theorem lottery_round_runs_one_witness:
  "\<exists>i<length (lprocs demo_lkernel). p_state (lprocs demo_lkernel ! i) = RUNNABLE \<and>
    lottery_round (\<lambda>k. k) (\<lambda>i k. Inr k) 0 4096 demo_lkernel = run_winner (\<lambda>i k. Inr k) 0 4096 i demo_lkernel"
proof (rule lottery_round_runs_one [of demo_lkernel "\<lambda>k. k" "lprocs demo_lkernel ! 1"])
qed (simp_all add: demo_lottery)

text \<open>
  The ticks that pass while the winner runs are credited to it, and only to it, whatever the
  winner does, provided its own accounting fields are not touched in between.
\<close>

theorem run_winner_credits_ticks:
  assumes "run_winner run c kp i k = Inr k'" and "i < length (lprocs k)"
    and "\<And>k k'. run i k = Inr k' \<Longrightarrow> length (lprocs k') = length (lprocs k) \<and>
      (\<forall>j<length (lprocs k). lticks (lprocs k' ! j) = lticks (lprocs k ! j) \<and>
        init_ticks (lprocs k' ! j) = init_ticks (lprocs k ! j))"
  shows "lticks (lprocs k' ! i) = lticks (lprocs k ! i) + (gticks k' - gticks k) \<and>
    (\<forall>j<length (lprocs k). j \<noteq> i \<longrightarrow> lticks (lprocs k' ! j) = lticks (lprocs k ! j))"
proof -
  from assms(1) obtain t k2 where d: "dispatch c i (ltab k) = Inr t"
    and r: "run i (upd_lproc i (\<lambda>p. p\<lparr>init_ticks := gticks k\<rparr>) (k\<lparr>ltab := t\<rparr>)) = Inr k2"
    and k': "k' = (let k = k2\<lparr>ltab := switchkvm c kp (ltab k2)\<rparr>;
             k = upd_lproc i (\<lambda>p. p\<lparr>lticks := lticks p + (gticks k - init_ticks p)\<rparr>) k
         in k\<lparr>ltab := set_cproc c None (ltab k)\<rparr>)"
    by (auto simp: run_winner_def kres_simps Let_def)
  have "procs t = modify i (\<lambda>p. p\<lparr>p_state := RUNNING\<rparr>) (lprocs k)"
    using d by (auto simp: dispatch_def switchuvm_def set_cproc_def kres_simps Let_def split: if_splits)
  with assms(3) [OF r] assms(2) k' show ?thesis
    by (simp add: upd_lproc_def switchkvm_def set_cproc_def Let_def)
qed

theorem run_winner_credits_ticks_witness:
  "\<exists>k'. run_winner (\<lambda>i k. Inr (k\<lparr>gticks := gticks k + 4\<rparr>)) 0 0x80003000 1 demo_lkernel = Inr k' \<and>
     lticks (lprocs k' ! 1) = 4"
proof -
  let ?run = "\<lambda>(i::nat) k. Inr (k\<lparr>gticks := gticks k + 4\<rparr>) :: lkernel kres"
  obtain k' where k': "run_winner ?run 0 0x80003000 1 demo_lkernel = Inr k'" and t: "gticks k' = 11"
    by (simp add: run_winner_def dispatch_def switchuvm_def set_cproc_def switchkvm_def upd_lproc_def
        upd_proc_def pushcli_def popcli_def upd_cpu_def modify_def demo_lottery Let_def)
  from run_winner_credits_ticks [OF k'] k' t show ?thesis by (simp add: demo_lottery)
qed

text \<open>
  \<open>settickets\<close> and \<open>getpinfo\<close> agree: after a successful \<open>settickets(pid, n)\<close> the report
  shows \<open>n\<close> tickets for the process with that id and the old numbers for every other slot in use;
  the slots not in use are not written at all, so their flag is whatever the caller's memory held.
\<close>

theorem settickets_getpinfo:
  assumes "sys_settickets pid n k = (0, k')" and "length (lprocs k) = 64"
    and "length (ps_pid st) = 64" "length (ps_ticks st) = 64" "length (ps_tickets st) = 64"
      "length (ps_inuse st) = 64"
  shows "\<exists>i st'. first_index (\<lambda>p. p_pid p = pid) (lprocs k) = Some i \<and>
    sys_getpinfo (Some st) k' = (0, Some st') \<and>
    (\<forall>j<64. (ps_inuse st' ! j, ps_pid st' ! j, ps_tickets st' ! j) =
      (if p_state (lprocs k ! j) = UNUSED then (ps_inuse st ! j, ps_pid st ! j, ps_tickets st ! j)
       else (1, p_pid (lprocs k ! j), if j = i then n else tickets (lprocs k ! j))))"
proof -
  from assms(1) obtain i where i: "first_index (\<lambda>p. p_pid p = pid) (lprocs k) = Some i"
    and k': "lprocs k' = modify i (\<lambda>p. p\<lparr>tickets := n\<rparr>) (lprocs k)"
    by (auto simp: sys_settickets_def upd_lproc_def split: if_splits option.splits)
  have "(ps_inuse (fill_pinfo 0 (lprocs k') st) ! j, ps_pid (fill_pinfo 0 (lprocs k') st) ! j,
      ps_tickets (fill_pinfo 0 (lprocs k') st) ! j) =
    (if p_state (lprocs k ! j) = UNUSED then (ps_inuse st ! j, ps_pid st ! j, ps_tickets st ! j)
     else (1, p_pid (lprocs k ! j), if j = i then n else tickets (lprocs k ! j)))" if "j < 64" for j
    using fill_pinfo_nth [of 0 j st 64 "lprocs k'"] that assms(2-) k' by auto
  with i show ?thesis by (auto simp: sys_getpinfo_def)
qed

definition demo_full :: lkernel where
  "demo_full = demo_lkernel\<lparr>ltab := (ltab demo_lkernel)\<lparr>procs := demo_lprocs @ replicate 61 zero_lproc\<rparr>\<rparr>"

definition demo_pstat :: pstat where
  "demo_pstat = \<lparr>ps_inuse = replicate 64 0, ps_tickets = replicate 64 0, ps_pid = replicate 64 0, ps_ticks = replicate 64 0\<rparr>"

theorem settickets_getpinfo_witness:
  "\<exists>st'. sys_getpinfo (Some demo_pstat) (snd (sys_settickets 2 9 demo_full)) = (0, Some st') \<and>
     ps_inuse st' ! 2 = 1 \<and> ps_tickets st' ! 2 = 9 \<and> ps_tickets st' ! 1 = 3 \<and> ps_inuse st' ! 0 = 0"
proof -
  have f: "first_index (\<lambda>p. p_pid p = 2) (lprocs demo_full) = Some 2"
    by (simp add: demo_full_def demo_lottery)
  have s: "sys_settickets 2 9 demo_full = (0, snd (sys_settickets 2 9 demo_full))"
    by (simp add: sys_settickets_def f)
  have l: "length (lprocs demo_full) = 64" "length (ps_pid demo_pstat) = 64" "length (ps_ticks demo_pstat) = 64"
    "length (ps_tickets demo_pstat) = 64" "length (ps_inuse demo_pstat) = 64"
    by (simp_all add: demo_full_def demo_lottery demo_pstat_def)
  from settickets_getpinfo [OF s l] f obtain st' where
    g: "sys_getpinfo (Some demo_pstat) (snd (sys_settickets 2 9 demo_full)) = (0, Some st')"
    and v: "\<And>j. j < 64 \<Longrightarrow> (ps_inuse st' ! j, ps_pid st' ! j, ps_tickets st' ! j) =
      (if p_state (lprocs demo_full ! j) = UNUSED then (ps_inuse demo_pstat ! j, ps_pid demo_pstat ! j, ps_tickets demo_pstat ! j)
       else (1, p_pid (lprocs demo_full ! j), if j = 2 then 9 else tickets (lprocs demo_full ! j)))" by auto
  from g v [of 0] v [of 1] v [of 2] show ?thesis
    by (simp add: demo_full_def demo_lottery demo_pstat_def)
qed

end
