(* ===== verification/Ring.thy ===== *)
theory Ring
  imports Prelude
begin

text \<open>
  Ring buffers indexed by free-running 32-bit counters, as the pipe and the console input use
  them, and the contract of a bounded first-in first-out queue, whose consequences are proved
  once for every implementation.
\<close>

subsection \<open>Counters modulo the size of the buffer\<close>

lemma unat_mod_dvd:
  fixes w :: u32
  assumes "N dvd 2 ^ 32" and "N < 2 ^ 32"
  shows "unat (w mod of_nat N) = unat w mod N"
  using assms by (simp add: unat_mod_distrib unat_of_nat take_bit_nat_eq_self)

lemma unat_counter:
  fixes r :: u32
  assumes "N dvd 2 ^ 32"
  shows "unat (r + of_nat k) mod N = (unat r + k) mod N"
proof -
  have "unat (r + of_nat k) = (unat r + k) mod 2 ^ 32"
    by (simp add: unat_word_ariths unat_of_nat mod_add_right_eq)
  then show ?thesis using assms by (simp add: mod_mod_cancel)
qed

text \<open>The \<open>n\<close> entries from counter \<open>r\<close> on.\<close>

definition ring_list :: "'a list \<Rightarrow> u32 \<Rightarrow> nat \<Rightarrow> 'a list" where
  "ring_list buf r n = map (\<lambda>k. buf ! ((unat r + k) mod length buf)) [0..<n]"

lemma length_ring_list [simp]: "length (ring_list buf r n) = n"
  by (simp add: ring_list_def)

lemma ring_list_0 [simp]: "ring_list buf r 0 = []"
  by (simp add: ring_list_def)

lemma ring_list_Nil_iff: "ring_list buf r n = [] \<longleftrightarrow> n = 0"
  by (simp add: ring_list_def)

lemma add_mod_inj_le:
  fixes a k n N :: nat
  assumes "(a + n) mod N = (a + k) mod N" and "n < N" and "k \<le> n"
  shows "n = k"
proof -
  have "N dvd n - k" using assms(1,3) by (simp add: mod_eq_dvd_iff_nat)
  with assms(2,3) show ?thesis by (metis diff_is_0_eq' diff_le_self dvd_imp_le le_antisym le_trans not_less zero_less_diff)
qed

lemma add_mod_inj:
  fixes a k n N :: nat
  shows "(a + k) mod N = (a + n) mod N \<Longrightarrow> k < N \<Longrightarrow> n < N \<Longrightarrow> k = n"
  using add_mod_inj_le [of a n N k] add_mod_inj_le [of a k N n] by linarith

lemma ring_list_put:
  assumes "i = (unat r + n) mod length buf" and "n < length buf"
  shows "ring_list (buf[i := x]) r (Suc n) = ring_list buf r n @ [x]"
proof -
  have "i \<noteq> (unat r + k) mod length buf" if "k < n" for k
    using that assms add_mod_inj [of "unat r" k "length buf" n] by auto
  moreover have "i < length buf" using assms by (cases buf) auto
  ultimately show ?thesis by (auto simp: ring_list_def assms(1))
qed

lemma ring_list_get:
  assumes "length buf dvd 2 ^ 32"
  shows "ring_list buf r (Suc n) = buf ! (unat r mod length buf) # ring_list buf (r + 1) n"
proof -
  have "(unat (r + 1) + k) mod length buf = (unat r + Suc k) mod length buf" for k
  proof -
    have "(unat (r + 1) mod length buf + k) mod length buf = ((unat r + 1) mod length buf + k) mod length buf"
      using unat_counter [OF assms, of r 1] by simp
    then show ?thesis by (simp add: mod_add_left_eq)
  qed
  moreover have "[0..<Suc n] = 0 # map Suc [0..<n]" by (simp add: upt_conv_Cons map_Suc_upt del: upt_Suc)
  ultimately show ?thesis by (simp add: ring_list_def comp_def del: upt_Suc)
qed

subsection \<open>Bounded queues\<close>

text \<open>
  What a client of a bounded queue relies on: \<open>abs\<close> is the sequence of queued elements,
  \<open>put\<close> adds at the end unless the queue is full, \<open>get\<close> takes from the front unless it is
  empty.
\<close>

locale bounded_fifo =
  fixes inv :: "'s \<Rightarrow> bool" and abs :: "'s \<Rightarrow> 'a list" and put :: "'a \<Rightarrow> 's \<Rightarrow> 's"
    and get :: "'s \<Rightarrow> 'a \<times> 's" and full :: "'s \<Rightarrow> bool" and empty :: "'s \<Rightarrow> bool" and cap :: nat
  assumes full_iff: "inv s \<Longrightarrow> full s \<longleftrightarrow> length (abs s) = cap"
    and empty_iff: "inv s \<Longrightarrow> empty s \<longleftrightarrow> abs s = []"
    and bounded: "inv s \<Longrightarrow> length (abs s) \<le> cap"
    and put_inv: "inv s \<Longrightarrow> \<not> full s \<Longrightarrow> inv (put x s)"
    and put_abs: "inv s \<Longrightarrow> \<not> full s \<Longrightarrow> abs (put x s) = abs s @ [x]"
    and get_inv: "inv s \<Longrightarrow> \<not> empty s \<Longrightarrow> inv (snd (get s))"
    and get_abs: "inv s \<Longrightarrow> \<not> empty s \<Longrightarrow> abs s = fst (get s) # abs (snd (get s))"
begin

text \<open>Filling the queue as far as it goes, and draining up to \<open>n\<close> elements.\<close>

fun fill :: "'a list \<Rightarrow> 's \<Rightarrow> 'a list \<times> 's" where
  "fill [] s = ([], s)"
| "fill (x # xs) s = (if full s then (x # xs, s) else fill xs (put x s))"

fun drain :: "nat \<Rightarrow> 's \<Rightarrow> 'a list \<times> 's" where
  "drain 0 s = ([], s)"
| "drain (Suc n) s = (if empty s then ([], s)
     else case get s of (x, s) \<Rightarrow> case drain n s of (xs, s) \<Rightarrow> (x # xs, s))"

lemma fill_spec:
  "inv s \<Longrightarrow> fill xs s = (rest, t) \<Longrightarrow>
   inv t \<and> (\<exists>ys. xs = ys @ rest \<and> abs t = abs s @ ys) \<and> (rest \<noteq> [] \<longrightarrow> full t)"
proof (induction xs s arbitrary: rest t rule: fill.induct)
  case (2 x xs s)
  show ?case
  proof (cases "full s")
    case False
    with 2 have "inv t \<and> (\<exists>ys. xs = ys @ rest \<and> abs t = abs (put x s) @ ys) \<and> (rest \<noteq> [] \<longrightarrow> full t)"
      by (simp add: put_inv)
    with False 2 show ?thesis by (auto simp: put_abs)
  qed (use 2 in auto)
qed simp

lemma drain_spec:
  "inv s \<Longrightarrow> drain n s = (ys, t) \<Longrightarrow>
   inv t \<and> abs s = ys @ abs t \<and> length ys = min n (length (abs s))"
proof (induction n arbitrary: s ys t)
  case (Suc n)
  show ?case
  proof (cases "empty s")
    case True
    with Suc.prems show ?thesis by (auto simp: empty_iff)
  next
    case False
    obtain x s' where g: "get s = (x, s')" by fastforce
    obtain zs u where d: "drain n s' = (zs, u)" by fastforce
    have s': "inv s'" "abs s = x # abs s'"
      using get_inv [OF Suc.prems(1) False] get_abs [OF Suc.prems(1) False] g by simp_all
    have "ys = x # zs" "t = u" using Suc.prems(2) False g d by simp_all
    with Suc.IH [OF s'(1) d] s'(2) show ?thesis by (metis append_Cons length_Cons min_Suc_Suc)
  qed
qed simp

end

end
