(* ===== verification/Pipe.thy ===== *)
theory Pipe
  imports Ring
begin

text \<open>
  The pipe of \<open>pipe.c\<close>. The body of \<open>pipewrite\<close> and \<open>piperead\<close> runs under the pipe's spin
  lock and is left only by returning or by \<open>sleep\<close>, which gives the lock up; each function here is
  one such stretch, from entering the function or waking up to the next return or sleep. Any
  number of readers and writers then take stretches in any order.
\<close>

subsection \<open>State\<close>

record pipe =
  pdata :: "u8 list"
  nread :: u32
  nwrite :: u32
  readopen :: bool
  writeopen :: bool

definition PIPESIZE :: u32 where "PIPESIZE = 512"

text \<open>
  How a stretch ends: a return with a value, or sleep with the bytes still to be written. The
  list holds the channels the stretch has woken up.
\<close>

datatype pipe_end = Ret int | Sleep

subsection \<open>Operations\<close>

definition pipe_init :: "u8 list \<Rightarrow> pipe" where
  "pipe_init garbage =
     \<lparr>pdata = garbage, nread = 0, nwrite = 0, readopen = True, writeopen = True\<rparr>"

definition pipe_put :: "u8 \<Rightarrow> pipe \<Rightarrow> pipe" where
  "pipe_put x p =
     p\<lparr>pdata := (pdata p)[unat (nwrite p mod PIPESIZE) := x], nwrite := nwrite p + 1\<rparr>"

definition pipe_get :: "pipe \<Rightarrow> u8 \<times> pipe" where
  "pipe_get p = (pdata p ! unat (nread p mod PIPESIZE), p\<lparr>nread := nread p + 1\<rparr>)"

definition pipe_full :: "pipe \<Rightarrow> bool" where
  "pipe_full p \<longleftrightarrow> nwrite p = nread p + PIPESIZE"

definition pipe_empty :: "pipe \<Rightarrow> bool" where
  "pipe_empty p \<longleftrightarrow> nread p = nwrite p"

text \<open>
  \<open>pipewrite k killed n rest p\<close>: \<open>rest\<close> are the bytes of the caller's buffer from index \<open>i\<close> on,
  \<open>n\<close> is the caller's count. The result is the end of the stretch, the bytes still to go, the
  channels woken, and the pipe.
\<close>

fun pipewrite :: "nat \<Rightarrow> bool \<Rightarrow> int \<Rightarrow> u8 list \<Rightarrow> pipe \<Rightarrow> pipe_end \<times> u8 list \<times> chan list \<times> pipe" where
  "pipewrite k killed n [] p = (Ret n, [], [ChanPipeRead k], p)"
| "pipewrite k killed n (x # rest) p =
     (if pipe_full p
      then if \<not> readopen p \<or> killed then (Ret (-1), x # rest, [], p)
           else (Sleep, x # rest, [ChanPipeRead k], p)
      else pipewrite k killed n rest (pipe_put x p))"

fun piperead_copy :: "nat \<Rightarrow> pipe \<Rightarrow> u8 list \<times> pipe" where
  "piperead_copy 0 p = ([], p)"
| "piperead_copy (Suc n) p =
     (if pipe_empty p then ([], p)
      else case pipe_get p of (x, p) \<Rightarrow> case piperead_copy n p of (xs, p) \<Rightarrow> (x # xs, p))"

definition piperead :: "nat \<Rightarrow> bool \<Rightarrow> int \<Rightarrow> pipe \<Rightarrow> pipe_end \<times> u8 list \<times> chan list \<times> pipe" where
  "piperead k killed n p =
     (if pipe_empty p \<and> writeopen p
      then if killed then (Ret (-1), [], [], p) else (Sleep, [], [], p)
      else case piperead_copy (nat n) p of (xs, p) \<Rightarrow>
             (Ret (int (length xs)), xs, [ChanPipeWrite k], p))"

text \<open>\<open>pipeclose\<close>: the last component says whether the page of the pipe is freed.\<close>

definition pipeclose :: "nat \<Rightarrow> bool \<Rightarrow> pipe \<Rightarrow> chan list \<times> pipe \<times> bool" where
  "pipeclose k writable p =
     (let (w, p) = (if writable then ([ChanPipeRead k], p\<lparr>writeopen := False\<rparr>)
                    else ([ChanPipeWrite k], p\<lparr>readopen := False\<rparr>))
      in (w, p, \<not> readopen p \<and> \<not> writeopen p))"

subsection \<open>The pipe is a bounded queue\<close>

definition pipe_ok :: "pipe \<Rightarrow> bool" where
  "pipe_ok p \<longleftrightarrow> length (pdata p) = 512 \<and> unat (nwrite p - nread p) \<le> 512"

definition contents :: "pipe \<Rightarrow> u8 list" where
  "contents p = ring_list (pdata p) (nread p) (unat (nwrite p - nread p))"

lemma pipe_slot: "unat ((w::u32) mod PIPESIZE) = unat w mod 512"
  using unat_mod_dvd [of 512 w] by (simp add: PIPESIZE_def)

lemma counter_gap: "unat (b + 1 - a :: u32) = Suc (unat (b - a))" if "unat (b - a) < 2 ^ 32 - 1"
  using that unat_add_small [of "b - a" 1] by (simp add: algebra_simps)

lemma counter_full: "unat (b - a :: u32) = 512 \<longleftrightarrow> b = a + PIPESIZE"
proof -
  have "unat (512 :: u32) = 512" by simp
  then have "unat (b - a) = 512 \<longleftrightarrow> b - a = 512" by (metis word_unat_eq_iff)
  then show ?thesis by (auto simp: PIPESIZE_def algebra_simps)
qed

lemma pipe_full_iff: "pipe_full p \<longleftrightarrow> length (contents p) = 512"
  by (simp add: pipe_full_def contents_def counter_full)

lemma pipe_empty_iff: "pipe_empty p \<longleftrightarrow> contents p = []"
  by (auto simp: pipe_empty_def contents_def ring_list_Nil_iff unat_eq_0)

lemma pipe_not_full: "pipe_ok p \<Longrightarrow> \<not> pipe_full p \<Longrightarrow> unat (nwrite p - nread p) < 512"
  using counter_full [of "nwrite p" "nread p"] by (auto simp: pipe_ok_def pipe_full_def)

lemma pipe_put_ok: "pipe_ok p \<Longrightarrow> \<not> pipe_full p \<Longrightarrow> pipe_ok (pipe_put x p)"
  using pipe_not_full [of p] by (auto simp: pipe_ok_def pipe_put_def counter_gap)

lemma pipe_put_contents:
  assumes "pipe_ok p" and "\<not> pipe_full p"
  shows "contents (pipe_put x p) = contents p @ [x]"
proof -
  let ?n = "unat (nwrite p - nread p)"
  have len: "length (pdata p) = 512" and n: "?n < 512"
    using assms pipe_not_full by (auto simp: pipe_ok_def)
  have "nwrite p = nread p + of_nat ?n" by simp
  then have "unat (nwrite p mod PIPESIZE) = (unat (nread p) + ?n) mod length (pdata p)"
    using unat_counter [of 512 "nread p" ?n] by (simp add: pipe_slot len)
  from ring_list_put [OF this] n len show ?thesis
    by (simp add: contents_def pipe_put_def counter_gap)
qed

lemma pipe_get_ok: "pipe_ok p \<Longrightarrow> \<not> pipe_empty p \<Longrightarrow> pipe_ok (snd (pipe_get p))"
  and pipe_get_contents: "pipe_ok p \<Longrightarrow> \<not> pipe_empty p \<Longrightarrow>
    contents p = fst (pipe_get p) # contents (snd (pipe_get p))"
proof -
  assume p: "pipe_ok p" "\<not> pipe_empty p"
  let ?n = "unat (nwrite p - (nread p + 1))"
  have "nwrite p - nread p \<noteq> 0" using p(2) by (auto simp: pipe_empty_def)
  then have "unat (nwrite p - nread p) = Suc (unat (nwrite p - nread p - 1))"
    using unat_minus_one [of "nwrite p - nread p"] unat_gt_0 [of "nwrite p - nread p"] by linarith
  then have n: "unat (nwrite p - nread p) = Suc ?n" by (simp add: diff_diff_eq)
  from p(1) have len: "length (pdata p) = 512" by (simp add: pipe_ok_def)
  from p n show "pipe_ok (snd (pipe_get p))" by (simp add: pipe_ok_def pipe_get_def)
  from ring_list_get [of "pdata p" "nread p" ?n] len
  show "contents p = fst (pipe_get p) # contents (snd (pipe_get p))"
    by (simp add: contents_def pipe_get_def n pipe_slot)
qed

interpretation pq: bounded_fifo pipe_ok contents pipe_put pipe_get pipe_full pipe_empty 512
proof unfold_locales
  show "length (contents p) \<le> 512" if "pipe_ok p" for p
    using that by (simp add: contents_def pipe_ok_def)
qed (rule pipe_full_iff pipe_empty_iff pipe_put_ok pipe_put_contents pipe_get_ok pipe_get_contents; assumption)+

lemma piperead_copy_drain: "piperead_copy n p = pq.drain n p"
  by (induction n p rule: piperead_copy.induct) (auto split: prod.splits)

lemma pipewrite_fill:
  "pipewrite k killed n xs p =
     (case pq.fill xs p of (rest, p) \<Rightarrow>
        if rest = [] then (Ret n, [], [ChanPipeRead k], p)
        else if \<not> readopen p \<or> killed then (Ret (-1), rest, [], p)
        else (Sleep, rest, [ChanPipeRead k], p))"
  by (induction xs arbitrary: p) simp_all

lemma fill_flags: "pq.fill xs p = (rest, t) \<Longrightarrow> readopen t = readopen p \<and> writeopen t = writeopen p"
  by (induction xs arbitrary: p) (auto simp: pipe_put_def split: if_splits)

lemma drain_flags: "pq.drain n p = (ys, t) \<Longrightarrow> readopen t = readopen p \<and> writeopen t = writeopen p"
  by (induction n arbitrary: p ys t) (auto simp: pipe_get_def split: if_splits prod.splits)

lemma pipewrite_spec:
  assumes "pipe_ok p" and "pipewrite k killed n xs p = (e, rest, wk, t)"
  shows "pipe_ok t" and "contents t = contents p @ take (length xs - length rest) xs"
    and "readopen t = readopen p" and "writeopen t = writeopen p"
    and "wk = [ChanPipeRead k] \<or> wk = [] \<and> pipe_full t \<and> (\<not> readopen p \<or> killed)"
    and "e = Sleep \<Longrightarrow> pipe_full t \<and> readopen t"
proof -
  obtain r u where f: "pq.fill xs p = (r, u)" by fastforce
  from pq.fill_spec [OF assms(1) f] obtain ys where ys: "pipe_ok u" "xs = ys @ r"
    "contents u = contents p @ ys" "r \<noteq> [] \<longrightarrow> pipe_full u" by auto
  from f assms(2) have r: "t = u" "rest = r"
    by (auto simp: pipewrite_fill split: if_splits)
  with ys show "pipe_ok t" "contents t = contents p @ take (length xs - length rest) xs" by auto
  from r fill_flags [OF f] show "readopen t = readopen p" "writeopen t = writeopen p" by auto
  from f assms(2) r ys(4) fill_flags [OF f]
  show "wk = [ChanPipeRead k] \<or> wk = [] \<and> pipe_full t \<and> (\<not> readopen p \<or> killed)"
    and "e = Sleep \<Longrightarrow> pipe_full t \<and> readopen t"
    by (auto simp: pipewrite_fill split: if_splits)
qed

lemma piperead_spec:
  assumes "pipe_ok p" and "piperead k killed n p = (e, xs, wk, t)"
  shows "pipe_ok t" and "contents p = xs @ contents t"
    and "readopen t = readopen p" and "writeopen t = writeopen p"
    and "wk = [ChanPipeWrite k] \<or> wk = [] \<and> t = p \<and> pipe_empty p \<and> writeopen p"
    and "e = Sleep \<Longrightarrow> t = p \<and> pipe_empty p \<and> writeopen p"
    and "e = Ret r \<Longrightarrow> \<not> killed \<Longrightarrow> r = int (length xs) \<and> length xs = min (nat n) (length (contents p))
           \<and> (pipe_empty p \<longrightarrow> \<not> writeopen p)"
proof -
  obtain ys u where d: "pq.drain (nat n) p = (ys, u)" by fastforce
  from pq.drain_spec [OF assms(1) d] drain_flags [OF d] have s: "pipe_ok u" "contents p = ys @ contents u"
    "readopen u = readopen p" "writeopen u = writeopen p" and len: "length ys = min (nat n) (length (contents p))"
    by blast+
  have c: "pipe_empty p \<and> writeopen p \<and> t = p \<and> xs = [] \<and> wk = [] \<and> e = (if killed then Ret (-1) else Sleep) \<or>
    \<not> (pipe_empty p \<and> writeopen p) \<and> t = u \<and> xs = ys \<and> wk = [ChanPipeWrite k] \<and> e = Ret (int (length ys))"
    using assms(2) d by (auto simp: piperead_def piperead_copy_drain split: if_splits)
  from c s assms(1) show "pipe_ok t" "contents p = xs @ contents t"
    "readopen t = readopen p" "writeopen t = writeopen p" by auto
  from c show "wk = [ChanPipeWrite k] \<or> wk = [] \<and> t = p \<and> pipe_empty p \<and> writeopen p"
    and "e = Sleep \<Longrightarrow> t = p \<and> pipe_empty p \<and> writeopen p" by auto
  assume "e = Ret r" "\<not> killed"
  with c have "xs = ys" "r = int (length ys)" "\<not> (pipe_empty p \<and> writeopen p)" by auto
  with len show "r = int (length xs) \<and> length xs = min (nat n) (length (contents p))
           \<and> (pipe_empty p \<longrightarrow> \<not> writeopen p)" by blast
qed

subsection \<open>Readers and writers\<close>

text \<open>
  A pipe with the channel each process sleeps on, the bytes ever accepted from writers and the
  bytes ever handed to readers.
\<close>

record psys =
  sp :: pipe
  asleep :: "nat \<Rightarrow> chan option"
  accepted :: "u8 list"
  delivered :: "u8 list"

definition wake :: "chan list \<Rightarrow> (nat \<Rightarrow> chan option) \<Rightarrow> nat \<Rightarrow> chan option" where
  "wake wk a i = (case a i of Some ch \<Rightarrow> if ch \<in> set wk then None else Some ch | None \<Rightarrow> None)"

definition nap :: "nat \<Rightarrow> pipe_end \<Rightarrow> chan \<Rightarrow> (nat \<Rightarrow> chan option) \<Rightarrow> nat \<Rightarrow> chan option" where
  "nap i e ch a = (if e = Sleep then a(i := Some ch) else a)"

text \<open>
  Stretches of readers, writers and closers, and \<open>kill\<close>. \<open>kills\<close> says whether a process that
  is marked killed may still write. An end is closed when the last descriptor of it is, so no
  process sleeps in it then.
\<close>

inductive pipe_step :: "nat \<Rightarrow> bool \<Rightarrow> psys \<Rightarrow> psys \<Rightarrow> bool" for k :: nat and kills :: bool where
  ps_write: "asleep s i = None \<Longrightarrow> writeopen (sp s) \<Longrightarrow> (killed \<longrightarrow> kills) \<Longrightarrow>
     pipewrite k killed n xs (sp s) = (e, rest, wk, p) \<Longrightarrow>
     pipe_step k kills s (s\<lparr>sp := p, accepted := accepted s @ take (length xs - length rest) xs,
       asleep := nap i e (ChanPipeWrite k) (wake wk (asleep s))\<rparr>)"
| ps_read: "asleep s i = None \<Longrightarrow> readopen (sp s) \<Longrightarrow>
     piperead k killed n (sp s) = (e, xs, wk, p) \<Longrightarrow>
     pipe_step k kills s (s\<lparr>sp := p, delivered := delivered s @ xs,
       asleep := nap i e (ChanPipeRead k) (wake wk (asleep s))\<rparr>)"
| ps_close: "(\<forall>i. asleep s i \<noteq> Some (if w then ChanPipeWrite k else ChanPipeRead k)) \<Longrightarrow>
     pipeclose k w (sp s) = (wk, p, freed) \<Longrightarrow>
     pipe_step k kills s (s\<lparr>sp := p, asleep := wake wk (asleep s)\<rparr>)"
| ps_kill: "pipe_step k kills s (s\<lparr>asleep := (asleep s)(i := None)\<rparr>)"

definition psys_init :: "psys \<Rightarrow> bool" where
  "psys_init s \<longleftrightarrow> (\<exists>g. length g = 512 \<and> sp s = pipe_init g) \<and> (\<forall>i. asleep s i = None)
     \<and> accepted s = [] \<and> delivered s = []"

definition fifo_inv :: "psys \<Rightarrow> bool" where
  "fifo_inv s \<longleftrightarrow> pipe_ok (sp s) \<and> accepted s = delivered s @ contents (sp s)"

definition sleep_inv :: "nat \<Rightarrow> psys \<Rightarrow> bool" where
  "sleep_inv k s \<longleftrightarrow> fifo_inv s \<and> (\<forall>i.
     (asleep s i = Some (ChanPipeRead k) \<longrightarrow> pipe_empty (sp s) \<and> writeopen (sp s) \<and> readopen (sp s)) \<and>
     (asleep s i = Some (ChanPipeWrite k) \<longrightarrow> pipe_full (sp s) \<and> readopen (sp s)))"

lemma pipeclose_contents:
  assumes "pipeclose k w p = (wk, t, f)"
  shows "contents t = contents p" "pipe_ok t = pipe_ok p" "pipe_full t = pipe_full p" "pipe_empty t = pipe_empty p"
    "wk = [if w then ChanPipeRead k else ChanPipeWrite k]"
    "readopen t = (readopen p \<and> w)" "writeopen t = (writeopen p \<and> \<not> w)"
  using assms by (auto simp: pipeclose_def contents_def pipe_ok_def pipe_full_def pipe_empty_def split: if_splits)

lemma fifo_step: "pipe_step k kills s t \<Longrightarrow> fifo_inv s \<Longrightarrow> fifo_inv t"
proof (induction rule: pipe_step.induct)
  case (ps_write s i killed n xs e rest wk p)
  then show ?case using pipewrite_spec(1,2) [OF _ ps_write(4)] by (simp add: fifo_inv_def)
next
  case (ps_read s i killed n e xs wk p)
  then show ?case using piperead_spec(1,2) [OF _ ps_read(3)] by (simp add: fifo_inv_def)
next
  case (ps_close s w wk p freed)
  then show ?case using pipeclose_contents [OF ps_close(2)] by (simp add: fifo_inv_def)
qed (simp add: fifo_inv_def)

lemma psys_init_fifo: "psys_init s \<Longrightarrow> fifo_inv s"
  by (auto simp: psys_init_def fifo_inv_def pipe_init_def pipe_ok_def contents_def)

interpretation fifo: transition_system psys_init "pipe_step k kills" fifo_inv for k kills
  by unfold_locales (blast intro: psys_init_fifo fifo_step)+

lemma wake_Some: "wake wk a i = Some ch \<longleftrightarrow> a i = Some ch \<and> ch \<notin> set wk"
  by (auto simp: wake_def split: option.splits)

lemma nap_Some: "nap i e c a j = Some ch \<longleftrightarrow> (if e = Sleep \<and> j = i then ch = c else a j = Some ch)"
  by (auto simp: nap_def)

lemma sleep_step: "pipe_step k False s t \<Longrightarrow> sleep_inv k s \<Longrightarrow> sleep_inv k t"
proof (induction rule: pipe_step.induct)
  case (ps_write s i killed n xs e rest wk p)
  from ps_write have ok: "pipe_ok (sp s)" and kf: "\<not> killed" by (auto simp: sleep_inv_def fifo_inv_def)
  note w = pipewrite_spec [OF ok ps_write(4)]
  have "fifo_inv (s\<lparr>sp := p, accepted := accepted s @ take (length xs - length rest) xs,
       asleep := nap i e (ChanPipeWrite k) (wake wk (asleep s))\<rparr>)"
    using pipe_step.ps_write [OF ps_write(1-4)] ps_write(5) by (blast intro: fifo_step dest: sleep_inv_def [THEN iffD1])
  moreover have "wk = [ChanPipeRead k] \<or> pipe_full p \<and> \<not> readopen p" using w(3,5) kf by auto
  moreover have "contents p = contents (sp s) \<or> \<not> pipe_full (sp s)"
    using w(1,2) pq.bounded [of p] by (auto simp: pipe_full_iff)
  ultimately show ?case using ps_write(5) w(3,4,6)
    by (auto simp: sleep_inv_def nap_Some wake_Some pipe_full_iff split: if_splits)
next
  case (ps_read s i killed n e xs wk p)
  from ps_read have ok: "pipe_ok (sp s)" by (auto simp: sleep_inv_def fifo_inv_def)
  note r = piperead_spec [OF ok ps_read(3)]
  have "fifo_inv (s\<lparr>sp := p, delivered := delivered s @ xs,
       asleep := nap i e (ChanPipeRead k) (wake wk (asleep s))\<rparr>)"
    using pipe_step.ps_read [OF ps_read(1-3)] ps_read(4) by (blast intro: fifo_step dest: sleep_inv_def [THEN iffD1])
  moreover have "pipe_empty p" if "pipe_empty (sp s)" using that r(2) by (auto simp: pipe_empty_iff)
  ultimately show ?case using ps_read(2,4) r(3-6)
    by (auto simp: sleep_inv_def nap_Some wake_Some split: if_splits)
next
  case (ps_close s w wk p freed)
  note c = pipeclose_contents [OF ps_close(2)]
  from ps_close c show ?case
    by (cases w) (auto simp: sleep_inv_def fifo_inv_def wake_Some)
qed (auto simp: sleep_inv_def fifo_inv_def)

interpretation nap: transition_system psys_init "pipe_step k False" "sleep_inv k" for k
proof unfold_locales
  show "sleep_inv k s" if "psys_init s" for s
    using that psys_init_fifo by (auto simp: sleep_inv_def psys_init_def)
qed (blast intro: sleep_step)

subsection \<open>Properties\<close>

definition demo_psys :: psys where
  "demo_psys = \<lparr>sp = pipe_init (replicate 512 0), asleep = (\<lambda>_. None), accepted = [], delivered = []\<rparr>"

text \<open>Process 5 tries to read from the empty pipe and sleeps.\<close>

definition demo_read :: psys where
  "demo_read = demo_psys\<lparr>asleep := (\<lambda>_. None)(5 := Some (ChanPipeRead 0))\<rparr>"

text \<open>Then process 6 writes three bytes.\<close>

definition demo_wrote :: psys where
  "demo_wrote = demo_read\<lparr>sp := pipe_put 9 (pipe_put 8 (pipe_put 7 (sp demo_psys))), accepted := [7, 8, 9],
     asleep := wake [ChanPipeRead 0] (asleep demo_read)\<rparr>"

lemma demo_read_reachable: "reachable psys_init (pipe_step 0 kills) demo_read"
proof -
  have "reachable psys_init (pipe_step 0 kills) demo_psys"
    by (rule reach_init) (auto simp: psys_init_def demo_psys_def intro!: exI [of _ "replicate 512 0"])
  moreover have "pipe_step 0 kills demo_psys (demo_psys\<lparr>sp := sp demo_psys, delivered := delivered demo_psys @ [],
       asleep := nap 5 Sleep (ChanPipeRead 0) (wake [] (asleep demo_psys))\<rparr>)"
    by (rule ps_read [where killed = False and n = 4])
      (simp_all add: demo_psys_def pipe_init_def piperead_def pipe_empty_def)
  moreover have "demo_psys\<lparr>sp := sp demo_psys, delivered := delivered demo_psys @ [],
       asleep := nap 5 Sleep (ChanPipeRead 0) (wake [] (asleep demo_psys))\<rparr> = demo_read"
    by (simp add: demo_read_def demo_psys_def nap_def wake_def fun_eq_iff)
  ultimately show ?thesis by (metis reach_step)
qed

lemma demo_wrote_reachable: "reachable psys_init (pipe_step 0 kills) demo_wrote"
proof -
  have "pipewrite 0 False 3 [7, 8, 9] (sp demo_read) =
      (Ret 3, [], [ChanPipeRead 0], pipe_put 9 (pipe_put 8 (pipe_put 7 (sp demo_psys))))"
    by (simp add: demo_read_def demo_psys_def pipe_init_def pipe_full_def pipe_put_def PIPESIZE_def)
  from ps_write [OF _ _ _ this, of 6 kills]
  have "pipe_step 0 kills demo_read demo_wrote"
    by (simp add: demo_wrote_def demo_read_def demo_psys_def pipe_init_def nap_def)
  with demo_read_reachable show ?thesis by (rule reach_step)
qed

text \<open>
  C7. A pipe loses, duplicates and reorders nothing: in every interleaving of any number of readers,
  writers, closers and kills, the bytes accepted from the writers are, in order, the bytes handed to
  the readers followed by the bytes in the buffer, and the buffer never holds more than 512, also
  when the 32-bit counters wrap around.
\<close>

theorem pipe_is_fifo:
  assumes "reachable psys_init (pipe_step k kills) s"
  shows "accepted s = delivered s @ contents (sp s) \<and> length (contents (sp s)) \<le> 512"
  using fifo.reachable_inv [OF assms] pq.bounded by (simp add: fifo_inv_def)

theorem pipe_is_fifo_witness: "contents (sp demo_wrote) = [7, 8, 9]"
  using pipe_is_fifo [OF demo_wrote_reachable] by (simp add: demo_wrote_def demo_read_def demo_psys_def)

text \<open>
  C39. No wake-up of a pipe is lost as long as no killed process writes to it: a process that sleeps
  in \<open>piperead\<close> has nothing to read and may still be sent something, and a process that sleeps in
  \<open>pipewrite\<close> has no room to write and a reader may still make some.
\<close>

theorem pipe_no_lost_wakeup:
  assumes "reachable psys_init (pipe_step k False) s"
  shows "(asleep s i = Some (ChanPipeRead k) \<longrightarrow> contents (sp s) = [] \<and> writeopen (sp s)) \<and>
    (asleep s i = Some (ChanPipeWrite k) \<longrightarrow> length (contents (sp s)) = 512 \<and> readopen (sp s))"
  using nap.reachable_inv [OF assms] by (simp add: sleep_inv_def pipe_empty_iff pipe_full_iff)

theorem pipe_no_lost_wakeup_witness:
  "asleep demo_read 5 = Some (ChanPipeRead 0) \<and> contents (sp demo_read) = [] \<and> writeopen (sp demo_read)"
  using pipe_no_lost_wakeup [OF demo_read_reachable, of 5] by (simp add: demo_read_def)

text \<open>
  A killed writer can strand a reader: when a process that is marked killed writes more than fits
  into an empty pipe, the call fills the buffer and returns \<open>-1\<close> without waking anybody, so a reader
  that was asleep stays asleep although 512 bytes are waiting for it.
\<close>

theorem pipe_killed_writer_strands_reader:
  assumes "pipe_ok p" and "pipe_empty p" and "512 < length xs"
  shows "\<exists>t. pipewrite k True n xs p = (Ret (-1), drop 512 xs, [], t) \<and> contents t = take 512 xs"
proof -
  obtain r u where f: "pq.fill xs p = (r, u)" by fastforce
  from pq.fill_spec [OF assms(1) f] obtain ys where ys: "pipe_ok u" "xs = ys @ r"
    "contents u = contents p @ ys" "r \<noteq> [] \<longrightarrow> pipe_full u" by auto
  have "contents u = ys" using ys(3) assms(2) by (simp add: pipe_empty_iff)
  moreover have "r \<noteq> []" using ys(1,2) calculation assms(3) pq.bounded [of u] by auto
  ultimately have "length ys = 512" using ys(4) by (simp add: pipe_full_iff)
  with \<open>contents u = ys\<close> \<open>r \<noteq> []\<close> ys(2) f show ?thesis by (simp add: pipewrite_fill)
qed

theorem pipe_killed_writer_strands_reader_witness:
  "\<exists>t. pipewrite 0 True 600 (replicate 600 7) (sp demo_read) = (Ret (-1), replicate 88 7, [], t) \<and>
     contents t = replicate 512 7"
proof -
  have "pipe_ok (sp demo_read)" "pipe_empty (sp demo_read)"
    by (simp_all add: demo_read_def demo_psys_def pipe_init_def pipe_ok_def pipe_empty_def)
  from pipe_killed_writer_strands_reader [OF this, of "replicate 600 7" 0 600] show ?thesis by simp
qed

text \<open>
  \<open>piperead\<close> that returns to a process that is not killed returns as many bytes as are there, at
  most the count asked for; so 0 for a positive count means that the pipe is empty and that nobody can
  write any more.
\<close>

theorem piperead_returns_available:
  assumes "pipe_ok p" and "piperead k False n p = (Ret r, xs, wk, t)"
  shows "r = int (length xs) \<and> xs = take (nat n) (contents p) \<and> contents t = drop (nat n) (contents p)
    \<and> (0 < n \<and> r = 0 \<longrightarrow> contents p = [] \<and> \<not> writeopen p)"
proof -
  from piperead_spec(7) [OF assms refl] have r: "r = int (length xs)" and
    len: "length xs = min (nat n) (length (contents p))" and c: "pipe_empty p \<longrightarrow> \<not> writeopen p" by auto
  from piperead_spec(2) [OF assms] have "xs = take (length xs) (contents p)" "contents t = drop (length xs) (contents p)"
    by simp_all
  moreover have "take (length xs) (contents p) = take (nat n) (contents p)"
    "drop (length xs) (contents p) = drop (nat n) (contents p)" using len by (auto simp: min_def)
  moreover have "contents p = [] \<and> \<not> writeopen p" if "0 < n" "r = 0"
    using that len r c by (auto simp: pipe_empty_iff min_def split: if_splits)
  ultimately show ?thesis using r by auto
qed

theorem piperead_returns_available_witness:
  "\<exists>t. piperead 0 False 2 (sp demo_wrote) = (Ret 2, [7, 8], [ChanPipeWrite 0], t) \<and> contents t = [9]"
proof -
  have c: "contents (sp demo_wrote) = [7, 8, 9]" "pipe_ok (sp demo_wrote)"
    using fifo.reachable_inv [OF demo_wrote_reachable]
    by (simp_all add: fifo_inv_def demo_wrote_def demo_read_def demo_psys_def)
  obtain e xs wk t where r: "piperead 0 False 2 (sp demo_wrote) = (e, xs, wk, t)" by (metis prod_cases4)
  have "\<not> pipe_empty (sp demo_wrote)" using c by (simp add: pipe_empty_iff)
  with r have e: "e = Ret (int (length xs))" "wk = [ChanPipeWrite 0]"
    by (auto simp: piperead_def split: prod.splits)
  from piperead_returns_available [OF c(2) r [unfolded e]] c r e show ?thesis by auto
qed

end
