(* ===== verification/Sleeplock.thy ===== *)
theory Sleeplock
  imports Prelude
begin

text \<open>
  The sleep locks of \<open>sleeplock.c\<close>. Each stretch of code between two sleeps runs under the inner
  spin lock and is one step; processes are named by their ids.
\<close>

record sleeplock =
  sl_locked :: bool
  sl_pid :: u32

datatype sl_end = Got | Wait

definition initsleeplock :: sleeplock where
  "initsleeplock = \<lparr>sl_locked = False, sl_pid = 0\<rparr>"

definition acquiresleep :: "u32 \<Rightarrow> sleeplock \<Rightarrow> sl_end \<times> sleeplock" where
  "acquiresleep pid lk =
     (if sl_locked lk then (Wait, lk) else (Got, lk\<lparr>sl_locked := True, sl_pid := pid\<rparr>))"

text \<open>The second component is whether the sleepers are woken.\<close>

definition releasesleep :: "sleeplock \<Rightarrow> sleeplock \<times> bool" where
  "releasesleep lk = (lk\<lparr>sl_locked := False, sl_pid := 0\<rparr>, True)"

definition holdingsleep :: "u32 \<Rightarrow> sleeplock \<Rightarrow> bool" where
  "holdingsleep pid lk \<longleftrightarrow> sl_locked lk \<and> sl_pid lk = pid"

subsection \<open>One lock, any number of processes\<close>

datatype slpc = SlOut | SlAsleep | SlRetry | SlIn

type_synonym sl_state = "sleeplock \<times> (u32 \<Rightarrow> slpc)"

inductive sl_step :: "sl_state \<Rightarrow> sl_state \<Rightarrow> bool" where
  sl_got: "pc i = SlOut \<or> pc i = SlRetry \<Longrightarrow> acquiresleep i lk = (Got, lk') \<Longrightarrow>
     sl_step (lk, pc) (lk', pc(i := SlIn))"
| sl_wait: "pc i = SlOut \<or> pc i = SlRetry \<Longrightarrow> acquiresleep i lk = (Wait, lk') \<Longrightarrow>
     sl_step (lk, pc) (lk', pc(i := SlAsleep))"
| sl_release: "pc i = SlIn \<Longrightarrow> holdingsleep i lk \<Longrightarrow> releasesleep lk = (lk', w) \<Longrightarrow>
     sl_step (lk, pc) (lk', \<lambda>j. if j = i then SlOut else if w \<and> pc j = SlAsleep then SlRetry else pc j)"

definition sl_init :: "sl_state \<Rightarrow> bool" where
  "sl_init s \<longleftrightarrow> fst s = initsleeplock \<and> (\<forall>i. snd s i = SlOut)"

definition sl_inv :: "sl_state \<Rightarrow> bool" where
  "sl_inv s \<longleftrightarrow>
     (\<forall>i. snd s i = SlIn \<longrightarrow> sl_locked (fst s) \<and> sl_pid (fst s) = i) \<and>
     (\<forall>i. snd s i = SlAsleep \<longrightarrow> sl_locked (fst s)) \<and>
     (sl_locked (fst s) \<longrightarrow> snd s (sl_pid (fst s)) = SlIn)"

lemma sl_inv_free: "sl_inv (lk, pc) \<Longrightarrow> \<not> sl_locked lk \<Longrightarrow> pc j \<noteq> SlIn \<and> pc j \<noteq> SlAsleep"
  by (auto simp: sl_inv_def)

lemma sl_step_inv: "sl_step s t \<Longrightarrow> sl_inv s \<Longrightarrow> sl_inv t"
proof (induction rule: sl_step.induct)
  case (sl_got pc i lk lk')
  then have "\<not> sl_locked lk" "lk' = lk\<lparr>sl_locked := True, sl_pid := i\<rparr>"
    by (simp_all add: acquiresleep_def split: if_splits)
  with sl_inv_free [OF sl_got(3)] show ?case by (simp add: sl_inv_def)
next
  case (sl_wait pc i lk lk')
  then have "sl_locked lk" "lk' = lk" by (simp_all add: acquiresleep_def split: if_splits)
  with sl_wait(1,3) show ?case by (simp add: sl_inv_def) (metis slpc.distinct)
next
  case (sl_release pc i lk lk' w)
  then have "lk' = lk\<lparr>sl_locked := False, sl_pid := 0\<rparr>" "w" by (simp_all add: releasesleep_def)
  with sl_release(1,4) show ?case by (simp add: sl_inv_def) metis
qed

interpretation sl: mutex sl_init sl_step sl_inv "\<lambda>s i. snd s i = SlIn"
  "\<lambda>s. if sl_locked (fst s) then Some (sl_pid (fst s)) else None"
proof unfold_locales
  show "sl_init s \<Longrightarrow> sl_inv s" for s by (simp add: sl_init_def sl_inv_def initsleeplock_def)
  show "sl_inv s \<Longrightarrow> sl_step s t \<Longrightarrow> sl_inv t" for s t by (rule sl_step_inv)
qed (simp add: sl_inv_def)

subsection \<open>Properties\<close>

text \<open>Process 3 has the lock and process 4 waits for it.\<close>

lemma demo_sl_reachable:
  "reachable sl_init sl_step (\<lparr>sl_locked = True, sl_pid = 3\<rparr>, (\<lambda>_. SlOut)(3 := SlIn, 4 := SlAsleep))"
proof -
  have "reachable sl_init sl_step (initsleeplock, \<lambda>_. SlOut)" by (rule reach_init) (simp add: sl_init_def)
  moreover have "sl_step (initsleeplock, \<lambda>_. SlOut) (\<lparr>sl_locked = True, sl_pid = 3\<rparr>, (\<lambda>_. SlOut)(3 := SlIn))"
    by (rule sl_got) (simp_all add: acquiresleep_def initsleeplock_def)
  moreover have "sl_step (\<lparr>sl_locked = True, sl_pid = 3\<rparr>, (\<lambda>_. SlOut)(3 := SlIn))
      (\<lparr>sl_locked = True, sl_pid = 3\<rparr>, ((\<lambda>_. SlOut)(3 := SlIn))(4 := SlAsleep))"
    by (rule sl_wait) (simp_all add: acquiresleep_def)
  ultimately show ?thesis by (meson reach_step)
qed

text \<open>
  A sleep lock excludes: at most one process is between \<open>acquiresleep\<close> and \<open>releasesleep\<close>, that
  process sees \<open>holdingsleep\<close> true and no other does, and nobody sleeps on a lock that is free.
\<close>

theorem sleeplock_excludes:
  assumes "reachable sl_init sl_step (lk, pc)"
  shows "(pc i = SlIn \<and> pc j = SlIn \<longrightarrow> i = j) \<and> (holdingsleep i lk \<longleftrightarrow> pc i = SlIn) \<and>
    (pc i = SlAsleep \<longrightarrow> (\<exists>h. pc h = SlIn))"
  using sl.mutual_exclusion [OF assms, of i j] sl.reachable_inv [OF assms]
  by (auto simp: sl_inv_def holdingsleep_def)

theorem sleeplock_excludes_witness:
  "\<not> holdingsleep 4 \<lparr>sl_locked = True, sl_pid = 3\<rparr> \<and> holdingsleep 3 \<lparr>sl_locked = True, sl_pid = 3\<rparr>"
  using sleeplock_excludes [OF demo_sl_reachable, of 4 3] sleeplock_excludes [OF demo_sl_reachable, of 3 3]
  by simp

end
