(* ===== verification/Bytes.thy ===== *)
theory Bytes
  imports Prelude
begin

text \<open>
  Little-endian 16- and 32-bit fields of byte arrays, as the kernel reads and writes them through
  casts of block and page contents to C structures.
\<close>

definition get16 :: "u8 list \<Rightarrow> nat \<Rightarrow> u16" where
  "get16 bs i = ucast (bs ! i) OR push_bit 8 (ucast (bs ! (i + 1)))"

definition put16 :: "nat \<Rightarrow> u16 \<Rightarrow> u8 list \<Rightarrow> u8 list" where
  "put16 i w bs = bs[i := ucast w, i + 1 := ucast (drop_bit 8 w)]"

definition get32 :: "u8 list \<Rightarrow> nat \<Rightarrow> u32" where
  "get32 bs i = ucast (bs ! i) OR push_bit 8 (ucast (bs ! (i + 1)))
     OR push_bit 16 (ucast (bs ! (i + 2))) OR push_bit 24 (ucast (bs ! (i + 3)))"

definition put32 :: "nat \<Rightarrow> u32 \<Rightarrow> u8 list \<Rightarrow> u8 list" where
  "put32 i w bs = bs[i := ucast w, i + 1 := ucast (drop_bit 8 w),
     i + 2 := ucast (drop_bit 16 w), i + 3 := ucast (drop_bit 24 w)]"

lemma length_put [simp]: "length (put16 i w bs) = length bs" "length (put32 i v bs) = length bs"
  by (simp_all add: put16_def put32_def)

lemma join16: "ucast (ucast w :: u8) OR push_bit 8 (ucast (ucast (drop_bit 8 w) :: u8)) = (w :: u16)"
  by (rule bit_word_eqI) (auto simp: bit_simps not_less)

lemma join32:
  "ucast (ucast w :: u8) OR push_bit 8 (ucast (ucast (drop_bit 8 w) :: u8))
     OR push_bit 16 (ucast (ucast (drop_bit 16 w) :: u8)) OR push_bit 24 (ucast (ucast (drop_bit 24 w) :: u8)) = (w :: u32)"
  (is "?l = w")
proof (rule bit_word_eqI)
  fix n
  assume "n < LENGTH(32)"
  consider "n < 8" | "8 \<le> n" "n < 16" | "16 \<le> n" "n < 24" | "24 \<le> n" by linarith
  then show "bit ?l n = bit w n"
    using \<open>n < LENGTH(32)\<close> by cases (auto simp: bit_simps)
qed

lemma get16_put16 [mem_simps]: "i + 1 < length bs \<Longrightarrow> get16 (put16 i w bs) i = w"
  by (simp add: get16_def put16_def join16)

lemma get32_put32 [mem_simps]: "i + 3 < length bs \<Longrightarrow> get32 (put32 i w bs) i = w"
  by (simp add: get32_def put32_def join32)

lemma put_nth_other:
  "j < i \<or> i + 1 < j \<Longrightarrow> put16 i w bs ! j = bs ! j" "j < i \<or> i + 3 < j \<Longrightarrow> put32 i v bs ! j = bs ! j"
  by (auto simp: put16_def put32_def)

lemma get_put_other:
  "j + 3 < i \<or> i + 3 < j \<Longrightarrow> get32 (put32 i w bs) j = get32 bs j"
  "j + 1 < i \<or> i + 3 < j \<Longrightarrow> get16 (put32 i w bs) j = get16 bs j"
  "j + 3 < i \<or> i + 1 < j \<Longrightarrow> get32 (put16 i v bs) j = get32 bs j"
  "j + 1 < i \<or> i + 1 < j \<Longrightarrow> get16 (put16 i v bs) j = get16 bs j"
  by (auto simp: get32_def get16_def put_nth_other)

subsection \<open>Arrays of 32-bit words\<close>

fun put32s :: "nat \<Rightarrow> u32 list \<Rightarrow> u8 list \<Rightarrow> u8 list" where
  "put32s i [] bs = bs"
| "put32s i (w # ws) bs = put32s (i + 4) ws (put32 i w bs)"

lemma length_put32s [simp]: "length (put32s i ws bs) = length bs"
  by (induction i ws bs rule: put32s.induct) simp_all

lemma get32_put32s_before: "j + 3 < i \<Longrightarrow> get32 (put32s i ws bs) j = get32 bs j"
  by (induction i ws bs rule: put32s.induct) (simp_all add: get_put_other)

lemma get32_put32s:
  "k < length ws \<Longrightarrow> i + 4 * length ws \<le> length bs \<Longrightarrow> get32 (put32s i ws bs) (i + 4 * k) = ws ! k"
proof (induction i ws bs arbitrary: k rule: put32s.induct)
  case (2 i w ws bs)
  show ?case
  proof (cases k)
    case 0
    with 2 show ?thesis by (simp add: get32_put32s_before get32_put32)
  next
    case (Suc m)
    with 2(1) [of m] 2(2-) show ?thesis by (simp add: algebra_simps)
  qed
qed simp

lemma put32s_nth_other:
  "p < i \<or> i + 4 * length ws \<le> p \<Longrightarrow> put32s i ws bs ! p = bs ! p"
  by (induction i ws bs rule: put32s.induct) (auto simp: put_nth_other)

lemma get16_put32s_before: "j + 1 < i \<Longrightarrow> get16 (put32s i ws bs) j = get16 bs j"
  by (simp add: get16_def put32s_nth_other)

end
