(* ===== verification/Log.thy ===== *)
theory Log
  imports Bytes
begin

text \<open>
  The write-ahead log of \<open>log.c\<close>. A disk is a function from block numbers to block contents; the
  buffer cache appears through the contract of \<open>bio.c\<close>: a block reads as its buffer if it has one,
  \<open>bwrite\<close> makes a buffer durable, and a buffer that has been passed to \<open>log_write\<close> stays in memory
  until it is written. The disk writes are recorded in order, so that a crash is a prefix of them.
\<close>

type_synonym block = "u8 list"
type_synonym diskfun = "u32 \<Rightarrow> block"

definition BSIZE :: nat where "BSIZE = 512"
definition MAXOPBLOCKS :: int where "MAXOPBLOCKS = 10"
definition LOGSIZE :: int where "LOGSIZE = 30"

subsection \<open>State\<close>

text \<open>
  The in-memory header \<open>log.lh\<close> is the list of its first \<open>n\<close> entries.
\<close>

record logst =
  disk :: diskfun
  cache :: "u32 \<rightharpoonup> block"
  wr :: "(u32 \<times> block) list"
  lstart :: u32
  lsize :: int
  outstanding :: int
  committing :: bool
  lh :: "u32 list"

definition bview :: "logst \<Rightarrow> u32 \<Rightarrow> block" where
  "bview s b = (case cache s b of None \<Rightarrow> disk s b | Some x \<Rightarrow> x)"

definition bwrite_block :: "u32 \<Rightarrow> block \<Rightarrow> logst \<Rightarrow> logst" where
  "bwrite_block b x s = s\<lparr>disk := (disk s)(b := x), cache := (cache s)(b \<mapsto> x), wr := wr s @ [(b, x)]\<rparr>"

subsection \<open>Operations\<close>

fun install_trans :: "u32 \<Rightarrow> u32 list \<Rightarrow> logst \<Rightarrow> logst" where
  "install_trans t [] s = s"
| "install_trans t (b # bs) s = install_trans (t + 1) bs (bwrite_block b (bview s t) s)"

definition head_blocks :: "block \<Rightarrow> u32 list" where
  "head_blocks x = map (\<lambda>i. get32 x (4 + 4 * i)) [0..<unat (get32 x 0)]"

text \<open>A count that does not fit the in-memory array makes \<open>read_head\<close> run past it.\<close>

definition read_head :: "logst \<Rightarrow> logst kres" where
  "read_head s =
     (let x = bview s (lstart s) in
      if sint (get32 x 0) \<le> 0 then Inr (s\<lparr>lh := []\<rparr>)
      else if LOGSIZE < sint (get32 x 0) then Inl (Fault ''log header'')
      else Inr (s\<lparr>lh := head_blocks x\<rparr>))"

definition head_block :: "u32 list \<Rightarrow> block \<Rightarrow> block" where
  "head_block bs x = put32s 4 bs (put32 0 (of_nat (length bs)) x)"

definition write_head :: "logst \<Rightarrow> logst" where
  "write_head s = bwrite_block (lstart s) (head_block (lh s) (bview s (lstart s))) s"

definition recover_from_log :: "logst \<Rightarrow> logst kres" where
  "recover_from_log s =
     kbind (read_head s) (\<lambda>s.
       let s = install_trans (lstart s + 1) (lh s) s
       in Inr (write_head (s\<lparr>lh := []\<rparr>)))"

text \<open>\<open>initlog\<close> after \<open>readsb\<close>: the two fields come from the superblock.\<close>

definition initlog :: "u32 \<Rightarrow> u32 \<Rightarrow> logst \<Rightarrow> logst kres" where
  "initlog logstart nlog s = recover_from_log (s\<lparr>lstart := logstart, lsize := sint nlog\<rparr>)"

definition begin_op :: "logst \<Rightarrow> logst kres" where
  "begin_op s =
     (if committing s then Inl (Block ChanLog)
      else if LOGSIZE < int (length (lh s)) + (outstanding s + 1) * MAXOPBLOCKS then Inl (Block ChanLog)
      else Inr (s\<lparr>outstanding := outstanding s + 1\<rparr>))"

fun write_log :: "u32 \<Rightarrow> u32 list \<Rightarrow> logst \<Rightarrow> logst" where
  "write_log t [] s = s"
| "write_log t (b # bs) s = write_log (t + 1) bs (bwrite_block t (bview s b) s)"

definition commit :: "logst \<Rightarrow> logst" where
  "commit s =
     (if lh s \<noteq> [] then
        let s = write_log (lstart s + 1) (lh s) s;
            s = write_head s;
            s = install_trans (lstart s + 1) (lh s) s
        in write_head (s\<lparr>lh := []\<rparr>)
      else s)"

text \<open>The part of \<open>end_op\<close> before the commit; the flag is \<open>do_commit\<close>.\<close>

definition end_op_begin :: "logst \<Rightarrow> (bool \<times> logst) kres" where
  "end_op_begin s =
     (let s = s\<lparr>outstanding := outstanding s - 1\<rparr> in
      if committing s then Inl (Panic ''log.committing'')
      else if outstanding s = 0 then Inr (True, s\<lparr>committing := True\<rparr>)
      else Inr (False, s))"

definition end_op :: "logst \<Rightarrow> logst kres" where
  "end_op s =
     kbind (end_op_begin s) (\<lambda>(do_commit, s).
       Inr (if do_commit then (commit s)\<lparr>committing := False\<rparr> else s))"

text \<open>\<open>log_write\<close> of the buffer of block \<open>b\<close>, which the caller has just filled with \<open>x\<close>.\<close>

definition log_write :: "u32 \<Rightarrow> block \<Rightarrow> logst \<Rightarrow> logst kres" where
  "log_write b x s =
     (let s = s\<lparr>cache := (cache s)(b \<mapsto> x)\<rparr> in
      if LOGSIZE \<le> int (length (lh s)) \<or> lsize s - 1 \<le> int (length (lh s))
      then Inl (Panic ''too big a transaction'')
      else if outstanding s < 1 then Inl (Panic ''log_write outside of trans'')
      else Inr (if b \<in> set (lh s) then s else s\<lparr>lh := lh s @ [b]\<rparr>))"

subsection \<open>The header block\<close>

lemma length_head_block [simp]: "length (head_block bs x) = length x"
  by (simp add: head_block_def)

lemma head_block_n: "3 < length x \<Longrightarrow> get32 (head_block bs x) 0 = of_nat (length bs)"
  by (simp add: head_block_def get32_put32s_before get32_put32)

lemma head_blocks_head_block:
  assumes "length x = BSIZE" and "length bs \<le> 30"
  shows "head_blocks (head_block bs x) = bs"
proof -
  have "unat (of_nat (length bs) :: u32) = length bs"
    using assms(2) by (simp add: unat_of_nat take_bit_nat_eq_self)
  moreover have "get32 (head_block bs x) (4 + 4 * i) = bs ! i" if "i < length bs" for i
    unfolding head_block_def by (rule get32_put32s) (use that assms in \<open>simp_all add: BSIZE_def\<close>)
  moreover have "get32 (head_block bs x) 0 = of_nat (length bs)"
    using assms(1) by (simp add: head_block_n BSIZE_def)
  ultimately show ?thesis by (intro nth_equalityI) (simp_all add: head_blocks_def)
qed

subsection \<open>Sequences of disk writes\<close>

definition apply_writes :: "(u32 \<times> block) list \<Rightarrow> diskfun \<Rightarrow> diskfun" where
  "apply_writes ws d = fold (\<lambda>(b, x) d. d(b := x)) ws d"

definition emit :: "(u32 \<times> block) list \<Rightarrow> logst \<Rightarrow> logst" where
  "emit ws s = fold (\<lambda>(b, x). bwrite_block b x) ws s"

lemma apply_writes_simps [simp]:
  "apply_writes [] d = d" "apply_writes ((b, x) # ws) d = apply_writes ws (d(b := x))"
  "apply_writes (us @ ws) d = apply_writes ws (apply_writes us d)"
  by (simp_all add: apply_writes_def)

lemma emit_simps [simp]:
  "emit [] s = s" "emit ((b, x) # ws) s = emit ws (bwrite_block b x s)"
  by (simp_all add: emit_def)

lemma emit_append: "emit us (emit ws s) = emit (ws @ us) s"
  by (simp add: emit_def)

lemma bview_bwrite [simp]: "bview (bwrite_block b x s) = (bview s)(b := x)"
  by (rule ext) (simp add: bview_def bwrite_block_def split: option.split)

lemma bwrite_fields [simp]:
  "disk (bwrite_block b x s) = (disk s)(b := x)" "wr (bwrite_block b x s) = wr s @ [(b, x)]"
  "lh (bwrite_block b x s) = lh s" "lstart (bwrite_block b x s) = lstart s"
  "lsize (bwrite_block b x s) = lsize s" "outstanding (bwrite_block b x s) = outstanding s"
  "committing (bwrite_block b x s) = committing s"
  "(bwrite_block b x s)\<lparr>lh := bs\<rparr> = bwrite_block b x (s\<lparr>lh := bs\<rparr>)"
  by (simp_all add: bwrite_block_def)

lemma emit_fields [simp]:
  "disk (emit ws s) = apply_writes ws (disk s)" "bview (emit ws s) = apply_writes ws (bview s)"
  "wr (emit ws s) = wr s @ ws" "lh (emit ws s) = lh s" "lstart (emit ws s) = lstart s"
  "lsize (emit ws s) = lsize s" "outstanding (emit ws s) = outstanding s" "committing (emit ws s) = committing s"
  by (induction ws arbitrary: s) (auto simp: fun_upd_def)

lemma bwrite_emit: "bwrite_block b x (emit ws s) = emit (ws @ [(b, x)]) s"
  using emit_append [of "[(b, x)]" ws s] by simp

lemma bview_lh [simp]: "bview (s\<lparr>lh := bs\<rparr>) = bview s"
  by (simp add: bview_def fun_eq_iff split: option.split)

lemma emit_lh: "(emit ws s)\<lparr>lh := bs\<rparr> = emit ws (s\<lparr>lh := bs\<rparr>)"
  by (induction ws arbitrary: s) auto

text \<open>A property of the disk after every prefix of the writes.\<close>

fun along :: "(diskfun \<Rightarrow> bool) \<Rightarrow> (u32 \<times> block) list \<Rightarrow> diskfun \<Rightarrow> bool" where
  "along P [] d \<longleftrightarrow> P d"
| "along P ((b, x) # ws) d \<longleftrightarrow> P d \<and> along P ws (d(b := x))"

lemma along_take: "along P ws d \<Longrightarrow> P (apply_writes (take k ws) d)"
proof (induction P ws d arbitrary: k rule: along.induct)
  case (2 P b x ws d)
  then show ?case by (cases k) (auto simp: fun_upd_def)
qed simp

lemma along_append: "along P (us @ ws) d \<longleftrightarrow> along P us d \<and> along P ws (apply_writes us d)"
proof (induction P us d rule: along.induct)
  case (1 P d)
  then show ?case by (cases ws) auto
qed (simp add: fun_upd_def)

lemma along_mono: "along P ws d \<Longrightarrow> (\<And>e. P e \<Longrightarrow> Q e) \<Longrightarrow> along Q ws d"
  by (induction P ws d rule: along.induct) auto

text \<open>The writes of \<open>write_log\<close> and \<open>install_trans\<close>.\<close>

fun log_ws :: "u32 \<Rightarrow> u32 list \<Rightarrow> diskfun \<Rightarrow> (u32 \<times> block) list" where
  "log_ws t [] v = []"
| "log_ws t (b # bs) v = (t, v b) # log_ws (t + 1) bs v"

fun inst_ws :: "u32 \<Rightarrow> u32 list \<Rightarrow> diskfun \<Rightarrow> (u32 \<times> block) list" where
  "inst_ws t [] v = []"
| "inst_ws t (b # bs) v = (b, v t) # inst_ws (t + 1) bs v"

definition slots :: "u32 \<Rightarrow> nat \<Rightarrow> u32 set" where
  "slots t n = (\<lambda>i. t + of_nat i) ` {..<n}"

lemma slots_simps [simp]: "slots t 0 = {}" "slots t (Suc n) = insert t (slots (t + 1) n)"
proof -
  show "slots t 0 = {}" by (simp add: slots_def)
  have "{..<Suc n} = insert 0 (Suc ` {..<n})" by (simp add: lessThan_Suc_eq_insert_0)
  then show "slots t (Suc n) = insert t (slots (t + 1) n)"
    by (simp add: slots_def image_image add.assoc)
qed

lemma log_ws_cong: "(\<And>b. b \<in> set bs \<Longrightarrow> v b = v' b) \<Longrightarrow> log_ws t bs v = log_ws t bs v'"
  by (induction bs arbitrary: t) auto

lemma inst_ws_cong: "(\<And>b. b \<in> slots t (length bs) \<Longrightarrow> v b = v' b) \<Longrightarrow> inst_ws t bs v = inst_ws t bs v'"
  by (induction bs arbitrary: t) auto

lemma write_log_emit:
  "slots t (length bs) \<inter> set bs = {} \<Longrightarrow> write_log t bs s = emit (log_ws t bs (bview s)) s"
proof (induction bs arbitrary: t s)
  case (Cons b bs)
  let ?s = "bwrite_block t (bview s b) s"
  have "write_log (t + 1) bs ?s = emit (log_ws (t + 1) bs (bview ?s)) ?s"
    using Cons.prems by (intro Cons.IH) auto
  moreover have "log_ws (t + 1) bs (bview ?s) = log_ws (t + 1) bs (bview s)"
    using Cons.prems by (intro log_ws_cong) auto
  ultimately show ?case by simp
qed simp

lemma install_trans_emit:
  "slots t (length bs) \<inter> set bs = {} \<Longrightarrow> install_trans t bs s = emit (inst_ws t bs (bview s)) s"
proof (induction bs arbitrary: t s)
  case (Cons b bs)
  let ?s = "bwrite_block b (bview s t) s"
  have "install_trans (t + 1) bs ?s = emit (inst_ws (t + 1) bs (bview ?s)) ?s"
    using Cons.prems by (intro Cons.IH) auto
  moreover have "inst_ws (t + 1) bs (bview ?s) = inst_ws (t + 1) bs (bview s)"
    using Cons.prems by (intro inst_ws_cong) auto
  ultimately show ?case by simp
qed simp

subsection \<open>What a disk means\<close>

text \<open>
  The blocks a disk holds once recovery has run: the committed transaction in the log, if there is
  one, laid over the rest.
\<close>

fun overlay :: "u32 \<Rightarrow> u32 list \<Rightarrow> diskfun \<Rightarrow> diskfun" where
  "overlay t [] d = d"
| "overlay t (b # bs) d = (overlay (t + 1) bs d)(b := d t)"

definition disk_blocks :: "u32 \<Rightarrow> diskfun \<Rightarrow> u32 list" where
  "disk_blocks st d = (if sint (get32 (d st) 0) \<le> 0 then [] else head_blocks (d st))"

definition logical :: "u32 \<Rightarrow> diskfun \<Rightarrow> diskfun" where
  "logical st d = overlay (st + 1) (disk_blocks st d) d"

definition log_area :: "u32 \<Rightarrow> u32 set" where
  "log_area st = slots st 31"

definition disk_ok :: "u32 \<Rightarrow> diskfun \<Rightarrow> bool" where
  "disk_ok st d \<longleftrightarrow> (\<forall>b. length (d b) = BSIZE) \<and> sint (get32 (d st) 0) \<le> 30 \<and>
     distinct (disk_blocks st d) \<and> set (disk_blocks st d) \<inter> log_area st = {}"

lemma slots_mono: "m \<le> n \<Longrightarrow> slots t m \<subseteq> slots t n"
  by (auto simp: slots_def)

lemma log_area_eq: "log_area st = insert st (slots (st + 1) 30)"
  using slots_simps(2) [of st 30] by (simp add: log_area_def)

lemma slots_log_area: "n \<le> 30 \<Longrightarrow> slots (st + 1) n \<subseteq> log_area st"
  using slots_mono [of n 30 "st + 1"] by (auto simp: log_area_eq)

lemma slots_fresh: "n \<le> 31 \<Longrightarrow> t \<notin> slots (t + 1) n"
proof
  assume n: "n \<le> 31" and "t \<in> slots (t + 1) n"
  then obtain i where "i < n" "t = t + 1 + of_nat i" by (auto simp: slots_def)
  then have "(1 + of_nat i :: u32) = 0" by (metis add.assoc add_cancel_right_right)
  moreover have "unat (1 + of_nat i :: u32) = 1 + i"
    using n \<open>i < n\<close> by (simp add: unat_word_ariths unat_of_nat)
  ultimately show False by simp
qed

lemma length_disk_blocks: "sint (get32 (d st) 0) \<le> 30 \<Longrightarrow> length (disk_blocks st d) \<le> 30"
  using unat_sint [of "get32 (d st) 0"] by (auto simp: disk_blocks_def head_blocks_def)

lemma overlay_out: "x \<notin> set bs \<Longrightarrow> overlay t bs d x = d x"
  by (induction bs arbitrary: t) auto

lemma overlay_cong:
  "(\<And>y. y \<in> slots t (length bs) \<Longrightarrow> d y = e y) \<Longrightarrow> (x \<notin> set bs \<Longrightarrow> d x = e x) \<Longrightarrow>
   overlay t bs d x = overlay t bs e x"
  by (induction bs arbitrary: t) auto

lemma overlay_upd:
  assumes "b \<in> set bs" and "b \<notin> slots t (length bs)"
  shows "overlay t bs (d(b := y)) = overlay t bs d"
  by (rule ext, rule overlay_cong) (use assms in auto)

lemma inst_ws_apply:
  assumes "distinct bs"
  shows "apply_writes (inst_ws t bs v) d x = (if x \<in> set bs then overlay t bs v x else d x)"
  using assms by (induction bs arbitrary: t d) auto

lemma log_ws_out: "x \<notin> slots t (length bs) \<Longrightarrow> apply_writes (log_ws t bs v) d x = d x"
  by (induction bs arbitrary: t d) auto

lemma overlay_log_ws:
  assumes "length bs \<le> 30" and "x \<in> set bs"
  shows "overlay t bs (apply_writes (log_ws t bs v) d) x = v x"
  using assms
proof (induction bs arbitrary: t d)
  case (Cons b bs)
  let ?d = "d(t := v b)"
  have "apply_writes (log_ws (t + 1) bs v) ?d t = v b"
    using slots_fresh [of "length bs" t] Cons.prems(1) by (simp add: log_ws_out)
  with Cons show ?case by auto
qed simp

subsection \<open>Recovery\<close>

lemma along_install:
  assumes "set bs \<subseteq> set bs0" and "set bs0 \<inter> slots t0 (length bs0) = {}" and "st \<notin> set bs0"
    and "\<And>b. length (v b) = BSIZE" and "\<And>b. length (d b) = BSIZE"
  shows "along (\<lambda>e. overlay t0 bs0 e = overlay t0 bs0 d \<and> e st = d st \<and> (\<forall>b. length (e b) = BSIZE))
    (inst_ws t bs v) d"
  using assms
proof (induction bs arbitrary: t d)
  case (Cons b bs)
  let ?d = "d(b := v t)"
  have "overlay t0 bs0 ?d = overlay t0 bs0 d"
    using Cons.prems(1,2) by (intro overlay_upd) auto
  moreover have "?d st = d st" using Cons.prems(1,3) by auto
  moreover have "along (\<lambda>e. overlay t0 bs0 e = overlay t0 bs0 ?d \<and> e st = ?d st \<and> (\<forall>b. length (e b) = BSIZE))
    (inst_ws (t + 1) bs v) ?d"
    using Cons.prems by (intro Cons.IH) auto
  ultimately show ?case using Cons.prems(5) by simp
qed simp

definition recover_ws :: "u32 \<Rightarrow> diskfun \<Rightarrow> (u32 \<times> block) list" where
  "recover_ws st d = inst_ws (st + 1) (disk_blocks st d) d @ [(st, head_block [] (d st))]"

lemma disk_blocks_cong: "e st = d st \<Longrightarrow> disk_blocks st e = disk_blocks st d"
  by (simp add: disk_blocks_def)

lemma disk_okD:
  assumes "disk_ok st d"
  shows "length (d b) = BSIZE" "length (disk_blocks st d) \<le> 30" "distinct (disk_blocks st d)"
    "st \<notin> set (disk_blocks st d)" "set (disk_blocks st d) \<inter> slots (st + 1) (length (disk_blocks st d)) = {}"
proof -
  show l: "length (disk_blocks st d) \<le> 30" using assms length_disk_blocks by (simp add: disk_ok_def)
  have "set (disk_blocks st d) \<inter> log_area st = {}" using assms by (simp add: disk_ok_def)
  with slots_log_area [OF l, of st] show "st \<notin> set (disk_blocks st d)"
    "set (disk_blocks st d) \<inter> slots (st + 1) (length (disk_blocks st d)) = {}"
    by (auto simp: log_area_eq)
qed (use assms in \<open>auto simp: disk_ok_def\<close>)

lemma recover_emit:
  assumes "disk_ok (lstart s) (disk s)" and "bview s = disk s"
  shows "recover_from_log s = Inr (emit (recover_ws (lstart s) (disk s)) (s\<lparr>lh := []\<rparr>))"
proof -
  let ?st = "lstart s" and ?bs = "disk_blocks (lstart s) (disk s)"
  note ok = disk_okD [OF assms(1)]
  have r: "read_head s = Inr (s\<lparr>lh := ?bs\<rparr>)"
    using assms by (simp add: read_head_def disk_blocks_def disk_ok_def LOGSIZE_def)
  have i: "install_trans (?st + 1) ?bs (s\<lparr>lh := ?bs\<rparr>) = emit (inst_ws (?st + 1) ?bs (disk s)) (s\<lparr>lh := ?bs\<rparr>)"
    using install_trans_emit [of "?st + 1" ?bs "s\<lparr>lh := ?bs\<rparr>"] ok(5) assms(2) by (simp add: Int_commute)
  have "apply_writes (inst_ws (?st + 1) ?bs (disk s)) (disk s) ?st = disk s ?st"
    using ok(3,4) by (simp add: inst_ws_apply)
  then show ?thesis
    by (simp add: recover_from_log_def r i Let_def write_head_def emit_lh assms(2) recover_ws_def bwrite_emit)
qed

lemma disk_blocks_erased: "length x = BSIZE \<Longrightarrow> disk_blocks st (d(st := head_block [] x)) = []"
  by (simp add: disk_blocks_def head_block_n BSIZE_def)

lemma erase_ok:
  assumes "\<forall>b. length (d b) = BSIZE" and "length x = BSIZE"
  shows "disk_ok st (d(st := head_block [] x))"
  using assms disk_blocks_erased [of x st d] by (simp add: disk_ok_def head_block_n BSIZE_def)

lemma logical_erased: "length x = BSIZE \<Longrightarrow> logical st (d(st := head_block [] x)) = d(st := head_block [] x)"
  by (simp add: logical_def disk_blocks_erased)

lemma recover_along:
  assumes "disk_ok st d"
  shows "along (\<lambda>e. disk_ok st e \<and> (\<forall>x. x \<notin> log_area st \<longrightarrow> logical st e x = logical st d x)) (recover_ws st d) d"
    and "x \<notin> log_area st \<Longrightarrow> apply_writes (recover_ws st d) d x = logical st d x"
    and "disk_blocks st (apply_writes (recover_ws st d) d) = []"
proof -
  let ?bs = "disk_blocks st d" and ?P = "\<lambda>e. disk_ok st e \<and> (\<forall>x. x \<notin> log_area st \<longrightarrow> logical st e x = logical st d x)"
  let ?i = "inst_ws (st + 1) ?bs d" and ?h = "head_block [] (d st)"
  note ok = disk_okD [OF assms]
  have "along (\<lambda>e. overlay (st + 1) ?bs e = overlay (st + 1) ?bs d \<and> e st = d st \<and> (\<forall>b. length (e b) = BSIZE)) ?i d"
    using ok by (intro along_install) auto
  then have a: "along ?P ?i d"
  proof (rule along_mono)
    fix e
    assume e: "overlay (st + 1) ?bs e = overlay (st + 1) ?bs d \<and> e st = d st \<and> (\<forall>b. length (e b) = BSIZE)"
    then have "disk_blocks st e = ?bs" using disk_blocks_cong by blast
    with e assms show "?P e" by (simp add: disk_ok_def logical_def)
  qed
  have inst: "apply_writes ?i d = logical st d"
    using ok(3) by (auto simp: fun_eq_iff inst_ws_apply logical_def overlay_out)
  from a along_take [of ?P ?i d "length ?i"] have p: "?P (logical st d)" by (simp add: inst)
  then have "\<forall>b. length (logical st d b) = BSIZE" by (simp add: disk_ok_def)
  then have b: "?P ((logical st d)(st := ?h))"
    using erase_ok [of "logical st d" "d st" st] ok(1) by (simp add: logical_erased log_area_eq)
  from a b p show "along ?P (recover_ws st d) d"
    unfolding recover_ws_def by (simp add: along_append inst)
  show "apply_writes (recover_ws st d) d x = logical st d x" if "x \<notin> log_area st"
    using that by (auto simp: recover_ws_def inst log_area_eq)
  show "disk_blocks st (apply_writes (recover_ws st d) d) = []"
    using ok(1) by (simp add: recover_ws_def inst disk_blocks_erased)
qed

subsection \<open>Commit\<close>

text \<open>
  Between commits: the blocks of the open transaction are distinct, fit into the log and lie outside
  of it, every other buffer agrees with the disk, and the log on disk is empty.
\<close>

definition txn_ok :: "logst \<Rightarrow> bool" where
  "txn_ok s \<longleftrightarrow> distinct (lh s) \<and> length (lh s) \<le> 30 \<and> set (lh s) \<inter> log_area (lstart s) = {} \<and>
     (\<forall>b. b \<notin> set (lh s) \<longrightarrow> bview s b = disk s b) \<and> (\<forall>b. length (bview s b) = BSIZE) \<and>
     disk_ok (lstart s) (disk s) \<and> disk_blocks (lstart s) (disk s) = []"

definition commit_ws :: "u32 \<Rightarrow> u32 list \<Rightarrow> diskfun \<Rightarrow> (u32 \<times> block) list" where
  "commit_ws st bs v =
     (let l = log_ws (st + 1) bs v; h = head_block bs (v st); v2 = (apply_writes l v)(st := h)
      in l @ [(st, h)] @ inst_ws (st + 1) bs v2 @ [(st, head_block [] h)])"

lemma apply_writes_cong: "d x = e x \<Longrightarrow> apply_writes ws d x = apply_writes ws e x"
proof (induction ws arbitrary: d e)
  case (Cons w ws)
  obtain b y where "w = (b, y)" by fastforce
  with Cons.prems Cons.IH [of "d(b := y)" "e(b := y)"] show ?case by (simp add: fun_upd_def)
qed simp

lemma along_log:
  assumes "slots t (length bs) \<subseteq> A" and "\<And>b. length (v b) = BSIZE" and "\<forall>b. length (d b) = BSIZE"
  shows "along (\<lambda>e. (\<forall>x. x \<notin> A \<longrightarrow> e x = d x) \<and> (\<forall>b. length (e b) = BSIZE)) (log_ws t bs v) d"
  using assms
proof (induction bs arbitrary: t d)
  case (Cons b bs)
  have "along (\<lambda>e. (\<forall>x. x \<notin> A \<longrightarrow> e x = (d(t := v b)) x) \<and> (\<forall>b. length (e b) = BSIZE)) (log_ws (t + 1) bs v) (d(t := v b))"
    using Cons.prems by (intro Cons.IH) auto
  then have "along (\<lambda>e. (\<forall>x. x \<notin> A \<longrightarrow> e x = d x) \<and> (\<forall>b. length (e b) = BSIZE)) (log_ws (t + 1) bs v) (d(t := v b))"
    by (rule along_mono) (use Cons.prems(1) in auto)
  with Cons.prems(3) show ?case by simp
qed simp

lemma txn_okD:
  assumes "txn_ok s"
  shows "lstart s \<notin> set (lh s)" "slots (lstart s + 1) (length (lh s)) \<inter> set (lh s) = {}"
    "x \<in> log_area (lstart s) \<Longrightarrow> bview s x = disk s x" "lstart s \<notin> slots (lstart s + 1) (length (lh s))"
    "slots (lstart s + 1) (length (lh s)) \<subseteq> log_area (lstart s)"
  using assms slots_log_area [of "length (lh s)" "lstart s"] slots_fresh [of "length (lh s)" "lstart s"]
  by (auto simp: txn_ok_def log_area_eq)

lemma commit_emit:
  assumes "txn_ok s" and "lh s \<noteq> []"
  shows "commit s = emit (commit_ws (lstart s) (lh s) (bview s)) (s\<lparr>lh := []\<rparr>)"
proof -
  let ?st = "lstart s" and ?bs = "lh s" and ?l = "log_ws (lstart s + 1) (lh s) (bview s)"
  let ?h = "head_block ?bs (bview s ?st)" and ?v2 = "(apply_writes ?l (bview s))(?st := head_block ?bs (bview s ?st))"
  note t = txn_okD [OF assms(1)]
  have w: "write_log (?st + 1) ?bs s = emit ?l s" by (rule write_log_emit [OF t(2)])
  have "write_head (emit ?l s) = emit (?l @ [(?st, ?h)]) s"
    using t(4) by (simp add: write_head_def log_ws_out bwrite_emit)
  moreover have "bview (emit (?l @ [(?st, ?h)]) s) = ?v2" by simp
  then have "install_trans (?st + 1) ?bs (emit (?l @ [(?st, ?h)]) s) =
      emit (inst_ws (?st + 1) ?bs ?v2) (emit (?l @ [(?st, ?h)]) s)"
    using install_trans_emit [OF t(2)] by metis
  moreover have "apply_writes (inst_ws (?st + 1) ?bs ?v2) ?v2 ?st = ?h"
    using assms(1) t(1) by (simp add: inst_ws_apply txn_ok_def)
  ultimately have "commit s = (emit (commit_ws ?st ?bs (bview s)) s)\<lparr>lh := []\<rparr>"
    using assms(2) by (simp add: commit_def w Let_def write_head_def commit_ws_def emit_append emit_lh bwrite_emit del: emit_simps)
  then show ?thesis by (simp add: emit_lh)
qed

lemma head_written:
  assumes "length x = BSIZE" and "length bs \<le> 30" and "bs \<noteq> []" and "e st = head_block bs x"
  shows "disk_blocks st e = bs" and "sint (get32 (e st) 0) \<le> 30"
proof -
  have u: "unat (of_nat (length bs) :: u32) = length bs"
    using assms(2) by (simp add: unat_of_nat)
  have g: "get32 (e st) 0 = of_nat (length bs)" using assms(1,4) by (simp add: head_block_n BSIZE_def)
  have "sint (of_nat (length bs) :: u32) = int (length bs)"
    using sint_small [of "of_nat (length bs)"] u assms(2) by simp
  with g assms show "disk_blocks st e = bs" "sint (get32 (e st) 0) \<le> 30"
    by (simp_all add: disk_blocks_def head_blocks_head_block)
qed

lemma commit_along:
  assumes "txn_ok s" and "lh s \<noteq> []"
  defines "st \<equiv> lstart s" and "ws \<equiv> commit_ws (lstart s) (lh s) (bview s)"
  shows "along (\<lambda>e. disk_ok st e \<and> ((\<forall>x. x \<notin> log_area st \<longrightarrow> logical st e x = disk s x) \<or>
      (\<forall>x. x \<notin> log_area st \<longrightarrow> logical st e x = bview s x))) ws (disk s)" (is "along ?P _ _")
    and "x \<notin> log_area st \<Longrightarrow> apply_writes ws (disk s) x = bview s x"
    and "disk_blocks st (apply_writes ws (disk s)) = []"
    and "disk_ok st (apply_writes ws (disk s))"
proof -
  let ?bs = "lh s" and ?v = "bview s" and ?d = "disk s"
  let ?l = "log_ws (st + 1) ?bs ?v" and ?h = "head_block ?bs (?v st)"
  let ?e1 = "apply_writes ?l ?d" and ?v2 = "(apply_writes ?l ?v)(st := ?h)"
  let ?e2 = "?e1(st := ?h)" and ?A = "slots (st + 1) (length ?bs)"
  note t = txn_okD [OF assms(1), folded st_def]
  have tx: "distinct ?bs" "length ?bs \<le> 30" "set ?bs \<inter> log_area st = {}" "\<And>b. b \<notin> set ?bs \<Longrightarrow> ?v b = ?d b"
    "\<And>b. length (?v b) = BSIZE" "disk_ok st ?d" "disk_blocks st ?d = []"
    using assms(1) by (auto simp: txn_ok_def st_def)
  have len: "\<forall>b. length (?d b) = BSIZE" using tx(6) by (simp add: disk_ok_def)
  have al: "along (\<lambda>e. (\<forall>x. x \<notin> ?A \<longrightarrow> e x = ?d x) \<and> (\<forall>b. length (e b) = BSIZE)) ?l ?d"
    by (rule along_log) (use tx(5) len in auto)
  then have a: "along ?P ?l ?d"
  proof (rule along_mono)
    fix e
    assume e: "(\<forall>x. x \<notin> ?A \<longrightarrow> e x = ?d x) \<and> (\<forall>b. length (e b) = BSIZE)"
    then have "e st = ?d st" using t(4) by simp
    with disk_blocks_cong tx(7) have "disk_blocks st e = []" by metis
    with e \<open>e st = ?d st\<close> tx(6) t(5) show "?P e" by (auto simp: disk_ok_def logical_def)
  qed
  have len1: "\<forall>b. length (?e1 b) = BSIZE" using along_take [OF al, of "length ?l"] by simp
  have hd: "disk_blocks st ?e2 = ?bs" "sint (get32 (?e2 st) 0) \<le> 30"
    using head_written [of "?v st" ?bs ?e2 st] tx(2,5) assms(2) by simp_all
  have ok2: "disk_ok st ?e2" using hd tx(1,3,5) len1 by (simp add: disk_ok_def)
  have log2: "logical st ?e2 x = ?v x" if "x \<notin> log_area st" for x
  proof (cases "x \<in> set ?bs")
    case True
    have "overlay (st + 1) ?bs ?e2 x = overlay (st + 1) ?bs ?e1 x"
      by (rule overlay_cong) (use t(4) True in auto)
    with True tx(2) show ?thesis by (simp add: logical_def hd(1) overlay_log_ws)
  next
    case False
    have "x \<notin> ?A" "x \<noteq> st" using that t(5) by (auto simp: log_area_eq)
    with False tx(4) show ?thesis by (simp add: logical_def hd(1) overlay_out log_ws_out)
  qed
  have rest: "inst_ws (st + 1) ?bs ?v2 @ [(st, head_block [] ?h)] = recover_ws st ?e2"
  proof -
    have "?v2 y = ?e2 y" if "y \<in> ?A" for y
      using that t(3,5) apply_writes_cong [of ?v y ?d ?l] by auto
    then have "inst_ws (st + 1) ?bs ?v2 = inst_ws (st + 1) ?bs ?e2" by (intro inst_ws_cong) auto
    with hd(1) show ?thesis by (simp add: recover_ws_def)
  qed
  have ws: "ws = ?l @ (st, ?h) # recover_ws st ?e2"
    using rest by (simp add: ws_def commit_ws_def Let_def st_def)
  note r = recover_along [OF ok2]
  from r(1) log2 have b: "along ?P (recover_ws st ?e2) ?e2"
    by (elim along_mono) auto
  have "?P ?e1" using along_take [OF a, of "length ?l"] by simp
  with a b show "along ?P ws ?d" by (simp add: ws along_append)
  show "apply_writes ws ?d x = ?v x" if "x \<notin> log_area st"
    using that r(2) log2 by (simp add: ws)
  show "disk_blocks st (apply_writes ws ?d) = []" using r(3) by (simp add: ws)
  show "disk_ok st (apply_writes ws ?d)"
    using along_take [OF r(1), of "length (recover_ws st ?e2)"] by (simp add: ws)
qed

lemma commit_txn_ok:
  assumes "txn_ok s"
  shows "txn_ok (commit s)" and "x \<notin> log_area (lstart s) \<Longrightarrow> disk (commit s) x = bview s x"
    and "lh (commit s) = []" "lstart (commit s) = lstart s" "lsize (commit s) = lsize s"
    "outstanding (commit s) = outstanding s"
proof -
  have "txn_ok (commit s) \<and> (x \<notin> log_area (lstart s) \<longrightarrow> disk (commit s) x = bview s x) \<and> lh (commit s) = [] \<and>
     lstart (commit s) = lstart s \<and> lsize (commit s) = lsize s \<and> outstanding (commit s) = outstanding s"
  proof (cases "lh s = []")
    case True
    with assms show ?thesis by (auto simp: commit_def txn_ok_def)
  next
    case False
    let ?ws = "commit_ws (lstart s) (lh s) (bview s)"
    note c = commit_along [OF assms False]
    have e: "commit s = emit ?ws (s\<lparr>lh := []\<rparr>)" by (rule commit_emit [OF assms False])
    have v: "apply_writes ?ws (bview s) b = apply_writes ?ws (disk s) b" for b
    proof (cases "b \<in> set (lh s)")
      case True
      have w: "apply_writes (inst_ws t bs u) f b = apply_writes (inst_ws t bs u) g b" if "b \<in> set bs" "distinct bs" for t bs u f g
        using that by (simp add: inst_ws_apply)
      have "b \<noteq> lstart s" using True txn_okD(1) [OF assms] by auto
      with True assms show ?thesis by (simp add: commit_ws_def Let_def w txn_ok_def inst_ws_apply)
    next
      case False
      with assms show ?thesis by (intro apply_writes_cong) (simp add: txn_ok_def)
    qed
    have "disk_ok (lstart s) (apply_writes ?ws (disk s))" by (rule c(4))
    with c(2,3) v show ?thesis by (simp add: e txn_ok_def disk_okD(1) fun_eq_iff)
  qed
  then show "txn_ok (commit s)" "x \<notin> log_area (lstart s) \<Longrightarrow> disk (commit s) x = bview s x"
    "lh (commit s) = []" "lstart (commit s) = lstart s" "lsize (commit s) = lsize s"
    "outstanding (commit s) = outstanding s" by auto
qed

lemma log_write_txn_ok:
  assumes "txn_ok s" and "log_write b x s = Inr t" and "b \<notin> log_area (lstart s)" and "length x = BSIZE"
  shows "txn_ok t" and "bview t = (bview s)(b := x)"
proof -
  have t: "t = s\<lparr>cache := (cache s)(b \<mapsto> x), lh := (if b \<in> set (lh s) then lh s else lh s @ [b])\<rparr>"
    and n: "length (lh s) < 30"
    using assms(2) by (auto simp: log_write_def Let_def LOGSIZE_def split: if_splits)
  show v: "bview t = (bview s)(b := x)" by (rule ext) (simp add: t bview_def split: option.split)
  show "txn_ok t" using assms(1,3,4) n v by (auto simp: txn_ok_def t)
qed

subsection \<open>Concurrent operations and the space of the log\<close>

text \<open>
  A list of the file system operations in progress, each with the number of \<open>log_write\<close> calls it may
  still make (at most \<open>MAXOPBLOCKS\<close>), and the steps they take.
\<close>

type_synonym lsys = "logst \<times> nat list"

inductive log_step :: "lsys \<Rightarrow> lsys \<Rightarrow> bool" where
  lg_begin: "begin_op s = Inr t \<Longrightarrow> log_step (s, ops) (t, ops @ [10])"
| lg_write: "i < length ops \<Longrightarrow> 0 < ops ! i \<Longrightarrow> b \<notin> log_area (lstart s) \<Longrightarrow> length x = BSIZE \<Longrightarrow>
     log_write b x s = Inr t \<Longrightarrow> log_step (s, ops) (t, ops[i := ops ! i - 1])"
| lg_end: "end_op_begin s = Inr (do_commit, t) \<Longrightarrow> ops = us @ n # vs \<Longrightarrow> log_step (s, ops) (t, us @ vs)"
| lg_commit: "committing s \<Longrightarrow> log_step (s, ops) ((commit s)\<lparr>committing := False\<rparr>, ops)"

definition log_init :: "u32 \<Rightarrow> int \<Rightarrow> lsys \<Rightarrow> bool" where
  "log_init st n x \<longleftrightarrow> snd x = [] \<and> txn_ok (fst x) \<and> lh (fst x) = [] \<and> outstanding (fst x) = 0 \<and>
     \<not> committing (fst x) \<and> lstart (fst x) = st \<and> lsize (fst x) = n"

definition log_inv :: "u32 \<Rightarrow> int \<Rightarrow> lsys \<Rightarrow> bool" where
  "log_inv st n x \<longleftrightarrow> (case x of (s, ops) \<Rightarrow> txn_ok s \<and> outstanding s = int (length ops) \<and>
     (\<forall>m\<in>set ops. m \<le> 10) \<and> length (lh s) + sum_list ops \<le> 30 \<and> (committing s \<longrightarrow> ops = []) \<and>
     lstart s = st \<and> lsize s = n)"

lemma sum_list_bound: "(\<forall>m\<in>set ops. m \<le> k) \<Longrightarrow> sum_list ops \<le> length ops * (k::nat)"
  by (induction ops) auto

lemma sum_list_dec: "i < length ops \<Longrightarrow> 0 < ops ! i \<Longrightarrow> sum_list ops = Suc (sum_list (ops[i := ops ! i - (1::nat)]))"
  by (induction ops arbitrary: i) (auto simp: nth_Cons split: nat.splits)

lemma sum_list_pos: "0 < sum_list ops \<Longrightarrow> \<exists>i<length ops. 0 < (ops ! i :: nat)"
proof (induction ops)
  case (Cons m ops)
  show ?case
  proof (cases "m = 0")
    case True
    with Cons obtain i where "i < length ops" "0 < ops ! i" by auto
    then show ?thesis by (intro exI [of _ "Suc i"]) simp
  qed (auto intro: exI [of _ 0])
qed simp

lemma txn_ok_flags [simp]: "txn_ok (s\<lparr>outstanding := k\<rparr>) = txn_ok s" "txn_ok (s\<lparr>committing := c\<rparr>) = txn_ok s"
proof -
  have "bview (s\<lparr>outstanding := k\<rparr>) = bview s" "bview (s\<lparr>committing := c\<rparr>) = bview s"
    by (simp_all add: bview_def fun_eq_iff split: option.split)
  then show "txn_ok (s\<lparr>outstanding := k\<rparr>) = txn_ok s" "txn_ok (s\<lparr>committing := c\<rparr>) = txn_ok s"
    by (simp_all add: txn_ok_def)
qed

lemma log_step_inv: "log_step x y \<Longrightarrow> log_inv st n x \<Longrightarrow> log_inv st n y"
proof (induction rule: log_step.induct)
  case (lg_begin s t ops)
  then have t: "t = s\<lparr>outstanding := outstanding s + 1\<rparr>" "\<not> committing s"
    "int (length (lh s)) + (outstanding s + 1) * 10 \<le> 30"
    by (auto simp: begin_op_def LOGSIZE_def MAXOPBLOCKS_def split: if_splits)
  have "sum_list ops \<le> length ops * 10" using lg_begin(2) by (intro sum_list_bound) (simp add: log_inv_def)
  with t lg_begin(2) show ?case by (auto simp: log_inv_def algebra_simps)
next
  case (lg_write i ops b s x t)
  have t: "length (lh t) \<le> Suc (length (lh s))" "outstanding t = outstanding s" "committing t = committing s"
    "lstart t = lstart s" "lsize t = lsize s"
    using lg_write(5) by (auto simp: log_write_def Let_def split: if_splits)
  have "txn_ok t" using lg_write log_write_txn_ok(1) [of s b x t] by (simp add: log_inv_def)
  moreover have "\<forall>m\<in>set (ops[i := ops ! i - 1]). m \<le> 10"
    using lg_write(1,6) set_update_subset_insert [of ops i "ops ! i - 1"]
    by (auto simp: log_inv_def) (metis diff_le_self insertE le_trans nth_mem subsetD)
  ultimately show ?case
    using t lg_write(1,2,6) sum_list_dec [OF lg_write(1,2)] by (auto simp: log_inv_def)
next
  case (lg_end s do_commit t ops us m vs)
  then show ?case
    by (auto simp: end_op_begin_def Let_def log_inv_def simp flip: of_nat_add split: if_splits)
next
  case (lg_commit s ops)
  then show ?case using commit_txn_ok [of s] by (simp add: log_inv_def)
qed

interpretation lg: transition_system "log_init st n" log_step "log_inv st n" for st n
proof unfold_locales
  show "log_init st n s \<Longrightarrow> log_inv st n s" for s by (cases s) (simp add: log_init_def log_inv_def)
qed (rule log_step_inv)

subsection \<open>Properties\<close>

definition zero_block :: block where "zero_block = replicate 512 0"

definition demo_log :: "int \<Rightarrow> logst" where
  "demo_log n = \<lparr>disk = (\<lambda>_. zero_block), cache = Map.empty, wr = [], lstart = 2, lsize = n,
     outstanding = 0, committing = False, lh = []\<rparr>"

text \<open>One operation has written block 100.\<close>

definition demo_open :: logst where
  "demo_open = (demo_log 31)\<lparr>cache := [100 \<mapsto> replicate 512 1], outstanding := 1, lh := [100]\<rparr>"

definition demo_reboot :: "logst \<Rightarrow> nat \<Rightarrow> logst" where
  "demo_reboot s k = (demo_log 31)\<lparr>disk := apply_writes (take k (drop (length (wr s)) (wr (commit s)))) (disk s)\<rparr>"

lemma log_area_bounds: "x \<in> log_area 2 \<Longrightarrow> unat x \<le> 32"
proof -
  assume "x \<in> log_area 2"
  then obtain i where "i < 31" "x = 2 + of_nat i" by (auto simp: log_area_def slots_def)
  then show ?thesis by (simp add: unat_word_ariths unat_of_nat)
qed

lemma unat_demo_block: "i < 100 \<Longrightarrow> unat (of_nat (100 + i) :: u32) = 100 + i"
  unfolding unat_of_nat by simp

lemma demo_block_out: "i < 100 \<Longrightarrow> (of_nat (100 + i) :: u32) \<notin> log_area 2"
  using log_area_bounds [of "of_nat (100 + i)"] unat_demo_block [of i] by force

lemma zero_block_head: "length zero_block = BSIZE" "get32 zero_block 0 = 0"
  by (simp_all add: zero_block_def BSIZE_def get32_def)

lemma demo_log_ok: "txn_ok (demo_log n)"
  by (simp add: txn_ok_def demo_log_def disk_ok_def disk_blocks_def bview_def zero_block_head)

lemma demo_open_ok: "txn_ok demo_open" "lh demo_open \<noteq> []"
proof -
  have "(100 :: u32) \<notin> log_area 2" using demo_block_out [of 0] by simp
  then show "txn_ok demo_open" "lh demo_open \<noteq> []"
    by (simp_all add: demo_open_def demo_log_def txn_ok_def disk_ok_def disk_blocks_def bview_def zero_block_head)
      (simp_all add: BSIZE_def)
qed

text \<open>
  C1. A transaction is atomic with respect to crashes: if the machine stops after any number of the
  disk writes of \<open>commit\<close>, the recovery at the next boot succeeds and leaves a disk on which, outside the
  log, either every block is as it was before the transaction or every block has the contents the
  operations gave it; and the log is empty again.
\<close>

theorem log_crash_atomic:
  assumes "txn_ok s" and "lh s \<noteq> []" and "cache r = Map.empty" and "lstart r = lstart s"
    and "disk r = apply_writes (take k (drop (length (wr s)) (wr (commit s)))) (disk s)"
  shows "\<exists>r'. recover_from_log r = Inr r' \<and> disk_blocks (lstart s) (disk r') = [] \<and>
    ((\<forall>x. x \<notin> log_area (lstart s) \<longrightarrow> disk r' x = disk s x) \<or>
     (\<forall>x. x \<notin> log_area (lstart s) \<longrightarrow> disk r' x = bview s x))"
proof -
  let ?st = "lstart s" and ?ws = "commit_ws (lstart s) (lh s) (bview s)"
  have "wr (commit s) = wr s @ ?ws" by (simp add: commit_emit [OF assms(1,2)])
  with assms(5) have d: "disk r = apply_writes (take k ?ws) (disk s)" by simp
  from along_take [OF commit_along(1) [OF assms(1,2)], of k]
  have ok: "disk_ok ?st (disk r)" and l: "(\<forall>x. x \<notin> log_area ?st \<longrightarrow> logical ?st (disk r) x = disk s x) \<or>
      (\<forall>x. x \<notin> log_area ?st \<longrightarrow> logical ?st (disk r) x = bview s x)" by (simp_all add: d)
  have "bview r = disk r" using assms(3) by (simp add: bview_def fun_eq_iff)
  with recover_emit [of r] ok assms(4)
  have "recover_from_log r = Inr (emit (recover_ws ?st (disk r)) (r\<lparr>lh := []\<rparr>))" by simp
  with recover_along(2,3) [OF ok] l show ?thesis by auto
qed

theorem log_crash_atomic_witness:
  "\<exists>r'. recover_from_log (demo_reboot demo_open 2) = Inr r' \<and> disk_blocks 2 (disk r') = []"
proof -
  have "cache (demo_reboot demo_open 2) = Map.empty" "lstart (demo_reboot demo_open 2) = lstart demo_open"
    by (simp_all add: demo_reboot_def demo_log_def demo_open_def)
  moreover have "disk (demo_reboot demo_open 2) =
      apply_writes (take 2 (drop (length (wr demo_open)) (wr (commit demo_open)))) (disk demo_open)"
    by (simp add: demo_reboot_def)
  ultimately have "\<exists>r'. recover_from_log (demo_reboot demo_open 2) = Inr r' \<and> disk_blocks (lstart demo_open) (disk r') = [] \<and>
    ((\<forall>x. x \<notin> log_area (lstart demo_open) \<longrightarrow> disk r' x = disk demo_open x) \<or>
     (\<forall>x. x \<notin> log_area (lstart demo_open) \<longrightarrow> disk r' x = bview demo_open x))"
    by (rule log_crash_atomic [OF demo_open_ok])
  then show ?thesis by (auto simp: demo_open_def demo_log_def)
qed

text \<open>
  C3. Recovery can itself be interrupted: if it stops after any number of its disk writes and is run
  again from the disk it left, the blocks outside the log are the same as after an uninterrupted
  recovery.
\<close>

theorem log_recovery_restartable:
  assumes "disk_ok (lstart s) (disk s)" and "cache s = Map.empty" and "recover_from_log s = Inr s'"
    and "cache r = Map.empty" and "lstart r = lstart s"
    and "disk r = apply_writes (take k (drop (length (wr s)) (wr s'))) (disk s)"
  shows "\<exists>r'. recover_from_log r = Inr r' \<and> (\<forall>x. x \<notin> log_area (lstart s) \<longrightarrow> disk r' x = disk s' x)"
proof -
  let ?st = "lstart s"
  have v: "bview s = disk s" "bview r = disk r" using assms(2,4) by (simp_all add: bview_def fun_eq_iff)
  from recover_emit [OF assms(1) v(1)] assms(3)
  have s': "s' = emit (recover_ws ?st (disk s)) (s\<lparr>lh := []\<rparr>)" by simp
  with assms(6) have d: "disk r = apply_writes (take k (recover_ws ?st (disk s))) (disk s)" by simp
  from along_take [OF recover_along(1) [OF assms(1)], of k] d
  have ok: "disk_ok ?st (disk r)" and l: "\<forall>x. x \<notin> log_area ?st \<longrightarrow> logical ?st (disk r) x = logical ?st (disk s) x"
    by simp_all
  from recover_emit [of r] ok assms(5) v
  have "recover_from_log r = Inr (emit (recover_ws ?st (disk r)) (r\<lparr>lh := []\<rparr>))" by simp
  with recover_along(2) [OF ok] recover_along(2) [OF assms(1)] l s' show ?thesis by auto
qed

theorem log_recovery_restartable_witness:
  "\<exists>r'. recover_from_log ((demo_log 31)\<lparr>disk := apply_writes (take 0 (drop 0 (wr
      (emit (recover_ws 2 (\<lambda>_. zero_block)) (demo_log 31))))) (\<lambda>_. zero_block)\<rparr>) = Inr r'"
proof -
  let ?s = "demo_log 31"
  have ok: "disk_ok (lstart ?s) (disk ?s)" using demo_log_ok by (simp add: txn_ok_def)
  have "bview ?s = disk ?s" by (simp add: bview_def fun_eq_iff demo_log_def)
  from recover_emit [OF ok this] have r: "recover_from_log ?s = Inr (emit (recover_ws 2 (\<lambda>_. zero_block)) ?s)"
    by (simp add: demo_log_def)
  have c: "cache ?s = Map.empty" by (simp add: demo_log_def)
  show ?thesis
    using log_recovery_restartable [OF ok c r, of "(demo_log 31)\<lparr>disk := apply_writes (take 0 (drop 0 (wr
      (emit (recover_ws 2 (\<lambda>_. zero_block)) (demo_log 31))))) (\<lambda>_. zero_block)\<rparr>" 0]
    by (auto simp: demo_log_def)
qed

text \<open>
  C9. When the last operation in progress ends, its transaction is durable: \<open>end_op\<close> commits, every block
  outside the log then has on disk the contents its buffer had, and the log is ready for the next
  transaction.
\<close>

theorem end_op_durable:
  assumes "txn_ok s" and "outstanding s = 1" and "\<not> committing s"
  shows "\<exists>t. end_op s = Inr t \<and> txn_ok t \<and> lh t = [] \<and> outstanding t = 0 \<and> \<not> committing t \<and>
    (\<forall>x. x \<notin> log_area (lstart s) \<longrightarrow> disk t x = bview s x)"
proof -
  let ?s = "s\<lparr>outstanding := 0, committing := True\<rparr>"
  have t: "end_op s = Inr ((commit ?s)\<lparr>committing := False\<rparr>)"
    using assms(2,3) by (simp add: end_op_def end_op_begin_def Let_def)
  have "txn_ok ?s" using assms(1) by simp
  from commit_txn_ok [OF this] have "txn_ok (commit ?s)" "lh (commit ?s) = []" "outstanding (commit ?s) = 0"
    "\<And>x. x \<notin> log_area (lstart s) \<Longrightarrow> disk (commit ?s) x = bview ?s x" by simp_all
  moreover have "bview ?s = bview s" by (simp add: bview_def fun_eq_iff split: option.split)
  ultimately show ?thesis by (simp add: t)
qed

theorem end_op_durable_witness: "\<exists>t. end_op demo_open = Inr t \<and> disk t 100 = replicate 512 1"
proof -
  have "outstanding demo_open = 1" "\<not> committing demo_open" by (simp_all add: demo_open_def demo_log_def)
  from end_op_durable [OF demo_open_ok(1) this] obtain t where "end_op demo_open = Inr t"
    "\<forall>x. x \<notin> log_area (lstart demo_open) \<longrightarrow> disk t x = bview demo_open x" by blast
  moreover have "(100 :: u32) \<notin> log_area (lstart demo_open)" "bview demo_open 100 = replicate 512 1"
    using demo_block_out [of 0] by (simp_all add: demo_open_def demo_log_def bview_def)
  ultimately show ?thesis by auto
qed

lemma demo_log_init: "log_init 2 n (demo_log n, [])"
  using demo_log_ok [of n] by (simp add: log_init_def demo_log_def)

text \<open>
  C13. The reservation of \<open>begin_op\<close> is sound for a log with room for \<open>LOGSIZE\<close> data blocks: in every
  interleaving of operations that make at most \<open>MAXOPBLOCKS\<close> calls of \<open>log_write\<close> each, none of these calls
  panics.
\<close>

theorem log_space_reserved:
  assumes "reachable (log_init st n) log_step (s, ops)" and "LOGSIZE < n"
    and "i < length ops" and "0 < ops ! i"
  shows "\<exists>t. log_write b x s = Inr t"
proof -
  from lg.reachable_inv [OF assms(1)] have "outstanding s = int (length ops)" "lsize s = n"
    "length (lh s) + sum_list ops \<le> 30" by (auto simp: log_inv_def)
  moreover have "0 < sum_list ops" using sum_list_dec [OF assms(3,4)] by simp
  ultimately show ?thesis using assms(2,3) by (auto simp: log_write_def Let_def LOGSIZE_def)
qed

theorem log_space_reserved_witness:
  "\<exists>s t. begin_op (demo_log 31) = Inr s \<and> log_write 100 (replicate 512 1) s = Inr t"
proof -
  obtain s where s: "begin_op (demo_log 31) = Inr s"
    by (simp add: begin_op_def demo_log_def LOGSIZE_def MAXOPBLOCKS_def)
  have "reachable (log_init 2 31) log_step (s, [] @ [10])"
    by (rule reach_step [of _ _ "(demo_log 31, [])"]) (simp_all add: reach_init demo_log_init lg_begin s del: append_Nil)
  from log_space_reserved [OF this, of 0] s show ?thesis by (simp add: LOGSIZE_def)
qed

text \<open>Three operations in progress have filled \<open>n\<close> slots of a log of 30 blocks.\<close>

lemma log_filling:
  assumes "n \<le> 29"
  shows "\<exists>s ops. reachable (log_init 2 30) log_step (s, ops) \<and> lsize s = 30 \<and> outstanding s = 3 \<and> lstart s = 2 \<and>
    lh s = map (\<lambda>i. of_nat (100 + i)) [0..<n] \<and> sum_list ops = 30 - n"
  using assms
proof (induction n)
  case 0
  let ?s = "\<lambda>k. (demo_log 30)\<lparr>outstanding := k\<rparr>"
  have "demo_log 30 = ?s 0" by (simp add: demo_log_def)
  then have "reachable (log_init 2 30) log_step (?s 0, [])" using demo_log_init [of 30] by (metis reach_init)
  moreover have "log_step (?s k, ops) (?s (k + 1), ops @ [10])" if "k = 0 \<or> k = 1 \<or> k = 2" for k ops
    by (rule lg_begin) (use that in \<open>auto simp: begin_op_def demo_log_def LOGSIZE_def MAXOPBLOCKS_def\<close>)
  from this [of 0 "[]"] this [of 1 "[10]"] this [of 2 "[10, 10]"]
  have "log_step (?s 0, []) (?s 1, [10])" "log_step (?s 1, [10]) (?s 2, [10, 10])"
    "log_step (?s 2, [10, 10]) (?s 3, [10, 10, 10])" by simp_all
  ultimately have "reachable (log_init 2 30) log_step (?s 3, [10, 10, 10])" by (meson reach_step)
  then show ?case by (intro exI [of _ "?s 3"] exI [of _ "[10, 10, 10]"]) (simp add: demo_log_def)
next
  case (Suc n)
  then obtain s ops where r: "reachable (log_init 2 30) log_step (s, ops)" and s: "lsize s = 30" "outstanding s = 3"
    "lstart s = 2" "lh s = map (\<lambda>i. of_nat (100 + i)) [0..<n]" and o: "sum_list ops = 30 - n" by auto
  from o Suc.prems sum_list_pos [of ops] obtain i where i: "i < length ops" "0 < ops ! i" by auto
  let ?b = "of_nat (100 + n) :: u32" and ?x = zero_block
  have new: "?b \<notin> set (lh s)"
  proof
    assume "?b \<in> set (lh s)"
    then obtain j where j: "j < n" "?b = of_nat (100 + j)" using s(4) by auto
    with Suc.prems have "100 + n = 100 + j" using unat_demo_block [of n] unat_demo_block [of j] by simp
    with j(1) show False by simp
  qed
  let ?t = "s\<lparr>cache := (cache s)(?b \<mapsto> ?x), lh := lh s @ [?b]\<rparr>"
  have w: "log_write ?b ?x s = Inr ?t"
    using new s Suc.prems by (simp add: log_write_def Let_def LOGSIZE_def)
  have "log_step (s, ops) (?t, ops[i := ops ! i - 1])"
    by (rule lg_write [OF i _ _ w]) (use demo_block_out [of n] Suc.prems s(3) in \<open>simp_all add: zero_block_head\<close>)
  with r have "reachable (log_init 2 30) log_step (?t, ops[i := ops ! i - 1])" by (rule reach_step)
  moreover have "sum_list (ops[i := ops ! i - 1]) = 30 - Suc n" using sum_list_dec [OF i] o by simp
  ultimately show ?case using s by (intro exI [of _ ?t] exI [of _ "ops[i := ops ! i - 1]"]) simp
qed

text \<open>
  C14. With the log that \<open>mkfs\<close> makes (30 blocks, one of them the header) the reservation is one block
  short: three operations can be admitted together, and when together they have logged 29 blocks the
  next \<open>log_write\<close>, still within the allowance of the operation that calls it, panics.
\<close>

theorem log_space_one_short:
  "\<exists>s ops i. reachable (log_init 2 30) log_step (s, ops) \<and> i < length ops \<and> 0 < ops ! i \<and>
     log_write b x s = Inl (Panic ''too big a transaction'')"
proof -
  from log_filling [of 29] obtain s ops where r: "reachable (log_init 2 30) log_step (s, ops)"
    and s: "lsize s = 30" "length (lh s) = 29" and o: "sum_list ops = 1" by auto
  from o sum_list_pos [of ops] obtain i where i: "i < length ops" "0 < ops ! i" by auto
  have "log_write b x s = Inl (Panic ''too big a transaction'')"
    using s by (simp add: log_write_def Let_def)
  with r i show ?thesis by blast
qed

end
