(* ===== verification/Bio.thy ===== *)
theory Bio
  imports Sleeplock
begin

text \<open>
  The buffer cache of \<open>bio.c\<close>. The buffers are numbered by their place in \<open>bcache.buf[]\<close>; the list
  that orders them by use is the doubly linked list of the code, with the head \<open>bcache.head\<close> as
  number \<open>NBUF\<close>. The pointer operations are shown to implement a list that has the most recently
  used buffer in front. \<open>iderw\<close> is the contract of the disk driver: it returns when the transfer is
  done.
\<close>

subsection \<open>State\<close>

record buf =
  b_valid :: bool
  b_dirty :: bool
  b_dev :: u32
  b_blockno :: u32
  b_lock :: sleeplock
  b_refcnt :: u32
  b_data :: "u8 list"

record bcache =
  bufs :: "buf list"
  bnext :: "nat list"
  bprev :: "nat list"
  bdisk :: "u32 \<Rightarrow> u32 \<Rightarrow> u8 list"

abbreviation bhead :: "bcache \<Rightarrow> nat" where
  "bhead c \<equiv> length (bufs c)"

definition upd_buf :: "nat \<Rightarrow> (buf \<Rightarrow> buf) \<Rightarrow> bcache \<Rightarrow> bcache" where
  "upd_buf i f c = c\<lparr>bufs := modify i f (bufs c)\<rparr>"

subsection \<open>The linked list\<close>

text \<open>Insert \<open>b\<close> behind the head, as \<open>binit\<close> and \<open>brelse\<close> do, and take \<open>b\<close> out, as \<open>brelse\<close> does.\<close>

definition link_front :: "nat \<Rightarrow> bcache \<Rightarrow> bcache" where
  "link_front b c =
     (let h = bhead c;
          c = c\<lparr>bnext := (bnext c)[b := bnext c ! h]\<rparr>;
          c = c\<lparr>bprev := (bprev c)[b := h]\<rparr>;
          c = c\<lparr>bprev := (bprev c)[bnext c ! h := b]\<rparr>
      in c\<lparr>bnext := (bnext c)[h := b]\<rparr>)"

definition unlink :: "nat \<Rightarrow> bcache \<Rightarrow> bcache" where
  "unlink b c =
     (let c = c\<lparr>bprev := (bprev c)[bnext c ! b := bprev c ! b]\<rparr>
      in c\<lparr>bnext := (bnext c)[bprev c ! b := bnext c ! b]\<rparr>)"

definition binit :: "bcache \<Rightarrow> bcache" where
  "binit c =
     (let h = bhead c;
          c = c\<lparr>bprev := (bprev c)[h := h], bnext := (bnext c)[h := h]\<rparr>
      in fold (\<lambda>b c. link_front b (upd_buf b (\<lambda>x. x\<lparr>b_lock := initsleeplock\<rparr>) c)) [0..<h] c)"

text \<open>The loops along the list, for at most \<open>fuel\<close> links.\<close>

fun walk :: "(nat \<Rightarrow> bool) \<Rightarrow> nat list \<Rightarrow> nat \<Rightarrow> nat \<Rightarrow> nat \<Rightarrow> nat option" where
  "walk P nx h 0 b = None"
| "walk P nx h (Suc fuel) b = (if b = h then None else if P b then Some b else walk P nx h fuel (nx ! b))"

subsection \<open>Operations\<close>

text \<open>Locking the buffer: the process sleeps while another one has it.\<close>

definition lock_buf :: "u32 \<Rightarrow> nat \<Rightarrow> bcache \<Rightarrow> (nat \<times> bcache) kres" where
  "lock_buf pid i c =
     (case acquiresleep pid (b_lock (bufs c ! i)) of
        (Got, lk) \<Rightarrow> Inr (i, upd_buf i (\<lambda>b. b\<lparr>b_lock := lk\<rparr>) c)
      | (Wait, _) \<Rightarrow> Inl (Block (ChanBuf i)))"

definition bget :: "u32 \<Rightarrow> u32 \<Rightarrow> u32 \<Rightarrow> bcache \<Rightarrow> (nat \<times> bcache) kres" where
  "bget pid dev blockno c =
     (case walk (\<lambda>i. b_dev (bufs c ! i) = dev \<and> b_blockno (bufs c ! i) = blockno)
             (bnext c) (bhead c) (Suc (bhead c)) (bnext c ! bhead c) of
        Some i \<Rightarrow> lock_buf pid i (upd_buf i (\<lambda>b. b\<lparr>b_refcnt := b_refcnt b + 1\<rparr>) c)
      | None \<Rightarrow>
        (case walk (\<lambda>i. b_refcnt (bufs c ! i) = 0 \<and> \<not> b_dirty (bufs c ! i))
                (bprev c) (bhead c) (Suc (bhead c)) (bprev c ! bhead c) of
           Some i \<Rightarrow> lock_buf pid i (upd_buf i (\<lambda>b. b\<lparr>b_dev := dev, b_blockno := blockno,
                       b_valid := False, b_dirty := False, b_refcnt := 1\<rparr>) c)
         | None \<Rightarrow> Inl (Panic ''bget: no buffers'')))"

definition iderw :: "u32 \<Rightarrow> nat \<Rightarrow> bcache \<Rightarrow> bcache kres" where
  "iderw pid i c =
     (let b = bufs c ! i in
      if \<not> holdingsleep pid (b_lock b) then Inl (Panic ''iderw: buf not locked'')
      else if b_valid b \<and> \<not> b_dirty b then Inl (Panic ''iderw: nothing to do'')
      else if b_dirty b
        then Inr (upd_buf i (\<lambda>b. b\<lparr>b_valid := True, b_dirty := False\<rparr>)
               (c\<lparr>bdisk := (bdisk c)(b_dev b := (bdisk c (b_dev b))(b_blockno b := b_data b))\<rparr>))
        else Inr (upd_buf i (\<lambda>b. b\<lparr>b_valid := True, b_data := bdisk c (b_dev b) (b_blockno b)\<rparr>) c))"

definition bread :: "u32 \<Rightarrow> u32 \<Rightarrow> u32 \<Rightarrow> bcache \<Rightarrow> (nat \<times> bcache) kres" where
  "bread pid dev blockno c =
     kbind (bget pid dev blockno c) (\<lambda>(i, c).
       if \<not> b_valid (bufs c ! i) then kbind (iderw pid i c) (\<lambda>c. Inr (i, c)) else Inr (i, c))"

definition bwrite :: "u32 \<Rightarrow> nat \<Rightarrow> bcache \<Rightarrow> bcache kres" where
  "bwrite pid i c =
     (if \<not> holdingsleep pid (b_lock (bufs c ! i)) then Inl (Panic ''bwrite'')
      else iderw pid i (upd_buf i (\<lambda>b. b\<lparr>b_dirty := True\<rparr>) c))"

definition brelse :: "u32 \<Rightarrow> nat \<Rightarrow> bcache \<Rightarrow> bcache kres" where
  "brelse pid i c =
     (if \<not> holdingsleep pid (b_lock (bufs c ! i)) then Inl (Panic ''brelse'')
      else
        let c = upd_buf i (\<lambda>b. b\<lparr>b_lock := fst (releasesleep (b_lock b)), b_refcnt := b_refcnt b - 1\<rparr>) c
        in Inr (if b_refcnt (bufs c ! i) = 0 then link_front i (unlink i c) else c))"

subsection \<open>Chains of pointers\<close>

fun chain :: "nat list \<Rightarrow> nat \<Rightarrow> nat list \<Rightarrow> nat \<Rightarrow> bool" where
  "chain nx a [] z \<longleftrightarrow> nx ! a = z"
| "chain nx a (x # xs) z \<longleftrightarrow> nx ! a = x \<and> chain nx x xs z"

lemma chain_append: "chain nx a (xs @ y # ys) z \<longleftrightarrow> chain nx a xs y \<and> chain nx y ys z"
  by (induction xs arbitrary: a) auto

lemma chain_upd: "i \<notin> set (a # xs) \<Longrightarrow> chain (nx[i := v]) a xs z \<longleftrightarrow> chain nx a xs z"
  by (induction xs arbitrary: a) auto

lemma chain_last_upd:
  assumes "chain nx a xs z" and "distinct (a # xs)" and "last (a # xs) < length nx"
  shows "chain (nx[last (a # xs) := q]) a xs q"
  using assms
proof (induction xs arbitrary: a)
  case (Cons x xs)
  moreover have "last (x # xs) \<noteq> a" using Cons.prems(2) last_in_set [of "x # xs"] by auto
  ultimately show ?case by auto
qed simp

lemma chain_unlink:
  assumes "chain nx h (as @ b # cs) h" and "distinct (h # as @ b # cs)" and "last (h # as) < length nx"
  shows "chain (nx[last (h # as) := hd (cs @ [h])]) h (as @ cs) h"
proof -
  from assms(1) have a: "chain nx h as b" "chain nx b cs h" by (auto simp: chain_append)
  have l: "chain (nx[last (h # as) := q]) h as q" for q
    by (rule chain_last_upd [OF a(1)]) (use assms(2,3) in auto)
  show ?thesis
  proof (cases cs)
    case (Cons c cs')
    have "last (h # as) \<notin> set (c # cs')"
      using assms(2) Cons by (cases as rule: rev_cases) auto
    with a(2) Cons l [of c] show ?thesis by (simp add: chain_append chain_upd)
  qed (use l in simp)
qed

lemma chain_hd: "chain nx h xs h \<Longrightarrow> nx ! h = hd (xs @ [h])"
  by (cases xs) auto

lemma chain_at: "chain nx h (as @ b # cs) h \<Longrightarrow> nx ! b = hd (cs @ [h])"
  by (cases cs) (auto simp: chain_append)

lemma walk_chain:
  assumes "chain nx a xs h" and "h \<notin> set xs" and "length xs < fuel"
  shows "walk P nx h fuel (nx ! a) = List.find P xs"
  using assms
proof (induction xs arbitrary: a fuel)
  case Nil
  then show ?case by (cases fuel) auto
next
  case (Cons x xs)
  then obtain f where "fuel = Suc f" by (cases fuel) auto
  with Cons.prems Cons.IH [of x f] show ?case by auto
qed

text \<open>The pointers form the list \<open>xs\<close>, most recently used buffer first.\<close>

definition dll :: "bcache \<Rightarrow> nat list \<Rightarrow> bool" where
  "dll c xs \<longleftrightarrow> length (bnext c) = Suc (bhead c) \<and> length (bprev c) = Suc (bhead c) \<and>
     distinct xs \<and> set xs \<subseteq> {..<bhead c} \<and>
     chain (bnext c) (bhead c) xs (bhead c) \<and> chain (bprev c) (bhead c) (rev xs) (bhead c)"

lemma dll_upd_buf [simp]: "dll (upd_buf i f c) xs \<longleftrightarrow> dll c xs"
  by (simp add: dll_def upd_buf_def)

lemma hd_rev_last: "hd (xs @ [h]) = last (h # rev xs)"
  by (cases xs) auto

lemma dll_link_front:
  assumes "dll c xs" and "b < bhead c" and "b \<notin> set xs"
  shows "dll (link_front b c) (b # xs)"
proof -
  let ?h = "bhead c" and ?n = "bnext c" and ?p = "bprev c"
  let ?f = "?n ! ?h"
  have d: "length ?n = Suc ?h" "length ?p = Suc ?h" "distinct xs" "set xs \<subseteq> {..<?h}"
    "chain ?n ?h xs ?h" "chain ?p ?h (rev xs) ?h" using assms(1) by (auto simp: dll_def)
  have h: "?h \<notin> set xs" "b \<noteq> ?h" using d(4) assms(2) by auto
  have f: "?f = last (?h # rev xs)" using chain_hd [OF d(5)] by (simp add: hd_rev_last)
  have "?f \<in> insert ?h (set xs)" using f last_in_set [of "?h # rev xs"] by auto
  with d(4) assms(3) h have fb: "?f \<noteq> b" "?f < length (?p[b := ?h])" by (auto simp: d(2))
  have nx: "chain (?n[b := ?f, ?h := b]) ?h (b # xs) ?h"
  proof (cases xs)
    case Nil
    with d h f assms(2) show ?thesis by simp
  next
    case (Cons x ys)
    have "chain (?n[b := ?f, ?h := b]) x ys ?h"
      using d(5) Cons assms(3) h by (simp add: chain_upd)
    with d Cons h assms(2) show ?thesis by auto
  qed
  have "chain (?p[b := ?h]) ?h (rev xs) ?h" using d(6) assms(3) h by (simp add: chain_upd)
  then have "chain (?p[b := ?h, ?f := b]) ?h (rev xs) b"
    unfolding f by (rule chain_last_upd) (use d h fb f in auto)
  moreover have "(?p[b := ?h, ?f := b]) ! b = ?h" using fb assms(2) d(2) by simp
  ultimately have pv: "chain (?p[b := ?h, ?f := b]) ?h (rev (b # xs)) ?h" by (simp add: chain_append)
  have eq: "(?n[b := ?f]) ! ?h = ?f" using h by simp
  show ?thesis
    using d assms(2,3) nx pv by (simp add: dll_def link_front_def Let_def eq)
qed

lemma dll_unlink:
  assumes "dll c (as @ b # cs)"
  shows "dll (unlink b c) (as @ cs)"
proof -
  let ?h = "bhead c" and ?n = "bnext c" and ?p = "bprev c"
  have d: "length ?n = Suc ?h" "length ?p = Suc ?h" "distinct (as @ b # cs)" "set (as @ b # cs) \<subseteq> {..<?h}"
    "chain ?n ?h (as @ b # cs) ?h" "chain ?p ?h (rev cs @ b # rev as) ?h" using assms by (auto simp: dll_def)
  have dist: "distinct (?h # as @ b # cs)" "distinct (?h # rev cs @ b # rev as)" using d(3,4) by auto
  have n: "?n ! b = last (?h # rev cs)" using chain_at [OF d(5)] by (simp add: hd_rev_last)
  have p: "?p ! b = last (?h # as)" using chain_at [OF d(6)] hd_rev_last [of "rev as" ?h] by simp
  have l: "last (?h # as) < Suc ?h" "last (?h # rev cs) < Suc ?h"
    using d(4) by (cases as rule: rev_cases; auto) (use d(4) in \<open>cases cs; auto\<close>)
  have "chain (?n[last (?h # as) := hd (cs @ [?h])]) ?h (as @ cs) ?h"
    by (rule chain_unlink [OF d(5) dist(1)]) (use l d in simp)
  moreover have "chain (?p[last (?h # rev cs) := hd (rev as @ [?h])]) ?h (rev cs @ rev as) ?h"
    by (rule chain_unlink [OF d(6) dist(2)]) (use l d in simp)
  moreover have "hd (cs @ [?h]) = ?n ! b" "hd (rev as @ [?h]) = ?p ! b"
    using n p hd_rev_last [of cs ?h] hd_rev_last [of "rev as" ?h] by simp_all
  moreover have "(?p[?n ! b := ?p ! b]) ! b = ?p ! b"
    by (cases "?n ! b = b") (use d(2,4) in simp_all)
  ultimately show ?thesis using d n p by (auto simp: dll_def unlink_def Let_def)
qed

lemma dll_binit_fold:
  assumes "dll c (rev [0..<n])" and "n + k \<le> bhead c"
  shows "dll (fold (\<lambda>b c. link_front b (upd_buf b (\<lambda>x. x\<lparr>b_lock := initsleeplock\<rparr>) c)) [n..<n + k] c) (rev [0..<n + k])"
  using assms
proof (induction k arbitrary: c n)
  case (Suc k)
  let ?u = "upd_buf n (\<lambda>x. x\<lparr>b_lock := initsleeplock\<rparr>) c"
  have h: "bhead (link_front n ?u) = bhead c" by (simp add: link_front_def upd_buf_def Let_def)
  have "dll (link_front n ?u) (n # rev [0..<n])"
    by (rule dll_link_front) (use Suc.prems in \<open>auto simp: upd_buf_def dll_def\<close>)
  then have d: "dll (link_front n ?u) (rev [0..<Suc n])" by simp
  from Suc.IH [OF this] h Suc.prems(2)
  have "dll (fold (\<lambda>b c. link_front b (upd_buf b (\<lambda>x. x\<lparr>b_lock := initsleeplock\<rparr>) c)) [Suc n..<Suc n + k]
      (link_front n ?u)) (rev [0..<Suc n + k])" by simp
  then show ?case by (simp add: upt_conv_Cons del: upt_Suc)
qed simp

lemma find_SomeD: "List.find P xs = Some x \<Longrightarrow> x \<in> set xs \<and> P x"
  by (induction xs) (auto split: if_splits)

lemma find_NoneD: "List.find P xs = None \<Longrightarrow> x \<in> set xs \<Longrightarrow> \<not> P x"
  by (simp add: find_None_iff)

subsection \<open>Contents\<close>

text \<open>
  What the cache makes of the disk: a block reads as the data of its valid buffer, or as the disk if
  it has none.
\<close>

definition holds :: "bcache \<Rightarrow> u32 \<Rightarrow> u32 \<Rightarrow> nat \<Rightarrow> bool" where
  "holds c dev b i \<longleftrightarrow> i < bhead c \<and> b_dev (bufs c ! i) = dev \<and> b_blockno (bufs c ! i) = b"

definition block_view :: "bcache \<Rightarrow> u32 \<Rightarrow> u32 \<Rightarrow> u8 list" where
  "block_view c dev b =
     (case List.find (\<lambda>i. holds c dev b i \<and> b_valid (bufs c ! i)) [0..<bhead c] of
        Some i \<Rightarrow> b_data (bufs c ! i) | None \<Rightarrow> bdisk c dev b)"

text \<open>
  The list is well formed, no block of a device other than 0 has two buffers, and a buffer that may
  be recycled has nothing the disk does not have; only valid buffers are dirty. (The zeroed buffers of a fresh cache are all
  labelled block 0 of device 0, a device the kernel does not use for its file system.)
\<close>

definition buf_ok :: "bcache \<Rightarrow> buf \<Rightarrow> bool" where
  "buf_ok c x \<longleftrightarrow> (b_dirty x \<longrightarrow> b_valid x) \<and>
     (b_refcnt x = 0 \<longrightarrow> \<not> b_dirty x \<longrightarrow> b_valid x \<longrightarrow> b_data x = bdisk c (b_dev x) (b_blockno x))"

definition cache_ok :: "bcache \<Rightarrow> bool" where
  "cache_ok c \<longleftrightarrow> (\<exists>xs. dll c xs \<and> set xs = {..<bhead c}) \<and>
     (\<forall>i j dev b. dev \<noteq> 0 \<longrightarrow> holds c dev b i \<longrightarrow> holds c dev b j \<longrightarrow> i = j) \<and>
     (\<forall>i<bhead c. buf_ok c (bufs c ! i))"

lemma cache_ok_dll:
  assumes "cache_ok c"
  obtains xs where "dll c xs" "set xs = {..<bhead c}"
  using assms by (auto simp: cache_ok_def)

lemma cache_ok_buf: "cache_ok c \<Longrightarrow> i < bhead c \<Longrightarrow> buf_ok c (bufs c ! i)"
  by (simp add: cache_ok_def)

lemma cache_ok_unique: "cache_ok c \<Longrightarrow> dev \<noteq> 0 \<Longrightarrow> holds c dev b i \<Longrightarrow> holds c dev b j \<Longrightarrow> i = j"
  by (auto simp: cache_ok_def)

lemma walks:
  assumes "dll c xs" and "set xs = {..<bhead c}"
  shows "walk P (bnext c) (bhead c) (Suc (bhead c)) (bnext c ! bhead c) = List.find P xs"
    and "walk P (bprev c) (bhead c) (Suc (bhead c)) (bprev c ! bhead c) = List.find P (rev xs)"
proof -
  have "distinct xs" using assms(1) by (simp add: dll_def)
  then have "length xs = card (set xs)" by (simp add: distinct_card)
  then have l: "length xs < Suc (bhead c)" using assms(2) by simp
  show "walk P (bnext c) (bhead c) (Suc (bhead c)) (bnext c ! bhead c) = List.find P xs"
    by (rule walk_chain) (use assms l in \<open>auto simp: dll_def\<close>)
  show "walk P (bprev c) (bhead c) (Suc (bhead c)) (bprev c ! bhead c) = List.find P (rev xs)"
    by (rule walk_chain) (use assms l in \<open>auto simp: dll_def\<close>)
qed

lemma block_view_valid:
  assumes "cache_ok c" and "dev \<noteq> 0" and "holds c dev b i" and "b_valid (bufs c ! i)"
  shows "block_view c dev b = b_data (bufs c ! i)"
proof (cases "List.find (\<lambda>i. holds c dev b i \<and> b_valid (bufs c ! i)) [0..<bhead c]")
  case None
  with assms(3,4) show ?thesis by (auto simp: find_None_iff holds_def)
next
  case (Some j)
  then have "holds c dev b j" by (auto dest: find_SomeD)
  with assms Some show ?thesis by (auto simp: block_view_def dest: cache_ok_unique)
qed

lemma block_view_disk:
  assumes "\<And>i. holds c dev b i \<Longrightarrow> \<not> b_valid (bufs c ! i)"
  shows "block_view c dev b = bdisk c dev b"
proof -
  have "List.find (\<lambda>i. holds c dev b i \<and> b_valid (bufs c ! i)) [0..<bhead c] = None"
    using assms by (auto simp: find_None_iff)
  then show ?thesis by (simp add: block_view_def)
qed

lemma bhead_upd_buf [simp]: "bhead (upd_buf i f c) = bhead c" "bdisk (upd_buf i f c) = bdisk c"
  "j < bhead c \<Longrightarrow> bufs (upd_buf i f c) ! j = (if i = j then f (bufs c ! j) else bufs c ! j)"
  by (simp_all add: upd_buf_def)

text \<open>Changing one buffer does not change what the blocks of the other buffers read as.\<close>

lemma block_view_other:
  assumes "cache_ok c" "cache_ok c'" "dev \<noteq> 0" "bhead c' = bhead c" "bdisk c' dev b = bdisk c dev b"
    and same: "\<And>j. j < bhead c \<Longrightarrow> j \<noteq> i \<Longrightarrow> b_dev (bufs c' ! j) = b_dev (bufs c ! j) \<and>
      b_blockno (bufs c' ! j) = b_blockno (bufs c ! j) \<and> b_valid (bufs c' ! j) = b_valid (bufs c ! j) \<and>
      b_data (bufs c' ! j) = b_data (bufs c ! j)"
    and "\<not> (holds c dev b i \<and> b_valid (bufs c ! i))" "\<not> (holds c' dev b i \<and> b_valid (bufs c' ! i))"
  shows "block_view c' dev b = block_view c dev b"
proof (cases "\<exists>j. holds c dev b j \<and> b_valid (bufs c ! j)")
  case True
  then obtain j where j: "holds c dev b j" "b_valid (bufs c ! j)" by blast
  then have "j < bhead c" "j \<noteq> i" using assms(7) by (auto simp: holds_def)
  with same j assms(4) have "holds c' dev b j" "b_valid (bufs c' ! j)" "b_data (bufs c' ! j) = b_data (bufs c ! j)"
    by (auto simp: holds_def)
  with j assms(1-3) show ?thesis by (simp add: block_view_valid)
next
  case False
  have "\<not> b_valid (bufs c' ! j)" if "holds c' dev b j" for j
    using that False assms(4,8) same [of j] by (cases "j = i") (auto simp: holds_def)
  with False assms(5) show ?thesis by (metis block_view_disk)
qed

lemma cache_ok_upd:
  assumes "cache_ok c" and "i < bhead c"
    and "\<And>dev b j. dev \<noteq> 0 \<Longrightarrow> b_dev (f (bufs c ! i)) = dev \<Longrightarrow> b_blockno (f (bufs c ! i)) = b \<Longrightarrow>
      holds c dev b j \<Longrightarrow> j = i"
    and "buf_ok c (f (bufs c ! i))"
  shows "cache_ok (upd_buf i f c)"
proof -
  let ?c = "upd_buf i f c"
  have "\<exists>xs. dll ?c xs \<and> set xs = {..<bhead ?c}" using assms(1) by (simp add: cache_ok_def)
  moreover have "j = k" if "dev \<noteq> 0" "holds ?c dev b j" "holds ?c dev b k" for dev b j k
  proof -
    have h: "j = i \<and> b_dev (f (bufs c ! i)) = dev \<and> b_blockno (f (bufs c ! i)) = b \<or> j \<noteq> i \<and> holds c dev b j"
      if "holds ?c dev b j" for j using that by (cases "j = i") (auto simp: holds_def)
    from h [OF that(2)] h [OF that(3)] that(1) assms(1,3) show ?thesis
      by (metis cache_ok_unique)
  qed
  moreover have "buf_ok ?c (bufs ?c ! j)" if "j < bhead c" for j
    using that assms(1,4) by (cases "j = i") (auto simp: cache_ok_def buf_ok_def)
  ultimately show ?thesis unfolding cache_ok_def bhead_upd_buf(1) by blast
qed

lemma lock_buf_Inr:
  assumes "lock_buf pid i c = Inr (j, c')"
  obtains "j = i" "c' = upd_buf i (\<lambda>b. b\<lparr>b_lock := \<lparr>sl_locked = True, sl_pid = pid\<rparr>\<rparr>) c"
  using assms by (cases "b_lock (bufs c ! i)")
    (auto simp: lock_buf_def acquiresleep_def split: if_splits)

lemma upd_buf_upd_buf: "i < bhead c \<Longrightarrow> upd_buf i f (upd_buf i g c) = upd_buf i (f \<circ> g) c"
  by (simp add: upd_buf_def modify_def)

text \<open>The two ways \<open>bget\<close> finds a buffer.\<close>

lemma bget_cases:
  assumes "cache_ok c" and "bget pid dev b c = Inr (i, c')"
  obtains (hit) "holds c dev b i" "c' = upd_buf i (\<lambda>x. x\<lparr>b_refcnt := b_refcnt x + 1,
      b_lock := \<lparr>sl_locked = True, sl_pid = pid\<rparr>\<rparr>) c"
  | (miss) "i < bhead c" "\<And>j. \<not> holds c dev b j" "b_refcnt (bufs c ! i) = 0" "\<not> b_dirty (bufs c ! i)"
      "c' = upd_buf i (\<lambda>x. x\<lparr>b_dev := dev, b_blockno := b, b_valid := False, b_dirty := False, b_refcnt := 1,
         b_lock := \<lparr>sl_locked = True, sl_pid = pid\<rparr>\<rparr>) c"
proof -
  from assms(1) obtain xs where xs: "dll c xs" "set xs = {..<bhead c}" by (rule cache_ok_dll)
  let ?P = "\<lambda>i. b_dev (bufs c ! i) = dev \<and> b_blockno (bufs c ! i) = b"
  let ?Q = "\<lambda>i. b_refcnt (bufs c ! i) = 0 \<and> \<not> b_dirty (bufs c ! i)"
  note w = walks [OF xs]
  show ?thesis
  proof (cases "List.find ?P xs")
    case (Some j)
    then have j: "j \<in> set xs" "?P j" by (auto dest: find_SomeD)
    from Some assms(2) have "lock_buf pid j (upd_buf j (\<lambda>b. b\<lparr>b_refcnt := b_refcnt b + 1\<rparr>) c) = Inr (i, c')"
      by (simp add: bget_def w del: walk.simps)
    then show ?thesis
      by (rule lock_buf_Inr) (rule hit, use j xs in \<open>auto simp: holds_def upd_buf_upd_buf comp_def\<close>)
  next
    case None
    then have n: "\<not> holds c dev b j" for j using xs(2) by (auto simp: find_None_iff holds_def)
    from None assms(2) obtain j where j: "List.find ?Q (rev xs) = Some j"
      and l: "lock_buf pid j (upd_buf j (\<lambda>x. x\<lparr>b_dev := dev, b_blockno := b,
                       b_valid := False, b_dirty := False, b_refcnt := 1\<rparr>) c) = Inr (i, c')"
      by (auto simp: bget_def w simp del: walk.simps split: option.splits)
    from j have q: "j \<in> set xs" "?Q j" by (auto dest: find_SomeD)
    from l show ?thesis
      by (rule lock_buf_Inr) (rule miss, use q xs n in \<open>auto simp: upd_buf_upd_buf comp_def\<close>)
  qed
qed

lemma bget_ok:
  assumes "cache_ok c" and "bget pid dev b c = Inr (i, c')" and "dev \<noteq> 0"
    and "\<forall>j<bhead c. b_refcnt (bufs c ! j) \<noteq> -1"
  shows "cache_ok c'" and "holds c' dev b i" and "b_lock (bufs c' ! i) = \<lparr>sl_locked = True, sl_pid = pid\<rparr>"
    and "bhead c' = bhead c" and "bdisk c' = bdisk c" and "b_refcnt (bufs c' ! i) \<noteq> 0"
    and "d \<noteq> 0 \<Longrightarrow> block_view c' d x = block_view c d x"
proof -
  have "cache_ok c' \<and> holds c' dev b i \<and> b_lock (bufs c' ! i) = \<lparr>sl_locked = True, sl_pid = pid\<rparr> \<and>
    bhead c' = bhead c \<and> bdisk c' = bdisk c \<and> b_refcnt (bufs c' ! i) \<noteq> 0 \<and>
    (d \<noteq> 0 \<longrightarrow> block_view c' d x = block_view c d x)"
    using assms(1,2)
  proof (cases rule: bget_cases)
    case hit
    then have i: "i < bhead c" by (simp add: holds_def)
    have r: "b_refcnt (bufs c ! i) + 1 \<noteq> 0" using assms(4) i by (metis add_eq_0_iff2)
    have ok: "cache_ok c'" unfolding hit(2)
      by (rule cache_ok_upd [OF assms(1) i])
        (use r i cache_ok_unique [OF assms(1)] cache_ok_buf [OF assms(1) i] in \<open>auto simp: holds_def buf_ok_def\<close>)
    have "block_view c' d x = block_view c d x" if "d \<noteq> 0"
    proof (cases "holds c d x i \<and> b_valid (bufs c ! i)")
      case True
      then have "holds c' d x i" "b_valid (bufs c' ! i)" "b_data (bufs c' ! i) = b_data (bufs c ! i)"
        using i by (auto simp: hit(2) holds_def)
      with True that ok assms(1) show ?thesis by (metis block_view_valid)
    next
      case False
      show ?thesis
        by (rule block_view_other [OF assms(1) ok that, of _ i]) (use False i in \<open>auto simp: hit(2) holds_def\<close>)
    qed
    with ok i r hit show ?thesis by (auto simp: holds_def)
  next
    case miss
    have ok: "cache_ok c'" unfolding miss(5)
      by (rule cache_ok_upd [OF assms(1) miss(1)]) (use miss(2) in \<open>auto simp: buf_ok_def\<close>)
    have "block_view c' d x = block_view c d x" if "d \<noteq> 0"
    proof (cases "holds c d x i \<and> b_valid (bufs c ! i)")
      case True
      then have "b_data (bufs c ! i) = bdisk c d x"
        using cache_ok_buf [OF assms(1) miss(1)] miss(3,4) by (auto simp: buf_ok_def holds_def)
      moreover have "\<not> b_valid (bufs c' ! j)" if "holds c' d x j" for j
        using that True cache_ok_unique [OF assms(1) \<open>d \<noteq> 0\<close>, of x i j] miss(1)
        by (cases "j = i") (auto simp: miss(5) holds_def)
      then have "block_view c' d x = bdisk c' d x" by (rule block_view_disk)
      ultimately show ?thesis
        using block_view_valid [OF assms(1) that, of x i] True by (simp add: miss(5))
    next
      case False
      show ?thesis
        by (rule block_view_other [OF assms(1) ok that, of _ i]) (use False miss(1) in \<open>auto simp: miss(5) holds_def\<close>)
    qed
    with ok miss(1) show ?thesis by (simp add: miss(5) holds_def)
  qed
  then show "cache_ok c'" "holds c' dev b i" "b_lock (bufs c' ! i) = \<lparr>sl_locked = True, sl_pid = pid\<rparr>"
    "bhead c' = bhead c" "bdisk c' = bdisk c" "b_refcnt (bufs c' ! i) \<noteq> 0"
    "d \<noteq> 0 \<Longrightarrow> block_view c' d x = block_view c d x" by auto
qed

lemma bread_ok:
  assumes "cache_ok c" and "bread pid dev b c = Inr (i, c')" and "dev \<noteq> 0"
    and "\<forall>j<bhead c. b_refcnt (bufs c ! j) \<noteq> -1"
  shows "cache_ok c'" and "holds c' dev b i" and "b_valid (bufs c' ! i)" and "holdingsleep pid (b_lock (bufs c' ! i))"
    and "b_data (bufs c' ! i) = block_view c dev b" and "bdisk c' = bdisk c"
    and "d \<noteq> 0 \<Longrightarrow> block_view c' d x = block_view c d x"
proof -
  from assms(2) obtain c1 where g: "bget pid dev b c = Inr (i, c1)"
    and c': "(if \<not> b_valid (bufs c1 ! i) then kbind (iderw pid i c1) (\<lambda>c. Inr (i, c)) else Inr (i, c1)) = Inr (i, c')"
    by (auto simp: bread_def kres_simps split: if_splits)
  note k = bget_ok [OF assms(1) g assms(3,4)]
  have i: "i < bhead c1" using k(2) by (simp add: holds_def)
  have "cache_ok c' \<and> holds c' dev b i \<and> b_valid (bufs c' ! i) \<and> holdingsleep pid (b_lock (bufs c' ! i)) \<and>
    b_data (bufs c' ! i) = block_view c1 dev b \<and> bdisk c' = bdisk c1 \<and> (d \<noteq> 0 \<longrightarrow> block_view c' d x = block_view c1 d x)"
  proof (cases "b_valid (bufs c1 ! i)")
    case True
    with c' k show ?thesis by (simp add: holdingsleep_def block_view_valid assms(3))
  next
    case False
    have dk: "bdisk c1 dev b = block_view c1 dev b"
      using block_view_disk [of c1 dev b] False cache_ok_unique [OF k(1) assms(3) k(2)] by metis
    have "\<not> b_dirty (bufs c1 ! i)" using False cache_ok_buf [OF k(1) i] by (simp add: buf_ok_def)
    with c' False k(3) have c': "c' = upd_buf i (\<lambda>x. x\<lparr>b_valid := True, b_data := bdisk c1 (b_dev x) (b_blockno x)\<rparr>) c1"
      by (simp add: iderw_def Let_def holdingsleep_def)
    have ok: "cache_ok c'" unfolding c'
      by (rule cache_ok_upd [OF k(1) i]) (use i k(6) cache_ok_unique [OF k(1)] in \<open>auto simp: holds_def buf_ok_def\<close>)
    have h: "holds c' dev b i" "b_valid (bufs c' ! i)" "b_data (bufs c' ! i) = bdisk c1 dev b"
      using i k(2) by (auto simp: c' holds_def)
    have "block_view c' d x = block_view c1 d x" if "d \<noteq> 0"
    proof (cases "holds c1 d x i")
      case True
      with k(2) have "d = dev" "x = b" by (auto simp: holds_def)
      with h ok dk that show ?thesis by (simp add: block_view_valid)
    next
      case False
      show ?thesis
        by (rule block_view_other [OF k(1) ok that, of _ i]) (use False i in \<open>auto simp: c' holds_def\<close>)
    qed
    with ok h dk i k(3) show ?thesis by (simp add: c' holdingsleep_def)
  qed
  with k assms(3) show "cache_ok c'" "holds c' dev b i" "b_valid (bufs c' ! i)" "holdingsleep pid (b_lock (bufs c' ! i))"
    "b_data (bufs c' ! i) = block_view c dev b" "bdisk c' = bdisk c"
    "d \<noteq> 0 \<Longrightarrow> block_view c' d x = block_view c d x" by simp_all
qed

lemma split_remove1: "distinct xs \<Longrightarrow> i \<in> set xs \<Longrightarrow> \<exists>as cs. xs = as @ i # cs \<and> remove1 i xs = as @ cs"
  by (metis append_Nil2 distinct.simps(2) distinct_append in_set_conv_decomp_first not_distinct_conv_prefix remove1.simps(2) remove1_append remove1_idem)

lemma bhead_links [simp]: "bhead (link_front b c) = bhead c" "bhead (unlink b c) = bhead c"
  by (simp_all add: link_front_def unlink_def Let_def)

lemma dll_release:
  assumes "dll c xs" and "i \<in> set xs"
  shows "dll (link_front i (unlink i c)) (i # remove1 i xs)"
proof -
  have d: "distinct xs" "i < bhead c" using assms by (auto simp: dll_def)
  from split_remove1 [OF d(1) assms(2)] obtain as cs where x: "xs = as @ i # cs" "remove1 i xs = as @ cs" by blast
  from assms(1) x have "dll (unlink i c) (as @ cs)" by (simp add: dll_unlink)
  with d x show ?thesis by (simp add: dll_link_front)
qed

subsection \<open>Properties\<close>

definition demo_buf :: buf where
  "demo_buf = \<lparr>b_valid = False, b_dirty = False, b_dev = 0, b_blockno = 0, b_lock = initsleeplock, b_refcnt = 0, b_data = []\<rparr>"

definition demo_bcache :: bcache where
  "demo_bcache = \<lparr>bufs = [demo_buf, demo_buf, demo_buf], bnext = [0, 0, 0, 0], bprev = [0, 0, 0, 0],
     bdisk = (\<lambda>d b. [ucast b])\<rparr>"

text \<open>
  \<open>binit\<close> turns the zeroed cache, whatever its pointers held, into the list of all its buffers.
\<close>

theorem binit_links_all_buffers:
  assumes "length (bnext c) = Suc (bhead c)" and "length (bprev c) = Suc (bhead c)"
  shows "dll (binit c) (rev [0..<bhead c])"
proof -
  let ?c = "c\<lparr>bprev := (bprev c)[bhead c := bhead c], bnext := (bnext c)[bhead c := bhead c]\<rparr>"
  have "dll ?c (rev [0..<0])" using assms by (simp add: dll_def)
  from dll_binit_fold [OF this, of "bhead c"] show ?thesis by (simp add: binit_def Let_def)
qed

theorem binit_links_all_buffers_witness: "dll (binit demo_bcache) [2, 1, 0]"
  using binit_links_all_buffers [of demo_bcache] by (simp add: demo_bcache_def eval_nat_numeral)

text \<open>
  The pointer surgery of \<open>brelse\<close> implements a most-recently-used list: when the last user of a buffer
  gives it back, the buffer is taken out of its place and becomes the first of the list, the order of
  the others unchanged, in both directions of the list; so the search of \<open>bget\<close> for a buffer to recycle,
  which runs backwards, meets the buffers in the order in which they were last released.
\<close>

theorem brelse_moves_to_front:
  assumes "dll c xs" and "i \<in> set xs" and "holdingsleep pid (b_lock (bufs c ! i))"
    and "b_refcnt (bufs c ! i) = 1"
  shows "\<exists>c'. brelse pid i c = Inr c' \<and> dll c' (i # remove1 i xs) \<and> \<not> sl_locked (b_lock (bufs c' ! i))"
proof -
  let ?u = "upd_buf i (\<lambda>b. b\<lparr>b_lock := fst (releasesleep (b_lock b)), b_refcnt := b_refcnt b - 1\<rparr>) c"
  have i: "i < bhead c" using assms(1,2) by (auto simp: dll_def)
  have "brelse pid i c = Inr (link_front i (unlink i ?u))"
    using assms(3,4) i by (simp add: brelse_def Let_def)
  moreover have "dll (link_front i (unlink i ?u)) (i # remove1 i xs)"
    by (rule dll_release) (use assms(1,2) in simp_all)
  moreover have "bufs (link_front i (unlink i ?u)) = bufs ?u"
    by (simp add: link_front_def unlink_def Let_def)
  ultimately show ?thesis using i by (simp add: releasesleep_def)
qed

lemma demo_binit_ok: "cache_ok (binit demo_bcache)" and demo_binit_bufs: "bufs (binit demo_bcache) = bufs demo_bcache"
proof -
  have h: "bhead demo_bcache = 3" by (simp add: demo_bcache_def)
  show b: "bufs (binit demo_bcache) = bufs demo_bcache"
    by (simp add: binit_def demo_bcache_def link_front_def upd_buf_def modify_def demo_buf_def Let_def eval_nat_numeral)
  have "dll (binit demo_bcache) (rev [0..<0 + 3])"
    using dll_binit_fold [of "demo_bcache\<lparr>bprev := (bprev demo_bcache)[3 := 3], bnext := (bnext demo_bcache)[3 := 3]\<rparr>" 0 3]
    by (simp add: binit_def h Let_def dll_def) (simp add: demo_bcache_def eval_nat_numeral)
  then have "\<exists>xs. dll (binit demo_bcache) xs \<and> set xs = {..<3}" by (intro exI conjI) auto
  moreover have "buf_ok (binit demo_bcache) (bufs demo_bcache ! i)" "b_dev (bufs demo_bcache ! i) = 0" if "i < 3" for i
    using that by (auto simp: demo_bcache_def demo_buf_def buf_ok_def less_Suc_eq eval_nat_numeral)
  ultimately show "cache_ok (binit demo_bcache)"
    by (auto simp: cache_ok_def b h holds_def)
qed


lemma demo_bread: "\<exists>c'. bread 3 1 7 (binit demo_bcache) = Inr (0, c')"
  by (simp add: bread_def bget_def iderw_def lock_buf_def binit_def demo_bcache_def link_front_def upd_buf_def modify_def
      demo_buf_def initsleeplock_def acquiresleep_def holdingsleep_def Let_def eval_nat_numeral)


theorem brelse_moves_to_front_witness:
  "\<exists>c c'. brelse 3 0 c = Inr c' \<and> dll c' [0, 2, 1] \<and> bufs c = [demo_buf\<lparr>b_refcnt := 1, b_lock := \<lparr>sl_locked = True, sl_pid = 3\<rparr>\<rparr>, demo_buf, demo_buf]"
proof -
  let ?c = "upd_buf 0 (\<lambda>b. b\<lparr>b_refcnt := 1, b_lock := \<lparr>sl_locked = True, sl_pid = 3\<rparr>\<rparr>) (binit demo_bcache)"
  have b: "bufs ?c = [demo_buf\<lparr>b_refcnt := 1, b_lock := \<lparr>sl_locked = True, sl_pid = 3\<rparr>\<rparr>, demo_buf, demo_buf]"
    by (simp add: upd_buf_def demo_binit_bufs modify_def) (simp add: demo_bcache_def)
  have "dll (binit demo_bcache) [2, 1, 0]"
    using dll_binit_fold [of "demo_bcache\<lparr>bprev := (bprev demo_bcache)[3 := 3], bnext := (bnext demo_bcache)[3 := 3]\<rparr>" 0 3]
    by (simp add: binit_def demo_bcache_def Let_def dll_def eval_nat_numeral)
  then have "dll ?c [2, 1, 0]" by simp
  from brelse_moves_to_front [OF this, of 0 3] b show ?thesis by (auto simp: holdingsleep_def)
qed

end
