(* ===== verification/CString.thy ===== *)
theory CString
  imports Prelude
begin

text \<open>
  The memory and string functions of \<open>string.c\<close> (kernel) and \<open>ulib.c\<close> (user programs) and the
  number output of \<open>printf.c\<close>. Memory is a function from 32-bit addresses to bytes; a pointer is an
  address. Loops that stop at a NUL byte return \<open>None\<close> when there is none.
\<close>

subsection \<open>Kernel memory functions\<close>

fun stosb :: "nat \<Rightarrow> u32 \<Rightarrow> u8 \<Rightarrow> memory \<Rightarrow> memory" where
  "stosb 0 a c m = m"
| "stosb (Suc n) a c m = stosb n (a + 1) c (m(a := c))"

fun stosl :: "nat \<Rightarrow> u32 \<Rightarrow> u32 \<Rightarrow> memory \<Rightarrow> memory" where
  "stosl 0 a w m = m"
| "stosl (Suc n) a w m = stosl n (a + 4) w
     (m(a := ucast w, a + 1 := ucast (drop_bit 8 w), a + 2 := ucast (drop_bit 16 w), a + 3 := ucast (drop_bit 24 w)))"

definition memset :: "u32 \<Rightarrow> u32 \<Rightarrow> u32 \<Rightarrow> memory \<Rightarrow> memory" where
  "memset dst c n m =
     (if dst mod 4 = 0 \<and> n mod 4 = 0
      then let c = c AND 0xFF in
           stosl (unat (n div 4)) dst (push_bit 24 c OR push_bit 16 c OR push_bit 8 c OR c) m
      else stosb (unat n) dst (ucast c) m)"

fun memcmp :: "nat \<Rightarrow> u32 \<Rightarrow> u32 \<Rightarrow> memory \<Rightarrow> int" where
  "memcmp 0 s1 s2 m = 0"
| "memcmp (Suc n) s1 s2 m = (if m s1 \<noteq> m s2 then uint (m s1) - uint (m s2) else memcmp n (s1 + 1) (s2 + 1) m)"

fun copy_fwd :: "nat \<Rightarrow> u32 \<Rightarrow> u32 \<Rightarrow> memory \<Rightarrow> memory" where
  "copy_fwd 0 d s m = m"
| "copy_fwd (Suc n) d s m = copy_fwd n (d + 1) (s + 1) (m(d := m s))"

fun copy_bwd :: "nat \<Rightarrow> u32 \<Rightarrow> u32 \<Rightarrow> memory \<Rightarrow> memory" where
  "copy_bwd 0 d s m = m"
| "copy_bwd (Suc n) d s m = copy_bwd n (d - 1) (s - 1) (m(d - 1 := m (s - 1)))"

definition memmove :: "u32 \<Rightarrow> u32 \<Rightarrow> u32 \<Rightarrow> memory \<Rightarrow> memory" where
  "memmove d s n m =
     (if s < d \<and> d < s + n then copy_bwd (unat n) (d + n) (s + n) m else copy_fwd (unat n) d s m)"

subsection \<open>Kernel string functions\<close>

fun strncmp :: "nat \<Rightarrow> u32 \<Rightarrow> u32 \<Rightarrow> memory \<Rightarrow> int" where
  "strncmp 0 p q m = 0"
| "strncmp (Suc n) p q m =
     (if m p \<noteq> 0 \<and> m p = m q then strncmp n (p + 1) (q + 1) m else uint (m p) - uint (m q))"

fun strncpy :: "nat \<Rightarrow> u32 \<Rightarrow> u32 \<Rightarrow> memory \<Rightarrow> memory" where
  "strncpy 0 s t m = m"
| "strncpy (Suc n) s t m =
     (let c = m t; m = m(s := c) in if c \<noteq> 0 then strncpy n (s + 1) (t + 1) m else stosb n (s + 1) 0 m)"

text \<open>\<open>safestrcpy\<close> with \<open>n > 0\<close>; the terminating store follows the last byte copied.\<close>

fun safestrcpy_loop :: "nat \<Rightarrow> u32 \<Rightarrow> u32 \<Rightarrow> memory \<Rightarrow> memory" where
  "safestrcpy_loop 0 s t m = m(s := 0)"
| "safestrcpy_loop (Suc n) s t m =
     (let c = m t; m = m(s := c) in if c \<noteq> 0 then safestrcpy_loop n (s + 1) (t + 1) m else m(s + 1 := 0))"

definition safestrcpy :: "int \<Rightarrow> u32 \<Rightarrow> u32 \<Rightarrow> memory \<Rightarrow> memory" where
  "safestrcpy n s t m = (if n \<le> 0 then m else safestrcpy_loop (nat (n - 1)) s t m)"

partial_function (option) strlen_from :: "nat \<Rightarrow> u32 \<Rightarrow> memory \<Rightarrow> nat option" where
  "strlen_from n s m = (if m (s + of_nat n) = 0 then Some n else strlen_from (n + 1) s m)"

definition strlen :: "u32 \<Rightarrow> memory \<Rightarrow> nat option" where
  "strlen s m = strlen_from 0 s m"

subsection \<open>User library\<close>

partial_function (option) strcpy :: "u32 \<Rightarrow> u32 \<Rightarrow> memory \<Rightarrow> memory option" where
  "strcpy s t m = (let c = m t; m = m(s := c) in if c = 0 then Some m else strcpy (s + 1) (t + 1) m)"

partial_function (option) strcmp :: "u32 \<Rightarrow> u32 \<Rightarrow> memory \<Rightarrow> int option" where
  "strcmp p q m = (if m p \<noteq> 0 \<and> m p = m q then strcmp (p + 1) (q + 1) m else Some (uint (m p) - uint (m q)))"

partial_function (option) strchr :: "u32 \<Rightarrow> u8 \<Rightarrow> memory \<Rightarrow> u32 option" where
  "strchr s c m = (if m s = 0 then Some 0 else if m s = c then Some s else strchr (s + 1) c m)"

text \<open>\<open>gets\<close>, with the bytes that \<open>read\<close> still delivers; returns the line without its NUL.\<close>

fun gets :: "nat \<Rightarrow> u8 list \<Rightarrow> u8 list \<times> u8 list" where
  "gets 0 inp = ([], inp)"
| "gets (Suc k) [] = ([], [])"
| "gets (Suc k) (c # inp) =
     (if c = 10 \<or> c = 13 then ([c], inp) else case gets k inp of (line, rest) \<Rightarrow> (c # line, rest))"

definition ulib_memmove :: "u32 \<Rightarrow> u32 \<Rightarrow> int \<Rightarrow> memory \<Rightarrow> memory" where
  "ulib_memmove d s n m = copy_fwd (nat n) d s m"

text \<open>\<open>atoi\<close> on the bytes of a string; \<open>int\<close> arithmetic wraps around at 32 bits.\<close>

fun atoi_from :: "u32 \<Rightarrow> u8 list \<Rightarrow> u32" where
  "atoi_from n [] = n"
| "atoi_from n (c # cs) = (if 48 \<le> c \<and> c \<le> 57 then atoi_from (n * 10 + ucast c - 48) cs else n)"

definition atoi :: "u8 list \<Rightarrow> u32" where
  "atoi cs = atoi_from 0 cs"

subsection \<open>Printing numbers\<close>

definition digit_char :: "u32 \<Rightarrow> u8" where
  "digit_char d = map (\<lambda>c. of_char c) ''0123456789ABCDEF'' ! unat d"

lemma word_div_less:
  fixes x b :: u32
  assumes "2 \<le> b" and "x div b \<noteq> 0"
  shows "unat (x div b) < unat x"
proof -
  have "2 \<le> unat b" using assms(1) by (simp add: word_le_nat_alt)
  moreover have "x \<noteq> 0" using assms(2) by auto
  then have "0 < unat x" by (simp add: unat_gt_0)
  ultimately show ?thesis by (simp add: unat_div_distrib)
qed

text \<open>
  The \<open>do\<close> loop of \<open>printint\<close>: the digits, last one first. The callers pass the bases 10 and 16;
  for the bases 0 and 1 the C loop would trap or not end, and the function here is cut short.
\<close>

function (sequential) digits_rev :: "u32 \<Rightarrow> u32 \<Rightarrow> u8 list" where
  "digits_rev base x = (if base < 2 then [] else
     digit_char (x mod base) # (if x div base = 0 then [] else digits_rev base (x div base)))"
  by pat_completeness auto
termination
  by (relation "measure (\<lambda>(base, x). unat x)") (auto simp: word_div_less not_less)

definition printint :: "u32 \<Rightarrow> u32 \<Rightarrow> bool \<Rightarrow> u8 list" where
  "printint xx base signd =
     (let neg = signd \<and> sint xx < 0; x = (if neg then - xx else xx)
      in (if neg then [45] else []) @ rev (digits_rev base x))"

text \<open>
  \<open>printf\<close>: the format string, whether the previous byte was a \<open>%\<close>, the argument words \<open>ap\<close> from
  number \<open>k\<close> on, and the string at each address.
\<close>

fun printf_loop :: "(u32 \<Rightarrow> u8 list) \<Rightarrow> (nat \<Rightarrow> u32) \<Rightarrow> bool \<Rightarrow> nat \<Rightarrow> u8 list \<Rightarrow> u8 list" where
  "printf_loop str ap st k [] = []"
| "printf_loop str ap False k (c # fmt) =
     (if c = 37 then printf_loop str ap True k fmt else c # printf_loop str ap False k fmt)"
| "printf_loop str ap True k (c # fmt) =
     (if c = 100 then printint (ap k) 10 True @ printf_loop str ap False (k + 1) fmt
      else if c = 120 \<or> c = 112 then printint (ap k) 16 False @ printf_loop str ap False (k + 1) fmt
      else if c = 115 then (if ap k = 0 then map of_char ''(null)'' else str (ap k)) @ printf_loop str ap False (k + 1) fmt
      else if c = 99 then ucast (ap k) # printf_loop str ap False (k + 1) fmt
      else if c = 37 then c # printf_loop str ap False k fmt
      else 37 # c # printf_loop str ap False k fmt)"

definition printf :: "(u32 \<Rightarrow> u8 list) \<Rightarrow> u8 list \<Rightarrow> (nat \<Rightarrow> u32) \<Rightarrow> u8 list" where
  "printf str fmt ap = printf_loop str ap False 0 fmt"

subsection \<open>Ranges of addresses\<close>

abbreviation in_range :: "u32 \<Rightarrow> u32 \<Rightarrow> nat \<Rightarrow> bool" where
  "in_range a d n \<equiv> unat (a - d) < n"

lemma range_step: "in_range a d (Suc n) \<longleftrightarrow> a = d \<or> in_range a (d + 1) n" if "n < 2 ^ 32"
proof (cases "a = d")
  case False
  then have "a - d \<noteq> 0" by simp
  then have "unat (a - d) = Suc (unat (a - d - 1))"
    using unat_minus_one [of "a - d"] unat_gt_0 [of "a - d"] by linarith
  then show ?thesis using False by (simp add: diff_diff_eq)
qed simp

lemma range_not_start: "n < 2 ^ 32 \<Longrightarrow> \<not> in_range d (d + 1) n"
  by (simp add: unsigned_minus_1_eq_mask mask_eq_exp_minus_1)

lemma stosb_apply: "n \<le> 2 ^ 32 \<Longrightarrow> stosb n d c m a = (if in_range a d n then c else m a)"
proof (induction n arbitrary: d m)
  case (Suc n)
  then have "n < 2 ^ 32" by simp
  from range_step [OF this, of a d] Suc.prems show ?case by (auto simp: Suc.IH)
qed simp

lemma copy_fwd_apply:
  assumes "unat s + n \<le> 2 ^ 32" and "unat d + n \<le> 2 ^ 32" and "unat d \<le> unat s \<or> unat s + n \<le> unat d"
  shows "copy_fwd n d s m a = (if in_range a d n then m (s + (a - d)) else m a)"
  using assms
proof (induction n arbitrary: d s m)
  case (Suc n)
  have n: "n < 2 ^ 32" using Suc.prems by simp
  show ?case
  proof (cases "n = 0")
    case False
    have u: "unat (s + 1) = unat s + 1" "unat (d + 1) = unat d + 1"
      using Suc.prems False by (simp_all add: unat_add_small)
    have ih: "copy_fwd n (d + 1) (s + 1) (m(d := m s)) a =
        (if in_range a (d + 1) n then (m(d := m s)) (s + 1 + (a - (d + 1))) else (m(d := m s)) a)"
      by (rule Suc.IH) (use Suc.prems u in auto)
    have ne: "s + (a - d) \<noteq> d" if "in_range a (d + 1) n"
    proof
      assume e: "s + (a - d) = d"
      have "a - d \<noteq> 0" using that n range_not_start [OF n, of d] by auto
      then have k: "unat (a - d) = Suc (unat (a - (d + 1)))"
        using unat_minus_one [of "a - d"] unat_gt_0 [of "a - d"] by (simp add: diff_diff_eq)
      then have "unat (s + (a - d)) = unat s + unat (a - d)"
        using that Suc.prems(1) by (intro unat_add_small) linarith
      then have "unat d = unat s + unat (a - d)" by (simp only: e)
      with k that Suc.prems(3) show False by linarith
    qed
    show ?thesis
    proof (cases "a = d")
      case True
      with ih range_not_start [OF n, of d] show ?thesis by simp
    next
      case False
      with range_step [OF n, of a d] ih ne show ?thesis by (simp add: algebra_simps)
    qed
  qed (auto simp: unat_eq_0)
qed simp

lemma copy_bwd_apply:
  assumes "unat s + n \<le> 2 ^ 32" and "unat d + n < 2 ^ 32" and "unat s < unat d"
  shows "copy_bwd n (d + of_nat n) (s + of_nat n) m a = (if in_range a d n then m (s + (a - d)) else m a)"
  using assms
proof (induction n arbitrary: m)
  case (Suc n)
  let ?d = "d + of_nat n" and ?s = "s + of_nat n"
  have un: "unat (of_nat n :: u32) = n" using Suc.prems by (simp add: unat_of_nat)
  have e: "d + of_nat (Suc n) - 1 = ?d" "s + of_nat (Suc n) - 1 = ?s" by simp_all
  have ih: "copy_bwd n ?d ?s (m(?d := m ?s)) a =
      (if in_range a d n then (m(?d := m ?s)) (s + (a - d)) else (m(?d := m ?s)) a)"
    by (rule Suc.IH) (use Suc.prems in auto)
  have ud: "unat ?d = unat d + n" using Suc.prems un by (simp add: unat_add_small)
  have ne: "s + (a - d) \<noteq> ?d" if "in_range a d n"
  proof
    assume q: "s + (a - d) = ?d"
    have "unat (s + (a - d)) = unat s + unat (a - d)"
      using that Suc.prems(1) by (intro unat_add_small) linarith
    then have "unat ?d = unat s + unat (a - d)" by (simp only: q)
    with that ud Suc.prems(3) show False by linarith
  qed
  have r: "in_range a d (Suc n) \<longleftrightarrow> in_range a d n \<or> a = ?d"
  proof -
    have "unat (a - d) = n \<longleftrightarrow> a = ?d"
      by (metis un add.commute diff_add_cancel add_diff_cancel_left' word_unat_eq_iff)
    then show ?thesis by (auto simp: less_Suc_eq)
  qed
  show ?case
  proof (cases "a = ?d")
    case True
    then have "a - d = of_nat n" by simp
    then have "\<not> in_range a d n" "s + (a - d) = ?s" using un by simp_all
    with True ih r show ?thesis by (simp only: copy_bwd.simps e if_False if_True simp_thms fun_upd_same)
  next
    case False
    with ih ne r show ?thesis
      by (cases "in_range a d n") (simp_all only: copy_bwd.simps e if_False if_True simp_thms fun_upd_apply)
  qed
qed simp

subsection \<open>Numbers\<close>

lemma ucast_byte: "unat (ucast (b :: u8) :: u32) = unat b"
proof -
  have "unat b < 256" using unsigned_less [of b] by simp
  then show ?thesis by (simp add: unsigned_ucast_eq take_bit_nat_eq_self)
qed

lemma digit_char_dec:
  assumes "unat d < 10"
  shows "unat (digit_char d) = 48 + unat d"
proof -
  have "unat d \<in> {0, 1, 2, 3, 4, 5, 6, 7, 8, 9}" using assms by auto
  then show ?thesis by (auto simp: digit_char_def)
qed

lemma digit_dec:
  fixes x :: u32
  shows "48 \<le> digit_char (x mod 10) \<and> digit_char (x mod 10) \<le> 57"
    and "ucast (digit_char (x mod 10)) = 48 + x mod 10"
proof -
  have l: "unat (x mod 10) < 10" by (simp add: unat_mod_distrib)
  note c = digit_char_dec [OF l]
  from c l show "48 \<le> digit_char (x mod 10) \<and> digit_char (x mod 10) \<le> 57" by (simp add: word_le_nat_alt)
  have "unat (48 + x mod 10) = 48 + unat (x mod 10)" using l by (subst unat_add_small) simp_all
  with c show "ucast (digit_char (x mod 10)) = 48 + x mod 10" by (metis ucast_byte word_unat_eq_iff)
qed

lemma atoi_from_append:
  "\<forall>c\<in>set xs. 48 \<le> c \<and> c \<le> 57 \<Longrightarrow> atoi_from n (xs @ ys) = atoi_from (atoi_from n xs) ys"
  by (induction xs arbitrary: n) auto

declare digits_rev.simps [simp del]

lemma digits_rev_dec: "c \<in> set (digits_rev 10 x) \<Longrightarrow> 48 \<le> c \<and> c \<le> 57"
proof (induction "10 :: u32" x rule: digits_rev.induct)
  case (1 x)
  then show ?case using digit_dec(1) [of x] by (subst (asm) digits_rev.simps) (auto split: if_splits)
qed

lemma atoi_digits: "atoi_from 0 (rev (digits_rev 10 x)) = x"
proof (induction "10 :: u32" x rule: digits_rev.induct)
  case (1 x)
  have e: "(x div 10) * 10 + x mod 10 = x" by (rule div_mult_mod_eq)
  show ?case
  proof (cases "x div 10 = 0")
    case True
    with e digit_dec [of x] show ?thesis by (subst digits_rev.simps) simp
  next
    case False
    have "atoi_from 0 (rev (digits_rev 10 (x div 10)) @ [digit_char (x mod 10)]) =
        atoi_from (x div 10) [digit_char (x mod 10)]"
      using 1 False digits_rev_dec by (subst atoi_from_append) auto
    with e digit_dec [of x] False show ?thesis by (subst digits_rev.simps) simp
  qed
qed

lemma length_digits_rev: "2 \<le> base \<Longrightarrow> unat x < unat base ^ Suc k \<Longrightarrow> length (digits_rev base x) \<le> Suc k"
proof (induction k arbitrary: x)
  case 0
  then have "x div base = 0" by (simp add: word_less_nat_alt unat_div_distrib unat_eq_0 [symmetric])
  then show ?case by (subst digits_rev.simps) simp
next
  case (Suc k)
  have "unat (x div base) < unat base ^ Suc k"
    using Suc.prems(2) by (simp add: unat_div_distrib less_mult_imp_div_less mult.commute)
  with Suc.IH [OF Suc.prems(1)] show ?case by (subst digits_rev.simps) simp
qed

subsection \<open>Filling and bounded copying\<close>

lemma spread_byte:
  fixes x :: u32
  defines "c \<equiv> x AND 0xFF"
  defines "w \<equiv> push_bit 24 c OR push_bit 16 c OR push_bit 8 c OR c"
  shows "ucast w = (ucast x :: u8)" "ucast (drop_bit 8 w) = (ucast x :: u8)"
    "ucast (drop_bit 16 w) = (ucast x :: u8)" "ucast (drop_bit 24 w) = (ucast x :: u8)"
proof -
  have m: "(0xFF :: u32) = mask 8" by (simp add: mask_eq_exp_minus_1)
  have c: "bit c i \<longleftrightarrow> i < 8 \<and> bit x i" for i
    by (auto simp: c_def m bit_simps)
  show "ucast w = (ucast x :: u8)" "ucast (drop_bit 8 w) = (ucast x :: u8)"
    "ucast (drop_bit 16 w) = (ucast x :: u8)" "ucast (drop_bit 24 w) = (ucast x :: u8)"
    by (rule bit_word_eqI; auto simp: w_def bit_simps c)+
qed

lemma stosl_stosb:
  assumes "ucast w = c" "ucast (drop_bit 8 w) = c" "ucast (drop_bit 16 w) = c" "ucast (drop_bit 24 w) = c"
  shows "stosl n a w m = stosb (4 * n) a c m"
proof (induction n arbitrary: a m)
  case (Suc n)
  have "stosb (4 * Suc n) a c m = stosb (4 * n) (a + 4) c (m(a := c, a + 1 := c, a + 2 := c, a + 3 := c))"
    by (simp only: mult_Suc_right numeral_eq_Suc pred_numeral_simps BitM.simps add_Suc stosb.simps)
      (simp add: add.assoc)
  then show ?case by (simp only: stosl.simps Suc assms)
qed simp

lemma safestrcpy_loop_bounds:
  "n < 2 ^ 32 - 1 \<Longrightarrow> \<not> in_range a s (Suc n) \<Longrightarrow> safestrcpy_loop n s t m a = m a"
proof (induction n arbitrary: s t m)
  case 0
  then show ?case by (auto simp: unat_eq_0)
next
  case (Suc n)
  have n: "n < 2 ^ 32 - 1" "Suc n < 2 ^ 32" "n < 2 ^ 32" using Suc.prems(1) by auto
  from Suc.prems(2) range_step [OF n(2), of a s] range_step [OF n(3), of a "s + 1"]
  have a: "a \<noteq> s" "\<not> in_range a (s + 1) (Suc n)" "a \<noteq> s + 1" by auto
  with Suc.IH [OF n(1) a(2)] show ?case by (auto simp: Let_def)
qed

text \<open>What is copied: the source up to its NUL or up to \<open>n\<close> bytes.\<close>

lemma safestrcpy_loop_copies:
  assumes "n < 2 ^ 31" and "\<And>i j. i \<le> n \<Longrightarrow> j \<le> n \<Longrightarrow> s + of_nat i \<noteq> t + of_nat j"
  shows "\<exists>k\<le>n. safestrcpy_loop n s t m (s + of_nat k) = 0 \<and> (\<forall>j<k. safestrcpy_loop n s t m (s + of_nat j) = m (t + of_nat j)
    \<and> m (t + of_nat j) \<noteq> 0) \<and> (k = n \<or> m (t + of_nat k) = 0)"
  using assms
proof (induction n arbitrary: s t m)
  case (Suc n)
  show ?case
  proof (cases "m t = 0")
    case True
    have "s + 1 \<noteq> s" by simp
    with True show ?thesis by (intro exI [of _ 0]) simp
  next
    case False
    let ?m = "m(s := m t)"
    have d: "s + 1 + of_nat i \<noteq> t + 1 + of_nat j" if "i \<le> n" "j \<le> n" for i j
      using Suc.prems(2) [of "Suc i" "Suc j"] that by (simp add: add.assoc)
    have "n < 2 ^ 31" using Suc.prems(1) by simp
    from Suc.IH [of "s + 1" "t + 1" ?m, OF this d] obtain k where k: "k \<le> n"
      "safestrcpy_loop n (s + 1) (t + 1) ?m (s + 1 + of_nat k) = 0"
      "\<forall>j<k. safestrcpy_loop n (s + 1) (t + 1) ?m (s + 1 + of_nat j) = ?m (t + 1 + of_nat j) \<and> ?m (t + 1 + of_nat j) \<noteq> 0"
      "k = n \<or> ?m (t + 1 + of_nat k) = 0" by blast
    have src: "?m (t + 1 + of_nat j) = m (t + 1 + of_nat j)" if "j \<le> n" for j
      using Suc.prems(2) [of 0 "Suc j"] that by (auto simp: add.assoc)
    have "\<not> in_range s (s + 1) (Suc n)" using Suc.prems(1) by (intro range_not_start) simp
    then have fst: "safestrcpy_loop n (s + 1) (t + 1) ?m s = m t"
      using safestrcpy_loop_bounds [of n s "s + 1" "t + 1" ?m] Suc.prems(1) by simp
    have "safestrcpy_loop n (s + 1) (t + 1) ?m (s + of_nat j) = m (t + of_nat j) \<and> m (t + of_nat j) \<noteq> 0"
      if "j < Suc k" for j
    proof (cases j)
      case (Suc i)
      with that k(1) have "i < k" "i \<le> n" by auto
      with k(3) src [of i] have "safestrcpy_loop n (s + 1) (t + 1) ?m (s + 1 + of_nat i) = m (t + 1 + of_nat i) \<and> m (t + 1 + of_nat i) \<noteq> 0"
        by metis
      with Suc show ?thesis by (simp add: add.assoc)
    qed (use fst False in simp)
    with False k src [of k] show ?thesis
      by (intro exI [of _ "Suc k"]) (auto simp: Let_def add.assoc)
  qed
qed simp

subsection \<open>Properties\<close>

definition demo_mem :: memory where
  "demo_mem a = (if 100 \<le> a \<and> a < 108 then ucast (a - 99) else 0)"

text \<open>
  The kernel's \<open>memmove\<close> copies correctly however the two ranges overlap: afterwards the destination
  holds what the source held before, and no other byte has changed.
\<close>

theorem memmove_overlap:
  assumes "unat s + unat n < 2 ^ 32" and "unat d + unat n < 2 ^ 32"
  shows "memmove d s n m a = (if in_range a d (unat n) then m (s + (a - d)) else m a)"
proof (cases "s < d \<and> d < s + n")
  case True
  have "copy_bwd (unat n) (d + of_nat (unat n)) (s + of_nat (unat n)) m a =
      (if in_range a d (unat n) then m (s + (a - d)) else m a)"
    by (rule copy_bwd_apply) (use assms True in \<open>auto simp: word_less_nat_alt\<close>)
  with True show ?thesis by (simp add: memmove_def)
next
  case False
  have "unat (s + n) = unat s + unat n" using assms(1) by (rule unat_add_small)
  with False have "unat d \<le> unat s \<or> unat s + unat n \<le> unat d" by (auto simp: word_less_nat_alt)
  with False assms copy_fwd_apply [of s "unat n" d m a] show ?thesis
    by (auto simp: memmove_def)
qed

theorem memmove_overlap_witness: "memmove 102 100 4 demo_mem 105 = 4"
  using memmove_overlap [of 100 4 102 demo_mem 105] by (simp add: demo_mem_def)

text \<open>
  \<open>memset\<close> with its fast path (whole words when address and length are multiples of 4) is equivalent
  to filling byte by byte.
\<close>

theorem memset_fills: "memset dst c n m a = (if in_range a dst (unat n) then ucast c else m a)"
proof -
  have "unat (n div 4) * 4 = unat n" if "n mod 4 = 0"
  proof -
    have "unat (n mod 4) = 0" by (simp add: that)
    then have "unat n mod 4 = 0" by (simp add: unat_mod_distrib)
    then show ?thesis using div_mult_mod_eq [of "unat n" 4] by (simp only: unat_div_distrib unat_numeral) simp
  qed
  then have "memset dst c n m = stosb (unat n) dst (ucast c) m"
    using stosl_stosb [OF spread_byte [of c]] by (auto simp: memset_def Let_def mult.commute)
  moreover have "unat n \<le> 2 ^ 32" using unat_bound [of n] by simp
  ultimately show ?thesis by (simp add: stosb_apply)
qed

text \<open>
  Reading back what was printed: \<open>atoi\<close> of the decimal text of a non-negative number is the number.
\<close>

theorem atoi_printint:
  assumes "0 \<le> sint x"
  shows "atoi (printint x 10 True) = x"
  using assms by (simp add: printint_def atoi_def atoi_digits)

theorem atoi_printint_witness: "atoi (printint 2021 10 True) = 2021"
proof (rule atoi_printint)
  show "0 \<le> sint (2021 :: u32)" using sint_small [of 2021] by simp
qed

text \<open>
  The 16-byte buffer of \<open>printint\<close> is large enough for every number in the two bases \<open>printf\<close> uses.
\<close>

theorem printint_fits_buffer: "length (printint x 10 sg) \<le> 11 \<and> length (printint x 16 False) \<le> 8"
proof -
  have u: "unat y < 2 ^ 32" for y :: u32 using unsigned_less [of y] by simp
  have "length (digits_rev 10 y) \<le> Suc 9" for y by (rule length_digits_rev) (use u [of y] in simp_all)
  moreover have "length (digits_rev 16 y) \<le> Suc 7" for y by (rule length_digits_rev) (use u [of y] in simp_all)
  ultimately show ?thesis by (auto simp: printint_def Let_def intro: order_trans [of _ 10])
qed

text \<open>
  \<open>safestrcpy\<close> writes only inside the \<open>n\<close> bytes of its destination and leaves a terminated string
  there: the source up to its NUL, or its first \<open>n - 1\<close> bytes when it is longer.
\<close>

theorem safestrcpy_bounded_terminated:
  assumes "0 < n" and "n < 2 ^ 31"
    and "\<And>i j. i < nat n \<Longrightarrow> j < nat n \<Longrightarrow> s + of_nat i \<noteq> t + of_nat j"
  shows "(\<forall>a. \<not> in_range a s (nat n) \<longrightarrow> safestrcpy n s t m a = m a) \<and>
    (\<exists>k<nat n. safestrcpy n s t m (s + of_nat k) = 0 \<and> (\<forall>j<k. safestrcpy n s t m (s + of_nat j) = m (t + of_nat j)
      \<and> m (t + of_nat j) \<noteq> 0) \<and> (k = nat n - 1 \<or> m (t + of_nat k) = 0))"
proof -
  obtain k where k: "nat n = Suc k" "nat (n - 1) = k" using assms(1) by (metis Suc_nat_eq_nat_zadd1 diff_ge_0_iff_ge int_one_le_iff_zero_less add.commute diff_add_cancel)
  have r: "safestrcpy n s t m = safestrcpy_loop k s t m" using assms(1) k by (simp add: safestrcpy_def)
  have "nat n < 2 ^ 31" using assms(2) by (simp add: nat_less_iff)
  then have "k < 2 ^ 31" using k by linarith
  moreover have "s + of_nat i \<noteq> t + of_nat j" if "i \<le> k" "j \<le> k" for i j using assms(3) that k by simp
  ultimately show ?thesis
    using safestrcpy_loop_copies [of k s t m] safestrcpy_loop_bounds [of k _ s t m] k(1)
    unfolding r by (auto simp: less_Suc_eq_le)
qed

theorem safestrcpy_bounded_terminated_witness:
  "\<exists>k<4. safestrcpy 4 200 100 demo_mem (200 + of_nat k) = 0 \<and> safestrcpy 4 200 100 demo_mem 100 = 1"
proof -
  have d: "(200 :: u32) + of_nat i \<noteq> 100 + of_nat j" if "i < nat 4" "j < nat 4" for i j
  proof
    assume "(200 :: u32) + of_nat i = 100 + of_nat j"
    then have "unat ((200 :: u32) + of_nat i) = unat ((100 :: u32) + of_nat j)" by (simp only:)
    with that show False by (simp add: unat_word_ariths unat_of_nat)
  qed
  have "\<not> in_range 100 200 4" by simp
  with safestrcpy_bounded_terminated [of 4 200 100 demo_mem, OF _ _ d] show ?thesis by (auto simp: demo_mem_def)
qed

end
