(* ===== verification/Kalloc.thy ===== *)
theory Kalloc
  imports Bytes ProcTable
begin

text \<open>
  The page allocator of \<open>kalloc.c\<close>. Physical memory is a function from the kernel address of a page to
  its 4096 bytes; the free list is threaded through the free pages themselves, in their first word,
  as in the code. The first address after the kernel image (\<open>end\<close>, defined by the linker) is an
  argument.
\<close>

definition PGSIZE :: u32 where "PGSIZE = 4096"
definition PHYSTOP :: u32 where "PHYSTOP = 0xE000000"

definition PGROUNDUP :: "u32 \<Rightarrow> u32" where "PGROUNDUP sz = (sz + PGSIZE - 1) AND NOT (PGSIZE - 1)"
definition PGROUNDDOWN :: "u32 \<Rightarrow> u32" where "PGROUNDDOWN a = a AND NOT (PGSIZE - 1)"

definition V2P :: "u32 \<Rightarrow> u32" where "V2P a = a - KERNBASE"
definition P2V :: "u32 \<Rightarrow> u32" where "P2V a = a + KERNBASE"

type_synonym page = "u8 list"

record pmem =
  pages :: "u32 \<Rightarrow> page"
  use_lock :: bool
  freelist :: u32

subsection \<open>Operations\<close>

text \<open>The check at the head of \<open>kfree\<close>.\<close>

definition kfree_ok :: "u32 \<Rightarrow> u32 \<Rightarrow> bool" where
  "kfree_ok kend v \<longleftrightarrow> \<not> (v mod PGSIZE \<noteq> 0 \<or> v < kend \<or> PHYSTOP \<le> V2P v)"

definition kfree :: "u32 \<Rightarrow> u32 \<Rightarrow> pmem \<Rightarrow> pmem kres" where
  "kfree kend v s =
     (if \<not> kfree_ok kend v then Inl (Panic ''kfree'')
      else
        let s = s\<lparr>pages := (pages s)(v := replicate 4096 1)\<rparr>;
            s = s\<lparr>pages := (pages s)(v := put32 0 (freelist s) (pages s v))\<rparr>
        in Inr (s\<lparr>freelist := v\<rparr>))"

definition kalloc :: "pmem \<Rightarrow> u32 \<times> pmem" where
  "kalloc s =
     (let r = freelist s in
      (r, if r \<noteq> 0 then s\<lparr>freelist := get32 (pages s r) 0\<rparr> else s))"

text \<open>The loop stops where \<open>p + PGSIZE\<close> would wrap around.\<close>

function freerange_loop :: "u32 \<Rightarrow> u32 \<Rightarrow> u32 \<Rightarrow> pmem \<Rightarrow> pmem kres" where
  "freerange_loop kend p vend s =
     (if p + PGSIZE \<le> vend \<and> p < p + PGSIZE
      then kbind (kfree kend p s) (freerange_loop kend (p + PGSIZE) vend)
      else Inr s)"
  by pat_completeness auto
termination
  by (relation "measure (\<lambda>(kend, p, vend, s). 2 ^ 32 - unat p)")
    (use unat_bound in \<open>auto simp: word_less_nat_alt intro!: diff_less_mono2\<close>)

definition freerange :: "u32 \<Rightarrow> u32 \<Rightarrow> u32 \<Rightarrow> pmem \<Rightarrow> pmem kres" where
  "freerange kend vstart vend s = freerange_loop kend (PGROUNDUP vstart) vend s"

text \<open>
  The flag \<open>use_lock\<close> says whether \<open>kalloc\<close> and \<open>kfree\<close> take the lock around their list operation;
  these sections are atomic in the model.
\<close>

definition kinit1 :: "u32 \<Rightarrow> u32 \<Rightarrow> u32 \<Rightarrow> pmem \<Rightarrow> pmem kres" where
  "kinit1 kend vstart vend s = freerange kend vstart vend (s\<lparr>use_lock := False\<rparr>)"

definition kinit2 :: "u32 \<Rightarrow> u32 \<Rightarrow> u32 \<Rightarrow> pmem \<Rightarrow> pmem kres" where
  "kinit2 kend vstart vend s = kbind (freerange kend vstart vend s) (\<lambda>s. Inr (s\<lparr>use_lock := True\<rparr>))"

subsection \<open>The free list\<close>

fun linked :: "(u32 \<Rightarrow> page) \<Rightarrow> u32 \<Rightarrow> u32 list \<Rightarrow> bool" where
  "linked pg a [] \<longleftrightarrow> a = 0"
| "linked pg a (x # xs) \<longleftrightarrow> a = x \<and> x \<noteq> 0 \<and> linked pg (get32 (pg x) 0) xs"

definition free_pages :: "pmem \<Rightarrow> u32 list \<Rightarrow> bool" where
  "free_pages s xs \<longleftrightarrow> linked (pages s) (freelist s) xs \<and> distinct xs"

lemma linked_upd: "v \<notin> set xs \<Longrightarrow> linked (pg(v := x)) a xs \<longleftrightarrow> linked pg a xs"
  by (induction xs arbitrary: a) auto

lemma linked_unique: "linked pg a xs \<Longrightarrow> linked pg a ys \<Longrightarrow> xs = ys"
proof (induction xs arbitrary: a ys)
  case Nil
  then show ?case by (cases ys) auto
next
  case (Cons x xs)
  then show ?case by (cases ys) auto
qed

lemma kalloc_spec:
  assumes "free_pages s xs"
  shows "xs = [] \<Longrightarrow> kalloc s = (0, s)"
    and "xs = x # ys \<Longrightarrow> kalloc s = (x, s\<lparr>freelist := get32 (pages s x) 0\<rparr>) \<and>
      free_pages (s\<lparr>freelist := get32 (pages s x) 0\<rparr>) ys \<and> x \<noteq> 0 \<and> x \<notin> set ys"
  using assms by (auto simp: free_pages_def kalloc_def Let_def)

lemma kfree_spec:
  assumes "free_pages s xs" and "v \<notin> set xs" and "v \<noteq> 0" and "kfree_ok kend v"
  shows "\<exists>t. kfree kend v s = Inr t \<and> free_pages t (v # xs) \<and> (\<forall>w. w \<noteq> v \<longrightarrow> pages t w = pages s w)"
proof -
  let ?p = "put32 0 (freelist s) (replicate 4096 1)"
  let ?t = "s\<lparr>pages := (pages s)(v := ?p), freelist := v\<rparr>"
  have k: "kfree kend v s = Inr ?t" using assms(4) by (simp add: kfree_def Let_def)
  have "get32 ?p 0 = freelist s" by (simp add: get32_put32)
  then have "free_pages ?t (v # xs)" using assms by (simp add: free_pages_def linked_upd)
  with k show ?thesis by simp
qed

lemma kfree_pages:
  assumes "kfree kend v s = Inr t"
  shows "kfree_ok kend v" and "freelist t = v" and "w \<noteq> v \<Longrightarrow> pages t w = pages s w"
    and "length (pages t v) = 4096"
  using assms by (auto simp: kfree_def Let_def split: if_splits)

lemma kfree_ok_nonzero: "kend \<noteq> 0 \<Longrightarrow> kfree_ok kend v \<Longrightarrow> v \<noteq> 0"
  by (metis kfree_ok_def word_neq_0_conv)

lemma word_next_page:
  fixes p :: u32
  assumes "p < p + 4096"
  shows "unat (p + 4096) = unat p + 4096"
proof (rule ccontr)
  assume "unat (p + 4096) \<noteq> unat p + 4096"
  then have "2 ^ 32 \<le> unat p + 4096" using unat_add_small [of p 4096] by (cases "2 ^ 32 \<le> unat p + 4096") simp_all
  then have "(unat p + 4096) mod 2 ^ 32 = unat p + 4096 - 2 ^ 32"
    using unat_bound [of p] by (simp add: le_mod_geq)
  then show False using assms by (simp add: word_less_nat_alt unat_word_ariths)
qed

subsection \<open>Pages in use\<close>

text \<open>
  The allocator and its clients: the pages handed out, and the address \<open>lim\<close> below which all pages
  given to the allocator lie. A client writes only to pages it holds. \<open>kinit2\<close> hands over a range
  above the one of \<open>kinit1\<close> while pages are already in use.
\<close>

type_synonym kmem_state = "pmem \<times> u32 set \<times> u32"

inductive kmem_step :: "u32 \<Rightarrow> kmem_state \<Rightarrow> kmem_state \<Rightarrow> bool" for kend where
  kmem_alloc: "kalloc s = (r, t) \<Longrightarrow> r \<noteq> 0 \<Longrightarrow> kmem_step kend (s, A, lim) (t, insert r A, lim)"
| kmem_free: "v \<in> A \<Longrightarrow> kfree kend v s = Inr t \<Longrightarrow> kmem_step kend (s, A, lim) (t, A - {v}, lim)"
| kmem_write: "v \<in> A \<Longrightarrow> kmem_step kend (s, A, lim) (s\<lparr>pages := (pages s)(v := x)\<rparr>, A, lim)"
| kmem_more: "lim \<le> PGROUNDUP vstart \<Longrightarrow> lim \<le> vend \<Longrightarrow> kinit2 kend vstart vend s = Inr t \<Longrightarrow>
    kmem_step kend (s, A, lim) (t, A, vend)"

inductive_cases kmem_stepE: "kmem_step kend \<sigma> \<tau>"

definition kmem_init :: "u32 \<Rightarrow> kmem_state \<Rightarrow> bool" where
  "kmem_init kend = (\<lambda>(t, A, lim). A = {} \<and> kend \<noteq> 0 \<and>
     (\<exists>s vstart. freelist s = 0 \<and> kinit1 kend vstart lim s = Inr t))"

definition below :: "u32 \<Rightarrow> u32 \<Rightarrow> bool" where
  "below lim v \<longleftrightarrow> unat v + 4096 \<le> unat lim"

definition kmem_inv :: "u32 \<Rightarrow> kmem_state \<Rightarrow> bool" where
  "kmem_inv kend = (\<lambda>(s, A, lim). kend \<noteq> 0 \<and> (\<exists>xs. free_pages s xs \<and>
     (\<forall>v \<in> set xs \<union> A. kfree_ok kend v \<and> below lim v) \<and> set xs \<inter> A = {}))"

lemma below_mono: "below l v \<Longrightarrow> l \<le> m \<Longrightarrow> below m v"
  by (simp add: below_def word_le_nat_alt)

lemma freerange_loop_free:
  assumes "freerange_loop kend p vend s = Inr t" and "free_pages s xs" and "kend \<noteq> 0"
    and "\<forall>v\<in>set xs. unat v < unat p"
  shows "\<exists>ys. free_pages t (ys @ xs) \<and> (\<forall>v\<in>set ys. kfree_ok kend v \<and> below vend v \<and> unat p \<le> unat v)"
  using assms
proof (induction kend p vend s arbitrary: xs rule: freerange_loop.induct)
  case (1 kend p vend s)
  show ?case
  proof (cases "p + PGSIZE \<le> vend \<and> p < p + PGSIZE")
    case False
    then have "t = s" using 1(2) freerange_loop.simps [of kend p vend s] by (simp only: if_False Inr_Inl_False sum.inject)
    with 1(3) show ?thesis by (intro exI [of _ "[]"]) simp
  next
    case True
    then obtain u where u: "kfree kend p s = Inr u" and r: "freerange_loop kend (p + PGSIZE) vend u = Inr t"
      using 1(2) by (subst (asm) freerange_loop.simps) (auto simp: kres_simps)
    have ok: "kfree_ok kend p" by (rule kfree_pages(1) [OF u])
    have p: "unat (p + PGSIZE) = unat p + 4096"
      using True word_next_page [of p] by (simp add: PGSIZE_def)
    have "p \<notin> set xs" using 1(5) by auto
    then have fp: "free_pages u (p # xs)"
      using kfree_spec [OF 1(3) _ kfree_ok_nonzero [OF 1(4) ok] ok] u by auto
    have lt: "\<forall>v\<in>set (p # xs). unat v < unat (p + PGSIZE)" using 1(5) p by auto
    obtain ys where ys: "free_pages t (ys @ p # xs)"
      "\<forall>v\<in>set ys. kfree_ok kend v \<and> below vend v \<and> unat (p + PGSIZE) \<le> unat v"
      using 1(1) [OF True u r fp 1(4) lt] by blast
    have "below vend p" using True p by (simp add: below_def word_le_nat_alt)
    then have "\<forall>v\<in>set (ys @ [p]). kfree_ok kend v \<and> below vend v \<and> unat p \<le> unat v"
      using ys(2) ok p by auto
    then show ?thesis using ys(1) by (intro exI [of _ "ys @ [p]"]) simp
  qed
qed

lemma freerange_free:
  assumes "freerange kend vstart vend s = Inr t" and "free_pages s xs" and "kend \<noteq> 0"
    and "\<forall>v \<in> set xs \<union> A. kfree_ok kend v \<and> below lim v" and "set xs \<inter> A = {}"
    and "lim \<le> PGROUNDUP vstart" and "lim \<le> vend"
  shows "kmem_inv kend (t, A, vend)"
proof -
  have lt: "\<forall>v \<in> set xs \<union> A. unat v < unat (PGROUNDUP vstart)"
    using assms(4,6) by (meson below_def add_lessD1 less_le_trans le_eq_less_or_eq less_add_same_cancel1 zero_less_numeral word_le_nat_alt)
  obtain ys where ys: "free_pages t (ys @ xs)"
    "\<forall>v\<in>set ys. kfree_ok kend v \<and> below vend v \<and> unat (PGROUNDUP vstart) \<le> unat v"
    using freerange_loop_free [OF assms(1) [unfolded freerange_def] assms(2,3)] lt by blast
  have "v \<notin> A" if "v \<in> set ys" for v using ys(2) lt that by (meson UnI2 not_less)
  then have "set (ys @ xs) \<inter> A = {}" using assms(5) by auto
  moreover have "\<forall>v \<in> set (ys @ xs) \<union> A. kfree_ok kend v \<and> below vend v"
    using ys(2) assms(4) below_mono [OF _ assms(7)] by auto
  ultimately show ?thesis unfolding kmem_inv_def prod.case using ys(1) assms(3) by blast
qed

lemma free_pages_flag [simp]: "free_pages (s\<lparr>use_lock := b\<rparr>) xs = free_pages s xs"
  by (simp add: free_pages_def)

lemma kmem_init_inv: "kmem_init kend \<sigma> \<Longrightarrow> kmem_inv kend \<sigma>"
proof -
  assume a: "kmem_init kend \<sigma>"
  obtain t A lim where \<sigma>: "\<sigma> = (t, A, lim)" by (cases \<sigma>)
  from a obtain s vstart where s: "A = {}" "kend \<noteq> 0" "freelist s = 0"
    "freerange kend vstart lim (s\<lparr>use_lock := False\<rparr>) = Inr t"
    by (auto simp: \<sigma> kmem_init_def kinit1_def)
  have "free_pages (s\<lparr>use_lock := False\<rparr>) []" using s(3) by (simp add: free_pages_def)
  from freerange_free [OF s(4) this s(2), of A 0] show ?thesis using s(1) by (simp add: \<sigma>)
qed

lemma kmem_step_inv: "kmem_inv kend \<sigma> \<Longrightarrow> kmem_step kend \<sigma> \<tau> \<Longrightarrow> kmem_inv kend \<tau>"
proof (erule kmem_stepE)
  fix s r t A lim
  assume i: "kmem_inv kend \<sigma>" and \<sigma>: "\<sigma> = (s, A, lim)" and \<tau>: "\<tau> = (t, insert r A, lim)"
    and k: "kalloc s = (r, t)" "r \<noteq> 0"
  from i obtain xs where xs: "kend \<noteq> 0" "free_pages s xs"
    "\<forall>v \<in> set xs \<union> A. kfree_ok kend v \<and> below lim v" "set xs \<inter> A = {}"
    by (auto simp: \<sigma> kmem_inv_def)
  obtain ys where "xs = r # ys" using k kalloc_spec [OF xs(2)] by (cases xs) auto
  with k kalloc_spec(2) [OF xs(2) this] xs show "kmem_inv kend \<tau>"
    by (auto simp: \<tau> kmem_inv_def)
next
  fix v s t A lim
  assume i: "kmem_inv kend \<sigma>" and \<sigma>: "\<sigma> = (s, A, lim)" and \<tau>: "\<tau> = (t, A - {v}, lim)"
    and v: "v \<in> A" and k: "kfree kend v s = Inr t"
  from i obtain xs where xs: "kend \<noteq> 0" "free_pages s xs"
    "\<forall>v \<in> set xs \<union> A. kfree_ok kend v \<and> below lim v" "set xs \<inter> A = {}"
    by (auto simp: \<sigma> kmem_inv_def)
  have ok: "kfree_ok kend v" and nin: "v \<notin> set xs" using xs v by auto
  have "free_pages t (v # xs)"
    using kfree_spec [OF xs(2) nin kfree_ok_nonzero [OF xs(1) ok] ok] k by auto
  then show "kmem_inv kend \<tau>"
    unfolding \<tau> kmem_inv_def using xs v by (auto intro!: exI [of _ "v # xs"])
next
  fix v s x A lim
  assume i: "kmem_inv kend \<sigma>" and \<sigma>: "\<sigma> = (s, A, lim)" and v: "v \<in> A"
    and \<tau>: "\<tau> = (s\<lparr>pages := (pages s)(v := x)\<rparr>, A, lim)"
  from i v have "\<exists>xs. free_pages s xs \<and> v \<notin> set xs \<and>
      (\<forall>v \<in> set xs \<union> A. kfree_ok kend v \<and> below lim v) \<and> set xs \<inter> A = {}" and "kend \<noteq> 0"
    by (auto simp: \<sigma> kmem_inv_def)
  then obtain xs where xs: "kend \<noteq> 0" "free_pages s xs" "v \<notin> set xs"
    "\<forall>v \<in> set xs \<union> A. kfree_ok kend v \<and> below lim v" "set xs \<inter> A = {}"
    by blast
  then have "free_pages (s\<lparr>pages := (pages s)(v := x)\<rparr>) xs" by (simp add: free_pages_def linked_upd)
  then show "kmem_inv kend \<tau>" unfolding \<tau> kmem_inv_def using xs by blast
next
  fix lim vstart vend s t A
  assume i: "kmem_inv kend \<sigma>" and \<sigma>: "\<sigma> = (s, A, lim)" and \<tau>: "\<tau> = (t, A, vend)"
    and l: "lim \<le> PGROUNDUP vstart" "lim \<le> vend" and k: "kinit2 kend vstart vend s = Inr t"
  from k obtain u where u: "freerange kend vstart vend s = Inr u" "t = u\<lparr>use_lock := True\<rparr>"
    by (auto simp: kinit2_def kres_simps)
  from i obtain xs where xs: "kend \<noteq> 0" "free_pages s xs"
    "\<forall>v \<in> set xs \<union> A. kfree_ok kend v \<and> below lim v" "set xs \<inter> A = {}"
    by (auto simp: \<sigma> kmem_inv_def)
  from freerange_free [OF u(1) xs(2,1,3,4) l] show "kmem_inv kend \<tau>"
    by (auto simp: \<tau> u(2) kmem_inv_def)
qed

interpretation kmem: transition_system "kmem_init kend" "kmem_step kend" "kmem_inv kend"
  by unfold_locales (fact kmem_init_inv, fact kmem_step_inv)

text \<open>
  C25. In every reachable state of the allocator, whatever its clients do with the pages they hold,
  the page that \<open>kalloc\<close> returns (if not 0) is page aligned, lies between the end of the kernel and
  the top of memory, and is not one of the pages in use: no page is handed out twice.
\<close>

theorem kalloc_returns_unused_page:
  assumes "reachable (kmem_init kend) (kmem_step kend) (s, A, lim)" and "kalloc s = (r, t)" and "r \<noteq> 0"
  shows "r \<notin> A \<and> r mod PGSIZE = 0 \<and> kend \<le> r \<and> V2P r < PHYSTOP \<and> unat r + 4096 \<le> unat lim"
proof -
  have "kmem_inv kend (s, A, lim)" using assms(1) by (rule kmem.reachable_inv)
  then obtain xs where xs: "free_pages s xs"
    "\<forall>v \<in> set xs \<union> A. kfree_ok kend v \<and> below lim v" "set xs \<inter> A = {}"
    by (auto simp: kmem_inv_def)
  obtain ys where ys: "xs = r # ys" using assms(2,3) kalloc_spec [OF xs(1)] by (cases xs) auto
  have "kfree_ok kend r" "below lim r" "r \<notin> A" using xs ys by auto
  then show ?thesis by (auto simp: kfree_ok_def below_def not_less not_le)
qed


text \<open>Three pages: one handed out, two still free.\<close>

definition demo_kmem :: pmem where
  "demo_kmem = (case kinit1 0x80002000 0x80001FF0 0x80005000 \<lparr>pages = \<lambda>_. [], use_lock = True, freelist = 0\<rparr>
     of Inr t \<Rightarrow> t | Inl e \<Rightarrow> undefined)"

lemma demo_kmem_init:
  "kinit1 0x80002000 0x80001FF0 0x80005000 \<lparr>pages = \<lambda>_. [], use_lock = True, freelist = 0\<rparr> = Inr demo_kmem"
  and demo_kmem_list: "freelist demo_kmem = 0x80004000" "get32 (pages demo_kmem 0x80004000) 0 = 0x80003000"
    "get32 (pages demo_kmem 0x80003000) 0 = 0x80002000"
  by (simp_all add: demo_kmem_def kinit1_def freerange_def PGROUNDUP_def PGSIZE_def kfree_def kfree_ok_def
      V2P_def KERNBASE_def PHYSTOP_def get32_put32)

theorem kalloc_returns_unused_page_witness:
  "(0x80003000 :: u32) \<notin> {0x80004000} \<and> (0x80003000 :: u32) mod PGSIZE = 0 \<and>
   (0x80002000 :: u32) \<le> 0x80003000 \<and> V2P 0x80003000 < PHYSTOP \<and>
   unat (0x80003000 :: u32) + 4096 \<le> unat (0x80005000 :: u32)"
proof -
  let ?s = "demo_kmem\<lparr>freelist := 0x80003000\<rparr>"
  have "kmem_init 0x80002000 (demo_kmem, {}, 0x80005000)"
    unfolding kmem_init_def prod.case
    by (intro conjI exI [of _ "\<lparr>pages = \<lambda>_. [], use_lock = True, freelist = 0\<rparr>"] exI [of _ "0x80001FF0"])
      (simp_all add: demo_kmem_init)
  moreover have "kalloc demo_kmem = (0x80004000, ?s)" by (simp add: kalloc_def demo_kmem_list Let_def)
  then have "kmem_step 0x80002000 (demo_kmem, {}, 0x80005000) (?s, {0x80004000}, 0x80005000)"
    by (rule kmem_alloc) simp
  ultimately have r: "reachable (kmem_init 0x80002000) (kmem_step 0x80002000) (?s, {0x80004000}, 0x80005000)"
    by (blast intro: reach_init reach_step)
  have "kalloc ?s = (0x80003000, demo_kmem\<lparr>freelist := 0x80002000\<rparr>)"
    by (simp add: kalloc_def demo_kmem_list Let_def)
  from kalloc_returns_unused_page [OF r this] show ?thesis by simp
qed

end
