(* ===== verification/Vm.thy ===== *)
theory Vm
  imports Kalloc
begin

text \<open>
  Page tables of \<open>vm.c\<close>: the two-level table of x86 stored in pages of the allocator. A pointer to a
  table entry is the page that holds it and an index; a null pointer is \<open>None\<close>. The linker symbols
  \<open>end\<close> and \<open>data\<close> are arguments. Dereferencing a null pointer stops with \<open>Fault\<close>.
\<close>

subsection \<open>Entries and addresses\<close>

definition PTE_P :: u32 where "PTE_P = 0x001"
definition PTE_W :: u32 where "PTE_W = 0x002"
definition PTE_U :: u32 where "PTE_U = 0x004"
definition PTE_PG :: u32 where "PTE_PG = 0x200"

definition PTE_ADDR :: "u32 \<Rightarrow> u32" where "PTE_ADDR pte = pte AND NOT 0xFFF"
definition PTE_FLAGS :: "u32 \<Rightarrow> u32" where "PTE_FLAGS pte = pte AND 0xFFF"
definition PDX :: "u32 \<Rightarrow> u32" where "PDX va = drop_bit 22 va AND 0x3FF"
definition PTX :: "u32 \<Rightarrow> u32" where "PTX va = drop_bit 12 va AND 0x3FF"
definition PGADDR :: "u32 \<Rightarrow> u32 \<Rightarrow> u32 \<Rightarrow> u32" where
  "PGADDR d t off = push_bit 22 d OR push_bit 12 t OR off"

definition EXTMEM :: u32 where "EXTMEM = 0x100000"
definition DEVSPACE :: u32 where "DEVSPACE = 0xFE000000"
definition KERNLINK :: u32 where "KERNLINK = KERNBASE + EXTMEM"
definition NPDENTRIES :: nat where "NPDENTRIES = 1024"

type_synonym pteptr = "u32 \<times> u32"

definition pte_get :: "pteptr \<Rightarrow> pmem \<Rightarrow> u32" where
  "pte_get p s = get32 (pages s (fst p)) (4 * unat (snd p))"

definition set_page :: "u32 \<Rightarrow> page \<Rightarrow> pmem \<Rightarrow> pmem" where
  "set_page a x s = s\<lparr>pages := (pages s)(a := x)\<rparr>"

definition pte_set :: "pteptr \<Rightarrow> u32 \<Rightarrow> pmem \<Rightarrow> pmem" where
  "pte_set p w s = set_page (fst p) (put32 (4 * unat (snd p)) w (pages s (fst p))) s"

definition zero_page :: page where
  "zero_page = replicate 4096 0"

text \<open>\<open>memmove\<close> of bytes into a page.\<close>

definition overwrite :: "nat \<Rightarrow> u8 list \<Rightarrow> u8 list \<Rightarrow> u8 list" where
  "overwrite off bs pg = take off pg @ bs @ drop (off + length bs) pg"

subsection \<open>Operations\<close>

definition walkpgdir :: "u32 \<Rightarrow> u32 \<Rightarrow> bool \<Rightarrow> pmem \<Rightarrow> pteptr option \<times> pmem" where
  "walkpgdir pgdir va alloc s =
     (let pde = (pgdir, PDX va) in
      if pte_get pde s AND PTE_P \<noteq> 0 then (Some (P2V (PTE_ADDR (pte_get pde s)), PTX va), s)
      else if \<not> alloc then (None, s)
      else case kalloc s of (pgtab, s) \<Rightarrow>
        if pgtab = 0 then (None, s)
        else
          let s = set_page pgtab zero_page s;
              s = pte_set pde (V2P pgtab OR PTE_P OR PTE_W OR PTE_U) s
          in (Some (pgtab, PTX va), s))"

lemma last_decreases: "\<not> lst - a < PGSIZE \<Longrightarrow> unat (lst - (a + PGSIZE)) = unat (lst - a) - 4096"
proof -
  assume "\<not> lst - a < PGSIZE"
  then have "PGSIZE \<le> lst - a" by simp
  then have "unat (lst - a - PGSIZE) = unat (lst - a) - unat PGSIZE" by (rule unat_sub)
  then show ?thesis by (simp add: PGSIZE_def diff_diff_eq)
qed

lemma last_less: "\<not> lst - a < PGSIZE \<Longrightarrow> unat (lst - (a + PGSIZE)) < unat (lst - a)"
proof -
  assume n: "\<not> lst - a < PGSIZE"
  then have "4096 \<le> unat (lst - a)" by (simp add: PGSIZE_def word_less_nat_alt)
  with last_decreases [OF n] show ?thesis by simp
qed

text \<open>
  The loop of \<open>mappages\<close> leaves when \<open>a == last\<close>. Both are multiples of the page size, so the second
  test, which makes the function total on all arguments, never decides.
\<close>

function mappages_loop :: "u32 \<Rightarrow> u32 \<Rightarrow> u32 \<Rightarrow> u32 \<Rightarrow> u32 \<Rightarrow> pmem \<Rightarrow> (int \<times> pmem) kres" where
  "mappages_loop pgdir a lst pa perm s =
     (case walkpgdir pgdir a True s of
        (None, s) \<Rightarrow> Inr (-1, s)
      | (Some pte, s) \<Rightarrow>
          if pte_get pte s AND PTE_P \<noteq> 0 then Inl (Panic ''remap'')
          else
            let s = pte_set pte (pa OR perm OR PTE_P) s in
            if a = lst \<or> lst - a < PGSIZE then Inr (0, s)
            else mappages_loop pgdir (a + PGSIZE) lst (pa + PGSIZE) perm s)"
  by pat_completeness auto
termination
  by (relation "measure (\<lambda>(pgdir, a, lst, pa, perm, s). unat (lst - a))") (simp_all add: last_less)

definition mappages :: "u32 \<Rightarrow> u32 \<Rightarrow> u32 \<Rightarrow> u32 \<Rightarrow> u32 \<Rightarrow> pmem \<Rightarrow> (int \<times> pmem) kres" where
  "mappages pgdir va sz pa perm s =
     mappages_loop pgdir (PGROUNDDOWN va) (PGROUNDDOWN (va + sz - 1)) pa perm s"

text \<open>
  \<open>deallocuvm\<close>: one turn of the loop returns the value of \<open>a\<close> at its end. The loop ends when
  \<open>a + PGSIZE\<close> wraps around, which does not happen for sizes up to \<open>KERNBASE\<close>.
\<close>

definition dealloc_step :: "u32 \<Rightarrow> u32 \<Rightarrow> u32 \<Rightarrow> pmem \<Rightarrow> (u32 \<times> pmem) kres" where
  "dealloc_step kend pgdir a s =
     (case walkpgdir pgdir a False s of
        (None, s) \<Rightarrow> Inr (PGADDR (PDX a + 1) 0 0 - PGSIZE, s)
      | (Some pte, s) \<Rightarrow>
          if pte_get pte s AND PTE_P \<noteq> 0 then
            let pa = PTE_ADDR (pte_get pte s) in
            if pa = 0 then Inl (Panic ''kfree'')
            else kbind (kfree kend (P2V pa) s) (\<lambda>s. Inr (a, pte_set pte 0 s))
          else Inr (a, s))"

function dealloc_loop :: "u32 \<Rightarrow> u32 \<Rightarrow> u32 \<Rightarrow> u32 \<Rightarrow> pmem \<Rightarrow> pmem kres" where
  "dealloc_loop kend pgdir a oldsz s =
     (if a < oldsz then
        kbind (dealloc_step kend pgdir a s) (\<lambda>(b, s).
          if a < b + PGSIZE then dealloc_loop kend pgdir (b + PGSIZE) oldsz s else Inr s)
      else Inr s)"
  by pat_completeness auto
termination
  by (relation "measure (\<lambda>(kend, pgdir, a, oldsz, s). 2 ^ 32 - unat a)")
    (use unat_bound in \<open>auto simp: word_less_nat_alt intro!: diff_less_mono2\<close>)

definition deallocuvm :: "u32 \<Rightarrow> u32 \<Rightarrow> u32 \<Rightarrow> u32 \<Rightarrow> pmem \<Rightarrow> (u32 \<times> pmem) kres" where
  "deallocuvm kend pgdir oldsz newsz s =
     (if oldsz \<le> newsz then Inr (oldsz, s)
      else kbind (dealloc_loop kend pgdir (PGROUNDUP newsz) oldsz s) (\<lambda>s. Inr (newsz, s)))"

fun free_tables :: "u32 \<Rightarrow> u32 \<Rightarrow> nat list \<Rightarrow> pmem \<Rightarrow> pmem kres" where
  "free_tables kend pgdir [] s = Inr s"
| "free_tables kend pgdir (i # is) s =
     (let pde = get32 (pages s pgdir) (4 * i) in
      if pde AND PTE_P \<noteq> 0 then kbind (kfree kend (P2V (PTE_ADDR pde)) s) (free_tables kend pgdir is)
      else free_tables kend pgdir is s)"

definition freevm :: "u32 \<Rightarrow> u32 \<Rightarrow> pmem \<Rightarrow> pmem kres" where
  "freevm kend pgdir s =
     (if pgdir = 0 then Inl (Panic ''freevm: no pgdir'')
      else kbind (deallocuvm kend pgdir KERNBASE 0 s) (\<lambda>(_, s).
           kbind (free_tables kend pgdir [0..<NPDENTRIES] s) (kfree kend pgdir)))"

record kmap =
  k_virt :: u32
  k_phys_start :: u32
  k_phys_end :: u32
  k_perm :: u32

definition kmaps :: "u32 \<Rightarrow> kmap list" where
  "kmaps data =
    [\<lparr>k_virt = KERNBASE, k_phys_start = 0, k_phys_end = EXTMEM, k_perm = PTE_W\<rparr>,
     \<lparr>k_virt = KERNLINK, k_phys_start = V2P KERNLINK, k_phys_end = V2P data, k_perm = 0\<rparr>,
     \<lparr>k_virt = data, k_phys_start = V2P data, k_phys_end = PHYSTOP, k_perm = PTE_W\<rparr>,
     \<lparr>k_virt = DEVSPACE, k_phys_start = DEVSPACE, k_phys_end = 0, k_perm = PTE_W\<rparr>]"

fun map_kernel :: "u32 \<Rightarrow> u32 \<Rightarrow> kmap list \<Rightarrow> pmem \<Rightarrow> (u32 \<times> pmem) kres" where
  "map_kernel kend pgdir [] s = Inr (pgdir, s)"
| "map_kernel kend pgdir (k # ks) s =
     kbind (mappages pgdir (k_virt k) (k_phys_end k - k_phys_start k) (k_phys_start k) (k_perm k) s)
       (\<lambda>(r, s). if r < 0 then kbind (freevm kend pgdir s) (\<lambda>s. Inr (0, s))
                 else map_kernel kend pgdir ks s)"

definition setupkvm :: "u32 \<Rightarrow> u32 \<Rightarrow> pmem \<Rightarrow> (u32 \<times> pmem) kres" where
  "setupkvm kend data s =
     (case kalloc s of (pgdir, s) \<Rightarrow>
        if pgdir = 0 then Inr (0, s)
        else
          let s = set_page pgdir zero_page s in
          if DEVSPACE < P2V PHYSTOP then Inl (Panic ''PHYSTOP too high'')
          else map_kernel kend pgdir (kmaps data) s)"

text \<open>\<open>kvmalloc\<close> returns \<open>kpgdir\<close>, and loads it on this CPU.\<close>

definition kvmalloc ::
  "u32 \<Rightarrow> u32 \<Rightarrow> nat \<Rightarrow> 'p ptab \<Rightarrow> pmem \<Rightarrow> (u32 \<times> 'p ptab \<times> pmem) kres" where
  "kvmalloc kend data c k s =
     kbind (setupkvm kend data s) (\<lambda>(kpgdir, s). Inr (kpgdir, switchkvm c kpgdir k, s))"

text \<open>The code ignores the result of \<open>mappages\<close>.\<close>

definition inituvm :: "u32 \<Rightarrow> u8 list \<Rightarrow> u32 \<Rightarrow> pmem \<Rightarrow> pmem kres" where
  "inituvm pgdir init sz s =
     (if PGSIZE \<le> sz then Inl (Panic ''inituvm: more than a page'')
      else case kalloc s of (mem, s) \<Rightarrow>
        if mem = 0 then Inl (Fault ''null'')
        else kbind (mappages pgdir 0 PGSIZE (V2P mem) (PTE_W OR PTE_U) (set_page mem zero_page s)) (\<lambda>(_, s).
             Inr (set_page mem (overwrite 0 (take (unat sz) init) (pages s mem)) s)))"

definition clearpteu :: "u32 \<Rightarrow> u32 \<Rightarrow> pmem \<Rightarrow> pmem kres" where
  "clearpteu pgdir uva s =
     (case walkpgdir pgdir uva False s of
        (None, s) \<Rightarrow> Inl (Panic ''clearpteu'')
      | (Some pte, s) \<Rightarrow> Inr (pte_set pte (pte_get pte s AND NOT PTE_U) s))"

text \<open>
  \<open>copyuvm\<close>: the loop returns whether every page was copied; otherwise the new page table is freed.
  As above, the loop ends when \<open>i\<close> would wrap around.
\<close>

function copy_loop :: "u32 \<Rightarrow> u32 \<Rightarrow> u32 \<Rightarrow> u32 \<Rightarrow> u32 \<Rightarrow> pmem \<Rightarrow> (bool \<times> pmem) kres" where
  "copy_loop kend pgdir d i sz s =
     (if i < sz then
        case walkpgdir pgdir i False s of
          (None, s) \<Rightarrow> Inl (Panic ''copyuvm: pte should exist'')
        | (Some pte, s) \<Rightarrow>
            if pte_get pte s AND PTE_P = 0 then Inl (Panic ''copyuvm: page not present'')
            else
              let pa = PTE_ADDR (pte_get pte s); flags = PTE_FLAGS (pte_get pte s) in
              case kalloc s of (mem, s) \<Rightarrow>
                if mem = 0 then Inr (False, s)
                else
                  kbind (mappages d i PGSIZE (V2P mem) flags (set_page mem (pages s (P2V pa)) s)) (\<lambda>(r, s).
                    if r < 0 then kbind (kfree kend mem s) (\<lambda>s. Inr (False, s))
                    else if i < i + PGSIZE then copy_loop kend pgdir d (i + PGSIZE) sz s
                    else Inr (True, s))
      else Inr (True, s))"
  by pat_completeness auto
termination
  by (relation "measure (\<lambda>(kend, pgdir, d, i, sz, s). 2 ^ 32 - unat i)")
    (use unat_bound in \<open>auto simp: word_less_nat_alt intro!: diff_less_mono2\<close>)

definition copyuvm :: "u32 \<Rightarrow> u32 \<Rightarrow> u32 \<Rightarrow> u32 \<Rightarrow> pmem \<Rightarrow> (u32 \<times> pmem) kres" where
  "copyuvm kend data pgdir sz s =
     kbind (setupkvm kend data s) (\<lambda>(d, s).
       if d = 0 then Inr (0, s)
       else kbind (copy_loop kend pgdir d 0 sz s) (\<lambda>(ok, s).
         if ok then Inr (d, s) else kbind (freevm kend d s) (\<lambda>s. Inr (0, s))))"

definition uva2ka :: "u32 \<Rightarrow> u32 \<Rightarrow> pmem \<Rightarrow> u32 kres" where
  "uva2ka pgdir uva s =
     (case fst (walkpgdir pgdir uva False s) of
        None \<Rightarrow> Inl (Fault ''null'')
      | Some pte \<Rightarrow>
          if pte_get pte s AND PTE_P = 0 then Inr 0
          else if pte_get pte s AND PTE_U = 0 then Inr 0
          else Inr (P2V (PTE_ADDR (pte_get pte s))))"

lemma mask12: "(4095 :: u32) = mask 12"
  by (simp add: mask_eq_exp_minus_1)

lemma PGROUNDDOWN_mask: "PGROUNDDOWN a = a AND NOT (mask 12)"
  and PTE_ADDR_mask: "PTE_ADDR a = a AND NOT (mask 12)"
  by (simp_all add: PGROUNDDOWN_def PGSIZE_def PTE_ADDR_def mask_eq_exp_minus_1)

lemma page_offset: "va - PGROUNDDOWN va = take_bit 12 va" "unat (take_bit 12 (va :: u32)) < 4096"
proof -
  have "PGROUNDDOWN va AND take_bit 12 va = 0"
    by (rule bit_word_eqI) (auto simp: PGROUNDDOWN_mask bit_simps)
  then have "PGROUNDDOWN va + take_bit 12 va = PGROUNDDOWN va OR take_bit 12 va"
    by (simp add: disjunctive_add_eq_or)
  also have "\<dots> = va" by (rule bit_word_eqI) (auto simp: PGROUNDDOWN_mask bit_simps)
  finally show "va - PGROUNDDOWN va = take_bit 12 va" by (metis add_diff_cancel_left')
  show "unat (take_bit 12 (va :: u32)) < 4096"
    using take_bit_nat_less_exp [of 12 "unat va"] by (simp add: unsigned_take_bit_eq)
qed

lemma room_in_page: "0 < unat (PGSIZE - (va - PGROUNDDOWN va))"
  "unat (PGSIZE - (va - PGROUNDDOWN va)) = 4096 - unat (take_bit 12 va)"
proof -
  have "take_bit 12 va \<le> PGSIZE"
    using page_offset(2) [of va] by (simp add: PGSIZE_def word_le_nat_alt)
  then show "unat (PGSIZE - (va - PGROUNDDOWN va)) = 4096 - unat (take_bit 12 va)"
    by (simp only: page_offset(1) unat_sub) (simp add: PGSIZE_def)
  then show "0 < unat (PGSIZE - (va - PGROUNDDOWN va))" using page_offset(2) [of va] by simp
qed

text \<open>The number of bytes \<open>len\<close> is the length of the list.\<close>

function copyout :: "u32 \<Rightarrow> u32 \<Rightarrow> u8 list \<Rightarrow> pmem \<Rightarrow> (int \<times> pmem) kres" where
  "copyout pgdir va buf s =
     (if buf = [] then Inr (0, s)
      else
        let va0 = PGROUNDDOWN va in
        kbind (uva2ka pgdir va0 s) (\<lambda>pa0.
          if pa0 = 0 then Inr (-1, s)
          else
            let n = min (unat (PGSIZE - (va - va0))) (length buf);
                s = set_page pa0 (overwrite (unat (va - va0)) (take n buf) (pages s pa0)) s
            in copyout pgdir (va0 + PGSIZE) (drop n buf) s))"
  by pat_completeness auto
termination
  by (relation "measure (\<lambda>(pgdir, va, buf, s). length buf)") (simp_all add: room_in_page(1) min_def)

subsection \<open>What a page table maps\<close>

text \<open>The entry for an address, 0 where there is no table for it.\<close>

definition lookup :: "u32 \<Rightarrow> pmem \<Rightarrow> u32 \<Rightarrow> u32" where
  "lookup pgdir s va = (case fst (walkpgdir pgdir va False s) of None \<Rightarrow> 0 | Some p \<Rightarrow> pte_get p s)"

definition aligned :: "u32 \<Rightarrow> bool" where
  "aligned a \<longleftrightarrow> take_bit 12 a = 0"

definition table :: "u32 \<Rightarrow> pmem \<Rightarrow> u32 \<Rightarrow> u32 option" where
  "table pgdir s i =
     (if pte_get (pgdir, i) s AND PTE_P \<noteq> 0 then Some (P2V (PTE_ADDR (pte_get (pgdir, i) s))) else None)"

text \<open>
  The pages of a page table: the directory and its tables are 4096 bytes long, distinct, and not on
  the free list \<open>xs\<close>.
\<close>

definition space_ok :: "u32 \<Rightarrow> u32 list \<Rightarrow> pmem \<Rightarrow> bool" where
  "space_ok pgdir xs s \<longleftrightarrow> free_pages s xs \<and> (\<forall>x\<in>set xs. aligned x) \<and> pgdir \<notin> set xs \<and>
     length (pages s pgdir) = 4096 \<and>
     (\<forall>i t. i < 1024 \<longrightarrow> table pgdir s i = Some t \<longrightarrow>
        t \<notin> set xs \<and> t \<noteq> pgdir \<and> length (pages s t) = 4096 \<and>
        (\<forall>j. j < 1024 \<longrightarrow> table pgdir s j = Some t \<longrightarrow> i = j))"

lemma index_less: "PDX va < 1024" "PTX va < 1024"
proof -
  have "x AND 0x3FF < (1024 :: u32)" for x :: u32
  proof -
    have "x AND 0x3FF = take_bit 10 x" by (simp add: take_bit_eq_mask mask_eq_exp_minus_1)
    then show ?thesis
      using take_bit_nat_less_exp [of 10 "unat x"] by (simp add: word_less_nat_alt unsigned_take_bit_eq)
  qed
  then show "PDX va < 1024" "PTX va < 1024" by (simp_all add: PDX_def PTX_def)
qed

lemma index_nat: "i < (1024 :: u32) \<Longrightarrow> unat i < 1024"
  by (simp add: word_less_nat_alt)

lemma pte_get_set_same:
  "snd p < 1024 \<Longrightarrow> length (pages s (fst p)) = 4096 \<Longrightarrow> pte_get p (pte_set p w s) = w"
  using index_nat [of "snd p"] by (simp add: pte_get_def pte_set_def set_page_def get32_put32)

lemma pte_get_set_other:
  assumes "p \<noteq> q"
  shows "pte_get q (pte_set p w s) = pte_get q s"
proof (cases "fst p = fst q")
  case True
  then have "unat (snd p) \<noteq> unat (snd q)" using assms by (auto simp: prod_eq_iff unsigned_word_eqI)
  then have "4 * unat (snd q) + 3 < 4 * unat (snd p) \<or> 4 * unat (snd p) + 3 < 4 * unat (snd q)" by linarith
  with True show ?thesis by (simp add: pte_get_def pte_set_def set_page_def get_put_other)
qed (simp add: pte_get_def pte_set_def set_page_def)

lemma pte_get_set_page: "fst p \<noteq> a \<Longrightarrow> pte_get p (set_page a x s) = pte_get p s"
  by (simp add: pte_get_def set_page_def)

lemma get32_zero: "i + 3 < 4096 \<Longrightarrow> get32 zero_page i = 0"
  by (simp add: get32_def zero_page_def)

lemma pte_get_zero: "fst p = a \<Longrightarrow> snd p < 1024 \<Longrightarrow> pte_get p (set_page a zero_page s) = 0"
  using index_nat [of "snd p"] by (simp add: pte_get_def set_page_def get32_zero)

lemma pte_get_freelist [simp]: "pte_get p (s\<lparr>freelist := f\<rparr>) = pte_get p s"
  by (simp add: pte_get_def)

lemma pages_set_page: "pages (set_page a x s) b = (if b = a then x else pages s b)"
  by (simp add: set_page_def)

lemma length_pte_set [simp]: "length (pages (pte_set p w s) a) = length (pages s a)"
  by (simp add: pte_set_def set_page_def)

lemma pages_pte_set: "a \<noteq> fst p \<Longrightarrow> pages (pte_set p w s) a = pages s a"
  by (simp add: pte_set_def set_page_def)

lemma freelist_set [simp]: "freelist (pte_set p w s) = freelist s" "freelist (set_page a x s) = freelist s"
  by (simp_all add: pte_set_def set_page_def)

lemma free_pages_set: "a \<notin> set xs \<Longrightarrow> free_pages (set_page a x s) xs = free_pages s xs"
  "fst p \<notin> set xs \<Longrightarrow> free_pages (pte_set p w s) xs = free_pages s xs"
  by (simp_all add: free_pages_def set_page_def pte_set_def linked_upd)

lemma walk_noalloc:
  "walkpgdir pgdir va False s = (map_option (\<lambda>t. (t, PTX va)) (table pgdir s (PDX va)), s)"
  by (simp add: walkpgdir_def table_def Let_def)

lemma lookup_table:
  "lookup pgdir s va = (case table pgdir s (PDX va) of None \<Rightarrow> 0 | Some t \<Rightarrow> pte_get (t, PTX va) s)"
  by (simp add: lookup_def walk_noalloc split: option.splits)

text \<open>A new directory entry points to its page.\<close>

lemma entry_addr: "aligned a \<Longrightarrow> f AND NOT (mask 12) = 0 \<Longrightarrow> PTE_ADDR (a OR f) = a"
  by (rule bit_word_eqI)
    (auto simp: PTE_ADDR_mask bit_simps aligned_def bit_eq_iff not_less)

lemma aligned_nat: "aligned a \<longleftrightarrow> unat a mod 4096 = 0"
proof -
  have "unat (take_bit 12 a) = unat a mod 4096"
    by (simp add: take_bit_eq_mod unat_mod_distrib)
  then show ?thesis unfolding aligned_def by (metis unat_eq_0)
qed

lemma aligned_mod: "aligned a \<longleftrightarrow> a mod PGSIZE = 0"
  by (simp add: aligned_def PGSIZE_def take_bit_eq_mod)

lemma aligned_plus: "aligned b \<Longrightarrow> aligned (a + b) \<longleftrightarrow> aligned a"
proof -
  assume "aligned b"
  then have "unat b mod 4096 = 0" by (simp add: aligned_nat)
  moreover have "unat (a + b) mod 4096 = (unat a + unat b) mod 4096"
    by (simp add: unat_word_ariths mod_mod_cancel)
  ultimately show ?thesis by (simp add: aligned_nat mod_add_eq [symmetric])
qed

lemma aligned_V2P: "aligned (V2P a) \<longleftrightarrow> aligned a"
proof -
  have "V2P a = a + 0x80000000" by (simp add: V2P_def KERNBASE_def)
  moreover have "aligned 0x80000000" by (simp add: aligned_nat)
  ultimately show ?thesis by (simp only: aligned_plus)
qed

lemma P2V_V2P [simp]: "P2V (V2P a) = a"
  by (simp add: P2V_def V2P_def)

lemma nonzero_bit: "bit (x :: u32) n \<Longrightarrow> x \<noteq> 0"
  by auto

lemma new_entry:
  assumes "aligned a"
  shows "(V2P a OR PTE_P OR PTE_W OR PTE_U) AND PTE_P \<noteq> 0"
    and "P2V (PTE_ADDR (V2P a OR PTE_P OR PTE_W OR PTE_U)) = a"
proof -
  have 7: "V2P a OR PTE_P OR PTE_W OR PTE_U = V2P a OR 7"
    by (simp add: PTE_P_def PTE_W_def PTE_U_def or.assoc)
  show "(V2P a OR PTE_P OR PTE_W OR PTE_U) AND PTE_P \<noteq> 0"
    unfolding 7 by (rule nonzero_bit [of _ 0]) (simp add: PTE_P_def bit_simps)
  have "PTE_ADDR (V2P a OR 7) = V2P a"
    by (rule entry_addr) (use assms in \<open>simp_all add: aligned_V2P mask_eq_exp_minus_1\<close>)
  then show "P2V (PTE_ADDR (V2P a OR PTE_P OR PTE_W OR PTE_U)) = a" by (simp add: 7)
qed


lemma space_okD:
  assumes "space_ok pgdir xs s"
  shows "free_pages s xs" and "x \<in> set xs \<Longrightarrow> aligned x" and "pgdir \<notin> set xs" and "length (pages s pgdir) = 4096"
    and "i < 1024 \<Longrightarrow> table pgdir s i = Some t \<Longrightarrow> t \<notin> set xs \<and> t \<noteq> pgdir \<and> length (pages s t) = 4096"
    and "i < 1024 \<Longrightarrow> j < 1024 \<Longrightarrow> table pgdir s i = Some t \<Longrightarrow> table pgdir s j = Some t \<Longrightarrow> i = j"
  using assms unfolding space_ok_def by blast+

lemma table_upd:
  assumes "space_ok pgdir xs s" and "snd p < 1024" and "table pgdir s i = Some (fst p)" and "i < 1024" and "j < 1024"
  shows "table pgdir (pte_set p w s) j = table pgdir s j"
proof -
  have "fst p \<noteq> pgdir" using space_okD(5) [OF assms(1,4,3)] by simp
  then have "p \<noteq> (pgdir, j)" by auto
  then show ?thesis by (simp add: table_def pte_get_set_other)
qed

text \<open>Storing an entry of a table keeps the shape and changes what is mapped at one page only.\<close>

lemma space_ok_pte_set:
  assumes "space_ok pgdir xs s" and "table pgdir s (PDX va) = Some t"
  shows "space_ok pgdir xs (pte_set (t, PTX va) w s)"
    and "lookup pgdir (pte_set (t, PTX va) w s) v =
      (if PDX v = PDX va \<and> PTX v = PTX va then w else lookup pgdir s v)"
proof -
  note t = space_okD(5) [OF assms(1) index_less(1) assms(2)]
  have tab: "table pgdir (pte_set (t, PTX va) w s) j = table pgdir s j" if "j < 1024" for j
    by (rule table_upd [OF assms(1) _ _ index_less(1) that]) (use assms(2) index_less in auto)
  show "space_ok pgdir xs (pte_set (t, PTX va) w s)"
    using assms(1) t unfolding space_ok_def by (simp add: tab free_pages_set)
  show "lookup pgdir (pte_set (t, PTX va) w s) v =
      (if PDX v = PDX va \<and> PTX v = PTX va then w else lookup pgdir s v)"
  proof (cases "table pgdir s (PDX v)")
    case None
    then show ?thesis using assms(2) by (auto simp: lookup_table tab index_less)
  next
    case (Some u)
    then have "u = t \<longleftrightarrow> PDX v = PDX va"
      using space_okD(6) [OF assms(1) index_less(1) index_less(1), of v t va] assms(2) by auto
    then show ?thesis using Some t index_less
      by (auto simp: lookup_table tab pte_get_set_same pte_get_set_other)
  qed
qed

lemma walk_alloc:
  assumes ok: "space_ok pgdir xs s" and w: "walkpgdir pgdir va True s = (r, s')"
  shows "r = None \<and> s' = s \<and> xs = [] \<or> (\<exists>t ys. r = Some (t, PTX va) \<and> table pgdir s' (PDX va) = Some t \<and>
     space_ok pgdir ys s' \<and> set ys \<subseteq> set xs \<and> (\<forall>v. lookup pgdir s' v = lookup pgdir s v) \<and>
     (\<forall>a. a \<noteq> pgdir \<longrightarrow> a \<notin> set xs \<longrightarrow> pages s' a = pages s a))"
proof (cases "table pgdir s (PDX va)")
  case (Some t)
  then have "r = Some (t, PTX va) \<and> s' = s"
    using w by (auto simp: walkpgdir_def table_def Let_def split: if_splits)
  then show ?thesis using Some ok by blast
next
  case None
  then have np: "\<not> pte_get (pgdir, PDX va) s AND PTE_P \<noteq> 0" by (auto simp: table_def split: if_splits)
  show ?thesis
  proof (cases xs)
    case Nil
    then show ?thesis
      using w np kalloc_spec(1) [OF space_okD(1) [OF ok]] by (auto simp: walkpgdir_def Let_def)
  next
    case (Cons t ys)
    let ?k = "s\<lparr>freelist := get32 (pages s t) 0\<rparr>"
    let ?z = "set_page t zero_page ?k"
    let ?e = "V2P t OR PTE_P OR PTE_W OR PTE_U"
    have k: "kalloc s = (t, ?k)" "free_pages ?k ys" "t \<noteq> 0" "t \<notin> set ys"
      using kalloc_spec(2) [OF space_okD(1) [OF ok] Cons] by blast+
    have tp: "t \<noteq> pgdir" "aligned t" using space_okD(2,3) [OF ok] Cons by auto
    have r: "r = Some (t, PTX va)" "s' = pte_set (pgdir, PDX va) ?e ?z"
      using w np k by (auto simp: walkpgdir_def Let_def)
    have s': "pte_get (pgdir, i) s' = (if i = PDX va then ?e else pte_get (pgdir, i) s)" for i
      using tp space_okD(4) [OF ok] index_less
      by (auto simp: r pte_get_set_same pte_get_set_other pte_get_set_page pages_set_page)
    have tab: "table pgdir s' i = (if i = PDX va then Some t else table pgdir s i)" for i
      using new_entry [OF tp(2)] by (simp add: table_def s')
    have old: "u \<noteq> t" if "i < 1024" "table pgdir s i = Some u" for i u
      using space_okD(5) [OF ok that] Cons by auto
    have pg: "pages s' a = pages s a" if "a \<noteq> pgdir" "a \<noteq> t" for a
      using that by (simp add: r pages_pte_set set_page_def)
    have len: "length (pages s' a) = (if a = t then 4096 else length (pages s a))" for a
      by (simp add: r set_page_def zero_page_def)
    have free: "free_pages s' ys"
      using k space_okD(3) [OF ok] Cons by (simp add: r free_pages_set)
    have look: "lookup pgdir s' v = lookup pgdir s v" for v
    proof (cases "PDX v = PDX va")
      case True
      then show ?thesis
        using None tp index_less by (simp add: lookup_table tab) (simp add: r pte_get_set_other pte_get_zero)
    next
      case False
      then show ?thesis
        using old [OF index_less(1)] space_okD(5) [OF ok index_less(1)]
        by (auto simp: lookup_table tab pte_get_def pg split: option.splits)
    qed
    have "space_ok pgdir ys s'"
      unfolding space_ok_def
    proof (intro conjI ballI allI impI)
      fix i u j
      assume i: "i < 1024" "table pgdir s' i = Some u"
      show "u \<notin> set ys" "u \<noteq> pgdir" "length (pages s' u) = 4096"
        using i space_okD(5) [OF ok i(1)] k(4) tp Cons by (auto simp: tab len split: if_splits)
      assume j: "j < 1024" "table pgdir s' j = Some u"
      show "i = j"
        using i j old space_okD(6) [OF ok i(1) j(1)] by (auto simp: tab split: if_splits)
    qed (use free space_okD(2-4) [OF ok] Cons in \<open>auto simp: len\<close>)
    then show ?thesis using r tab look pg Cons by auto
  qed
qed


lemma index_cases: "n < 32 \<Longrightarrow> n < 12 \<or> (\<exists>m<10. n = 12 + m) \<or> (\<exists>m<10. n = 22 + (m :: nat))"
  by presburger

lemma mask10: "(0x3FF :: u32) = mask 10"
  by (simp add: mask_eq_exp_minus_1)

lemma same_entry: "PDX v = PDX w \<and> PTX v = PTX w \<longleftrightarrow> PGROUNDDOWN v = PGROUNDDOWN w"
proof
  assume a: "PDX v = PDX w \<and> PTX v = PTX w"
  have d: "bit v (22 + m) = bit w (22 + m)" and t: "bit v (12 + m) = bit w (12 + m)" if "m < 10" for m
  proof -
    have "bit (PDX v) m = bit (PDX w) m" "bit (PTX v) m = bit (PTX w) m" using a by simp_all
    with that show "bit v (22 + m) = bit w (22 + m)" "bit v (12 + m) = bit w (12 + m)"
      unfolding PDX_def PTX_def mask10 by (simp_all add: bit_simps)
  qed
  have "bit v n = bit w n" if "n < 32" "12 \<le> n" for n
    using index_cases [OF that(1)] that(2) d t by auto
  then show "PGROUNDDOWN v = PGROUNDDOWN w"
    by (intro bit_word_eqI) (auto simp: PGROUNDDOWN_mask bit_simps)
next
  assume a: "PGROUNDDOWN v = PGROUNDDOWN w"
  have b: "bit v n = bit w n" if "12 \<le> n" for n
  proof (cases "n < 32")
    case True
    have "bit (PGROUNDDOWN v) n = bit (PGROUNDDOWN w) n" using a by simp
    with that True show ?thesis by (simp add: PGROUNDDOWN_mask bit_simps)
  next
    case False
    then show ?thesis using bit_imp_le_length [of v n] bit_imp_le_length [of w n] by auto
  qed
  show "PDX v = PDX w \<and> PTX v = PTX w"
    unfolding PDX_def PTX_def mask10 by (auto intro!: bit_word_eqI simp: bit_simps b)
qed

lemma aligned_PGROUNDDOWN [simp]: "aligned (PGROUNDDOWN a)"
  by (auto simp: aligned_def PGROUNDDOWN_mask bit_eq_iff bit_simps)

lemma PGROUNDDOWN_aligned: "aligned a \<Longrightarrow> PGROUNDDOWN a = a"
  using page_offset(1) [of a] by (simp add: aligned_def)

lemma aligned_minus: "aligned b \<Longrightarrow> aligned (a - b) \<longleftrightarrow> aligned a"
  using aligned_plus [of b "a - b"] by simp

lemma aligned_PGSIZE [simp]: "aligned PGSIZE"
  by (simp add: aligned_nat PGSIZE_def)

lemma aligned_less: "aligned a \<Longrightarrow> a < PGSIZE \<longleftrightarrow> a = 0"
proof
  assume "aligned a" "a < PGSIZE"
  then have "unat a mod 4096 = 0" "unat a < 4096" by (simp_all add: aligned_nat PGSIZE_def word_less_nat_alt)
  then show "a = 0" by (simp add: unat_eq_0 [symmetric])
qed (simp add: PGSIZE_def)

text \<open>Distances in a range of pages, one page further on.\<close>

lemma range_next:
  assumes "aligned k" and "\<not> l < PGSIZE"
  shows "k \<le> l \<longleftrightarrow> k = 0 \<or> k - PGSIZE \<le> l - PGSIZE" and "\<not> - PGSIZE \<le> l - PGSIZE"
proof -
  have l: "unat (l - PGSIZE) = unat l - 4096" "4096 \<le> unat l"
    using assms(2) unat_sub [of PGSIZE l] by (simp_all add: PGSIZE_def word_less_nat_alt word_le_nat_alt)
  have "unat (- PGSIZE) = 2 ^ 32 - 4096" by (simp add: PGSIZE_def)
  then show m: "\<not> - PGSIZE \<le> l - PGSIZE" using l unat_bound [of l] by (simp add: word_le_nat_alt)
  show "k \<le> l \<longleftrightarrow> k = 0 \<or> k - PGSIZE \<le> l - PGSIZE"
  proof (cases "k = 0")
    case False
    then have "\<not> k < PGSIZE" using aligned_less [OF assms(1)] by simp
    then have "unat (k - PGSIZE) = unat k - 4096" "4096 \<le> unat k"
      using unat_sub [of PGSIZE k] by (simp_all add: PGSIZE_def word_less_nat_alt word_le_nat_alt)
    with l False show ?thesis by (auto simp: word_le_nat_alt)
  qed simp
qed

definition mapped :: "u32 \<Rightarrow> u32 \<Rightarrow> u32 \<Rightarrow> u32 \<Rightarrow> (u32 \<Rightarrow> u32) \<Rightarrow> u32 \<Rightarrow> u32" where
  "mapped a l pa perm f v =
     (if PGROUNDDOWN v - a \<le> l then (pa + (PGROUNDDOWN v - a)) OR perm OR PTE_P else f v)"

lemma mapped_one:
  assumes "aligned a"
  shows "mapped a 0 pa perm f v = (if PDX v = PDX a \<and> PTX v = PTX a then pa OR perm OR PTE_P else f v)"
  using PGROUNDDOWN_aligned [OF assms] by (auto simp: mapped_def same_entry)

lemma mapped_next:
  assumes "aligned a" and "\<not> l < PGSIZE"
  shows "mapped (a + PGSIZE) (l - PGSIZE) (pa + PGSIZE) perm (mapped a 0 pa perm f) = mapped a l pa perm f"
proof
  fix v
  have k: "aligned (PGROUNDDOWN v - a)" using assms(1) by (simp add: aligned_minus)
  have d: "PGROUNDDOWN v - (a + PGSIZE) = PGROUNDDOWN v - a - PGSIZE" by (simp add: algebra_simps)
  show "mapped (a + PGSIZE) (l - PGSIZE) (pa + PGSIZE) perm (mapped a 0 pa perm f) v = mapped a l pa perm f v"
    using range_next [OF k assms(2)] by (auto simp: mapped_def d)
qed

lemma mapped_free:
  assumes "aligned a" and "\<not> l < PGSIZE" and "PGROUNDDOWN v - (a + PGSIZE) \<le> l - PGSIZE"
  shows "PGROUNDDOWN v - a \<le> l" and "mapped a 0 pa perm f v = f v"
proof -
  have k: "aligned (PGROUNDDOWN v - a)" using assms(1) by (simp add: aligned_minus)
  have d: "PGROUNDDOWN v - (a + PGSIZE) = PGROUNDDOWN v - a - PGSIZE" by (simp add: algebra_simps)
  show "PGROUNDDOWN v - a \<le> l" "mapped a 0 pa perm f v = f v"
    using range_next [OF k assms(2)] assms(3) by (auto simp: mapped_def d)
qed

lemma mappages_loop_spec:
  assumes "space_ok pgdir xs s" and "aligned a" and "aligned lst"
    and "\<And>v. PGROUNDDOWN v - a \<le> lst - a \<Longrightarrow> lookup pgdir s v AND PTE_P = 0"
  shows "\<exists>r t ys. mappages_loop pgdir a lst pa perm s = Inr (r, t) \<and> space_ok pgdir ys t \<and> set ys \<subseteq> set xs \<and>
    (r = 0 \<and> lookup pgdir t = mapped a (lst - a) pa perm (lookup pgdir s) \<or> r = -1 \<and> ys = [])"
  using assms
proof (induction pgdir a lst pa perm s arbitrary: xs rule: mappages_loop.induct)
  case (1 pgdir a lst pa perm s)
  obtain r s1 where w: "walkpgdir pgdir a True s = (r, s1)" by fastforce
  show ?case
  proof (cases r)
    case None
    then show ?thesis using w walk_alloc [OF 1(2) w] 1(2) by (subst mappages_loop.simps) auto
  next
    case (Some pte)
    then obtain p ys where p: "pte = (p, PTX a)" "table pgdir s1 (PDX a) = Some p"
      "space_ok pgdir ys s1" "set ys \<subseteq> set xs" "lookup pgdir s1 = lookup pgdir s"
      using walk_alloc [OF 1(2) w] by (auto simp: fun_eq_iff)
    let ?s2 = "pte_set (p, PTX a) (pa OR perm OR PTE_P) s1"
    have s2: "space_ok pgdir ys ?s2" "lookup pgdir ?s2 = mapped a 0 pa perm (lookup pgdir s)"
      using space_ok_pte_set [OF p(3,2)] 1(3) p(5) by (simp_all add: fun_eq_iff mapped_one)
    have "lookup pgdir s1 a = pte_get (p, PTX a) s1" using p(2) by (simp add: lookup_table)
    then have np: "pte_get (p, PTX a) s1 AND PTE_P = 0"
      using 1(5) [of a] p(5) PGROUNDDOWN_aligned [OF 1(3)] by simp
    show ?thesis
    proof (cases "a = lst \<or> lst - a < PGSIZE")
      case True
      then have "lst - a = 0" using aligned_less 1(3,4) by (auto simp: aligned_minus)
      moreover have "mappages_loop pgdir a lst pa perm s = Inr (0, ?s2)"
        using w Some p(1) np True by (subst mappages_loop.simps) (auto simp: Let_def)
      ultimately show ?thesis using s2 p(4) by auto
    next
      case False
      then have r: "mappages_loop pgdir a lst pa perm s = mappages_loop pgdir (a + PGSIZE) lst (pa + PGSIZE) perm ?s2"
        using w Some p(1) np by (subst mappages_loop.simps) (auto simp: Let_def)
      have n: "\<not> lst - a < PGSIZE" and d: "lst - (a + PGSIZE) = lst - a - PGSIZE"
        using False by (simp_all add: algebra_simps)
      have al: "aligned (a + PGSIZE)" using 1(3) by (simp add: aligned_plus)
      have "lookup pgdir ?s2 v AND PTE_P = 0" if "PGROUNDDOWN v - (a + PGSIZE) \<le> lst - (a + PGSIZE)" for v
        using mapped_free [OF 1(3) n that [unfolded d]] 1(5) [of v] s2(2) by simp
      from 1(1) [OF w [symmetric] Some [unfolded p(1)] _ refl False s2(1) al 1(4) this] np
      obtain r' t zs where zs: "mappages_loop pgdir (a + PGSIZE) lst (pa + PGSIZE) perm ?s2 = Inr (r', t)"
        "space_ok pgdir zs t" "set zs \<subseteq> set ys"
        "r' = 0 \<and> lookup pgdir t = mapped (a + PGSIZE) (lst - (a + PGSIZE)) (pa + PGSIZE) perm (lookup pgdir ?s2) \<or>
         r' = -1 \<and> zs = []"
        by auto
      moreover have "mapped (a + PGSIZE) (lst - (a + PGSIZE)) (pa + PGSIZE) perm (lookup pgdir ?s2) =
          mapped a (lst - a) pa perm (lookup pgdir s)"
        using mapped_next [OF 1(3) n, of pa perm] s2(2) by (simp add: d)
      ultimately show ?thesis using r p(4) by auto
    qed
  qed
qed


text \<open>
  C26. \<open>mappages\<close> on a range of pages that are not yet present does not panic. Either it returns 0 and
  afterwards exactly the pages of the range (which may wrap around) are mapped to consecutive physical
  pages from \<open>pa\<close> on with the requested permissions and every other page is mapped as before, or it
  returns -1 because the allocator has no page left. In both cases the page table stays well formed.
\<close>

theorem mappages_maps_range:
  assumes "space_ok pgdir xs s"
    and "\<And>v. PGROUNDDOWN v - PGROUNDDOWN va \<le> PGROUNDDOWN (va + sz - 1) - PGROUNDDOWN va \<Longrightarrow>
      lookup pgdir s v AND PTE_P = 0"
  shows "\<exists>r t ys. mappages pgdir va sz pa perm s = Inr (r, t) \<and> space_ok pgdir ys t \<and>
    (r = 0 \<and> (\<forall>v. lookup pgdir t v =
       (if PGROUNDDOWN v - PGROUNDDOWN va \<le> PGROUNDDOWN (va + sz - 1) - PGROUNDDOWN va
        then (pa + (PGROUNDDOWN v - PGROUNDDOWN va)) OR perm OR PTE_P else lookup pgdir s v)) \<or>
     r = -1 \<and> ys = [])"
proof -
  obtain r t ys where "mappages pgdir va sz pa perm s = Inr (r, t)" "space_ok pgdir ys t"
    "r = 0 \<and> lookup pgdir t = mapped (PGROUNDDOWN va) (PGROUNDDOWN (va + sz - 1) - PGROUNDDOWN va) pa perm (lookup pgdir s) \<or>
     r = -1 \<and> ys = []"
    using mappages_loop_spec [OF assms(1) aligned_PGROUNDDOWN [of va] aligned_PGROUNDDOWN [of "va + sz - 1"] assms(2), of pa perm]
    by (auto simp: mappages_def)
  then show ?thesis by (intro exI [of _ r] exI [of _ t] exI [of _ ys]) (auto simp: mapped_def)
qed

text \<open>A directory with no tables, and two free pages.\<close>

definition demo_space :: pmem where
  "demo_space = \<lparr>pages = (\<lambda>a. if a = 0x80004000 then put32 0 0x80005000 zero_page else zero_page),
     use_lock = True, freelist = 0x80004000\<rparr>"

lemma demo_space_table: "i < 1024 \<Longrightarrow> table 0x80003000 demo_space i = None"
  using index_nat [of i] by (simp add: table_def demo_space_def pte_get_def get32_zero)

lemma demo_space_ok: "space_ok 0x80003000 [0x80004000, 0x80005000] demo_space"
  by (simp add: space_ok_def demo_space_table)
    (simp add: demo_space_def free_pages_def get32_put32 get32_zero aligned_nat, simp add: zero_page_def get32_put32)

lemma demo_space_lookup: "lookup 0x80003000 demo_space v = 0"
  by (simp add: lookup_table demo_space_table index_less)

theorem mappages_maps_range_witness:
  "\<exists>r t ys. mappages 0x80003000 0x1000 0x2000 0x7000 6 demo_space = Inr (r, t) \<and> space_ok 0x80003000 ys t \<and>
    (r = 0 \<and> (\<forall>v. lookup 0x80003000 t v =
       (if PGROUNDDOWN v - 0x1000 \<le> 0x1000 then (0x7000 + (PGROUNDDOWN v - 0x1000)) OR 6 OR PTE_P else 0)) \<or>
     r = -1 \<and> ys = [])"
proof -
  have a: "PGROUNDDOWN 0x1000 = 0x1000" "PGROUNDDOWN (0x1000 + 0x2000 - 1) = 0x2000" "0x2000 - 0x1000 = (0x1000 :: u32)"
    by (simp_all add: PGROUNDDOWN_def PGSIZE_def)
  show ?thesis
    using mappages_maps_range [OF demo_space_ok, of "0x1000" "0x2000" "0x7000" 6, unfolded a demo_space_lookup]
    by simp
qed


subsection \<open>User memory\<close>

definition user_page :: "u32 \<Rightarrow> pmem \<Rightarrow> u32 \<Rightarrow> bool" where
  "user_page pgdir s v \<longleftrightarrow> lookup pgdir s v AND PTE_P \<noteq> 0 \<and> lookup pgdir s v AND PTE_U \<noteq> 0"

definition frame :: "u32 \<Rightarrow> pmem \<Rightarrow> u32 \<Rightarrow> u32" where
  "frame pgdir s v = P2V (PTE_ADDR (lookup pgdir s v))"

text \<open>The byte that a user program reads at an address.\<close>

definition user_byte :: "u32 \<Rightarrow> pmem \<Rightarrow> u32 \<Rightarrow> u8" where
  "user_byte pgdir s v = pages s (frame pgdir s v) ! unat (take_bit 12 v)"

text \<open>User pages have frames of their own, none of which holds a part of the page table.\<close>

definition frames_ok :: "u32 \<Rightarrow> pmem \<Rightarrow> bool" where
  "frames_ok pgdir s \<longleftrightarrow> (\<forall>v. user_page pgdir s v \<longrightarrow>
     frame pgdir s v \<noteq> 0 \<and> frame pgdir s v \<noteq> pgdir \<and> (\<forall>i<1024. table pgdir s i \<noteq> Some (frame pgdir s v)) \<and>
     length (pages s (frame pgdir s v)) = 4096 \<and>
     (\<forall>w. user_page pgdir s w \<longrightarrow> frame pgdir s w = frame pgdir s v \<longrightarrow> PGROUNDDOWN w = PGROUNDDOWN v))"

lemma lookup_page: "PGROUNDDOWN v = PGROUNDDOWN w \<Longrightarrow> lookup pgdir s v = lookup pgdir s w"
  using same_entry [of v w] by (auto simp: lookup_table split: option.split)

lemma lookup_eqD:
  assumes "lookup pgdir t = lookup pgdir s"
  shows "frame pgdir t = frame pgdir s" and "user_page pgdir t = user_page pgdir s"
  using assms by (simp_all add: fun_eq_iff frame_def user_page_def)

lemma page_same [simp]: "PGROUNDDOWN (PGROUNDDOWN v) = PGROUNDDOWN v"
  by (simp add: PGROUNDDOWN_aligned)

lemma uva2ka_user:
  assumes "user_page pgdir s v"
  shows "uva2ka pgdir (PGROUNDDOWN v) s = Inr (frame pgdir s v)"
proof -
  have l: "lookup pgdir s (PGROUNDDOWN v) = lookup pgdir s v" by (rule lookup_page) simp
  then obtain t where "table pgdir s (PDX (PGROUNDDOWN v)) = Some t"
    using assms by (auto simp: user_page_def lookup_table split: option.splits)
  then show ?thesis
    using assms l by (auto simp: uva2ka_def walk_noalloc lookup_table user_page_def frame_def)
qed

lemma frame_write:
  assumes "frames_ok pgdir s" and "user_page pgdir s v" and "length x = 4096"
  shows "lookup pgdir (set_page (frame pgdir s v) x s) = lookup pgdir s"
    and "frames_ok pgdir (set_page (frame pgdir s v) x s)"
proof -
  let ?t = "set_page (frame pgdir s v) x s"
  have f: "frame pgdir s v \<noteq> pgdir" "\<And>i. i < 1024 \<Longrightarrow> table pgdir s i \<noteq> Some (frame pgdir s v)"
    using assms(1,2) unfolding frames_ok_def by auto
  have tab: "table pgdir ?t i = table pgdir s i" for i using f(1) by (simp add: table_def pte_get_set_page)
  show l: "lookup pgdir ?t = lookup pgdir s"
  proof
    fix w
    show "lookup pgdir ?t w = lookup pgdir s w"
      using f(2) [OF index_less(1), of w] by (cases "table pgdir s (PDX w)") (auto simp: lookup_table tab pte_get_set_page)
  qed
  note fr = lookup_eqD [OF l]
  have len: "length (pages s a) = 4096 \<Longrightarrow> length (pages ?t a) = 4096" for a
    using assms(3) by (simp add: pages_set_page)
  show "frames_ok pgdir ?t"
    using assms(1) len unfolding frames_ok_def fr tab by blast
qed

lemma overwrite_nth:
  assumes "off + length bs \<le> length pg" and "i < length pg"
  shows "overwrite off bs pg ! i = (if off \<le> i \<and> i < off + length bs then bs ! (i - off) else pg ! i)"
  using assms by (auto simp: overwrite_def nth_append min_def not_less)

lemma length_overwrite: "off + length bs \<le> length pg \<Longrightarrow> length (overwrite off bs pg) = length pg"
  by (simp add: overwrite_def)

lemma unat_page: "unat v = unat (PGROUNDDOWN v) + unat (take_bit 12 v)" "unat (PGROUNDDOWN v) mod 4096 = 0"
proof -
  have "unat v - unat (take_bit 12 v) = unat (v - take_bit 12 v)" and le: "unat (take_bit 12 v) \<le> unat v"
    by (simp_all add: unsigned_take_bit_eq take_bit_nat_less_eq_self word_le_nat_alt unat_sub)
  moreover have "v - take_bit 12 v = PGROUNDDOWN v" using page_offset(1) [of v] by (simp add: algebra_simps)
  ultimately show "unat v = unat (PGROUNDDOWN v) + unat (take_bit 12 v)" by simp
  show "unat (PGROUNDDOWN v) mod 4096 = 0" using aligned_PGROUNDDOWN [of v] by (simp add: aligned_nat)
qed

text \<open>Addresses of the same page have the same multiple of 4096.\<close>

lemma page_between:
  "unat (PGROUNDDOWN v) \<le> unat w \<Longrightarrow> unat w < unat (PGROUNDDOWN v) + 4096 \<Longrightarrow> PGROUNDDOWN w = PGROUNDDOWN v"
proof -
  assume a: "unat (PGROUNDDOWN v) \<le> unat w" "unat w < unat (PGROUNDDOWN v) + 4096"
  obtain k l where "unat (PGROUNDDOWN v) = 4096 * k" "unat (PGROUNDDOWN w) = 4096 * l"
    using unat_page(2) [of v] unat_page(2) [of w] by (metis mod_0_imp_dvd dvdE)
  moreover have "unat (take_bit 12 w) < 4096" by (rule page_offset(2))
  ultimately have "unat (PGROUNDDOWN w) = unat (PGROUNDDOWN v)" using a unat_page(1) [of w] by simp
  then show ?thesis by (simp add: unsigned_word_eqI)
qed

lemma user_byte_write:
  assumes "frames_ok pgdir s" and "user_page pgdir s va" and "user_page pgdir s v"
    and "unat (take_bit 12 va) + length bs \<le> 4096"
  shows "user_byte pgdir (set_page (frame pgdir s va)
      (overwrite (unat (take_bit 12 va)) bs (pages s (frame pgdir s va))) s) v =
    (if unat va \<le> unat v \<and> unat v < unat va + length bs then bs ! (unat v - unat va) else user_byte pgdir s v)"
proof -
  let ?f = "frame pgdir s va" and ?x = "overwrite (unat (take_bit 12 va)) bs (pages s (frame pgdir s va))"
  have len: "length (pages s ?f) = 4096" using assms(1,2) unfolding frames_ok_def by auto
  have "length ?x = 4096" using len assms(4) by (simp add: length_overwrite)
  then have l: "lookup pgdir (set_page ?f ?x s) = lookup pgdir s" by (rule frame_write(1) [OF assms(1,2)])
  note fr = lookup_eqD(1) [OF l]
  have o: "unat (take_bit 12 v) < 4096" by (rule page_offset(2))
  show ?thesis
  proof (cases "PGROUNDDOWN v = PGROUNDDOWN va")
    case True
    then have "frame pgdir s v = ?f" by (metis frame_def lookup_page)
    then have t: "user_byte pgdir (set_page ?f ?x s) v = ?x ! unat (take_bit 12 v)"
      and s: "user_byte pgdir s v = pages s ?f ! unat (take_bit 12 v)"
      by (simp_all add: user_byte_def fr pages_set_page)
    obtain b where b: "unat v = b + unat (take_bit 12 v)" "unat va = b + unat (take_bit 12 va)"
      using True unat_page(1) [of v] unat_page(1) [of va] by metis
    show ?thesis unfolding t s b using o len assms(4) by (simp add: overwrite_nth)
  next
    case False
    then have "frame pgdir s v \<noteq> ?f" using assms(1-3) unfolding frames_ok_def by blast
    moreover have "\<not> (unat va \<le> unat v \<and> unat v < unat va + length bs)"
      using False page_between [of va v] unat_page(1) [of va] assms(4) by linarith
    ultimately show ?thesis by (auto simp: user_byte_def fr pages_set_page)
  qed
qed

lemma copyout_writes:
  assumes "frames_ok pgdir s" and "unat va + length buf \<le> 2 ^ 32"
    and "\<And>v. unat va \<le> unat v \<Longrightarrow> unat v < unat va + length buf \<Longrightarrow> user_page pgdir s v"
  shows "\<exists>t. copyout pgdir va buf s = Inr (0, t) \<and> lookup pgdir t = lookup pgdir s \<and> frames_ok pgdir t \<and>
    (\<forall>v. user_page pgdir s v \<longrightarrow> user_byte pgdir t v =
       (if unat va \<le> unat v \<and> unat v < unat va + length buf then buf ! (unat v - unat va) else user_byte pgdir s v))"
  using assms
proof (induction pgdir va buf s rule: copyout.induct)
  case (1 pgdir va buf s)
  show ?case
  proof (cases "buf = []")
    case False
    let ?off = "unat (take_bit 12 va)" and ?f = "frame pgdir s va"
    define n where "n = min (unat (PGSIZE - (va - PGROUNDDOWN va))) (length buf)"
    let ?x = "overwrite (unat (va - PGROUNDDOWN va)) (take n buf) (pages s ?f)"
    let ?t = "set_page ?f ?x s"
    have u: "user_page pgdir s va" using 1(4) [of va] False by simp
    have k: "uva2ka pgdir (PGROUNDDOWN va) s = Inr ?f" by (rule uva2ka_user [OF u])
    have f: "?f \<noteq> 0" "length (pages s ?f) = 4096" using 1(2) u unfolding frames_ok_def by auto
    have n: "?off + n \<le> 4096" "n = 4096 - ?off \<or> n = length buf" "n \<le> length buf" "length (take n buf) = n"
      using page_offset(2) [of va] by (auto simp: n_def room_in_page(2) min_def)
    have len: "length ?x = 4096" using n f(2) by (simp add: page_offset(1) length_overwrite)
    note fw = frame_write [OF 1(2) u len]
    have ub: "user_byte pgdir ?t v =
        (if unat va \<le> unat v \<and> unat v < unat va + n then buf ! (unat v - unat va) else user_byte pgdir s v)"
      if "user_page pgdir s v" for v
      using user_byte_write [OF 1(2) u that, of "take n buf"] n by (auto simp: page_offset(1))
    have step: "copyout pgdir va buf s = copyout pgdir (PGROUNDDOWN va + PGSIZE) (drop n buf) ?t"
      using False k f(1) by (subst copyout.simps) (simp add: Let_def n_def)
    note up = lookup_eqD(2) [OF fw(1)]
    show ?thesis
    proof (cases "n = length buf")
      case True
      have "copyout pgdir va buf s = Inr (0, ?t)" using step True by (simp add: copyout.simps)
      then show ?thesis using ub True fw by auto
    next
      case more: False
      then have nb: "n = 4096 - ?off" "n < length buf" using n by auto
      have va': "unat (PGROUNDDOWN va + PGSIZE) = unat va + n"
        using unat_add_small [of "PGROUNDDOWN va" PGSIZE] unat_page(1) [of va] page_offset(2) [of va] nb 1(3)
        by (simp add: PGSIZE_def)
      have b: "unat va + n + length (drop n buf) = unat va + length buf" using n(3) by simp
      have "user_page pgdir ?t v" if "unat va + n \<le> unat v" "unat v < unat va + n + length (drop n buf)" for v
        using 1(4) [of v] that unfolding up b by simp
      then have "\<exists>t. copyout pgdir (PGROUNDDOWN va + PGSIZE) (drop n buf) ?t = Inr (0, t) \<and> lookup pgdir t = lookup pgdir ?t \<and> frames_ok pgdir t \<and>
        (\<forall>v. user_page pgdir ?t v \<longrightarrow> user_byte pgdir t v =
          (if unat va + n \<le> unat v \<and> unat v < unat va + n + length (drop n buf)
           then drop n buf ! (unat v - (unat va + n)) else user_byte pgdir ?t v))"
        using 1(1) [OF False refl k f(1) n_def refl fw(2)] 1(3) unfolding va' b by blast
      then obtain t where t: "copyout pgdir va buf s = Inr (0, t)" "lookup pgdir t = lookup pgdir s" "frames_ok pgdir t"
        "\<And>v. user_page pgdir s v \<Longrightarrow> user_byte pgdir t v =
          (if unat va + n \<le> unat v \<and> unat v < unat va + length buf
           then drop n buf ! (unat v - (unat va + n)) else user_byte pgdir ?t v)"
        unfolding step up fw(1) b by blast
      have "user_byte pgdir t v = (if unat va \<le> unat v \<and> unat v < unat va + length buf
          then buf ! (unat v - unat va) else user_byte pgdir s v)" if "user_page pgdir s v" for v
        using t(4) [OF that] ub [OF that] n(3) by auto
      then show ?thesis using t by blast
    qed
  qed (use 1(2) in \<open>auto simp: copyout.simps\<close>)
qed

text \<open>
  C27. When all pages of the destination are user pages, \<open>copyout\<close> returns 0, the program then reads the
  bytes of the buffer at the addresses from \<open>va\<close> on, every other byte of user memory is as before, and
  the page table is unchanged.
\<close>

theorem copyout_copies:
  assumes "frames_ok pgdir s" and "unat va + length buf \<le> 2 ^ 32"
    and "\<And>v. unat va \<le> unat v \<Longrightarrow> unat v < unat va + length buf \<Longrightarrow> user_page pgdir s v"
  shows "\<exists>t. copyout pgdir va buf s = Inr (0, t) \<and> lookup pgdir t = lookup pgdir s \<and>
    (\<forall>v. user_page pgdir s v \<longrightarrow> user_byte pgdir t v =
       (if unat va \<le> unat v \<and> unat v < unat va + length buf then buf ! (unat v - unat va) else user_byte pgdir s v))"
  using copyout_writes [OF assms] by blast

text \<open>An address space with one table and two user pages.\<close>

definition demo_user :: pmem where
  "demo_user = \<lparr>pages = (\<lambda>a. if a = 0x80003000 then put32 0 0x4007 zero_page
       else if a = 0x80004000 then put32 4 0x6007 (put32 0 0x5007 zero_page) else zero_page),
     use_lock = True, freelist = 0\<rparr>"

lemma length_zero_page [simp]: "length zero_page = 4096"
  by (simp add: zero_page_def)

lemma get32_put32_zero:
  "unat i < 1024 \<Longrightarrow> get32 (put32 0 w zero_page) (4 * unat i) = (if i = 0 then w else 0)"
proof (cases "i = 0")
  case False
  then have "0 < unat i" by (simp add: unat_gt_0)
  then show "unat i < 1024 \<Longrightarrow> get32 (put32 0 w zero_page) (4 * unat i) = (if i = 0 then w else 0)"
    using False by (simp add: get_put_other get32_zero)
qed (simp add: get32_put32)

lemma demo_user_pages:
  "pages demo_user 0x80003000 = put32 0 0x4007 zero_page"
  "pages demo_user 0x80004000 = put32 4 0x6007 (put32 0 0x5007 zero_page)"
  by (simp_all add: demo_user_def)

lemma demo_user_table: "i < 1024 \<Longrightarrow> table 0x80003000 demo_user i = (if i = 0 then Some 0x80004000 else None)"
  using index_nat [of i]
  by (simp add: table_def pte_get_def demo_user_pages get32_put32_zero)
    (simp add: PTE_P_def PTE_ADDR_def P2V_def KERNBASE_def get32_put32)

lemma demo_user_lookup:
  "lookup 0x80003000 demo_user v =
     (if PDX v = 0 \<and> PTX v = 0 then 0x5007 else if PDX v = 0 \<and> PTX v = 1 then 0x6007 else 0)"
proof (cases "PTX v = 0 \<or> PTX v = 1")
  case True
  then show ?thesis
    by (auto simp: lookup_table demo_user_table index_less pte_get_def demo_user_pages get32_put32 get_put_other)
next
  case False
  then have "unat (PTX v) \<noteq> 0" "unat (PTX v) \<noteq> 1"
    by (metis unat_eq_0, metis unat_1 unsigned_word_eqI)
  then have "1 < unat (PTX v)" "unat (PTX v) < 1024" using index_nat [OF index_less(2), of v] by simp_all
  with False show ?thesis
    by (auto simp: lookup_table demo_user_table index_less pte_get_def demo_user_pages get_put_other get32_zero)
qed

lemma demo_user_frames: "frames_ok 0x80003000 demo_user"
proof -
  have f: "user_page 0x80003000 demo_user v \<Longrightarrow> frame 0x80003000 demo_user v =
      (if PTX v = 0 then 0x80005000 else 0x80006000) \<and> PDX v = 0 \<and> (PTX v = 0 \<or> PTX v = 1)" for v
    by (auto simp: user_page_def frame_def demo_user_lookup PTE_ADDR_def P2V_def KERNBASE_def split: if_splits)
  show ?thesis
    unfolding frames_ok_def
  proof (intro allI impI conjI)
    fix v w i
    assume u: "user_page 0x80003000 demo_user v"
    show "frame 0x80003000 demo_user v \<noteq> 0" "frame 0x80003000 demo_user v \<noteq> 0x80003000"
      "length (pages demo_user (frame 0x80003000 demo_user v)) = 4096"
      using f [OF u] by (auto simp: demo_user_def)
    show "i < 1024 \<Longrightarrow> table 0x80003000 demo_user i \<noteq> Some (frame 0x80003000 demo_user v)"
      using f [OF u] by (auto simp: demo_user_table)
    assume w: "user_page 0x80003000 demo_user w" "frame 0x80003000 demo_user w = frame 0x80003000 demo_user v"
    show "PGROUNDDOWN w = PGROUNDDOWN v"
      using f [OF u] f [OF w(1)] w(2) same_entry [of w v] by (auto split: if_splits)
  qed
qed

text \<open>Four bytes across the boundary of the two pages.\<close>

theorem copyout_copies_witness:
  "\<exists>t. copyout 0x80003000 0xFFE [1, 2, 3, 4] demo_user = Inr (0, t) \<and>
    lookup 0x80003000 t = lookup 0x80003000 demo_user \<and>
    (\<forall>v. user_page 0x80003000 demo_user v \<longrightarrow> user_byte 0x80003000 t v =
       (if unat (0xFFE :: u32) \<le> unat v \<and> unat v < unat (0xFFE :: u32) + length [1 :: u8, 2, 3, 4]
        then [1, 2, 3, 4] ! (unat v - unat (0xFFE :: u32)) else user_byte 0x80003000 demo_user v))"
proof (rule copyout_copies [OF demo_user_frames])
  fix v :: u32
  assume v: "unat (0xFFE :: u32) \<le> unat v" "unat v < unat (0xFFE :: u32) + length [1 :: u8, 2, 3, 4]"
  then have "unat v = 0xFFE \<or> unat v = 0xFFF \<or> unat v = 0x1000 \<or> unat v = 0x1001" by auto
  then have "v = 0xFFE \<or> v = 0xFFF \<or> v = 0x1000 \<or> v = 0x1001"
    by (simp add: word_unat_eq_iff)
  then show "user_page 0x80003000 demo_user v"
    by (auto simp: user_page_def demo_user_lookup PDX_def PTX_def PTE_P_def PTE_U_def)
qed simp

end
