(* ===== verification/Inode.thy ===== *)
theory Inode
  imports Log Sleeplock
begin

text \<open>
  The block allocator, the inode cache and the contents of files (\<open>fs.c\<close>), on top of the log: a block
  is read through the buffer cache (\<^const>\<open>bview\<close>) and a changed buffer is passed to
  \<^const>\<open>log_write\<close>. There is one disk, as the code assumes. A pointer to an in-memory inode is its
  index in the cache. The number \<open>pid\<close> is the id of the calling process, which owns the sleep locks
  it takes. The contents that a caller passes or receives in a buffer are byte lists.
\<close>

subsection \<open>Data on disk and in memory\<close>

record superblock =
  sb_size :: u32
  sb_nblocks :: u32
  sb_ninodes :: u32
  sb_nlog :: u32
  sb_logstart :: u32
  sb_inodestart :: u32
  sb_bmapstart :: u32

record dinode =
  d_type :: u16
  d_major :: u16
  d_minor :: u16
  d_nlink :: u16
  d_size :: u32
  d_addrs :: "u32 list"

record inode =
  i_dev :: u32
  i_inum :: u32
  i_ref :: int
  i_lock :: sleeplock
  i_valid :: bool
  i_type :: u16
  i_major :: u16
  i_minor :: u16
  i_nlink :: u16
  i_size :: u32
  i_addrs :: "u32 list"

definition NDIRECT :: nat where "NDIRECT = 12"
definition NINDIRECT :: nat where "NINDIRECT = BSIZE div 4"
definition MAXFILE :: nat where "MAXFILE = NDIRECT + NINDIRECT"
definition IPB :: u32 where "IPB = 8"
definition BPB :: nat where "BPB = BSIZE * 8"
definition NDEV :: int where "NDEV = 10"
definition T_DIR :: u16 where "T_DIR = 1"
definition T_FILE :: u16 where "T_FILE = 2"
definition T_DEV :: u16 where "T_DEV = 3"

definition IBLOCK :: "u32 \<Rightarrow> superblock \<Rightarrow> u32" where
  "IBLOCK i sb = i div IPB + sb_inodestart sb"

definition BBLOCK :: "u32 \<Rightarrow> superblock \<Rightarrow> u32" where
  "BBLOCK b sb = b div of_nat BPB + sb_bmapstart sb"

text \<open>
  The device table maps a major number to optional read and write functions, which may change the
  state \<open>'d\<close> of the devices.
\<close>

record 'd devops =
  dev_read :: "(nat \<Rightarrow> u32 \<Rightarrow> 'd \<Rightarrow> (int \<times> u8 list \<times> 'd) kres) option"
  dev_write :: "(nat \<Rightarrow> u8 list \<Rightarrow> 'd \<Rightarrow> (int \<times> 'd) kres) option"

record 'd fsys =
  flog :: logst
  fsb :: superblock
  icache :: "inode list"
  fdev :: 'd
  devsw :: "u16 \<Rightarrow> 'd devops"

abbreviation inode_at :: "nat \<Rightarrow> ('d, 'z) fsys_scheme \<Rightarrow> inode" where
  "inode_at i s \<equiv> icache s ! i"

definition upd_inode :: "nat \<Rightarrow> (inode \<Rightarrow> inode) \<Rightarrow> ('d, 'z) fsys_scheme \<Rightarrow> ('d, 'z) fsys_scheme" where
  "upd_inode i f s = s\<lparr>icache := modify i f (icache s)\<rparr>"

abbreviation blk :: "u32 \<Rightarrow> ('d, 'z) fsys_scheme \<Rightarrow> block" where
  "blk b s \<equiv> bview (flog s) b"

text \<open>Filling a buffer and passing it to \<^const>\<open>log_write\<close>.\<close>

definition put_block :: "u32 \<Rightarrow> block \<Rightarrow> ('d, 'z) fsys_scheme \<Rightarrow> ('d, 'z) fsys_scheme kres" where
  "put_block b x s = kbind (log_write b x (flog s)) (\<lambda>l. Inr (s\<lparr>flog := l\<rparr>))"

subsection \<open>Blocks\<close>

definition readsb :: "('d, 'z) fsys_scheme \<Rightarrow> superblock" where
  "readsb s = (let x = blk 1 s in
     \<lparr>sb_size = get32 x 0, sb_nblocks = get32 x 4, sb_ninodes = get32 x 8, sb_nlog = get32 x 12,
      sb_logstart = get32 x 16, sb_inodestart = get32 x 20, sb_bmapstart = get32 x 24\<rparr>)"

definition bzero :: "u32 \<Rightarrow> ('d, 'z) fsys_scheme \<Rightarrow> ('d, 'z) fsys_scheme kres" where
  "bzero bno s = put_block bno (replicate BSIZE 0) s"

definition bitmask :: "nat \<Rightarrow> u8" where
  "bitmask bi = push_bit (bi mod 8) 1"

definition bit_free :: "block \<Rightarrow> nat \<Rightarrow> bool" where
  "bit_free x bi \<longleftrightarrow> x ! (bi div 8) AND bitmask bi = 0"

function balloc_from :: "nat \<Rightarrow> ('d, 'z) fsys_scheme \<Rightarrow> (u32 \<times> ('d, 'z) fsys_scheme) kres" where
  "balloc_from b s =
     (if b < unat (sb_size (fsb s)) then
        let bb = BBLOCK (of_nat b) (fsb s); x = blk bb s in
        case find (bit_free x) [0..<min BPB (unat (sb_size (fsb s)) - b)] of
          Some bi \<Rightarrow>
            kbind (put_block bb (x[bi div 8 := x ! (bi div 8) OR bitmask bi]) s) (\<lambda>s.
            kbind (bzero (of_nat (b + bi)) s) (\<lambda>s. Inr (of_nat (b + bi), s)))
        | None \<Rightarrow> balloc_from (b + BPB) s
      else Inl (Panic ''balloc: out of blocks''))"
  by pat_completeness auto
termination
  by (relation "measure (\<lambda>(b, s). unat (sb_size (fsb s)) - b)") (auto simp: BPB_def BSIZE_def)

definition balloc :: "('d, 'z) fsys_scheme \<Rightarrow> (u32 \<times> ('d, 'z) fsys_scheme) kres" where
  "balloc s = balloc_from 0 s"

definition bfree :: "u32 \<Rightarrow> ('d, 'z) fsys_scheme \<Rightarrow> ('d, 'z) fsys_scheme kres" where
  "bfree b s =
     (let bb = BBLOCK b (fsb s); x = blk bb s; bi = unat b mod BPB in
      if bit_free x bi then Inl (Panic ''freeing free block'')
      else put_block bb (x[bi div 8 := x ! (bi div 8) AND NOT (bitmask bi)]) s)"

subsection \<open>Inodes\<close>

definition get_dinode :: "block \<Rightarrow> u32 \<Rightarrow> dinode" where
  "get_dinode x inum = (let k = 64 * unat (inum mod IPB) in
     \<lparr>d_type = get16 x k, d_major = get16 x (k + 2), d_minor = get16 x (k + 4), d_nlink = get16 x (k + 6),
      d_size = get32 x (k + 8), d_addrs = map (\<lambda>j. get32 x (k + 12 + 4 * j)) [0..<NDIRECT + 1]\<rparr>)"

definition put_dinode :: "u32 \<Rightarrow> dinode \<Rightarrow> block \<Rightarrow> block" where
  "put_dinode inum d x = (let k = 64 * unat (inum mod IPB) in
     put32s (k + 12) (d_addrs d) (put32 (k + 8) (d_size d) (put16 (k + 6) (d_nlink d)
       (put16 (k + 4) (d_minor d) (put16 (k + 2) (d_major d) (put16 k (d_type d) x))))))"

definition zero_dinode :: dinode where
  "zero_dinode = \<lparr>d_type = 0, d_major = 0, d_minor = 0, d_nlink = 0, d_size = 0, d_addrs = replicate 13 0\<rparr>"

definition iinit :: "('d, 'z) fsys_scheme \<Rightarrow> ('d, 'z) fsys_scheme" where
  "iinit s = s\<lparr>icache := map (\<lambda>i. i\<lparr>i_lock := initsleeplock\<rparr>) (icache s), fsb := readsb s\<rparr>"

text \<open>The search of \<open>iget\<close>: an entry for the inode, otherwise the first unused entry.\<close>

definition iget :: "u32 \<Rightarrow> u32 \<Rightarrow> ('d, 'z) fsys_scheme \<Rightarrow> (nat \<times> ('d, 'z) fsys_scheme) kres" where
  "iget dev inum s =
     (case first_index (\<lambda>ip. 0 < i_ref ip \<and> i_dev ip = dev \<and> i_inum ip = inum) (icache s) of
        Some i \<Rightarrow> Inr (i, upd_inode i (\<lambda>ip. ip\<lparr>i_ref := i_ref ip + 1\<rparr>) s)
      | None \<Rightarrow>
          (case first_index (\<lambda>ip. i_ref ip = 0) (icache s) of
             None \<Rightarrow> Inl (Panic ''iget: no inodes'')
           | Some i \<Rightarrow> Inr (i, upd_inode i (\<lambda>ip. ip\<lparr>i_dev := dev, i_inum := inum, i_ref := 1, i_valid := False\<rparr>) s)))"

fun ialloc_loop :: "u32 \<Rightarrow> u16 \<Rightarrow> nat list \<Rightarrow> ('d, 'z) fsys_scheme \<Rightarrow> (nat \<times> ('d, 'z) fsys_scheme) kres" where
  "ialloc_loop dev ty [] s = Inl (Panic ''ialloc: no inodes'')"
| "ialloc_loop dev ty (n # ns) s =
     (let inum = of_nat n; bb = IBLOCK inum (fsb s); x = blk bb s in
      if d_type (get_dinode x inum) = 0
      then kbind (put_block bb (put_dinode inum (zero_dinode\<lparr>d_type := ty\<rparr>) x) s) (iget dev inum)
      else ialloc_loop dev ty ns s)"

definition ialloc :: "u32 \<Rightarrow> u16 \<Rightarrow> ('d, 'z) fsys_scheme \<Rightarrow> (nat \<times> ('d, 'z) fsys_scheme) kres" where
  "ialloc dev ty s = ialloc_loop dev ty [1..<unat (sb_ninodes (fsb s))] s"

definition to_dinode :: "inode \<Rightarrow> dinode" where
  "to_dinode ip = \<lparr>d_type = i_type ip, d_major = i_major ip, d_minor = i_minor ip, d_nlink = i_nlink ip,
     d_size = i_size ip, d_addrs = i_addrs ip\<rparr>"

definition iupdate :: "nat \<Rightarrow> ('d, 'z) fsys_scheme \<Rightarrow> ('d, 'z) fsys_scheme kres" where
  "iupdate i s =
     (let ip = inode_at i s; bb = IBLOCK (i_inum ip) (fsb s)
      in put_block bb (put_dinode (i_inum ip) (to_dinode ip) (blk bb s)) s)"

definition idup :: "nat \<Rightarrow> ('d, 'z) fsys_scheme \<Rightarrow> ('d, 'z) fsys_scheme" where
  "idup i s = upd_inode i (\<lambda>ip. ip\<lparr>i_ref := i_ref ip + 1\<rparr>) s"

text \<open>Taking the sleep lock of an inode; a process that has to wait stops here.\<close>

definition lock_inode :: "u32 \<Rightarrow> nat \<Rightarrow> ('d, 'z) fsys_scheme \<Rightarrow> ('d, 'z) fsys_scheme kres" where
  "lock_inode pid i s =
     (case acquiresleep pid (i_lock (inode_at i s)) of
        (Wait, _) \<Rightarrow> Inl (Block (ChanSleeplock i))
      | (Got, lk) \<Rightarrow> Inr (upd_inode i (\<lambda>ip. ip\<lparr>i_lock := lk\<rparr>) s))"

definition unlock_inode :: "nat \<Rightarrow> ('d, 'z) fsys_scheme \<Rightarrow> ('d, 'z) fsys_scheme" where
  "unlock_inode i s = upd_inode i (\<lambda>ip. ip\<lparr>i_lock := fst (releasesleep (i_lock ip))\<rparr>) s"

definition ilock :: "u32 \<Rightarrow> nat \<Rightarrow> ('d, 'z) fsys_scheme \<Rightarrow> ('d, 'z) fsys_scheme kres" where
  "ilock pid i s =
     (if i_ref (inode_at i s) < 1 then Inl (Panic ''ilock'')
      else kbind (lock_inode pid i s) (\<lambda>s.
        if i_valid (inode_at i s) then Inr s
        else
          let ip = inode_at i s; d = get_dinode (blk (IBLOCK (i_inum ip) (fsb s)) s) (i_inum ip);
              s = upd_inode i (\<lambda>ip. ip\<lparr>i_type := d_type d, i_major := d_major d, i_minor := d_minor d,
                    i_nlink := d_nlink d, i_size := d_size d, i_addrs := d_addrs d, i_valid := True\<rparr>) s
          in if d_type d = 0 then Inl (Panic ''ilock: no type'') else Inr s))"

definition iunlock :: "u32 \<Rightarrow> nat \<Rightarrow> ('d, 'z) fsys_scheme \<Rightarrow> ('d, 'z) fsys_scheme kres" where
  "iunlock pid i s =
     (if \<not> holdingsleep pid (i_lock (inode_at i s)) \<or> i_ref (inode_at i s) < 1
      then Inl (Panic ''iunlock'') else Inr (unlock_inode i s))"

subsection \<open>The blocks of a file\<close>

definition bmap :: "nat \<Rightarrow> u32 \<Rightarrow> ('d, 'z) fsys_scheme \<Rightarrow> (u32 \<times> ('d, 'z) fsys_scheme) kres" where
  "bmap i bn s =
     (let n = unat bn in
      if n < NDIRECT then
        let addr = i_addrs (inode_at i s) ! n in
        if addr = 0 then
          kbind (balloc s) (\<lambda>(addr, s).
            Inr (addr, upd_inode i (\<lambda>ip. ip\<lparr>i_addrs := (i_addrs ip)[n := addr]\<rparr>) s))
        else Inr (addr, s)
      else if n - NDIRECT < NINDIRECT then
        let k = n - NDIRECT; ind = i_addrs (inode_at i s) ! NDIRECT in
        kbind (if ind = 0 then
                 kbind (balloc s) (\<lambda>(addr, s).
                   Inr (addr, upd_inode i (\<lambda>ip. ip\<lparr>i_addrs := (i_addrs ip)[NDIRECT := addr]\<rparr>) s))
               else Inr (ind, s)) (\<lambda>(ind, s).
          let x = blk ind s; addr = get32 x (4 * k) in
          if addr = 0 then
            kbind (balloc s) (\<lambda>(addr, s).
            kbind (put_block ind (put32 (4 * k) addr x) s) (\<lambda>s. Inr (addr, s)))
          else Inr (addr, s))
      else Inl (Panic ''bmap: out of range''))"

fun free_blocks :: "u32 list \<Rightarrow> ('d, 'z) fsys_scheme \<Rightarrow> ('d, 'z) fsys_scheme kres" where
  "free_blocks [] s = Inr s"
| "free_blocks (b # bs) s = (if b \<noteq> 0 then kbind (bfree b s) (free_blocks bs) else free_blocks bs s)"

text \<open>
  \<open>itrunc\<close>: the direct blocks, then those listed in the indirect block (read before they are freed),
  then the indirect block itself.
\<close>

definition itrunc :: "nat \<Rightarrow> ('d, 'z) fsys_scheme \<Rightarrow> ('d, 'z) fsys_scheme kres" where
  "itrunc i s =
     kbind (free_blocks (take NDIRECT (i_addrs (inode_at i s))) s) (\<lambda>s.
       let s = upd_inode i (\<lambda>ip. ip\<lparr>i_addrs := replicate NDIRECT 0 @ drop NDIRECT (i_addrs ip)\<rparr>) s;
           ind = i_addrs (inode_at i s) ! NDIRECT in
       kbind (if ind \<noteq> 0 then
                kbind (free_blocks (map (\<lambda>j. get32 (blk ind s) (4 * j)) [0..<NINDIRECT]) s) (\<lambda>s.
                kbind (bfree ind s) (\<lambda>s.
                  Inr (upd_inode i (\<lambda>ip. ip\<lparr>i_addrs := (i_addrs ip)[NDIRECT := 0]\<rparr>) s)))
              else Inr s) (\<lambda>s.
         iupdate i (upd_inode i (\<lambda>ip. ip\<lparr>i_size := 0\<rparr>) s)))"

definition iput :: "u32 \<Rightarrow> nat \<Rightarrow> ('d, 'z) fsys_scheme \<Rightarrow> ('d, 'z) fsys_scheme kres" where
  "iput pid i s =
     kbind (lock_inode pid i s) (\<lambda>s.
     kbind (let ip = inode_at i s in
            if i_valid ip \<and> i_nlink ip = 0 \<and> i_ref ip = 1 then
              kbind (itrunc i s) (\<lambda>s.
              kbind (iupdate i (upd_inode i (\<lambda>ip. ip\<lparr>i_type := 0\<rparr>) s)) (\<lambda>s.
                Inr (upd_inode i (\<lambda>ip. ip\<lparr>i_valid := False\<rparr>) s)))
            else Inr s) (\<lambda>s.
       Inr (upd_inode i (\<lambda>ip. ip\<lparr>i_ref := i_ref ip - 1\<rparr>) (unlock_inode i s))))"

definition iunlockput :: "u32 \<Rightarrow> nat \<Rightarrow> ('d, 'z) fsys_scheme \<Rightarrow> ('d, 'z) fsys_scheme kres" where
  "iunlockput pid i s = kbind (iunlock pid i s) (iput pid i)"

record stat =
  st_type :: u16
  st_dev :: u32
  st_ino :: u32
  st_nlink :: u16
  st_size :: u32

definition stati :: "nat \<Rightarrow> ('d, 'z) fsys_scheme \<Rightarrow> stat" where
  "stati i s = (let ip = inode_at i s in
     \<lparr>st_type = i_type ip, st_dev = i_dev ip, st_ino = i_inum ip, st_nlink = i_nlink ip, st_size = i_size ip\<rparr>)"

subsection \<open>Reading and writing\<close>

text \<open>The number of bytes of one turn: what is left to do, but not beyond the block.\<close>

definition chunk :: "u32 \<Rightarrow> nat \<Rightarrow> nat" where
  "chunk off r = min r (BSIZE - unat (off mod of_nat BSIZE))"

lemma chunk_pos: "0 < r \<Longrightarrow> 0 < chunk off r"
proof -
  have "unat (off mod 512) < 512" by (simp add: unat_mod_distrib)
  then show "0 < r \<Longrightarrow> 0 < chunk off r" by (simp add: chunk_def BSIZE_def)
qed

function readi_loop :: "nat \<Rightarrow> u32 \<Rightarrow> nat \<Rightarrow> ('d, 'z) fsys_scheme \<Rightarrow> (u8 list \<times> ('d, 'z) fsys_scheme) kres" where
  "readi_loop i off r s =
     (if r = 0 then Inr ([], s)
      else kbind (bmap i (off div of_nat BSIZE) s) (\<lambda>(b, s).
        let m = chunk off r; bs = take m (drop (unat (off mod of_nat BSIZE)) (blk b s)) in
        kbind (readi_loop i (off + of_nat m) (r - m) s) (\<lambda>(rest, s). Inr (bs @ rest, s))))"
  by pat_completeness auto
termination
  by (relation "measure (\<lambda>(i, off, r, s). r)") (auto simp: chunk_pos)

definition readi :: "nat \<Rightarrow> u32 \<Rightarrow> u32 \<Rightarrow> ('d, 'z) fsys_scheme \<Rightarrow> (int \<times> u8 list \<times> ('d, 'z) fsys_scheme) kres" where
  "readi i off n s =
     (let ip = inode_at i s in
      if i_type ip = T_DEV then
        if sint (i_major ip) < 0 \<or> NDEV \<le> sint (i_major ip) then Inr (-1, [], s)
        else case dev_read (devsw s (i_major ip)) of
               None \<Rightarrow> Inr (-1, [], s)
             | Some f \<Rightarrow> kbind (f i n (fdev s)) (\<lambda>(r, bs, d). Inr (r, bs, s\<lparr>fdev := d\<rparr>))
      else if i_size ip < off \<or> off + n < off then Inr (-1, [], s)
      else
        let n = (if i_size ip < off + n then i_size ip - off else n) in
        kbind (readi_loop i off (unat n) s) (\<lambda>(bs, s). Inr (sint n, bs, s)))"

function writei_loop :: "nat \<Rightarrow> u32 \<Rightarrow> u8 list \<Rightarrow> ('d, 'z) fsys_scheme \<Rightarrow> (u32 \<times> ('d, 'z) fsys_scheme) kres" where
  "writei_loop i off src s =
     (if src = [] then Inr (off, s)
      else kbind (bmap i (off div of_nat BSIZE) s) (\<lambda>(b, s).
        let m = chunk off (length src); k = unat (off mod of_nat BSIZE); x = blk b s in
        kbind (put_block b (take k x @ take m src @ drop (k + m) x) s) (\<lambda>s.
          writei_loop i (off + of_nat m) (drop m src) s)))"
  by pat_completeness auto
termination
  by (relation "measure (\<lambda>(i, off, src, s). length src)") (auto simp: chunk_pos)

definition writei :: "nat \<Rightarrow> u8 list \<Rightarrow> u32 \<Rightarrow> ('d, 'z) fsys_scheme \<Rightarrow> (int \<times> ('d, 'z) fsys_scheme) kres" where
  "writei i src off s =
     (let ip = inode_at i s; n = of_nat (length src) :: u32 in
      if i_type ip = T_DEV then
        if sint (i_major ip) < 0 \<or> NDEV \<le> sint (i_major ip) then Inr (-1, s)
        else case dev_write (devsw s (i_major ip)) of
               None \<Rightarrow> Inr (-1, s)
             | Some f \<Rightarrow> kbind (f i src (fdev s)) (\<lambda>(r, d). Inr (r, s\<lparr>fdev := d\<rparr>))
      else if i_size ip < off \<or> off + n < off then Inr (-1, s)
      else if of_nat (MAXFILE * BSIZE) < off + n then Inr (-1, s)
      else kbind (writei_loop i off src s) (\<lambda>(off, s).
        if 0 < n \<and> i_size (inode_at i s) < off
        then kbind (iupdate i (upd_inode i (\<lambda>ip. ip\<lparr>i_size := off\<rparr>) s)) (\<lambda>s. Inr (sint n, s))
        else Inr (sint n, s)))"

end
