(* ===== verification/Dir.thy ===== *)
theory Dir
  imports Inode
begin

text \<open>
  Directories and path names (\<open>fs.c\<close>). A C string is the list of its bytes before the NUL; a file name
  in a directory entry is at most 14 bytes, without a NUL if it is that long.
\<close>

definition DIRSIZ :: nat where "DIRSIZ = 14"
definition ROOTDEV :: u32 where "ROOTDEV = 1"
definition ROOTINO :: u32 where "ROOTINO = 1"

record dirent =
  de_inum :: u16
  de_name :: "u8 list"

definition get_dirent :: "u8 list \<Rightarrow> dirent" where
  "get_dirent bs = \<lparr>de_inum = get16 bs 0, de_name = take DIRSIZ (drop 2 bs)\<rparr>"

definition put_dirent :: "dirent \<Rightarrow> u8 list" where
  "put_dirent d = put16 0 (de_inum d) [0, 0] @ de_name d"

subsection \<open>Names\<close>

definition first_byte :: "u8 list \<Rightarrow> u8" where
  "first_byte s = (case s of [] \<Rightarrow> 0 | c # _ \<Rightarrow> c)"

text \<open>\<open>strncmp\<close> and \<open>strncpy\<close> of string.c on byte lists that end where the NUL is.\<close>

fun strncmp_bytes :: "nat \<Rightarrow> u8 list \<Rightarrow> u8 list \<Rightarrow> int" where
  "strncmp_bytes 0 p q = 0"
| "strncmp_bytes (Suc n) p q =
     (if first_byte p \<noteq> 0 \<and> first_byte p = first_byte q then strncmp_bytes n (tl p) (tl q)
      else uint (first_byte p) - uint (first_byte q))"

fun strncpy_bytes :: "nat \<Rightarrow> u8 list \<Rightarrow> u8 list" where
  "strncpy_bytes 0 t = []"
| "strncpy_bytes (Suc n) t =
     (if first_byte t = 0 then replicate (Suc n) 0 else first_byte t # strncpy_bytes n (tl t))"

definition namecmp :: "u8 list \<Rightarrow> u8 list \<Rightarrow> int" where
  "namecmp s t = strncmp_bytes DIRSIZ s t"

subsection \<open>Directories\<close>

text \<open>The loops over the entries of a directory; \<open>sz\<close> is its size.\<close>

function dirlookup_loop :: "nat \<Rightarrow> u8 list \<Rightarrow> nat \<Rightarrow> nat \<Rightarrow> ('d, 'z) fsys_scheme \<Rightarrow>
    ((nat \<times> u32) option \<times> ('d, 'z) fsys_scheme) kres" where
  "dirlookup_loop dp name off sz s =
     (if off < sz then
        kbind (readi dp (of_nat off) 16 s) (\<lambda>(r, bs, s).
          if r \<noteq> 16 then Inl (Panic ''dirlookup read'')
          else
            let de = get_dirent bs in
            if de_inum de = 0 then dirlookup_loop dp name (off + 16) sz s
            else if namecmp name (de_name de) = 0
            then kbind (iget (i_dev (inode_at dp s)) (ucast (de_inum de)) s) (\<lambda>(ip, s). Inr (Some (ip, of_nat off), s))
            else dirlookup_loop dp name (off + 16) sz s)
      else Inr (None, s))"
  by pat_completeness auto
termination
  by (relation "measure (\<lambda>(dp, name, off, sz, s). sz - off)") auto

definition dirlookup :: "nat \<Rightarrow> u8 list \<Rightarrow> ('d, 'z) fsys_scheme \<Rightarrow> ((nat \<times> u32) option \<times> ('d, 'z) fsys_scheme) kres" where
  "dirlookup dp name s =
     (if i_type (inode_at dp s) \<noteq> T_DIR then Inl (Panic ''dirlookup not DIR'')
      else dirlookup_loop dp name 0 (unat (i_size (inode_at dp s))) s)"

function empty_dirent :: "nat \<Rightarrow> nat \<Rightarrow> nat \<Rightarrow> ('d, 'z) fsys_scheme \<Rightarrow> (nat \<times> ('d, 'z) fsys_scheme) kres" where
  "empty_dirent dp off sz s =
     (if off < sz then
        kbind (readi dp (of_nat off) 16 s) (\<lambda>(r, bs, s).
          if r \<noteq> 16 then Inl (Panic ''dirlink read'')
          else if de_inum (get_dirent bs) = 0 then Inr (off, s)
          else empty_dirent dp (off + 16) sz s)
      else Inr (off, s))"
  by pat_completeness auto
termination
  by (relation "measure (\<lambda>(dp, off, sz, s). sz - off)") auto

definition dirlink :: "u32 \<Rightarrow> nat \<Rightarrow> u8 list \<Rightarrow> u32 \<Rightarrow> ('d, 'z) fsys_scheme \<Rightarrow> (int \<times> ('d, 'z) fsys_scheme) kres" where
  "dirlink pid dp name inum s =
     kbind (dirlookup dp name s) (\<lambda>(r, s).
       case r of
         Some (ip, _) \<Rightarrow> kbind (iput pid ip s) (\<lambda>s. Inr (-1, s))
       | None \<Rightarrow>
           kbind (empty_dirent dp 0 (unat (i_size (inode_at dp s))) s) (\<lambda>(off, s).
           kbind (writei dp (put_dirent \<lparr>de_inum = ucast inum, de_name = strncpy_bytes DIRSIZ name\<rparr>) (of_nat off) s)
             (\<lambda>(r, s). if r \<noteq> 16 then Inl (Panic ''dirlink'') else Inr (0, s))))"

text \<open>\<open>isdirempty\<close> of sysfile.c: no entry in use after \<open>.\<close> and \<open>..\<close>.\<close>

function isdirempty_loop :: "nat \<Rightarrow> nat \<Rightarrow> nat \<Rightarrow> ('d, 'z) fsys_scheme \<Rightarrow> (bool \<times> ('d, 'z) fsys_scheme) kres" where
  "isdirempty_loop dp off sz s =
     (if off < sz then
        kbind (readi dp (of_nat off) 16 s) (\<lambda>(r, bs, s).
          if r \<noteq> 16 then Inl (Panic ''isdirempty: readi'')
          else if de_inum (get_dirent bs) \<noteq> 0 then Inr (False, s)
          else isdirempty_loop dp (off + 16) sz s)
      else Inr (True, s))"
  by pat_completeness auto
termination
  by (relation "measure (\<lambda>(dp, off, sz, s). sz - off)") auto

definition isdirempty :: "nat \<Rightarrow> ('d, 'z) fsys_scheme \<Rightarrow> (bool \<times> ('d, 'z) fsys_scheme) kres" where
  "isdirempty dp s = isdirempty_loop dp 32 (unat (i_size (inode_at dp s))) s"

subsection \<open>Paths\<close>

definition slash :: u8 where "slash = 47"

definition skipelem :: "u8 list \<Rightarrow> (u8 list \<times> u8 list) option" where
  "skipelem path =
     (let path = dropWhile (\<lambda>c. c = slash) path in
      if path = [] then None
      else
        let name = takeWhile (\<lambda>c. c \<noteq> slash) path; path = dropWhile (\<lambda>c. c \<noteq> slash) path
        in Some (take DIRSIZ name, dropWhile (\<lambda>c. c = slash) path))"

lemma skipelem_shorter: "skipelem path = Some (name, rest) \<Longrightarrow> length rest < length path"
proof -
  assume a: "skipelem path = Some (name, rest)"
  let ?p = "dropWhile (\<lambda>c. c = slash) path"
  have p: "?p \<noteq> []" and r: "rest = dropWhile (\<lambda>c. c = slash) (dropWhile (\<lambda>c. c \<noteq> slash) ?p)"
    using a by (auto simp: skipelem_def Let_def split: if_splits)
  then obtain c cs where c: "?p = c # cs" by (cases ?p) auto
  then have "c \<noteq> slash" using hd_dropWhile [of "\<lambda>c. c = slash" path] by simp
  then have "length (dropWhile (\<lambda>c. c \<noteq> slash) ?p) < length ?p"
    using c by (simp add: le_imp_less_Suc length_dropWhile_le)
  moreover have "length ?p \<le> length path" by (rule length_dropWhile_le)
  moreover have "length rest \<le> length (dropWhile (\<lambda>c. c \<noteq> slash) ?p)" unfolding r by (rule length_dropWhile_le)
  ultimately show ?thesis by simp
qed

text \<open>
  The loop of \<open>namex\<close>; \<open>name\<close> is the buffer for the last path element, which only matters when the
  parent is asked for.
\<close>

function namex_loop :: "u32 \<Rightarrow> bool \<Rightarrow> u8 list \<Rightarrow> u8 list \<Rightarrow> nat \<Rightarrow> ('d, 'z) fsys_scheme \<Rightarrow>
    ((nat \<times> u8 list) option \<times> ('d, 'z) fsys_scheme) kres" where
  "namex_loop pid nameiparent path name ip s =
     (case skipelem path of
        None \<Rightarrow>
          if nameiparent then kbind (iput pid ip s) (\<lambda>s. Inr (None, s))
          else Inr (Some (ip, name), s)
      | Some (name, path) \<Rightarrow>
          kbind (ilock pid ip s) (\<lambda>s.
            if i_type (inode_at ip s) \<noteq> T_DIR then kbind (iunlockput pid ip s) (\<lambda>s. Inr (None, s))
            else if nameiparent \<and> path = [] then kbind (iunlock pid ip s) (\<lambda>s. Inr (Some (ip, name), s))
            else kbind (dirlookup ip name s) (\<lambda>(r, s).
              case r of
                None \<Rightarrow> kbind (iunlockput pid ip s) (\<lambda>s. Inr (None, s))
              | Some (next, _) \<Rightarrow>
                  kbind (iunlockput pid ip s) (\<lambda>s. namex_loop pid nameiparent path name next s))))"
  by pat_completeness auto
termination
  by (relation "measure (\<lambda>(pid, np, path, name, ip, s). length path)") (auto dest: skipelem_shorter)

definition namex :: "u32 \<Rightarrow> nat \<Rightarrow> bool \<Rightarrow> u8 list \<Rightarrow> ('d, 'z) fsys_scheme \<Rightarrow>
    ((nat \<times> u8 list) option \<times> ('d, 'z) fsys_scheme) kres" where
  "namex pid cwd nameiparent path s =
     kbind (if first_byte path = slash then iget ROOTDEV ROOTINO s else Inr (cwd, idup cwd s)) (\<lambda>(ip, s).
       namex_loop pid nameiparent path [] ip s)"

definition namei :: "u32 \<Rightarrow> nat \<Rightarrow> u8 list \<Rightarrow> ('d, 'z) fsys_scheme \<Rightarrow> (nat option \<times> ('d, 'z) fsys_scheme) kres" where
  "namei pid cwd path s = kbind (namex pid cwd False path s) (\<lambda>(r, s). Inr (map_option fst r, s))"

definition nameiparent :: "u32 \<Rightarrow> nat \<Rightarrow> u8 list \<Rightarrow> ('d, 'z) fsys_scheme \<Rightarrow>
    ((nat \<times> u8 list) option \<times> ('d, 'z) fsys_scheme) kres" where
  "nameiparent pid cwd path s = namex pid cwd True path s"

end
