(* ===== verification/File.thy ===== *)
theory File
  imports Dir Pipe
begin

text \<open>
  The table of open files (\<open>file.c\<close>) and the creation of pipes. A pointer to an open file is its index
  in the table, a pipe is named by a number. The channels that the pipe operations wake are appended
  to \<open>fwake\<close>.
\<close>

datatype ftype = FD_NONE | FD_PIPE | FD_INODE

record kfile =
  f_type :: ftype
  f_ref :: int
  f_readable :: bool
  f_writable :: bool
  f_pipe :: nat
  f_ip :: nat
  f_off :: u32

record 'd files = "'d fsys" +
  ftable :: "kfile list"
  pipes :: "nat \<Rightarrow> pipe"
  fwake :: "chan list"

abbreviation file_at :: "nat \<Rightarrow> ('d, 'z) files_scheme \<Rightarrow> kfile" where
  "file_at f s \<equiv> ftable s ! f"

definition upd_file :: "nat \<Rightarrow> (kfile \<Rightarrow> kfile) \<Rightarrow> ('d, 'z) files_scheme \<Rightarrow> ('d, 'z) files_scheme" where
  "upd_file f g s = s\<lparr>ftable := modify f g (ftable s)\<rparr>"

definition do_begin_op :: "('d, 'z) fsys_scheme \<Rightarrow> ('d, 'z) fsys_scheme kres" where
  "do_begin_op s = kbind (begin_op (flog s)) (\<lambda>l. Inr (s\<lparr>flog := l\<rparr>))"

definition do_end_op :: "('d, 'z) fsys_scheme \<Rightarrow> ('d, 'z) fsys_scheme kres" where
  "do_end_op s = kbind (end_op (flog s)) (\<lambda>l. Inr (s\<lparr>flog := l\<rparr>))"

subsection \<open>Operations\<close>

definition filealloc :: "('d, 'z) files_scheme \<Rightarrow> nat option \<times> ('d, 'z) files_scheme" where
  "filealloc s =
     (case first_index (\<lambda>f. f_ref f = 0) (ftable s) of
        None \<Rightarrow> (None, s)
      | Some f \<Rightarrow> (Some f, upd_file f (\<lambda>x. x\<lparr>f_ref := 1\<rparr>) s))"

definition filedup :: "nat \<Rightarrow> ('d, 'z) files_scheme \<Rightarrow> ('d, 'z) files_scheme kres" where
  "filedup f s =
     (if f_ref (file_at f s) < 1 then Inl (Panic ''filedup'')
      else Inr (upd_file f (\<lambda>x. x\<lparr>f_ref := f_ref x + 1\<rparr>) s))"

definition fileclose :: "u32 \<Rightarrow> nat \<Rightarrow> ('d, 'z) files_scheme \<Rightarrow> ('d, 'z) files_scheme kres" where
  "fileclose pid f s =
     (if f_ref (file_at f s) < 1 then Inl (Panic ''fileclose'')
      else
        let s = upd_file f (\<lambda>x. x\<lparr>f_ref := f_ref x - 1\<rparr>) s in
        if 0 < f_ref (file_at f s) then Inr s
        else
          let ff = file_at f s; s = upd_file f (\<lambda>x. x\<lparr>f_ref := 0, f_type := FD_NONE\<rparr>) s in
          case f_type ff of
            FD_PIPE \<Rightarrow>
              (case pipeclose (f_pipe ff) (f_writable ff) (pipes s (f_pipe ff)) of
                 (w, p, _) \<Rightarrow> Inr (s\<lparr>pipes := (pipes s)(f_pipe ff := p), fwake := fwake s @ w\<rparr>))
          | FD_INODE \<Rightarrow> kbind (do_begin_op s) (\<lambda>s. kbind (iput pid (f_ip ff) s) do_end_op)
          | FD_NONE \<Rightarrow> Inr s)"

definition filestat :: "u32 \<Rightarrow> nat \<Rightarrow> ('d, 'z) files_scheme \<Rightarrow> (stat option \<times> ('d, 'z) files_scheme) kres" where
  "filestat pid f s =
     (if f_type (file_at f s) = FD_INODE then
        let ip = f_ip (file_at f s) in
        kbind (ilock pid ip s) (\<lambda>s.
          let st = stati ip s in kbind (iunlock pid ip s) (\<lambda>s. Inr (Some st, s)))
      else Inr (None, s))"

text \<open>A reader or writer that has to wait for the other end of a pipe stops with \<open>Block\<close>.\<close>

definition fileread :: "u32 \<Rightarrow> bool \<Rightarrow> nat \<Rightarrow> u32 \<Rightarrow> ('d, 'z) files_scheme \<Rightarrow>
    (int \<times> u8 list \<times> ('d, 'z) files_scheme) kres" where
  "fileread pid killed f n s =
     (if \<not> f_readable (file_at f s) then Inr (-1, [], s)
      else case f_type (file_at f s) of
        FD_PIPE \<Rightarrow>
          let k = f_pipe (file_at f s) in
          (case piperead k killed (sint n) (pipes s k) of
             (Ret r, bs, w, p) \<Rightarrow> Inr (r, bs, s\<lparr>pipes := (pipes s)(k := p), fwake := fwake s @ w\<rparr>)
           | (Sleep, _, _, _) \<Rightarrow> Inl (Block (ChanPipeRead k)))
      | FD_INODE \<Rightarrow>
          let ip = f_ip (file_at f s) in
          kbind (ilock pid ip s) (\<lambda>s.
          kbind (readi ip (f_off (file_at f s)) n s) (\<lambda>(r, bs, s).
            let s = (if 0 < r then upd_file f (\<lambda>x. x\<lparr>f_off := f_off x + of_int r\<rparr>) s else s) in
            kbind (iunlock pid ip s) (\<lambda>s. Inr (r, bs, s))))
      | FD_NONE \<Rightarrow> Inl (Panic ''fileread''))"

definition max_write :: nat where
  "max_write = (nat MAXOPBLOCKS - 1 - 1 - 2) div 2 * 512"

text \<open>
  The loop of \<open>filewrite\<close> over the bytes that are left; the result is the number of bytes written.
\<close>

function filewrite_loop :: "u32 \<Rightarrow> nat \<Rightarrow> u8 list \<Rightarrow> nat \<Rightarrow> ('d, 'z) files_scheme \<Rightarrow>
    (nat \<times> ('d, 'z) files_scheme) kres" where
  "filewrite_loop pid f src i s =
     (if src = [] then Inr (i, s)
      else
        let n1 = min (length src) max_write; ip = f_ip (file_at f s) in
        kbind (do_begin_op s) (\<lambda>s.
        kbind (ilock pid ip s) (\<lambda>s.
        kbind (writei ip (take n1 src) (f_off (file_at f s)) s) (\<lambda>(r, s).
          let s = (if 0 < r then upd_file f (\<lambda>x. x\<lparr>f_off := f_off x + of_int r\<rparr>) s else s) in
          kbind (iunlock pid ip s) (\<lambda>s.
          kbind (do_end_op s) (\<lambda>s.
            if r < 0 then Inr (i, s)
            else if r \<noteq> int n1 then Inl (Panic ''short filewrite'')
            else filewrite_loop pid f (drop n1 src) (i + n1) s))))))"
  by pat_completeness auto
termination
  by (relation "measure (\<lambda>(pid, f, src, i, s). length src)") (auto simp: max_write_def MAXOPBLOCKS_def)

definition filewrite :: "u32 \<Rightarrow> bool \<Rightarrow> nat \<Rightarrow> u8 list \<Rightarrow> ('d, 'z) files_scheme \<Rightarrow>
    (int \<times> ('d, 'z) files_scheme) kres" where
  "filewrite pid killed f src s =
     (if \<not> f_writable (file_at f s) then Inr (-1, s)
      else case f_type (file_at f s) of
        FD_PIPE \<Rightarrow>
          let k = f_pipe (file_at f s) in
          (case pipewrite k killed (int (length src)) src (pipes s k) of
             (Ret r, _, w, p) \<Rightarrow> Inr (r, s\<lparr>pipes := (pipes s)(k := p), fwake := fwake s @ w\<rparr>)
           | (Sleep, _, _, _) \<Rightarrow> Inl (Block (ChanPipeWrite k)))
      | FD_INODE \<Rightarrow>
          kbind (filewrite_loop pid f src 0 s) (\<lambda>(i, s).
            Inr (if i = length src then int (length src) else -1, s))
      | FD_NONE \<Rightarrow> Inl (Panic ''filewrite''))"

text \<open>
  \<open>pipealloc\<close>; the argument is the page that \<open>kalloc\<close> returns (named by a number, with its old
  contents) or \<open>None\<close>.
\<close>

definition pipealloc :: "u32 \<Rightarrow> (nat \<times> u8 list) option \<Rightarrow> ('d, 'z) files_scheme \<Rightarrow>
    ((nat \<times> nat) option \<times> ('d, 'z) files_scheme) kres" where
  "pipealloc pid pg s =
     (case filealloc s of
        (None, s) \<Rightarrow> Inr (None, s)
      | (Some f0, s) \<Rightarrow>
          (case filealloc s of
             (None, s) \<Rightarrow> kbind (fileclose pid f0 s) (\<lambda>s. Inr (None, s))
           | (Some f1, s) \<Rightarrow>
               (case pg of
                  None \<Rightarrow> kbind (fileclose pid f0 s) (\<lambda>s. kbind (fileclose pid f1 s) (\<lambda>s. Inr (None, s)))
                | Some (k, garbage) \<Rightarrow>
                    let s = s\<lparr>pipes := (pipes s)(k := pipe_init garbage)\<rparr>;
                        s = upd_file f0 (\<lambda>x. x\<lparr>f_type := FD_PIPE, f_readable := True, f_writable := False, f_pipe := k\<rparr>) s;
                        s = upd_file f1 (\<lambda>x. x\<lparr>f_type := FD_PIPE, f_readable := False, f_writable := True, f_pipe := k\<rparr>) s
                    in Inr (Some (f0, f1), s))))"

end
