(* ===== verification/Sysfile.thy ===== *)
theory Sysfile
  imports File
begin

text \<open>
  System call arguments (\<open>syscall.c\<close>) and the system calls on files (\<open>sysfile.c\<close>). The state extends
  the file tables with the fields of the current process that these calls use: its id, whether it has
  been killed, the size and contents of its memory, the saved user stack pointer, its open files and
  its current directory. An argument that the code rejects is \<open>None\<close>.
\<close>

record 'd sysst = "'d files" +
  us_pid :: u32
  us_killed :: bool
  us_sz :: u32
  us_esp :: u32
  us_mem :: memory
  us_ofile :: "nat option list"
  us_cwd :: nat

subsection \<open>Arguments\<close>

definition load32 :: "memory \<Rightarrow> u32 \<Rightarrow> u32" where
  "load32 m a = ucast (m a) OR push_bit 8 (ucast (m (a + 1))) OR push_bit 16 (ucast (m (a + 2)))
     OR push_bit 24 (ucast (m (a + 3)))"

definition peek :: "memory \<Rightarrow> u32 \<Rightarrow> nat \<Rightarrow> u8 list" where
  "peek m a n = map (\<lambda>k. m (a + of_nat k)) [0..<n]"

fun poke :: "u32 \<Rightarrow> u8 list \<Rightarrow> memory \<Rightarrow> memory" where
  "poke a [] m = m"
| "poke a (b # bs) m = poke (a + 1) bs (m(a := b))"

definition fetchint :: "u32 \<Rightarrow> ('d, 'z) sysst_scheme \<Rightarrow> u32 option" where
  "fetchint addr s =
     (if us_sz s \<le> addr \<or> us_sz s < addr + 4 then None else Some (load32 (us_mem s) addr))"

lemma word_suc_less: "s < (ep :: u32) \<Longrightarrow> unat (s + 1) = unat s + 1"
  using unat_add_small [of s 1] unat_bound [of ep] by (simp add: word_less_nat_alt)

text \<open>
  \<open>fetchstr\<close> returns the address and the length of the string; \<open>str_end\<close> is its loop, which tests the
  addresses from \<open>s\<close> up to \<open>ep\<close>.
\<close>

function str_end :: "memory \<Rightarrow> u32 \<Rightarrow> u32 \<Rightarrow> u32 option" where
  "str_end m s ep = (if s < ep then if m s = 0 then Some s else str_end m (s + 1) ep else None)"
  by pat_completeness auto
termination
  by (relation "measure (\<lambda>(m, s, ep). unat ep - unat s)") (auto simp: word_suc_less word_less_nat_alt)

definition fetchstr :: "u32 \<Rightarrow> ('d, 'z) sysst_scheme \<Rightarrow> (u32 \<times> nat) option" where
  "fetchstr addr s =
     (if us_sz s \<le> addr then None
      else map_option (\<lambda>e. (addr, unat (e - addr))) (str_end (us_mem s) addr (us_sz s)))"

definition argint :: "nat \<Rightarrow> ('d, 'z) sysst_scheme \<Rightarrow> u32 option" where
  "argint n s = fetchint (us_esp s + 4 + 4 * of_nat n) s"

definition argptr :: "nat \<Rightarrow> u32 \<Rightarrow> ('d, 'z) sysst_scheme \<Rightarrow> u32 option" where
  "argptr n len s =
     (case argint n s of
        None \<Rightarrow> None
      | Some i \<Rightarrow> if sint len < 0 \<or> us_sz s \<le> i \<or> us_sz s < i + len then None else Some i)"

definition argstr :: "nat \<Rightarrow> ('d, 'z) sysst_scheme \<Rightarrow> (u32 \<times> nat) option" where
  "argstr n s = (case argint n s of None \<Rightarrow> None | Some addr \<Rightarrow> fetchstr addr s)"

text \<open>The bytes of a string argument.\<close>

definition argpath :: "nat \<Rightarrow> ('d, 'z) sysst_scheme \<Rightarrow> u8 list option" where
  "argpath n s = map_option (\<lambda>(a, k). peek (us_mem s) a k) (argstr n s)"

definition NOFILE :: nat where "NOFILE = 16"

definition argfd :: "nat \<Rightarrow> ('d, 'z) sysst_scheme \<Rightarrow> (nat \<times> nat) option" where
  "argfd n s =
     (case argint n s of
        None \<Rightarrow> None
      | Some fd \<Rightarrow>
          if sint fd < 0 \<or> int NOFILE \<le> sint fd then None
          else map_option (\<lambda>f. (unat fd, f)) (us_ofile s ! unat fd))"

definition fdalloc :: "nat \<Rightarrow> ('d, 'z) sysst_scheme \<Rightarrow> nat option \<times> ('d, 'z) sysst_scheme" where
  "fdalloc f s =
     (case first_index (\<lambda>x. x = None) (take NOFILE (us_ofile s)) of
        None \<Rightarrow> (None, s)
      | Some fd \<Rightarrow> (Some fd, s\<lparr>us_ofile := (us_ofile s)[fd := Some f]\<rparr>))"

subsection \<open>Calls on open files\<close>

definition sys_dup :: "('d, 'z) sysst_scheme \<Rightarrow> (int \<times> ('d, 'z) sysst_scheme) kres" where
  "sys_dup s =
     (case argfd 0 s of
        None \<Rightarrow> Inr (-1, s)
      | Some (_, f) \<Rightarrow>
          (case fdalloc f s of
             (None, s) \<Rightarrow> Inr (-1, s)
           | (Some fd, s) \<Rightarrow> kbind (filedup f s) (\<lambda>s. Inr (int fd, s))))"

definition sys_read :: "('d, 'z) sysst_scheme \<Rightarrow> (int \<times> ('d, 'z) sysst_scheme) kres" where
  "sys_read s =
     (case (argfd 0 s, argint 2 s) of
        (Some (_, f), Some n) \<Rightarrow>
          (case argptr 1 n s of
             None \<Rightarrow> Inr (-1, s)
           | Some p \<Rightarrow>
               kbind (fileread (us_pid s) (us_killed s) f n s) (\<lambda>(r, bs, s).
                 Inr (r, s\<lparr>us_mem := poke p bs (us_mem s)\<rparr>)))
      | _ \<Rightarrow> Inr (-1, s))"

definition sys_write :: "('d, 'z) sysst_scheme \<Rightarrow> (int \<times> ('d, 'z) sysst_scheme) kres" where
  "sys_write s =
     (case (argfd 0 s, argint 2 s) of
        (Some (_, f), Some n) \<Rightarrow>
          (case argptr 1 n s of
             None \<Rightarrow> Inr (-1, s)
           | Some p \<Rightarrow> filewrite (us_pid s) (us_killed s) f (peek (us_mem s) p (unat n)) s)
      | _ \<Rightarrow> Inr (-1, s))"

definition sys_close :: "('d, 'z) sysst_scheme \<Rightarrow> (int \<times> ('d, 'z) sysst_scheme) kres" where
  "sys_close s =
     (case argfd 0 s of
        None \<Rightarrow> Inr (-1, s)
      | Some (fd, f) \<Rightarrow>
          kbind (fileclose (us_pid s) f (s\<lparr>us_ofile := (us_ofile s)[fd := None]\<rparr>)) (\<lambda>s. Inr (0, s)))"

text \<open>The structure that \<open>fstat\<close> stores: 2-byte type, 4-byte device and inode, 2-byte links, 4-byte size,
  with the padding the compiler adds left as it was.\<close>

definition poke_stat :: "u32 \<Rightarrow> stat \<Rightarrow> memory \<Rightarrow> memory" where
  "poke_stat p st m =
     poke (p + 16) (put32 0 (st_size st) [0, 0, 0, 0]) (poke (p + 12) (put16 0 (st_nlink st) [0, 0])
       (poke (p + 8) (put32 0 (st_ino st) [0, 0, 0, 0]) (poke (p + 4) (put32 0 (st_dev st) [0, 0, 0, 0])
         (poke p (put16 0 (st_type st) [0, 0]) m))))"

definition sys_fstat :: "('d, 'z) sysst_scheme \<Rightarrow> (int \<times> ('d, 'z) sysst_scheme) kres" where
  "sys_fstat s =
     (case (argfd 0 s, argptr 1 20 s) of
        (Some (_, f), Some p) \<Rightarrow>
          kbind (filestat (us_pid s) f s) (\<lambda>(r, s).
            case r of None \<Rightarrow> Inr (-1, s) | Some st \<Rightarrow> Inr (0, s\<lparr>us_mem := poke_stat p st (us_mem s)\<rparr>))
      | _ \<Rightarrow> Inr (-1, s))"

subsection \<open>Calls on paths\<close>

text \<open>Leaving with the transaction closed and the result \<open>-1\<close>.\<close>

definition fail_op :: "('d, 'z) sysst_scheme \<Rightarrow> (int \<times> ('d, 'z) sysst_scheme) kres" where
  "fail_op s = kbind (do_end_op s) (\<lambda>s. Inr (-1, s))"

definition set_nlink :: "nat \<Rightarrow> (u16 \<Rightarrow> u16) \<Rightarrow> ('d, 'z) fsys_scheme \<Rightarrow> ('d, 'z) fsys_scheme kres" where
  "set_nlink i g s = iupdate i (upd_inode i (\<lambda>ip. ip\<lparr>i_nlink := g (i_nlink ip)\<rparr>) s)"

text \<open>The label \<open>bad\<close> of \<open>sys_link\<close>: the link count goes back.\<close>

definition link_bad :: "nat \<Rightarrow> ('d, 'z) sysst_scheme \<Rightarrow> (int \<times> ('d, 'z) sysst_scheme) kres" where
  "link_bad ip s =
     kbind (ilock (us_pid s) ip s) (\<lambda>s.
     kbind (set_nlink ip (\<lambda>n. n - 1) s) (\<lambda>s.
     kbind (iunlockput (us_pid s) ip s) fail_op))"

definition sys_link :: "('d, 'z) sysst_scheme \<Rightarrow> (int \<times> ('d, 'z) sysst_scheme) kres" where
  "sys_link s =
     (case (argpath 0 s, argpath 1 s) of
        (Some old, Some new) \<Rightarrow>
          kbind (do_begin_op s) (\<lambda>s.
          kbind (namei (us_pid s) (us_cwd s) old s) (\<lambda>(r, s).
            case r of
              None \<Rightarrow> fail_op s
            | Some ip \<Rightarrow>
                kbind (ilock (us_pid s) ip s) (\<lambda>s.
                  if i_type (inode_at ip s) = T_DIR
                  then kbind (iunlockput (us_pid s) ip s) fail_op
                  else
                    kbind (set_nlink ip (\<lambda>n. n + 1) s) (\<lambda>s.
                    kbind (iunlock (us_pid s) ip s) (\<lambda>s.
                    kbind (nameiparent (us_pid s) (us_cwd s) new s) (\<lambda>(r, s).
                      case r of
                        None \<Rightarrow> link_bad ip s
                      | Some (dp, name) \<Rightarrow>
                          kbind (ilock (us_pid s) dp s) (\<lambda>s.
                          kbind (if i_dev (inode_at dp s) \<noteq> i_dev (inode_at ip s) then Inr (-1, s)
                                 else dirlink (us_pid s) dp name (i_inum (inode_at ip s)) s) (\<lambda>(r, s).
                            if r < 0 then kbind (iunlockput (us_pid s) dp s) (link_bad ip)
                            else
                              kbind (iunlockput (us_pid s) dp s) (\<lambda>s.
                              kbind (iput (us_pid s) ip s) (\<lambda>s.
                              kbind (do_end_op s) (\<lambda>s. Inr (0, s)))))))))))) 
      | _ \<Rightarrow> Inr (-1, s))"

definition dot :: "u8 list" where "dot = [46]"
definition dotdot :: "u8 list" where "dotdot = [46, 46]"

text \<open>The part of \<open>sys_unlink\<close> after the arguments, which \<open>removeSwapFile\<close> shares.\<close>

definition unlink_path :: "u8 list \<Rightarrow> ('d, 'z) sysst_scheme \<Rightarrow> (int \<times> ('d, 'z) sysst_scheme) kres" where
  "unlink_path path s =
     kbind (do_begin_op s) (\<lambda>s.
     kbind (nameiparent (us_pid s) (us_cwd s) path s) (\<lambda>(r, s).
       case r of
         None \<Rightarrow> fail_op s
       | Some (dp, name) \<Rightarrow>
           let bad = (\<lambda>s. kbind (iunlockput (us_pid s) dp s) fail_op) in
           kbind (ilock (us_pid s) dp s) (\<lambda>s.
             if namecmp name dot = 0 \<or> namecmp name dotdot = 0 then bad s
             else kbind (dirlookup dp name s) (\<lambda>(r, s).
               case r of
                 None \<Rightarrow> bad s
               | Some (ip, off) \<Rightarrow>
                   kbind (ilock (us_pid s) ip s) (\<lambda>s.
                     if sint (i_nlink (inode_at ip s)) < 1 then Inl (Panic ''unlink: nlink < 1'')
                     else
                       kbind (if i_type (inode_at ip s) = T_DIR then isdirempty ip s else Inr (True, s)) (\<lambda>(e, s).
                         if \<not> e then kbind (iunlockput (us_pid s) ip s) bad
                         else
                           kbind (writei dp (replicate 16 0) off s) (\<lambda>(r, s).
                             if r \<noteq> 16 then Inl (Panic ''unlink: writei'')
                             else
                               kbind (if i_type (inode_at ip s) = T_DIR then set_nlink dp (\<lambda>n. n - 1) s else Inr s) (\<lambda>s.
                               kbind (iunlockput (us_pid s) dp s) (\<lambda>s.
                               kbind (set_nlink ip (\<lambda>n. n - 1) s) (\<lambda>s.
                               kbind (iunlockput (us_pid s) ip s) (\<lambda>s.
                               kbind (do_end_op s) (\<lambda>s. Inr (0, s)))))))))))))"

definition sys_unlink :: "('d, 'z) sysst_scheme \<Rightarrow> (int \<times> ('d, 'z) sysst_scheme) kres" where
  "sys_unlink s = (case argpath 0 s of None \<Rightarrow> Inr (-1, s) | Some path \<Rightarrow> unlink_path path s)"

text \<open>\<open>create\<close> returns a locked inode, or \<open>None\<close>.\<close>

definition create :: "u8 list \<Rightarrow> u16 \<Rightarrow> u16 \<Rightarrow> u16 \<Rightarrow> ('d, 'z) sysst_scheme \<Rightarrow>
    (nat option \<times> ('d, 'z) sysst_scheme) kres" where
  "create path ty major minor s =
     kbind (nameiparent (us_pid s) (us_cwd s) path s) (\<lambda>(r, s).
       case r of
         None \<Rightarrow> Inr (None, s)
       | Some (dp, name) \<Rightarrow>
           kbind (ilock (us_pid s) dp s) (\<lambda>s.
           kbind (dirlookup dp name s) (\<lambda>(r, s).
             case r of
               Some (ip, _) \<Rightarrow>
                 kbind (iunlockput (us_pid s) dp s) (\<lambda>s.
                 kbind (ilock (us_pid s) ip s) (\<lambda>s.
                   if ty = T_FILE \<and> i_type (inode_at ip s) = T_FILE then Inr (Some ip, s)
                   else kbind (iunlockput (us_pid s) ip s) (\<lambda>s. Inr (None, s))))
             | None \<Rightarrow>
                 kbind (ialloc (i_dev (inode_at dp s)) ty s) (\<lambda>(ip, s).
                 kbind (ilock (us_pid s) ip s) (\<lambda>s.
                 kbind (iupdate ip (upd_inode ip (\<lambda>x. x\<lparr>i_major := major, i_minor := minor, i_nlink := 1\<rparr>) s)) (\<lambda>s.
                 kbind (if ty = T_DIR then
                          kbind (set_nlink dp (\<lambda>n. n + 1) s) (\<lambda>s.
                          kbind (dirlink (us_pid s) ip dot (i_inum (inode_at ip s)) s) (\<lambda>(r, s).
                            if r < 0 then Inl (Panic ''create dots'')
                            else kbind (dirlink (us_pid s) ip dotdot (i_inum (inode_at dp s)) s) (\<lambda>(r, s).
                              if r < 0 then Inl (Panic ''create dots'') else Inr s)))
                        else Inr s) (\<lambda>s.
                 kbind (dirlink (us_pid s) dp name (i_inum (inode_at ip s)) s) (\<lambda>(r, s).
                   if r < 0 then Inl (Panic ''create: dirlink'')
                   else kbind (iunlockput (us_pid s) dp s) (\<lambda>s. Inr (Some ip, s))))))))))"

definition O_RDONLY :: u32 where "O_RDONLY = 0x000"
definition O_WRONLY :: u32 where "O_WRONLY = 0x001"
definition O_RDWR :: u32 where "O_RDWR = 0x002"
definition O_CREATE :: u32 where "O_CREATE = 0x200"

text \<open>The first half of \<open>sys_open\<close>: the inode, locked; \<open>None\<close> is a failure inside the transaction.\<close>

definition open_inode :: "u8 list \<Rightarrow> u32 \<Rightarrow> ('d, 'z) sysst_scheme \<Rightarrow> (nat option \<times> ('d, 'z) sysst_scheme) kres" where
  "open_inode path omode s =
     (if omode AND O_CREATE \<noteq> 0 then create path T_FILE 0 0 s
      else
        kbind (namei (us_pid s) (us_cwd s) path s) (\<lambda>(r, s).
          case r of
            None \<Rightarrow> Inr (None, s)
          | Some ip \<Rightarrow>
              kbind (ilock (us_pid s) ip s) (\<lambda>s.
                if i_type (inode_at ip s) = T_DIR \<and> omode \<noteq> O_RDONLY
                then kbind (iunlockput (us_pid s) ip s) (\<lambda>s. Inr (None, s))
                else Inr (Some ip, s))))"

definition sys_open :: "('d, 'z) sysst_scheme \<Rightarrow> (int \<times> ('d, 'z) sysst_scheme) kres" where
  "sys_open s =
     (case (argpath 0 s, argint 1 s) of
        (Some path, Some omode) \<Rightarrow>
          kbind (do_begin_op s) (\<lambda>s.
          kbind (open_inode path omode s) (\<lambda>(r, s).
            case r of
              None \<Rightarrow> fail_op s
            | Some ip \<Rightarrow>
                (case filealloc s of
                   (None, s) \<Rightarrow> kbind (iunlockput (us_pid s) ip s) fail_op
                 | (Some f, s) \<Rightarrow>
                     (case fdalloc f s of
                        (None, s) \<Rightarrow>
                          kbind (fileclose (us_pid s) f s) (\<lambda>s. kbind (iunlockput (us_pid s) ip s) fail_op)
                      | (Some fd, s) \<Rightarrow>
                          kbind (iunlock (us_pid s) ip s) (\<lambda>s.
                          kbind (do_end_op s) (\<lambda>s.
                            Inr (int fd, upd_file f (\<lambda>x. x\<lparr>f_type := FD_INODE, f_ip := ip, f_off := 0,
                              f_readable := (omode AND O_WRONLY = 0),
                              f_writable := (omode AND O_WRONLY \<noteq> 0 \<or> omode AND O_RDWR \<noteq> 0)\<rparr>) s)))))))
      | _ \<Rightarrow> Inr (-1, s))"

definition sys_mkdir :: "('d, 'z) sysst_scheme \<Rightarrow> (int \<times> ('d, 'z) sysst_scheme) kres" where
  "sys_mkdir s =
     kbind (do_begin_op s) (\<lambda>s.
       case argpath 0 s of
         None \<Rightarrow> fail_op s
       | Some path \<Rightarrow>
           kbind (create path T_DIR 0 0 s) (\<lambda>(r, s).
             case r of
               None \<Rightarrow> fail_op s
             | Some ip \<Rightarrow> kbind (iunlockput (us_pid s) ip s) (\<lambda>s. kbind (do_end_op s) (\<lambda>s. Inr (0, s)))))"

definition sys_mknod :: "('d, 'z) sysst_scheme \<Rightarrow> (int \<times> ('d, 'z) sysst_scheme) kres" where
  "sys_mknod s =
     kbind (do_begin_op s) (\<lambda>s.
       case (argpath 0 s, argint 1 s, argint 2 s) of
         (Some path, Some major, Some minor) \<Rightarrow>
           kbind (create path T_DEV (ucast major) (ucast minor) s) (\<lambda>(r, s).
             case r of
               None \<Rightarrow> fail_op s
             | Some ip \<Rightarrow> kbind (iunlockput (us_pid s) ip s) (\<lambda>s. kbind (do_end_op s) (\<lambda>s. Inr (0, s))))
       | _ \<Rightarrow> fail_op s)"

definition sys_chdir :: "('d, 'z) sysst_scheme \<Rightarrow> (int \<times> ('d, 'z) sysst_scheme) kres" where
  "sys_chdir s =
     kbind (do_begin_op s) (\<lambda>s.
       case argpath 0 s of
         None \<Rightarrow> fail_op s
       | Some path \<Rightarrow>
           kbind (namei (us_pid s) (us_cwd s) path s) (\<lambda>(r, s).
             case r of
               None \<Rightarrow> fail_op s
             | Some ip \<Rightarrow>
                 kbind (ilock (us_pid s) ip s) (\<lambda>s.
                   if i_type (inode_at ip s) \<noteq> T_DIR then kbind (iunlockput (us_pid s) ip s) fail_op
                   else
                     kbind (iunlock (us_pid s) ip s) (\<lambda>s.
                     kbind (iput (us_pid s) (us_cwd s) s) (\<lambda>s.
                     kbind (do_end_op s) (\<lambda>s. Inr (0, s\<lparr>us_cwd := ip\<rparr>)))))))"

text \<open>\<open>sys_exec\<close>: the argument strings, at most \<open>MAXARG\<close> with the final null pointer.\<close>

fun fetch_args :: "nat \<Rightarrow> u32 \<Rightarrow> ('d, 'z) sysst_scheme \<Rightarrow> u8 list list option" where
  "fetch_args 0 uargv s = None"
| "fetch_args (Suc k) uargv s =
     (case fetchint uargv s of
        None \<Rightarrow> None
      | Some uarg \<Rightarrow>
          if uarg = 0 then Some []
          else case fetchstr uarg s of
                 None \<Rightarrow> None
               | Some (a, n) \<Rightarrow> map_option (\<lambda>xs. peek (us_mem s) a n # xs) (fetch_args k (uargv + 4) s))"

definition MAXARG :: nat where "MAXARG = 32"

text \<open>The path and the arguments that \<open>sys_exec\<close> passes to \<open>exec\<close>.\<close>

definition exec_args :: "('d, 'z) sysst_scheme \<Rightarrow> (u8 list \<times> u8 list list) option" where
  "exec_args s =
     (case (argpath 0 s, argint 1 s) of
        (Some path, Some uargv) \<Rightarrow> map_option (Pair path) (fetch_args MAXARG uargv s)
      | _ \<Rightarrow> None)"

definition sys_pipe :: "(nat \<times> u8 list) option \<Rightarrow> ('d, 'z) sysst_scheme \<Rightarrow> (int \<times> ('d, 'z) sysst_scheme) kres" where
  "sys_pipe pg s =
     (case argptr 0 8 s of
        None \<Rightarrow> Inr (-1, s)
      | Some fdp \<Rightarrow>
          kbind (pipealloc (us_pid s) pg s) (\<lambda>(r, s).
            case r of
              None \<Rightarrow> Inr (-1, s)
            | Some (rf, wrf) \<Rightarrow>
                let bad = (\<lambda>s. kbind (fileclose (us_pid s) rf s) (\<lambda>s.
                               kbind (fileclose (us_pid s) wrf s) (\<lambda>s. Inr (-1, s)))) in
                (case fdalloc rf s of
                   (None, s) \<Rightarrow> bad s
                 | (Some fd0, s) \<Rightarrow>
                     (case fdalloc wrf s of
                        (None, s) \<Rightarrow> bad (s\<lparr>us_ofile := (us_ofile s)[fd0 := None]\<rparr>)
                      | (Some fd1, s) \<Rightarrow>
                          Inr (0, s\<lparr>us_mem := poke (fdp + 4) (put32 0 (of_nat fd1) [0, 0, 0, 0])
                            (poke fdp (put32 0 (of_nat fd0) [0, 0, 0, 0]) (us_mem s))\<rparr>)))))"

end
