(* ===== verification/Swap.thy ===== *)
theory Swap
  imports Sysfile Vm
begin

text \<open>
  Demand paging of the second kernel: the queue of resident pages that each process keeps, the swap
  file, swapping pages out and in (\<open>vm.c\<close>, end of \<open>fs.c\<close>), and the growth of a process. The state adds
  the physical memory, the paging metadata of every process (by slot of the process table), and the
  slot and the page directory of the current process.
\<close>

subsection \<open>State\<close>

definition MAX_PSYC_PAGES :: nat where "MAX_PSYC_PAGES = 15"

record pageInSwapFile =
  sw_address :: u32
  sw_in_use :: bool

text \<open>A pointer to an entry of a queue names the process whose array it lies in, and its index.\<close>

type_synonym qptr = "nat \<times> nat"

record pageInPhyMem =
  ph_address :: u32
  ph_next :: "qptr option"
  ph_in_use :: bool

record pgmeta =
  swapFile :: "nat option"
  nPagesInPhyMemory :: int
  nPagesInSwapFile :: int
  pagesInPhyMem :: "pageInPhyMem list"
  pagesInSwapFile :: "pageInSwapFile list"
  qhead :: "qptr option"

record 'd pstate = "'d sysst" +
  pm :: pmem
  pgm :: "pgmeta list"
  us_slot :: nat
  us_pgdir :: u32

definition cell :: "pgmeta list \<Rightarrow> qptr \<Rightarrow> pageInPhyMem" where
  "cell ms p = pagesInPhyMem (ms ! fst p) ! snd p"

definition upd_cell :: "qptr \<Rightarrow> (pageInPhyMem \<Rightarrow> pageInPhyMem) \<Rightarrow> pgmeta list \<Rightarrow> pgmeta list" where
  "upd_cell p f ms = modify (fst p) (\<lambda>m. m\<lparr>pagesInPhyMem := modify (snd p) f (pagesInPhyMem m)\<rparr>) ms"

subsection \<open>The queue of resident pages\<close>

text \<open>
  The cells from a pointer to the end of the list. A list that visits more cells than there are is
  cyclic, and the loop over it does not end.
\<close>

fun cells_from :: "nat \<Rightarrow> pgmeta list \<Rightarrow> qptr \<Rightarrow> qptr list kres" where
  "cells_from 0 ms p = Inl Spin"
| "cells_from (Suc n) ms p =
     (case ph_next (cell ms p) of
        None \<Rightarrow> Inr [p]
      | Some q \<Rightarrow> kbind (cells_from n ms q) (\<lambda>ps. Inr (p # ps)))"

definition all_cells :: "pgmeta list \<Rightarrow> nat" where
  "all_cells ms = length ms * MAX_PSYC_PAGES"

text \<open>\<open>printQueue\<close> returns the addresses it prints; it reads through \<open>head\<close> without testing it.\<close>

definition printQueue :: "u32 \<Rightarrow> nat \<Rightarrow> pgmeta list \<Rightarrow> u32 list kres" where
  "printQueue pid p ms =
     (if pid \<noteq> 1 \<and> pid \<noteq> 2 then
        case qhead (ms ! p) of
          None \<Rightarrow> Inl (Fault ''null'')
        | Some h \<Rightarrow> kbind (cells_from (all_cells ms) ms h) (\<lambda>ps. Inr (map (\<lambda>q. ph_address (cell ms q)) (butlast ps)))
      else Inr [])"

definition enqueueFIFO :: "nat \<Rightarrow> u32 \<Rightarrow> pgmeta list \<Rightarrow> pgmeta list kres" where
  "enqueueFIFO p addr ms =
     (case first_index (\<lambda>c. \<not> ph_in_use c) (pagesInPhyMem (ms ! p)) of
        None \<Rightarrow> Inr ms
      | Some i \<Rightarrow>
          kbind (case qhead (ms ! p) of
                   None \<Rightarrow> Inr (upd_cell (p, i) (\<lambda>c. c\<lparr>ph_next := None\<rparr>) (modify p (\<lambda>m. m\<lparr>qhead := Some (p, i)\<rparr>) ms))
                 | Some h \<Rightarrow>
                     kbind (cells_from (all_cells ms) ms h) (\<lambda>ps.
                       Inr (upd_cell (p, i) (\<lambda>c. c\<lparr>ph_next := None\<rparr>)
                             (upd_cell (List.last ps) (\<lambda>c. c\<lparr>ph_next := Some (p, i)\<rparr>) ms)))) (\<lambda>ms.
            let ms = upd_cell (p, i) (\<lambda>c. c\<lparr>ph_address := addr, ph_in_use := True\<rparr>) ms
            in Inr (modify p (\<lambda>m. m\<lparr>nPagesInPhyMemory := nPagesInPhyMemory m + 1\<rparr>) ms)))"

definition dequeueFIFO :: "u32 \<Rightarrow> nat \<Rightarrow> pgmeta list \<Rightarrow> (u32 \<times> pgmeta list) kres" where
  "dequeueFIFO pid p ms =
     kbind (printQueue pid p ms) (\<lambda>_.
       case qhead (ms ! p) of
         None \<Rightarrow> Inr (-1, ms)
       | Some h \<Rightarrow>
           let addr = ph_address (cell ms h);
               ms = upd_cell h (\<lambda>c. c\<lparr>ph_address := 0, ph_in_use := False\<rparr>) ms;
               ms = modify p (\<lambda>m. m\<lparr>qhead := ph_next (cell ms h)\<rparr>) ms
           in kbind (printQueue pid p ms) (\<lambda>_. Inr (addr, ms)))"

subsection \<open>The swap file\<close>

definition writeToSwapFile :: "nat \<Rightarrow> u8 list \<Rightarrow> u32 \<Rightarrow> ('d, 'z) pstate_scheme \<Rightarrow> (int \<times> ('d, 'z) pstate_scheme) kres" where
  "writeToSwapFile p buffer placeOnFile s =
     (case swapFile (pgm s ! p) of
        None \<Rightarrow> Inl (Fault ''null'')
      | Some f \<Rightarrow> filewrite (us_pid s) (us_killed s) f buffer (upd_file f (\<lambda>x. x\<lparr>f_off := placeOnFile\<rparr>) s))"

definition readFromSwapFile :: "nat \<Rightarrow> u32 \<Rightarrow> u32 \<Rightarrow> ('d, 'z) pstate_scheme \<Rightarrow> (int \<times> u8 list \<times> ('d, 'z) pstate_scheme) kres" where
  "readFromSwapFile p placeOnFile n s =
     (case swapFile (pgm s ! p) of
        None \<Rightarrow> Inl (Fault ''null'')
      | Some f \<Rightarrow> fileread (us_pid s) (us_killed s) f n (upd_file f (\<lambda>x. x\<lparr>f_off := placeOnFile\<rparr>) s))"

text \<open>\<open>itoa\<close>: the decimal digits, with a minus sign for negative numbers.\<close>

fun itoa_digits :: "nat \<Rightarrow> u8 list" where
  "itoa_digits i = (if i < 10 then [of_nat (48 + i)] else itoa_digits (i div 10) @ [of_nat (48 + i mod 10)])"

definition itoa :: "u32 \<Rightarrow> u8 list" where
  "itoa i = (if sint i < 0 then 45 # itoa_digits (nat (- sint i)) else itoa_digits (nat (sint i)))"

definition swap_path :: "u32 \<Rightarrow> u8 list" where
  "swap_path pid = [47, 46, 115, 119, 97, 112] @ itoa pid"

text \<open>\<open>removeSwapFile\<close> of the current process: after closing the file it does what \<open>unlink\<close> does.\<close>

definition removeSwapFile :: "nat \<Rightarrow> ('d, 'z) pstate_scheme \<Rightarrow> (int \<times> ('d, 'z) pstate_scheme) kres" where
  "removeSwapFile p s =
     (case swapFile (pgm s ! p) of
        None \<Rightarrow> Inr (-1, s)
      | Some f \<Rightarrow> kbind (fileclose (us_pid s) f s) (unlink_path (swap_path (us_pid s))))"

text \<open>\<open>createSwapFile\<close> for the process in slot \<open>p\<close> with the id \<open>pid\<close>; it runs in the process that forks.\<close>

definition createSwapFile :: "nat \<Rightarrow> u32 \<Rightarrow> ('d, 'z) pstate_scheme \<Rightarrow> (int \<times> ('d, 'z) pstate_scheme) kres" where
  "createSwapFile p pid s =
     kbind (do_begin_op s) (\<lambda>s.
     kbind (create (swap_path pid) T_FILE 0 0 s) (\<lambda>(r, s).
       case r of
         None \<Rightarrow> Inl (Panic ''iunlock'')
       | Some inode \<Rightarrow>
           kbind (iunlock (us_pid s) inode s) (\<lambda>s.
             case filealloc s of
               (None, s) \<Rightarrow> Inl (Panic ''no slot for files on /store'')
             | (Some f, s) \<Rightarrow>
                 let s = s\<lparr>pgm := modify p (\<lambda>m. m\<lparr>swapFile := Some f\<rparr>) (pgm s)\<rparr>;
                     s = upd_file f (\<lambda>x. x\<lparr>f_ip := inode, f_type := FD_INODE, f_off := 0,
                           f_readable := True, f_writable := True\<rparr>) s
                 in kbind (do_end_op s) (\<lambda>s. Inr (0, s)))))"

subsection \<open>Swapping\<close>

definition move_slot :: "nat \<Rightarrow> u32 \<Rightarrow> u32 \<Rightarrow> ('d, 'z) pstate_scheme \<Rightarrow> ('d, 'z) pstate_scheme kres" where
  "move_slot p addr pte s =
     (case first_index (\<lambda>e. \<not> sw_in_use e) (pagesInSwapFile (pgm s ! p)) of
        None \<Rightarrow> Inr s
      | Some i \<Rightarrow>
          let s = s\<lparr>pgm := modify p (\<lambda>m. m\<lparr>pagesInSwapFile :=
                (pagesInSwapFile m)[i := \<lparr>sw_address = addr, sw_in_use = True\<rparr>]\<rparr>) (pgm s)\<rparr> in
          kbind (writeToSwapFile p (pages (pm s) (P2V (PTE_ADDR pte))) (of_nat i * PGSIZE) s) (\<lambda>(r, s).
            if r = 0 then Inl (Panic ''moveToSwapFile::Swap File Writing Error'') else Inr s))"

definition moveToSwapFile :: "u32 \<Rightarrow> u32 \<Rightarrow> ('d, 'z) pstate_scheme \<Rightarrow> ('d, 'z) pstate_scheme kres" where
  "moveToSwapFile kend addr s =
     (let p = us_slot s; virtual_address = PTE_ADDR addr in
      case fst (walkpgdir (us_pgdir s) addr False (pm s)) of
        None \<Rightarrow> Inl (Fault ''null'')
      | Some pte \<Rightarrow>
          if pte_get pte (pm s) = 0 then Inl (Panic ''moveToSwapFile::Dequeued address not in page table'')
          else
            kbind (move_slot p addr (pte_get pte (pm s)) s) (\<lambda>s.
              case fst (walkpgdir (us_pgdir s) virtual_address False (pm s)) of
                None \<Rightarrow> Inl (Fault ''null'')
              | Some temp \<Rightarrow>
                  if pte_get temp (pm s) = 0 then Inl (Panic ''moveToSwapFile::Page Table Entry Not Found'')
                  else
                    kbind (if pte_get temp (pm s) AND PTE_P \<noteq> 0
                           then kbind (kfree kend (PTE_ADDR (P2V (pte_get temp (pm s)))) (pm s)) (\<lambda>m.
                                  Inr (pte_set temp (PTE_W OR PTE_U OR PTE_PG) m))
                           else Inr (pm s)) (\<lambda>m.
                      Inr (s\<lparr>pm := m, pgm := modify p (\<lambda>x. x\<lparr>nPagesInPhyMemory := nPagesInPhyMemory x - 1,
                             nPagesInSwapFile := nPagesInSwapFile x + 1\<rparr>) (pgm s)\<rparr>))))"

definition swapPageOut :: "u32 \<Rightarrow> ('d, 'z) pstate_scheme \<Rightarrow> ('d, 'z) pstate_scheme kres" where
  "swapPageOut kend s =
     kbind (dequeueFIFO (us_pid s) (us_slot s) (pgm s)) (\<lambda>(addr, ms). moveToSwapFile kend addr (s\<lparr>pgm := ms\<rparr>))"

text \<open>
  The buffer on the stack is filled with zeros and overwritten by what is read. The \<open>memmove\<close> to the
  faulting address goes through the entry that has just been made present.
\<close>

definition swapPageIn :: "u32 \<Rightarrow> ('d, 'z) pstate_scheme \<Rightarrow> ('d, 'z) pstate_scheme kres" where
  "swapPageIn fault_addr s =
     (let p = us_slot s in
      case first_index (\<lambda>e. sw_address e = PTE_ADDR fault_addr) (pagesInSwapFile (pgm s ! p)) of
        None \<Rightarrow> Inr s
      | Some i \<Rightarrow>
          kbind (dequeueFIFO (us_pid s) p (pgm s)) (\<lambda>(addr_to_replace, ms).
            let s = s\<lparr>pgm := ms\<rparr> in
            case (fst (walkpgdir (us_pgdir s) fault_addr False (pm s)),
                  fst (walkpgdir (us_pgdir s) addr_to_replace False (pm s))) of
              (Some pte_fault, Some pte_replace) \<Rightarrow>
                if pte_get pte_fault (pm s) = 0 then Inl (Panic ''swapPageIn::Fault Page Entry not found'')
                else if pte_get pte_replace (pm s) = 0 then Inl (Panic ''swapPageIn::Dequeue Page Entry not found'')
                else
                  let s = s\<lparr>pgm := modify p (\<lambda>m. m\<lparr>pagesInSwapFile := modify i (\<lambda>e. e\<lparr>sw_address := addr_to_replace\<rparr>)
                            (pagesInSwapFile m)\<rparr>) (pgm s)\<rparr>;
                      frm = PTE_ADDR (pte_get pte_replace (pm s));
                      s = s\<lparr>pm := pte_set pte_fault (frm OR PTE_U OR PTE_W OR PTE_P) (pm s)\<rparr> in
                  kbind (readFromSwapFile p (of_nat i * PGSIZE) PGSIZE s) (\<lambda>(_, bs, s).
                    let buffer = overwrite 0 bs zero_page in
                    kbind (writeToSwapFile p (pages (pm s) (P2V (PTE_ADDR (pte_get pte_replace (pm s))))) (of_nat i * PGSIZE) s) (\<lambda>(_, s).
                      let m = set_page (P2V (PTE_ADDR (pte_get pte_fault (pm s)))) buffer (pm s);
                          m = pte_set pte_replace (pte_get pte_fault m AND NOT PTE_P) m;
                          s = s\<lparr>pm := pte_set pte_replace (PTE_U OR PTE_W OR PTE_PG) m\<rparr>
                      in kbind (enqueueFIFO p fault_addr (pgm s)) (\<lambda>ms. Inr (s\<lparr>pgm := ms\<rparr>))))
            | _ \<Rightarrow> Inl (Fault ''null'')))"

subsection \<open>Growing and shrinking\<close>

text \<open>
  The loop of \<open>allocuvm\<close> returns whether every page was allocated. Sizes are below \<open>KERNBASE\<close>, so that
  \<open>a\<close> does not wrap around.
\<close>

function alloc_loop :: "u32 \<Rightarrow> u32 \<Rightarrow> u32 \<Rightarrow> u32 \<Rightarrow> u32 \<Rightarrow> ('d, 'z) pstate_scheme \<Rightarrow>
    (u32 \<times> ('d, 'z) pstate_scheme) kres" where
  "alloc_loop kend pgdir a oldsz newsz s =
     (if a < newsz \<and> a < a + PGSIZE then
        kbind (if int MAX_PSYC_PAGES \<le> nPagesInPhyMemory (pgm s ! us_slot s) then swapPageOut kend s else Inr s) (\<lambda>s.
          case kalloc (pm s) of (mem, m) \<Rightarrow>
            if mem = 0 then kbind (deallocuvm kend pgdir newsz oldsz m) (\<lambda>(_, m). Inr (0, s\<lparr>pm := m\<rparr>))
            else
              kbind (mappages pgdir a PGSIZE (V2P mem) (PTE_W OR PTE_U) (set_page mem zero_page m)) (\<lambda>(r, m).
                if r < 0 then
                  kbind (deallocuvm kend pgdir newsz oldsz m) (\<lambda>(_, m).
                  kbind (kfree kend mem m) (\<lambda>m. Inr (0, s\<lparr>pm := m\<rparr>)))
                else
                  kbind (enqueueFIFO (us_slot s) (PTE_ADDR a) (pgm s)) (\<lambda>ms.
                    alloc_loop kend pgdir (a + PGSIZE) oldsz newsz (s\<lparr>pm := m, pgm := ms\<rparr>))))
      else Inr (newsz, s))"
  by pat_completeness auto
termination
  by (relation "measure (\<lambda>(kend, pgdir, a, oldsz, newsz, s). 2 ^ 32 - unat a)")
    (use unat_bound in \<open>auto simp: word_less_nat_alt intro!: diff_less_mono2\<close>)

definition allocuvm :: "u32 \<Rightarrow> u32 \<Rightarrow> u32 \<Rightarrow> u32 \<Rightarrow> ('d, 'z) pstate_scheme \<Rightarrow> (u32 \<times> ('d, 'z) pstate_scheme) kres" where
  "allocuvm kend pgdir oldsz newsz s =
     (if KERNBASE \<le> newsz then Inr (0, s)
      else if newsz < oldsz then Inr (oldsz, s)
      else alloc_loop kend pgdir (PGROUNDUP oldsz) oldsz newsz s)"

text \<open>
  \<open>growproc\<close>; the final \<open>switchuvm\<close> reloads the page table register with the same directory.
\<close>

definition growproc :: "u32 \<Rightarrow> u32 \<Rightarrow> ('d, 'z) pstate_scheme \<Rightarrow> (int \<times> ('d, 'z) pstate_scheme) kres" where
  "growproc kend n s =
     (let sz = us_sz s in
      kbind (if 0 < sint n then allocuvm kend (us_pgdir s) sz (sz + n) s
             else if sint n < 0 then
               kbind (deallocuvm kend (us_pgdir s) sz (sz + n) (pm s)) (\<lambda>(r, m). Inr (r, s\<lparr>pm := m\<rparr>))
             else Inr (sz, s)) (\<lambda>(sz, s).
        if sint n \<noteq> 0 \<and> sz = 0 then Inr (-1, s) else Inr (0, s\<lparr>us_sz := sz\<rparr>)))"

subsection \<open>New processes\<close>

definition zero_cell :: pageInPhyMem where
  "zero_cell = \<lparr>ph_address = 0, ph_next = None, ph_in_use = False\<rparr>"

text \<open>The metadata of a new process (\<open>allocproc\<close>), and of a process that calls \<open>exec\<close>.\<close>

definition clear_meta :: "pgmeta \<Rightarrow> pgmeta" where
  "clear_meta m = m\<lparr>nPagesInPhyMemory := 0, nPagesInSwapFile := 0, qhead := None,
     pagesInPhyMem := replicate MAX_PSYC_PAGES zero_cell,
     pagesInSwapFile := replicate MAX_PSYC_PAGES \<lparr>sw_address = 0, sw_in_use = False\<rparr>\<rparr>"

definition alloc_meta :: "nat \<Rightarrow> u32 \<Rightarrow> ('d, 'z) pstate_scheme \<Rightarrow> ('d, 'z) pstate_scheme kres" where
  "alloc_meta p pid s =
     (if pid \<noteq> 1 \<and> pid \<noteq> 2 then
        kbind (createSwapFile p pid s) (\<lambda>(_, s). Inr (s\<lparr>pgm := modify p clear_meta (pgm s)\<rparr>))
      else Inr s)"

text \<open>What \<open>fork\<close> copies: the counters, the queue with its pointers, the table of swapped pages.\<close>

definition copy_meta :: "nat \<Rightarrow> nat \<Rightarrow> pgmeta list \<Rightarrow> pgmeta list" where
  "copy_meta cur np ms =
     (let c = ms ! cur in
      modify np (\<lambda>m. m\<lparr>nPagesInPhyMemory := nPagesInPhyMemory c, nPagesInSwapFile := nPagesInSwapFile c,
        qhead := qhead c, pagesInPhyMem := pagesInPhyMem c, pagesInSwapFile := pagesInSwapFile c\<rparr>) ms)"

text \<open>
  The copy of the swap file in pieces of 1024 bytes. A negative count from \<open>fileread\<close> does not end the
  loop; the number of turns is bounded by the argument, and a file has fewer than 71 pieces.
\<close>

fun copy_swap :: "nat \<Rightarrow> nat \<Rightarrow> nat \<Rightarrow> u32 \<Rightarrow> ('d, 'z) pstate_scheme \<Rightarrow> ('d, 'z) pstate_scheme kres" where
  "copy_swap 0 cur np offset s = Inl Spin"
| "copy_swap (Suc k) cur np offset s =
     kbind (readFromSwapFile cur offset 1024 s) (\<lambda>(r, bs, s).
       if r = 0 then Inr s
       else kbind (writeToSwapFile np bs offset s) (\<lambda>(_, s). copy_swap k cur np (offset + of_int r) s))"

definition fork_meta :: "nat \<Rightarrow> ('d, 'z) pstate_scheme \<Rightarrow> ('d, 'z) pstate_scheme kres" where
  "fork_meta np s =
     (if us_pid s \<noteq> 1 \<and> us_pid s \<noteq> 2
      then copy_swap 72 (us_slot s) np 0 (s\<lparr>pgm := copy_meta (us_slot s) np (pgm s)\<rparr>)
      else Inr s)"

subsection \<open>Page faults\<close>

text \<open>
  The page fault case of \<open>trap\<close>: \<open>True\<close> if the fault was handled by swapping, \<open>False\<close> if control falls
  through to the default case. The table is read through \<open>PTE_ADDR(P2V(\<dots>))\<close>.
\<close>

definition page_fault :: "u32 \<Rightarrow> u32 \<Rightarrow> ('d, 'z) pstate_scheme \<Rightarrow> (bool \<times> ('d, 'z) pstate_scheme) kres" where
  "page_fault kend fault_addr s =
     (let pde = pte_get (us_pgdir s, PDX fault_addr) (pm s) in
      if pde AND PTE_P \<noteq> 0 \<and> pte_get (PTE_ADDR (P2V pde), PTX fault_addr) (pm s) AND PTE_PG \<noteq> 0 then
        kbind (swapPageOut kend s) (\<lambda>s.
        kbind (swapPageIn (PTE_ADDR fault_addr) s) (\<lambda>s. Inr (True, s)))
      else Inr (False, s))"

subsection \<open>The queue is first in, first out\<close>

text \<open>The list of resident pages of a process as the indices of its cells, in queue order.\<close>

fun qlinks :: "pgmeta list \<Rightarrow> nat \<Rightarrow> qptr option \<Rightarrow> nat list \<Rightarrow> bool" where
  "qlinks ms p h [] \<longleftrightarrow> h = None"
| "qlinks ms p h (i # is) \<longleftrightarrow> h = Some (p, i) \<and> qlinks ms p (ph_next (cell ms (p, i))) is"

definition queue_ok :: "nat \<Rightarrow> nat list \<Rightarrow> pgmeta list \<Rightarrow> bool" where
  "queue_ok p is ms \<longleftrightarrow> p < length ms \<and> length (pagesInPhyMem (ms ! p)) = MAX_PSYC_PAGES \<and>
     qlinks ms p (qhead (ms ! p)) is \<and> distinct is \<and>
     (\<forall>i. i \<in> set is \<longleftrightarrow> i < MAX_PSYC_PAGES \<and> ph_in_use (cell ms (p, i)))"

definition queue_addrs :: "nat \<Rightarrow> nat list \<Rightarrow> pgmeta list \<Rightarrow> u32 list" where
  "queue_addrs p is ms = map (\<lambda>i. ph_address (cell ms (p, i))) is"

lemma upd_cell_simps [simp]:
  "length (upd_cell q f ms) = length ms"
  "p < length ms \<Longrightarrow> qhead (upd_cell q f ms ! p) = qhead (ms ! p)"
  "p < length ms \<Longrightarrow> length (pagesInPhyMem (upd_cell q f ms ! p)) = length (pagesInPhyMem (ms ! p))"
  "p < length ms \<Longrightarrow> nPagesInPhyMemory (upd_cell q f ms ! p) = nPagesInPhyMemory (ms ! p)"
  by (simp_all add: upd_cell_def)

lemma cell_upd_cell [simp]:
  "p < length ms \<Longrightarrow> j < length (pagesInPhyMem (ms ! p)) \<Longrightarrow>
   cell (upd_cell (p, i) f ms) (p, j) = (if i = j then f (cell ms (p, j)) else cell ms (p, j))"
  by (simp add: cell_def upd_cell_def)

lemma cell_modify:
  "p < length ms \<Longrightarrow> (\<And>m. pagesInPhyMem (g m) = pagesInPhyMem m) \<Longrightarrow> cell (modify p g ms) (p, j) = cell ms (p, j)"
  by (simp add: cell_def)

lemma qlinks_cong:
  "(\<And>i. i \<in> set is \<Longrightarrow> ph_next (cell ms' (p, i)) = ph_next (cell ms (p, i))) \<Longrightarrow> qlinks ms' p h is = qlinks ms p h is"
  by (induction "is" arbitrary: h) auto

lemma cells_from_links:
  "qlinks ms p (Some h) is \<Longrightarrow> length is \<le> n \<Longrightarrow> cells_from n ms h = Inr (map (Pair p) is)"
proof (induction "is" arbitrary: h n)
  case (Cons i "is")
  from Cons.prems obtain k where n: "n = Suc k" by (cases n) auto
  have h: "h = (p, i)" using Cons.prems by simp
  show ?case
  proof (cases "is")
    case Nil
    then show ?thesis using Cons.prems n h by simp
  next
    case (Cons j js)
    then obtain q where q: "ph_next (cell ms (p, i)) = Some q" using Cons.prems by auto
    then show ?thesis using Cons.IH [of q k] Cons.prems n h by simp
  qed
qed simp

lemma queue_okD:
  assumes "queue_ok p is ms"
  shows "p < length ms" and "length (pagesInPhyMem (ms ! p)) = 15" and "qlinks ms p (qhead (ms ! p)) is"
    and "distinct is" and "i \<in> set is \<longleftrightarrow> i < 15 \<and> ph_in_use (cell ms (p, i))" and "length is \<le> 15"
    and "length is \<le> all_cells ms"
proof -
  show a: "p < length ms" "length (pagesInPhyMem (ms ! p)) = 15" "qlinks ms p (qhead (ms ! p)) is" "distinct is"
    and b: "i \<in> set is \<longleftrightarrow> i < 15 \<and> ph_in_use (cell ms (p, i))" for i
    using assms by (auto simp: queue_ok_def MAX_PSYC_PAGES_def)
  have "set is \<subseteq> {..<15}" using b by auto
  then show l: "length is \<le> 15"
    using card_mono [of "{..<15}" "set is"] distinct_card [OF a(4)] by simp
  have "15 \<le> length ms * 15" using a(1) by (cases "length ms") auto
  then show "length is \<le> all_cells ms" using l by (simp add: all_cells_def MAX_PSYC_PAGES_def)
qed

lemma qlinks_append:
  assumes "qlinks ms p h is" and "is \<noteq> []" and "distinct is" and "i \<notin> set is"
    and "\<And>j. j \<in> set is \<Longrightarrow> ph_next (cell ms' (p, j)) = (if j = List.last is then Some (p, i) else ph_next (cell ms (p, j)))"
    and "ph_next (cell ms' (p, i)) = None"
  shows "qlinks ms' p h (is @ [i])"
  using assms
proof (induction "is" arbitrary: h)
  case (Cons k ks)
  show ?case
  proof (cases ks)
    case Nil
    then show ?thesis using Cons.prems by simp
  next
    case (Cons a as)
    then have "k \<noteq> List.last ks" "List.last (k # ks) = List.last ks" using Cons.prems(3) by auto
    then show ?thesis
      using Cons.IH [of "ph_next (cell ms (p, k))"] Cons.prems Cons by simp
  qed
qed simp

lemma enqueue_free_slot:
  assumes "queue_ok p is ms" and "length is < MAX_PSYC_PAGES"
  obtains i where "first_index (\<lambda>c. \<not> ph_in_use c) (pagesInPhyMem (ms ! p)) = Some i" and "i < 15" and "i \<notin> set is"
proof -
  have "\<exists>i<15. i \<notin> set is"
  proof (rule ccontr)
    assume "\<not> (\<exists>i<15. i \<notin> set is)"
    then have "{..<15} \<subseteq> set is" by auto
    then have "card {..<15::nat} \<le> length is" using card_mono [of "set is" "{..<15}"] card_length [of "is"] by simp
    then show False using assms(2) by (simp add: MAX_PSYC_PAGES_def)
  qed
  then obtain k where k: "k < 15" "k \<notin> set is" by blast
  then have "\<not> ph_in_use (pagesInPhyMem (ms ! p) ! k)"
    using queue_okD(5) [OF assms(1), of k] by (simp add: cell_def)
  then obtain i where i: "first_index (\<lambda>c. \<not> ph_in_use c) (pagesInPhyMem (ms ! p)) = Some i"
    using first_index_ex [of "pagesInPhyMem (ms ! p) ! k"] k queue_okD(2) [OF assms(1)] by fastforce
  then have "i < 15" "\<not> ph_in_use (cell ms (p, i))"
    using queue_okD(2) [OF assms(1)] by (auto simp: first_index_Some cell_def)
  then show thesis using that i queue_okD(5) [OF assms(1), of i] by blast
qed

lemma enqueue_spec:
  assumes ok: "queue_ok p is ms" and "length is < MAX_PSYC_PAGES"
  shows "\<exists>t i. enqueueFIFO p addr ms = Inr t \<and> queue_ok p (is @ [i]) t \<and>
    queue_addrs p (is @ [i]) t = queue_addrs p is ms @ [addr] \<and>
    nPagesInPhyMemory (t ! p) = nPagesInPhyMemory (ms ! p) + 1"
proof -
  obtain i where i: "first_index (\<lambda>c. \<not> ph_in_use c) (pagesInPhyMem (ms ! p)) = Some i" "i < 15" "i \<notin> set is"
    by (rule enqueue_free_slot [OF assms])
  note d = queue_okD [OF ok]
  let ?fin = "\<lambda>ms. modify p (\<lambda>m. m\<lparr>nPagesInPhyMemory := nPagesInPhyMemory m + 1\<rparr>)
     (upd_cell (p, i) (\<lambda>c. c\<lparr>ph_address := addr, ph_in_use := True\<rparr>) ms)"
  define u where "u = (case qhead (ms ! p) of
      None \<Rightarrow> upd_cell (p, i) (\<lambda>c. c\<lparr>ph_next := None\<rparr>) (modify p (\<lambda>m. m\<lparr>qhead := Some (p, i)\<rparr>) ms)
    | Some h \<Rightarrow> upd_cell (p, i) (\<lambda>c. c\<lparr>ph_next := None\<rparr>)
        (upd_cell (p, List.last is) (\<lambda>c. c\<lparr>ph_next := Some (p, i)\<rparr>) ms))"
  have nonempty: "qhead (ms ! p) = Some h \<Longrightarrow> is \<noteq> []" for h using d(3) by (cases "is") auto
  have e: "enqueueFIFO p addr ms = Inr (?fin u)"
  proof (cases "qhead (ms ! p)")
    case None
    then show ?thesis using i by (simp add: enqueueFIFO_def u_def Let_def)
  next
    case (Some h)
    have "cells_from (all_cells ms) ms h = Inr (map (Pair p) is)"
      using cells_from_links [of ms p h] d(3,7) Some by simp
    then show ?thesis using i Some nonempty [OF Some] by (simp add: enqueueFIFO_def u_def Let_def last_map)
  qed
  have u: "length u = length ms" "length (pagesInPhyMem (u ! p)) = 15"
    "qhead (u ! p) = (case qhead (ms ! p) of None \<Rightarrow> Some (p, i) | Some h \<Rightarrow> Some h)"
    "nPagesInPhyMemory (u ! p) = nPagesInPhyMemory (ms ! p)"
    using d(1,2) by (auto simp: u_def split: option.split)
  have uc: "ph_in_use (cell u (p, j)) = ph_in_use (cell ms (p, j))" "ph_address (cell u (p, j)) = ph_address (cell ms (p, j))"
    "ph_next (cell u (p, j)) = (if j = i then None else if is \<noteq> [] \<and> j = List.last is then Some (p, i) else ph_next (cell ms (p, j)))"
    if "j < 15" for j
    using that d(1,2,3) i(2) nonempty by (cases "is"; auto simp: u_def cell_modify split: option.split)+
  let ?t = "?fin u"
  have t: "length ?t = length ms" "length (pagesInPhyMem (?t ! p)) = 15" "qhead (?t ! p) = qhead (u ! p)"
    "nPagesInPhyMemory (?t ! p) = nPagesInPhyMemory (ms ! p) + 1"
    using d(1) u by simp_all
  have tc: "ph_in_use (cell ?t (p, j)) = (j = i \<or> ph_in_use (cell ms (p, j)))"
    "ph_address (cell ?t (p, j)) = (if j = i then addr else ph_address (cell ms (p, j)))"
    "ph_next (cell ?t (p, j)) = ph_next (cell u (p, j))"
    if "j < 15" for j
    using that d(1) u(1,2) uc by (auto simp: cell_modify)
  have below: "j \<in> set is \<Longrightarrow> j < 15" for j using d(5) by blast
  have "qlinks ?t p (qhead (?t ! p)) (is @ [i])"
  proof (cases "is")
    case Nil
    then show ?thesis using d(3) i(2) tc(3) [OF i(2)] uc(3) [OF i(2)] t(3) u(3) by simp
  next
    case (Cons a as)
    then have h: "qhead (?t ! p) = qhead (ms ! p)" using t(3) u(3) d(3) by (auto split: option.splits)
    show ?thesis
      unfolding h by (rule qlinks_append [OF d(3)]) (use Cons d(4) i tc(3) uc(3) below in auto)
  qed
  moreover have "distinct (is @ [i])" using d(4) i(3) by simp
  moreover have "j \<in> set (is @ [i]) \<longleftrightarrow> j < MAX_PSYC_PAGES \<and> ph_in_use (cell ?t (p, j))" for j
    using d(5) [of j] tc(1) [of j] i(2) by (auto simp: MAX_PSYC_PAGES_def)
  ultimately have "queue_ok p (is @ [i]) ?t" using t d(1) by (simp add: queue_ok_def MAX_PSYC_PAGES_def)
  moreover have "queue_addrs p (is @ [i]) ?t = queue_addrs p is ms @ [addr]"
    using tc(2) below i(2,3) by (auto simp: queue_addrs_def)
  ultimately show ?thesis using e t(4) by blast
qed

lemma enqueue_full:
  assumes "queue_ok p is ms" and "length is = MAX_PSYC_PAGES"
  shows "enqueueFIFO p addr ms = Inr ms"
proof -
  have "set is = {..<15}"
    using queue_okD(5) [OF assms(1)] distinct_card [OF queue_okD(4) [OF assms(1)]] assms(2)
    by (intro card_subset_eq) (auto simp: MAX_PSYC_PAGES_def)
  then have "ph_in_use (cell ms (p, j))" if "j < 15" for j using queue_okD(5) [OF assms(1), of j] that by simp
  then have "\<forall>c \<in> set (pagesInPhyMem (ms ! p)). ph_in_use c"
    using queue_okD(2) [OF assms(1)] by (auto simp: in_set_conv_nth cell_def)
  then have "first_index (\<lambda>c. \<not> ph_in_use c) (pagesInPhyMem (ms ! p)) = None" by (simp add: first_index_None)
  then show ?thesis by (simp add: enqueueFIFO_def)
qed

text \<open>The queue without its first cell, as \<open>dequeueFIFO\<close> leaves it.\<close>

definition drop_head :: "nat \<Rightarrow> qptr \<Rightarrow> pgmeta list \<Rightarrow> pgmeta list" where
  "drop_head p h ms =
     (let ms = upd_cell h (\<lambda>c. c\<lparr>ph_address := 0, ph_in_use := False\<rparr>) ms
      in modify p (\<lambda>m. m\<lparr>qhead := ph_next (cell ms h)\<rparr>) ms)"

lemma drop_head_ok:
  assumes "queue_ok p (i # is) ms"
  shows "queue_ok p is (drop_head p (p, i) ms)"
    and "queue_addrs p is (drop_head p (p, i) ms) = queue_addrs p is ms"
    and "nPagesInPhyMemory (drop_head p (p, i) ms ! p) = nPagesInPhyMemory (ms ! p)"
    and "qhead (drop_head p (p, i) ms ! p) = (case is of [] \<Rightarrow> None | j # _ \<Rightarrow> Some (p, j))"
proof -
  note d = queue_okD [OF assms]
  let ?t = "drop_head p (p, i) ms"
  have i: "i < 15" "i \<notin> set is" using d(4,5) by auto
  have h: "qhead (?t ! p) = ph_next (cell ms (p, i))"
    and l: "length ?t = length ms" "length (pagesInPhyMem (?t ! p)) = 15"
    and "nPagesInPhyMemory (?t ! p) = nPagesInPhyMemory (ms ! p)"
    using d(1,2) i(1) by (simp_all add: drop_head_def)
  then show "nPagesInPhyMemory (?t ! p) = nPagesInPhyMemory (ms ! p)" by simp
  have c: "cell ?t (p, j) = (if j = i then (cell ms (p, j))\<lparr>ph_address := 0, ph_in_use := False\<rparr> else cell ms (p, j))"
    if "j < 15" for j
    using that d(1,2) by (auto simp: drop_head_def cell_modify Let_def)
  have below: "j \<in> set is \<Longrightarrow> j < 15" for j using d(5) by auto
  have q: "qlinks ?t p (qhead (?t ! p)) is"
    using d(3) qlinks_cong [of "is" ?t p ms] c below by (simp add: h)
  moreover have "j \<in> set is \<longleftrightarrow> j < MAX_PSYC_PAGES \<and> ph_in_use (cell ?t (p, j))" for j
    using d(5) [of j] i c [of j] by (auto simp: MAX_PSYC_PAGES_def)
  ultimately show "queue_ok p is ?t" using l d(1,4) by (simp add: queue_ok_def MAX_PSYC_PAGES_def)
  show "queue_addrs p is ?t = queue_addrs p is ms" using c below i(2) by (auto simp: queue_addrs_def)
  show "qhead (?t ! p) = (case is of [] \<Rightarrow> None | j # _ \<Rightarrow> Some (p, j))" using q by (cases "is") auto
qed

lemma printQueue_ok:
  assumes "queue_ok p is ms" and "is \<noteq> [] \<or> pid = 1 \<or> pid = 2"
  shows "\<exists>xs. printQueue pid p ms = Inr xs"
proof (cases "is")
  case Nil
  then show ?thesis using assms(2) by (auto simp: printQueue_def)
next
  case (Cons i js)
  then have "qhead (ms ! p) = Some (p, i)" using queue_okD(3) [OF assms(1)] by simp
  then show ?thesis
    using cells_from_links [of ms p "(p, i)" "is"] queue_okD(3,7) [OF assms(1)] by (simp add: printQueue_def)
qed

lemma dequeue_spec:
  assumes ok: "queue_ok p (i # is) ms" and "is \<noteq> [] \<or> pid = 1 \<or> pid = 2"
  shows "dequeueFIFO pid p ms = Inr (ph_address (cell ms (p, i)), drop_head p (p, i) ms)"
proof -
  have h: "qhead (ms ! p) = Some (p, i)" using queue_okD(3) [OF ok] by simp
  obtain xs where "printQueue pid p ms = Inr xs" using printQueue_ok [OF ok] by auto
  moreover obtain ys where "printQueue pid p (drop_head p (p, i) ms) = Inr ys"
    using printQueue_ok [OF drop_head_ok(1) [OF ok] assms(2)] by auto
  ultimately show ?thesis using h by (simp add: dequeueFIFO_def drop_head_def Let_def)
qed


definition demo_meta :: pgmeta where
  "demo_meta = \<lparr>swapFile = None, nPagesInPhyMemory = 2, nPagesInSwapFile = 0,
     pagesInPhyMem = [\<lparr>ph_address = 0x2000, ph_next = None, ph_in_use = True\<rparr>, zero_cell,
       \<lparr>ph_address = 0x1000, ph_next = Some (0, 0), ph_in_use = True\<rparr>] @ replicate 12 zero_cell,
     pagesInSwapFile = replicate 15 \<lparr>sw_address = 0, sw_in_use = False\<rparr>, qhead = Some (0, 2)\<rparr>"

lemma demo_meta_ok: "queue_ok 0 [2, 0] [demo_meta]"
proof -
  have "i = 0 \<or> i = 2" if "i < 15" "ph_in_use (cell [demo_meta] (0, i))" for i
  proof -
    have "\<forall>i \<in> set [0..<15]. ph_in_use (cell [demo_meta] (0, i)) \<longrightarrow> i = 0 \<or> i = 2" by code_simp
    then show ?thesis using that by simp
  qed
  then have "(i = 2 \<or> i = 0) \<longleftrightarrow> i < 15 \<and> ph_in_use (cell [demo_meta] (0, i))" for i
    by (auto simp: cell_def demo_meta_def)
  then show ?thesis
    unfolding queue_ok_def MAX_PSYC_PAGES_def by (simp add: cell_def demo_meta_def)
qed


text \<open>
  Taking the last page out of the queue of an ordinary process (any process but the first two) stops
  with a null pointer dereference, because the queue is printed through \<open>head\<close> after it has become null.
\<close>

theorem dequeue_last_page_faults:
  assumes "queue_ok p [i] ms" and "pid \<noteq> 1" and "pid \<noteq> 2"
  shows "dequeueFIFO pid p ms = Inl (Fault ''null'')"
proof -
  have h: "qhead (ms ! p) = Some (p, i)" using queue_okD(3) [OF assms(1)] by simp
  obtain xs where "printQueue pid p ms = Inr xs" using printQueue_ok [OF assms(1)] by auto
  moreover have "printQueue pid p (drop_head p (p, i) ms) = Inl (Fault ''null'')"
    using drop_head_ok(4) [OF assms(1)] assms(2,3) by (simp add: printQueue_def)
  ultimately show ?thesis using h by (simp add: dequeueFIFO_def drop_head_def Let_def)
qed

theorem dequeue_last_page_faults_witness:
  "dequeueFIFO 5 0 (drop_head 0 (0, 2) [demo_meta]) = Inl (Fault ''null'')"
  by (rule dequeue_last_page_faults [OF drop_head_ok(1) [OF demo_meta_ok]]) simp_all

text \<open>
  After \<open>fork\<close> the child's queue is not a queue of its own: its head and its links still point into
  the array of the parent, so every dequeue by the child takes a page out of the parent's array.
\<close>

theorem fork_shares_parent_queue:
  assumes "queue_ok cur (i # is) ms" and "np \<noteq> cur" and "np < length ms"
  shows "qhead (copy_meta cur np ms ! np) = Some (cur, i) \<and> \<not> queue_ok np js (copy_meta cur np ms)"
proof
  have "qhead (ms ! cur) = Some (cur, i)" using queue_okD(3) [OF assms(1)] by simp
  then show h: "qhead (copy_meta cur np ms ! np) = Some (cur, i)"
    using assms(3) by (simp add: copy_meta_def Let_def)
  show "\<not> queue_ok np js (copy_meta cur np ms)"
    using h assms(2) by (cases js) (auto simp: queue_ok_def)
qed

theorem fork_shares_parent_queue_witness:
  "qhead (copy_meta 0 1 [demo_meta, demo_meta] ! 1) = Some (0, 2) \<and>
   \<not> queue_ok 1 [2, 0] (copy_meta 0 1 [demo_meta, demo_meta])"
proof -
  have "queue_ok 0 [2, 0] [demo_meta, demo_meta]"
    using demo_meta_ok by (simp add: queue_ok_def cell_def)
  then show ?thesis
    using fork_shares_parent_queue [of 0 2 "[0]" "[demo_meta, demo_meta]" 1 "[2, 0]"] by simp
qed

end
