(* ===== verification/Exec.thy ===== *)
theory Exec
  imports Swap
begin

text \<open>
  Loading a program (\<open>exec.c\<close>, \<open>loaduvm\<close>): the ELF headers, the segments, the stack with the arguments,
  and the switch to the new image. The state adds the saved user program counter and the name of the
  process. An argument string is the list of its bytes without the NUL.
\<close>

record 'd estate = "'d pstate" +
  us_eip :: u32
  us_name :: "u8 list"

definition ELF_MAGIC :: u32 where "ELF_MAGIC = 0x464C457F"
definition ELF_PROG_LOAD :: u32 where "ELF_PROG_LOAD = 1"

record elfhdr =
  e_magic :: u32
  e_entry :: u32
  e_phoff :: u32
  e_phnum :: u16

record proghdr =
  ph_type :: u32
  ph_off :: u32
  ph_vaddr :: u32
  ph_filesz :: u32
  ph_memsz :: u32

text \<open>The fields that \<open>exec\<close> uses, at their offsets in the 52 and 32 bytes of the headers.\<close>

definition get_elfhdr :: "u8 list \<Rightarrow> elfhdr" where
  "get_elfhdr bs = \<lparr>e_magic = get32 bs 0, e_entry = get32 bs 24, e_phoff = get32 bs 28, e_phnum = get16 bs 44\<rparr>"

definition get_proghdr :: "u8 list \<Rightarrow> proghdr" where
  "get_proghdr bs = \<lparr>ph_type = get32 bs 0, ph_off = get32 bs 4, ph_vaddr = get32 bs 8, ph_filesz = get32 bs 16,
     ph_memsz = get32 bs 20\<rparr>"

text \<open>The loop of \<open>loaduvm\<close> with \<open>i\<close> bytes done; it ends where \<open>i\<close> would wrap around.\<close>

function load_loop :: "u32 \<Rightarrow> u32 \<Rightarrow> nat \<Rightarrow> u32 \<Rightarrow> u32 \<Rightarrow> u32 \<Rightarrow> ('d, 'z) pstate_scheme \<Rightarrow>
    (int \<times> ('d, 'z) pstate_scheme) kres" where
  "load_loop pgdir addr ip offset sz i s =
     (if i < sz then
        case fst (walkpgdir pgdir (addr + i) False (pm s)) of
          None \<Rightarrow> Inl (Panic ''loaduvm: address should exist'')
        | Some pte \<Rightarrow>
            let pa = PTE_ADDR (pte_get pte (pm s)); n = (if sz - i < PGSIZE then sz - i else PGSIZE) in
            kbind (readi ip (offset + i) n s) (\<lambda>(r, bs, s).
              let s = s\<lparr>pm := set_page (P2V pa) (overwrite 0 bs (pages (pm s) (P2V pa))) (pm s)\<rparr> in
              if r \<noteq> sint n then Inr (-1, s)
              else if i < i + PGSIZE then load_loop pgdir addr ip offset sz (i + PGSIZE) s
              else Inr (0, s))
      else Inr (0, s))"
  by pat_completeness auto
termination
  by (relation "measure (\<lambda>(pgdir, addr, ip, offset, sz, i, s). 2 ^ 32 - unat i)")
    (use unat_bound in \<open>auto simp: word_less_nat_alt intro!: diff_less_mono2\<close>)

definition loaduvm :: "u32 \<Rightarrow> u32 \<Rightarrow> nat \<Rightarrow> u32 \<Rightarrow> u32 \<Rightarrow> ('d, 'z) pstate_scheme \<Rightarrow> (int \<times> ('d, 'z) pstate_scheme) kres" where
  "loaduvm pgdir addr ip offset sz s =
     (if addr mod PGSIZE \<noteq> 0 then Inl (Panic ''loaduvm: addr must be page aligned'')
      else load_loop pgdir addr ip offset sz 0 s)"

text \<open>The loop over the program headers; \<open>None\<close> is the jump to \<open>bad\<close>.\<close>

fun load_segments :: "u32 \<Rightarrow> u32 \<Rightarrow> nat \<Rightarrow> nat \<Rightarrow> u32 \<Rightarrow> u32 \<Rightarrow> ('d, 'z) pstate_scheme \<Rightarrow>
    (u32 option \<times> ('d, 'z) pstate_scheme) kres" where
  "load_segments kend pgdir ip 0 off sz s = Inr (Some sz, s)"
| "load_segments kend pgdir ip (Suc k) off sz s =
     kbind (readi ip off 32 s) (\<lambda>(r, bs, s).
       let ph = get_proghdr bs in
       if r \<noteq> 32 then Inr (None, s)
       else if ph_type ph \<noteq> ELF_PROG_LOAD then load_segments kend pgdir ip k (off + 32) sz s
       else if ph_memsz ph < ph_filesz ph then Inr (None, s)
       else if ph_vaddr ph + ph_memsz ph < ph_vaddr ph then Inr (None, s)
       else kbind (allocuvm kend pgdir sz (ph_vaddr ph + ph_memsz ph) s) (\<lambda>(sz, s).
         if sz = 0 then Inr (None, s)
         else if ph_vaddr ph mod PGSIZE \<noteq> 0 then Inr (None, s)
         else kbind (loaduvm pgdir (ph_vaddr ph) ip (ph_off ph) (ph_filesz ph) s) (\<lambda>(r, s).
           if r < 0 then Inr (None, s) else load_segments kend pgdir ip k (off + 32) sz s)))"

text \<open>
  Pushing the argument strings: the remaining strings, how many have been pushed, the stack pointer,
  and the addresses pushed so far (\<open>ustack[3..]\<close>).
\<close>

fun push_args :: "u32 \<Rightarrow> u8 list list \<Rightarrow> nat \<Rightarrow> u32 \<Rightarrow> u32 list \<Rightarrow> pmem \<Rightarrow> ((u32 \<times> u32 list) option \<times> pmem) kres" where
  "push_args pgdir [] argc stk us m = Inr (Some (stk, us), m)"
| "push_args pgdir (a # as) argc stk us m =
     (if MAXARG \<le> argc then Inr (None, m)
      else
        let stk = (stk - of_nat (length a + 1)) AND NOT 3 in
        kbind (copyout pgdir stk (a @ [0]) m) (\<lambda>(r, m).
          if r < 0 then Inr (None, m) else push_args pgdir as (argc + 1) stk (us @ [stk]) m))"

definition ustack :: "u32 \<Rightarrow> u32 list \<Rightarrow> u32 list" where
  "ustack stk us = (let argc = of_nat (length us) in [0xFFFFFFFF, argc, stk - (argc + 1) * 4] @ us @ [0])"

definition words_bytes :: "u32 list \<Rightarrow> u8 list" where
  "words_bytes ws = put32s 0 ws (replicate (4 * length ws) 0)"

text \<open>The part of \<open>exec\<close> that builds the stack; the new stack pointer.\<close>

definition build_stack :: "u32 \<Rightarrow> u8 list list \<Rightarrow> u32 \<Rightarrow> pmem \<Rightarrow> (u32 option \<times> pmem) kres" where
  "build_stack pgdir argv sz m =
     kbind (push_args pgdir argv 0 sz [] m) (\<lambda>(r, m).
       case r of
         None \<Rightarrow> Inr (None, m)
       | Some (stk, us) \<Rightarrow>
           let ws = ustack stk us; stk = stk - of_nat (length ws) * 4 in
           kbind (copyout pgdir stk (words_bytes ws) m) (\<lambda>(r, m).
             if r < 0 then Inr (None, m) else Inr (Some stk, m)))"

definition last_elem :: "u8 list \<Rightarrow> u8 list" where
  "last_elem path = rev (takeWhile (\<lambda>c. c \<noteq> slash) (rev path))"

text \<open>The label \<open>bad\<close>, with the inode if it is still held.\<close>

definition exec_bad :: "u32 \<Rightarrow> u32 \<Rightarrow> nat option \<Rightarrow> ('d, 'z) pstate_scheme \<Rightarrow> (int \<times> ('d, 'z) pstate_scheme) kres" where
  "exec_bad kend pgdir ip s =
     kbind (if pgdir \<noteq> 0 then kbind (freevm kend pgdir (pm s)) (\<lambda>m. Inr (s\<lparr>pm := m\<rparr>)) else Inr s) (\<lambda>s.
       case ip of
         Some ip \<Rightarrow> kbind (iunlockput (us_pid s) ip s) fail_op
       | None \<Rightarrow> Inr (-1, s))"

text \<open>The second half of \<open>exec\<close>, after the program has been loaded and the inode released.\<close>

definition exec_commit :: "u32 \<Rightarrow> u8 list \<Rightarrow> u8 list list \<Rightarrow> u32 \<Rightarrow> u32 \<Rightarrow> u32 \<Rightarrow> ('d, 'z) estate_scheme \<Rightarrow>
    (int \<times> ('d, 'z) estate_scheme) kres" where
  "exec_commit kend path argv entry pgdir sz s =
     kbind (allocuvm kend pgdir (PGROUNDUP sz) (PGROUNDUP sz + 2 * PGSIZE) s) (\<lambda>(sz, s).
       if sz = 0 then exec_bad kend pgdir None s
       else
         kbind (clearpteu pgdir (sz - 2 * PGSIZE) (pm s)) (\<lambda>m.
         kbind (build_stack pgdir argv sz m) (\<lambda>(r, m).
           let s = s\<lparr>pm := m\<rparr> in
           case r of
             None \<Rightarrow> exec_bad kend pgdir None s
           | Some stk \<Rightarrow>
               let oldpgdir = us_pgdir s;
                   s = s\<lparr>us_name := take 15 (last_elem path), us_pgdir := pgdir, us_sz := sz, us_eip := entry, us_esp := stk\<rparr>
               in kbind (freevm kend oldpgdir (pm s)) (\<lambda>m. Inr (0, s\<lparr>pm := m\<rparr>)))))"

definition exec :: "u32 \<Rightarrow> u32 \<Rightarrow> u8 list \<Rightarrow> u8 list list \<Rightarrow> ('d, 'z) estate_scheme \<Rightarrow>
    (int \<times> ('d, 'z) estate_scheme) kres" where
  "exec kend data path argv s =
     kbind (do_begin_op s) (\<lambda>s.
     kbind (namei (us_pid s) (us_cwd s) path s) (\<lambda>(r, s).
       case r of
         None \<Rightarrow> fail_op s
       | Some ip \<Rightarrow>
           kbind (ilock (us_pid s) ip s) (\<lambda>s.
           kbind (readi ip 0 52 s) (\<lambda>(r, bs, s).
             let elf = get_elfhdr bs in
             if r \<noteq> 52 then exec_bad kend 0 (Some ip) s
             else if e_magic elf \<noteq> ELF_MAGIC then exec_bad kend 0 (Some ip) s
             else kbind (setupkvm kend data (pm s)) (\<lambda>(pgdir, m).
               let s = s\<lparr>pm := m\<rparr> in
               if pgdir = 0 then exec_bad kend 0 (Some ip) s
               else
                 let s = s\<lparr>pgm := modify (us_slot s) clear_meta (pgm s)\<rparr> in
                 kbind (load_segments kend pgdir ip (unat (e_phnum elf)) (e_phoff elf) 0 s) (\<lambda>(r, s).
                   case r of
                     None \<Rightarrow> exec_bad kend pgdir (Some ip) s
                   | Some sz \<Rightarrow>
                       kbind (iunlockput (us_pid s) ip s) (\<lambda>s.
                       kbind (do_end_op s) (\<lambda>s. exec_commit kend path argv (e_entry elf) pgdir sz s))))))))"

definition sys_exec :: "u32 \<Rightarrow> u32 \<Rightarrow> ('d, 'z) estate_scheme \<Rightarrow> (int \<times> ('d, 'z) estate_scheme) kres" where
  "sys_exec kend data s =
     (case exec_args s of None \<Rightarrow> Inr (-1, s) | Some (path, argv) \<Rightarrow> exec kend data path argv s)"

definition sys_sbrk :: "u32 \<Rightarrow> ('d, 'z) pstate_scheme \<Rightarrow> (int \<times> ('d, 'z) pstate_scheme) kres" where
  "sys_sbrk kend s =
     (case argint 0 s of
        None \<Rightarrow> Inr (-1, s)
      | Some n \<Rightarrow>
          let addr = us_sz s in
          kbind (growproc kend n s) (\<lambda>(r, s). if r < 0 then Inr (-1, s) else Inr (sint addr, s)))"

subsection \<open>The stack of the new program\<close>

declare copyout.simps [simp del]

text \<open>The bytes \<open>bs\<close> are in user memory from the address \<open>a\<close> on.\<close>

definition user_holds :: "u32 \<Rightarrow> pmem \<Rightarrow> nat \<Rightarrow> u8 list \<Rightarrow> bool" where
  "user_holds pgdir m a bs \<longleftrightarrow>
     (\<forall>v. a \<le> unat v \<longrightarrow> unat v < a + length bs \<longrightarrow> user_byte pgdir m v = bs ! (unat v - a))"

definition user_range :: "u32 \<Rightarrow> pmem \<Rightarrow> nat \<Rightarrow> nat \<Rightarrow> bool" where
  "user_range pgdir m lo hi \<longleftrightarrow> (\<forall>v. lo \<le> unat v \<longrightarrow> unat v < hi \<longrightarrow> user_page pgdir m v)"

lemma user_range_lookup: "lookup pgdir t = lookup pgdir m \<Longrightarrow> user_range pgdir t = user_range pgdir m"
  unfolding user_range_def by (subst lookup_eqD(2), assumption) (rule refl)

lemma copyout_holds:
  assumes "frames_ok pgdir m" and "user_range pgdir m lo hi" and "lo \<le> unat va" and "unat va + length buf \<le> hi"
    and "hi \<le> 2 ^ 32"
  shows "\<exists>t. copyout pgdir va buf m = Inr (0, t) \<and> lookup pgdir t = lookup pgdir m \<and> frames_ok pgdir t \<and>
    user_holds pgdir t (unat va) buf \<and>
    (\<forall>v. lo \<le> unat v \<longrightarrow> unat v < hi \<longrightarrow> unat v < unat va \<or> unat va + length buf \<le> unat v \<longrightarrow>
       user_byte pgdir t v = user_byte pgdir m v)"
proof -
  have u: "\<And>v. lo \<le> unat v \<Longrightarrow> unat v < hi \<Longrightarrow> user_page pgdir m v" using assms(2) by (simp add: user_range_def)
  obtain t where t: "copyout pgdir va buf m = Inr (0, t)" "lookup pgdir t = lookup pgdir m" "frames_ok pgdir t"
    "\<And>v. user_page pgdir m v \<Longrightarrow> user_byte pgdir t v =
       (if unat va \<le> unat v \<and> unat v < unat va + length buf then buf ! (unat v - unat va) else user_byte pgdir m v)"
    using copyout_writes [OF assms(1), of va buf] u assms(3-5) by force
  have "user_holds pgdir t (unat va) buf" using t(4) u assms(3,4) by (simp add: user_holds_def)
  moreover have "\<forall>v. lo \<le> unat v \<longrightarrow> unat v < hi \<longrightarrow> unat v < unat va \<or> unat va + length buf \<le> unat v \<longrightarrow>
       user_byte pgdir t v = user_byte pgdir m v" using t(4) u by auto
  ultimately show ?thesis using t(1-3) by blast
qed

lemma align4: "unat (x AND NOT 3 :: u32) \<le> unat x" "unat x \<le> unat (x AND NOT 3) + 3" "(x AND NOT 3) mod 4 = 0"
proof -
  have e: "(x AND NOT 3) + (x AND 3) = x"
    by (subst disjunctive_add) (auto simp: bit_simps intro!: bit_word_eqI)
  have l: "unat (x AND 3) \<le> 3" using word_and_le1 [of x 3] by (simp add: word_le_nat_alt)
  show a: "unat (x AND NOT 3) \<le> unat x" using word_and_le2 [of x "NOT 3"] by (simp add: word_le_nat_alt)
  have "unat x = unat ((x AND NOT 3) + (x AND 3))" by (simp only: e)
  also have "\<dots> \<le> unat (x AND NOT 3) + unat (x AND 3)" by (simp add: unat_word_ariths)
  finally show "unat x \<le> unat (x AND NOT 3) + 3" using l by simp
  have m: "(3 :: u32) = mask 2" by (simp add: mask_eq_exp_minus_1)
  have "take_bit 2 (x AND NOT 3) = 0" unfolding m by (rule bit_word_eqI) (simp add: bit_simps)
  then show "(x AND NOT 3) mod 4 = 0" by (simp add: take_bit_eq_mod)
qed

definition stack_need :: "u8 list list \<Rightarrow> nat" where
  "stack_need as = (\<Sum>a\<leftarrow>as. length a + 4)"

text \<open>The strings \<open>as\<close>, each ended by a NUL, lie in user memory at the addresses \<open>ps\<close>, all aligned, in \<open>[lo, hi)\<close>.\<close>

definition strings_at :: "u32 \<Rightarrow> pmem \<Rightarrow> nat \<Rightarrow> nat \<Rightarrow> u8 list list \<Rightarrow> u32 list \<Rightarrow> bool" where
  "strings_at pgdir m lo hi as ps \<longleftrightarrow> length ps = length as \<and>
     (\<forall>k<length as. lo \<le> unat (ps ! k) \<and> unat (ps ! k) + length (as ! k) + 1 \<le> hi \<and> ps ! k mod 4 = 0 \<and>
        user_holds pgdir m (unat (ps ! k)) (as ! k @ [0]))"

lemma strings_at_keep:
  assumes "strings_at pgdir m lo hi as ps"
    and "\<And>v. lo \<le> unat v \<Longrightarrow> unat v < hi \<Longrightarrow> user_byte pgdir t v = user_byte pgdir m v"
  shows "strings_at pgdir t lo hi as ps"
proof -
  have "user_holds pgdir t (unat (ps ! k)) (as ! k @ [0])" if k: "k < length as" for k
  proof -
    have h: "lo \<le> unat (ps ! k)" "unat (ps ! k) + length (as ! k) + 1 \<le> hi" "user_holds pgdir m (unat (ps ! k)) (as ! k @ [0])"
      using assms(1) k by (simp_all add: strings_at_def)
    have "user_byte pgdir t v = user_byte pgdir m v"
      if "unat (ps ! k) \<le> unat v" "unat v < unat (ps ! k) + length (as ! k @ [0])" for v
      by (rule assms(2)) (use h that in auto)
    then show ?thesis using h(3) by (simp add: user_holds_def)
  qed
  then show ?thesis using assms(1) by (simp add: strings_at_def)
qed

lemma push_args_ok:
  assumes "frames_ok pgdir m" and "user_range pgdir m lo hi" and "hi \<le> 2 ^ 32" and "unat stk \<le> hi"
    and "lo + stack_need as \<le> unat stk" and "argc + length as \<le> MAXARG"
  shows "\<exists>stk' ps t. push_args pgdir as argc stk us m = Inr (Some (stk', us @ ps), t) \<and>
    lookup pgdir t = lookup pgdir m \<and> frames_ok pgdir t \<and> strings_at pgdir t (unat stk') (unat stk) as ps \<and>
    unat stk' \<le> unat stk \<and> unat stk \<le> unat stk' + stack_need as \<and> (stk mod 4 = 0 \<longrightarrow> stk' mod 4 = 0) \<and>
    (\<forall>v. unat stk \<le> unat v \<longrightarrow> unat v < hi \<longrightarrow> user_byte pgdir t v = user_byte pgdir m v)"
  using assms
proof (induction "as" arbitrary: argc stk us m)
  case Nil
  then show ?case by (auto simp: strings_at_def stack_need_def)
next
  case (Cons a "as")
  define p where "p = (stk - of_nat (length a + 1)) AND NOT 3"
  have need: "stack_need (a # as) = length a + 4 + stack_need as" by (simp add: stack_need_def)
  have l: "unat (of_nat (length a + 1) :: u32) = length a + 1"
    using Cons(6) need unat_bound [of stk] by (simp add: unat_of_nat take_bit_nat_eq_self del: of_nat_add of_nat_Suc)
  have d: "unat (stk - of_nat (length a + 1)) = unat stk - (length a + 1)"
    using Cons(6) need l by (subst unat_sub) (simp_all add: word_le_nat_alt del: of_nat_add of_nat_Suc)
  have pp: "unat p + length a + 1 \<le> unat stk" "unat stk \<le> unat p + length a + 4" "p mod 4 = 0"
    using align4 [of "stk - of_nat (length a + 1)"] Cons(6) need unfolding d p_def by linarith+
  have lo: "lo + stack_need as \<le> unat p" using Cons(6) need pp(2) by linarith
  obtain m1 where m1: "copyout pgdir p (a @ [0]) m = Inr (0, m1)" "lookup pgdir m1 = lookup pgdir m" "frames_ok pgdir m1"
    "user_holds pgdir m1 (unat p) (a @ [0])"
    "\<And>v. lo \<le> unat v \<Longrightarrow> unat v < hi \<Longrightarrow> unat v < unat p \<or> unat p + length (a @ [0]) \<le> unat v \<Longrightarrow>
       user_byte pgdir m1 v = user_byte pgdir m v"
    using copyout_holds [OF Cons(2,3), of p "a @ [0]"] lo pp(1) Cons(4,5) by force
  have ur: "user_range pgdir m1 lo hi" using Cons(3) user_range_lookup [OF m1(2)] by simp
  have ph: "unat p \<le> hi" "argc + 1 + length as \<le> MAXARG" using pp(1) Cons(5,7) by simp_all
  obtain stk' ps t where t: "push_args pgdir as (argc + 1) p (us @ [p]) m1 = Inr (Some (stk', (us @ [p]) @ ps), t)"
    "lookup pgdir t = lookup pgdir m1" "frames_ok pgdir t" "strings_at pgdir t (unat stk') (unat p) as ps"
    "unat stk' \<le> unat p" "unat p \<le> unat stk' + stack_need as" "p mod 4 = 0 \<longrightarrow> stk' mod 4 = 0"
    "\<forall>v. unat p \<le> unat v \<longrightarrow> unat v < hi \<longrightarrow> user_byte pgdir t v = user_byte pgdir m1 v"
    using Cons(1) [OF m1(3) ur Cons(4) ph(1) lo ph(2), of "us @ [p]"] by (elim exE conjE) (rule that)
  have run: "push_args pgdir (a # as) argc stk us m = Inr (Some (stk', us @ (p # ps)), t)"
    unfolding push_args.simps Let_def p_def [symmetric] using m1(1) t(1) Cons(7) by simp
  have h: "user_holds pgdir t (unat p) (a @ [0])"
    using m1(4) t(8) pp(1) Cons(5) by (auto simp: user_holds_def)
  have s: "strings_at pgdir t (unat stk') (unat stk) (a # as) ((p # ps))"
    using t(4,5) h pp(1,3) by (auto simp: strings_at_def nth_Cons' less_Suc_eq_0_disj)
  have k: "user_byte pgdir t v = user_byte pgdir m v" if "unat stk \<le> unat v" "unat v < hi" for v
    using t(8) m1(5) [of v] that pp(1) lo by simp
  show ?case
  proof (intro exI conjI)
    show "push_args pgdir (a # as) argc stk us m = Inr (Some (stk', us @ (p # ps)), t)" by (rule run)
    show "lookup pgdir t = lookup pgdir m" using t(2) m1(2) by simp
    show "unat stk' \<le> unat stk" "unat stk \<le> unat stk' + stack_need (a # as)" using t(5,6) pp need by linarith+
    show "stk mod 4 = 0 \<longrightarrow> stk' mod 4 = 0" using t(7) pp(3) by simp
    show "\<forall>v. unat stk \<le> unat v \<longrightarrow> unat v < hi \<longrightarrow> user_byte pgdir t v = user_byte pgdir m v" using k by simp
  qed (fact t(3), fact s)
qed

lemma length_words_bytes [simp]: "length (words_bytes ws) = 4 * length ws"
  by (simp add: words_bytes_def)

lemma length_ustack: "length (ustack stk us) = 4 + length us"
  by (simp add: ustack_def Let_def)

text \<open>The second word that \<open>exec\<close> computes is the address of the pointers themselves.\<close>

lemma ustack_argv:
  "ustack stk ps = [0xFFFFFFFF, of_nat (length ps), (stk - of_nat (length (ustack stk ps)) * 4) + 12] @ ps @ [0]"
  by (simp add: ustack_def Let_def algebra_simps)

text \<open>
  C32. When the stack of the new program consists of user pages and has room for the arguments, \<open>exec\<close>
  can build it: the new stack pointer points to the fake return address, the number of arguments, the
  address of the argument array and the array itself, ended by a null pointer; each pointer is the
  word-aligned address of its argument string, NUL included, above all of that.
\<close>

theorem build_stack_holds_arguments:
  assumes "frames_ok pgdir m" and "user_range pgdir m lo (unat sz)" and "length argv \<le> MAXARG"
    and "lo + stack_need argv + 4 * (4 + length argv) \<le> unat sz"
  shows "\<exists>stk ps t. build_stack pgdir argv sz m = Inr (Some stk, t) \<and> lo \<le> unat stk \<and>
    user_holds pgdir t (unat stk) (words_bytes ([0xFFFFFFFF, of_nat (length argv), stk + 12] @ ps @ [0])) \<and>
    strings_at pgdir t (unat stk + 4 * (4 + length argv)) (unat sz) argv ps"
proof -
  have hi: "unat sz \<le> 2 ^ 32" using unat_bound [of sz] by simp
  have r: "lo + stack_need argv \<le> unat sz" "0 + length argv \<le> MAXARG" using assms(3,4) by simp_all
  obtain top ps m1 where p: "push_args pgdir argv 0 sz [] m = Inr (Some (top, [] @ ps), m1)"
    "lookup pgdir m1 = lookup pgdir m" "frames_ok pgdir m1" "strings_at pgdir m1 (unat top) (unat sz) argv ps"
    "unat top \<le> unat sz" "unat sz \<le> unat top + stack_need argv"
    using push_args_ok [OF assms(1,2) hi order_refl r, of "[]"] by (elim exE conjE) (rule that)
  let ?ws = "ustack top ps"
  have len: "length ps = length argv" using p(4) by (simp add: strings_at_def)
  have lw: "length ?ws = 4 + length argv" by (simp add: length_ustack len)
  define stk where "stk = top - of_nat (length ?ws) * 4"
  have "unat (of_nat (length ?ws) * 4 :: u32) = unat (of_nat (4 * (4 + length argv)) :: u32)" by (simp add: lw algebra_simps)
  also have "\<dots> = 4 * (4 + length argv)"
    using assms(3) by (simp add: unat_of_nat take_bit_nat_eq_self MAXARG_def del: of_nat_mult of_nat_add)
  finally have n: "unat (of_nat (length ?ws) * 4 :: u32) = 4 * (4 + length argv)" .
  have le: "4 * (4 + length argv) \<le> unat top" using assms(4) p(6) by linarith
  then have stk: "unat stk = unat top - 4 * (4 + length argv)"
    unfolding stk_def by (subst unat_sub) (simp_all only: word_le_nat_alt n)
  have ur: "user_range pgdir m1 lo (unat sz)" using assms(2) user_range_lookup [OF p(2)] by simp
  have lo: "lo \<le> unat stk" "unat stk + length (words_bytes ?ws) = unat top"
    using assms(4) p(6) le by (simp_all add: stk lw)
  obtain t where t: "copyout pgdir stk (words_bytes ?ws) m1 = Inr (0, t)" "user_holds pgdir t (unat stk) (words_bytes ?ws)"
    "\<And>v. lo \<le> unat v \<Longrightarrow> unat v < unat sz \<Longrightarrow> unat v < unat stk \<or> unat stk + length (words_bytes ?ws) \<le> unat v \<Longrightarrow>
       user_byte pgdir t v = user_byte pgdir m1 v"
    using copyout_holds [OF p(3) ur lo(1), of "words_bytes ?ws"] lo(2) p(5) hi by force
  have s: "strings_at pgdir t (unat top) (unat sz) argv ps"
    by (rule strings_at_keep [OF p(4)]) (use t(3) lo in auto)
  have ws: "?ws = [0xFFFFFFFF, of_nat (length argv), stk + 12] @ ps @ [0]"
    using ustack_argv [of top ps] by (simp add: stk_def len)
  have b: "build_stack pgdir argv sz m = Inr (Some stk, t)"
    using p(1) t(1) by (simp add: build_stack_def Let_def stk_def)
  have top: "unat top = unat stk + 4 * (4 + length argv)" using stk le by simp
  show ?thesis
    using b lo(1) t(2) s unfolding ws top by blast
qed

lemma demo_user_range: "user_range 0x80003000 demo_user 0x1000 0x2000"
proof -
  have "PDX v = 0 \<and> PTX v = 1" if v: "0x1000 \<le> unat v" "unat v < 0x2000" for v :: u32
  proof -
    have "unat (drop_bit 12 v) = unat v div 4096" by (simp add: drop_bit_eq_div unat_div_distrib)
    also have "\<dots> = 1" using v by simp
    finally have "unat (drop_bit 12 v) = 1" .
    then have d: "drop_bit 12 v = 1" by (metis unat_1 unsigned_word_eqI)
    have "drop_bit 22 v = drop_bit 10 (drop_bit 12 v)" by simp
    then show ?thesis unfolding PDX_def PTX_def d by simp
  qed
  then show ?thesis by (simp add: user_range_def user_page_def demo_user_lookup PTE_P_def PTE_U_def)
qed

theorem build_stack_holds_arguments_witness:
  "\<exists>stk ps t. build_stack 0x80003000 [[104, 105], [33]] 0x2000 demo_user = Inr (Some stk, t) \<and> 0x1000 \<le> unat stk \<and>
    user_holds 0x80003000 t (unat stk) (words_bytes ([0xFFFFFFFF, 2, stk + 12] @ ps @ [0])) \<and>
    strings_at 0x80003000 t (unat stk + 24) 0x2000 [[104, 105], [33]] ps"
proof -
  have "user_range 0x80003000 demo_user 0x1000 (unat (0x2000 :: u32))" using demo_user_range by simp
  note build_stack_holds_arguments [OF demo_user_frames this, of "[[104, 105], [33]]"]
  then show ?thesis by (simp add: MAXARG_def stack_need_def)
qed

end
