(* ===== verification/Console.thy ===== *)
theory Console
  imports Pipe CString
begin

text \<open>
  The console: the keyboard driver (\<open>kbd.c\<close>, \<open>kbd.h\<close>), the line discipline and the device functions of
  \<open>console.c\<close>, formatted output, and the cursor of the CGA screen. A port is read through an argument
  that holds what the hardware delivers. Characters sent to \<open>consputc\<close> are collected in a list.
\<close>

subsection \<open>Keyboard\<close>

definition SHIFT :: u32 where "SHIFT = 1"
definition CTL :: u32 where "CTL = 2"
definition CAPSLOCK :: u32 where "CAPSLOCK = 8"
definition E0ESC :: u32 where "E0ESC = 64"

definition shiftcode :: "u32 \<Rightarrow> u8" where
  "shiftcode d =
     (if d = 0x1D then 2 else if d = 0x2A then 1 else if d = 0x36 then 1 else if d = 0x38 then 4 
      else if d = 0x9D then 2 else if d = 0xB8 then 4 else 0)"

definition togglecode :: "u32 \<Rightarrow> u8" where
  "togglecode d =
     (if d = 0x3A then 8 else if d = 0x45 then 16 else if d = 0x46 then 32 else 0)"

text \<open>The keys of the keypad and the cursor keys, which the three maps share.\<close>

definition keypad :: "u8 \<Rightarrow> u8 \<Rightarrow> u32 \<Rightarrow> u8" where
  "keypad enter dv d =
     (if d = 0x9C then enter else if d = 0xB5 then dv
      else if d = 0xC8 then 0xE2 else if d = 0xD0 then 0xE3
      else if d = 0xC9 then 0xE6 else if d = 0xD1 then 0xE7
      else if d = 0xCB then 0xE4 else if d = 0xCD then 0xE5
      else if d = 0x97 then 0xE0 else if d = 0xCF then 0xE1
      else if d = 0xD2 then 0xE8 else if d = 0xD3 then 0xE9 else 0)"

definition normalmap :: "u32 \<Rightarrow> u8" where
  "normalmap d =
     (if unat d < 88 then
        [0, 27, 49, 50, 51, 52, 53, 54, 55, 56, 57, 48, 45, 61, 8, 9,
         113, 119, 101, 114, 116, 121, 117, 105, 111, 112, 91, 93, 10, 0, 97, 115,
         100, 102, 103, 104, 106, 107, 108, 59, 39, 96, 0, 92, 122, 120, 99, 118,
         98, 110, 109, 44, 46, 47, 0, 42, 0, 32, 0, 0, 0, 0, 0, 0,
         0, 0, 0, 0, 0, 0, 0, 55, 56, 57, 45, 52, 53, 54, 43, 49,
         50, 51, 48, 46, 0, 0, 0, 0] ! unat d
      else keypad 10 47 d)"

definition shiftmap :: "u32 \<Rightarrow> u8" where
  "shiftmap d =
     (if unat d < 88 then
        [0, 27, 33, 64, 35, 36, 37, 94, 38, 42, 40, 41, 95, 43, 8, 9,
         81, 87, 69, 82, 84, 89, 85, 73, 79, 80, 123, 125, 10, 0, 65, 83,
         68, 70, 71, 72, 74, 75, 76, 58, 34, 126, 0, 124, 90, 88, 67, 86,
         66, 78, 77, 60, 62, 63, 0, 42, 0, 32, 0, 0, 0, 0, 0, 0,
         0, 0, 0, 0, 0, 0, 0, 55, 56, 57, 45, 52, 53, 54, 43, 49,
         50, 51, 48, 46, 0, 0, 0, 0] ! unat d
      else keypad 10 47 d)"

definition ctlmap :: "u32 \<Rightarrow> u8" where
  "ctlmap d =
     (if unat d < 56 then
        [0, 0, 0, 0, 0, 0, 0, 0, 0, 0, 0, 0, 0, 0, 0, 0,
         17, 23, 5, 18, 20, 25, 21, 9, 15, 16, 0, 0, 13, 0, 1, 19,
         4, 6, 7, 8, 10, 11, 12, 0, 0, 0, 0, 28, 26, 24, 3, 22,
         2, 14, 13, 0, 0, 239, 0, 0] ! unat d
      else keypad 13 239 d)"

definition charcode :: "u32 \<Rightarrow> u32 \<Rightarrow> u8" where
  "charcode m d = (if m = 0 then normalmap d else if m = 1 then shiftmap d else ctlmap d)"

text \<open>
  \<open>kbdgetc\<close> with the status and the data that the two ports deliver; the result and the new value of
  the static variable \<open>shift\<close>.
\<close>

definition kbdgetc :: "u32 \<Rightarrow> u32 \<Rightarrow> u32 \<Rightarrow> int \<times> u32" where
  "kbdgetc st data shift =
     (if st AND 1 = 0 then (-1, shift)
      else if data = 0xE0 then (0, shift OR E0ESC)
      else if data AND 0x80 \<noteq> 0 then
        let data = (if shift AND E0ESC \<noteq> 0 then data else data AND 0x7F)
        in (0, shift AND NOT (ucast (shiftcode data) OR E0ESC))
      else
        let (data, shift) = (if shift AND E0ESC \<noteq> 0 then (data OR 0x80, shift AND NOT E0ESC) else (data, shift));
            shift = shift OR ucast (shiftcode data);
            shift = shift XOR ucast (togglecode data);
            c = uint (charcode (shift AND (CTL OR SHIFT)) data);
            c = (if shift AND CAPSLOCK \<noteq> 0 then
                   if 97 \<le> c \<and> c \<le> 122 then c - 32 else if 65 \<le> c \<and> c \<le> 90 then c + 32 else c
                 else c)
        in (c, shift))"

subsection \<open>Output\<close>

definition hex_digit :: "u32 \<Rightarrow> u8" where
  "hex_digit d = map (\<lambda>c. of_char c) ''0123456789abcdef'' ! unat d"

function (sequential) cons_digits :: "u32 \<Rightarrow> u32 \<Rightarrow> u8 list" where
  "cons_digits base x = (if base < 2 then [] else
     hex_digit (x mod base) # (if x div base = 0 then [] else cons_digits base (x div base)))"
  by pat_completeness auto
termination
  by (relation "measure (\<lambda>(base, x). unat x)") (auto simp: word_div_less not_less)

definition cons_printint :: "u32 \<Rightarrow> u32 \<Rightarrow> bool \<Rightarrow> u8 list" where
  "cons_printint xx base signd =
     (let neg = signd \<and> sint xx < 0; x = (if neg then - xx else xx)
      in rev (cons_digits base x @ (if neg then [45] else [])))"

text \<open>\<open>cprintf\<close>: \<open>ap\<close> are the argument words from number \<open>k\<close> on, \<open>str\<close> the string at an address.\<close>

fun cprintf_from :: "(u32 \<Rightarrow> u8 list) \<Rightarrow> (nat \<Rightarrow> u32) \<Rightarrow> nat \<Rightarrow> u8 list \<Rightarrow> u8 list" where
  "cprintf_from str ap k [] = []"
| "cprintf_from str ap k [c] = (if c \<noteq> 37 then [c] else [])"
| "cprintf_from str ap k (c # d # fmt) =
     (if c \<noteq> 37 then c # cprintf_from str ap k (d # fmt)
      else if d = 100 then cons_printint (ap k) 10 True @ cprintf_from str ap (k + 1) fmt
      else if d = 120 \<or> d = 112 then cons_printint (ap k) 16 False @ cprintf_from str ap (k + 1) fmt
      else if d = 115 then (if ap k = 0 then map of_char ''(null)'' else str (ap k)) @ cprintf_from str ap (k + 1) fmt
      else if d = 37 then 37 # cprintf_from str ap k fmt
      else 37 # d # cprintf_from str ap k fmt)"

definition cprintf :: "(u32 \<Rightarrow> u8 list) \<Rightarrow> u8 list option \<Rightarrow> (nat \<Rightarrow> u32) \<Rightarrow> u8 list kres" where
  "cprintf str fmt ap =
     (case fmt of None \<Rightarrow> Inl (Panic ''null fmt'') | Some fmt \<Rightarrow> Inr (cprintf_from str ap 0 fmt))"

definition BACKSPACE :: int where "BACKSPACE = 0x100"

text \<open>The screen memory and the cursor position that the CRT controller holds.\<close>

record cga =
  crt :: "u16 list"
  cursor :: int

definition cgaputc :: "int \<Rightarrow> cga \<Rightarrow> cga kres" where
  "cgaputc c s =
     (let pos = cursor s;
          (pos, t) = (if c = 10 then (pos + (80 - pos mod 80), crt s)
                      else if c = BACKSPACE then (if 0 < pos then pos - 1 else pos, crt s)
                      else (pos + 1, (crt s)[nat pos := (of_int c AND 0xFF) OR 0x0700]))
      in if pos < 0 \<or> 25 * 80 < pos then Inl (Panic ''pos under/overflow'')
         else
           let (pos, t) = (if 24 \<le> pos div 80 then
                  let t = take (23 * 80) (drop 80 t) @ drop (23 * 80) t; pos = pos - 80
                  in (pos, take (nat pos) t @ replicate (24 * 80 - nat pos) 0 @ drop (24 * 80) t)
                else (pos, t))
           in Inr \<lparr>crt = t[nat pos := 0x0720], cursor = pos\<rparr>)"

text \<open>The bytes that \<open>consputc\<close> sends to the serial port, and the screen; after a panic every CPU stops here.\<close>

definition uart_bytes :: "int \<Rightarrow> u8 list" where
  "uart_bytes c = (if c = BACKSPACE then [8, 32, 8] else [of_int c])"

definition consputc :: "bool \<Rightarrow> int \<Rightarrow> cga \<Rightarrow> (u8 list \<times> cga) kres" where
  "consputc panicked c s =
     (if panicked then Inl Spin else kbind (cgaputc c s) (\<lambda>s. Inr (uart_bytes c, s)))"

subsection \<open>Input\<close>

definition INPUT_BUF :: u32 where "INPUT_BUF = 128"

record input =
  ibuf :: "u8 list"
  ir :: u32
  iw :: u32
  ie :: u32

definition in_at :: "u32 \<Rightarrow> input \<Rightarrow> u8" where
  "in_at k s = ibuf s ! unat (k mod INPUT_BUF)"

text \<open>Kill line; the result counts the characters erased on the screen.\<close>

function kill_line :: "input \<Rightarrow> nat \<times> input" where
  "kill_line s =
     (if ie s \<noteq> iw s \<and> in_at (ie s - 1) s \<noteq> 10
      then case kill_line (s\<lparr>ie := ie s - 1\<rparr>) of (n, s) \<Rightarrow> (n + 1, s)
      else (0, s))"
  by pat_completeness auto
termination
proof (relation "measure (\<lambda>s. unat (ie s - iw s))", goal_cases)
  case (2 s)
  have "ie s - iw s \<noteq> 0" using 2 by simp
  then have "unat (ie s - iw s - 1) < unat (ie s - iw s)" by (simp add: unat_gt_0 measure_unat)
  then show ?case by (simp add: algebra_simps)
qed simp

declare kill_line.simps [simp del]

text \<open>One character of the loop of \<open>consoleintr\<close>: what is echoed, whether readers are woken, the state.\<close>

definition console_key :: "int \<Rightarrow> input \<Rightarrow> int list \<times> bool \<times> input" where
  "console_key c s =
     (if c = 16 then ([], False, s)
      else if c = 21 then (case kill_line s of (n, s) \<Rightarrow> (replicate n BACKSPACE, False, s))
      else if c = 8 \<or> c = 127 then
        if ie s \<noteq> iw s then ([BACKSPACE], False, s\<lparr>ie := ie s - 1\<rparr>) else ([], False, s)
      else if c \<noteq> 0 \<and> ie s - ir s < INPUT_BUF then
        let c = (if c = 13 then 10 else c);
            s = s\<lparr>ibuf := (ibuf s)[unat (ie s mod INPUT_BUF) := of_int c], ie := ie s + 1\<rparr>
        in if c = 10 \<or> c = 4 \<or> ie s = ir s + INPUT_BUF then ([c], True, s\<lparr>iw := ie s\<rparr>)
           else ([c], False, s)
      else ([], False, s))"

text \<open>
  \<open>consoleintr\<close> on the characters that \<open>getc\<close> delivers before it returns a negative number; the first
  component says whether \<open>procdump\<close> is called at the end.
\<close>

fun consoleintr :: "int list \<Rightarrow> input \<Rightarrow> bool \<times> int list \<times> bool \<times> input" where
  "consoleintr [] s = (False, [], False, s)"
| "consoleintr (c # cs) s =
     (case console_key c s of (out, w, s) \<Rightarrow>
      case consoleintr cs s of (dump, out', w', s) \<Rightarrow> (c = 16 \<or> dump, out @ out', w \<or> w', s))"

text \<open>
  \<open>consoleread\<close> from entering the loop or waking up to the next return or sleep: \<open>n\<close> bytes of \<open>target\<close>
  are still wanted. The inode is unlocked while the reader is in the loop.
\<close>

fun consoleread :: "bool \<Rightarrow> nat \<Rightarrow> nat \<Rightarrow> input \<Rightarrow> pipe_end \<times> u8 list \<times> input" where
  "consoleread killed target 0 s = (Ret (int target), [], s)"
| "consoleread killed target (Suc n) s =
     (if ir s = iw s then if killed then (Ret (-1), [], s) else (Sleep, [], s)
      else
        let c = in_at (ir s) s; s = s\<lparr>ir := ir s + 1\<rparr> in
        if c = 4 then
          (Ret (int target - int (Suc n)), [], if Suc n < target then s\<lparr>ir := ir s - 1\<rparr> else s)
        else if c = 10 then (Ret (int target - int n), [c], s)
        else case consoleread killed target n s of (e, bs, s) \<Rightarrow> (e, c # bs, s))"

definition consolewrite :: "u8 list \<Rightarrow> int \<times> int list" where
  "consolewrite bs = (int (length bs), map uint bs)"

subsection \<open>The line discipline\<close>

text \<open>
  The characters in the buffer are the lines ready for readers followed by the line being edited. The
  specification of one key acts on these two lists.
\<close>

definition typed :: "input \<Rightarrow> u8 list" where
  "typed s = ring_list (ibuf s) (ir s) (unat (ie s - ir s))"

definition ready :: "input \<Rightarrow> u8 list" where
  "ready s = take (unat (iw s - ir s)) (typed s)"

definition editing :: "input \<Rightarrow> u8 list" where
  "editing s = drop (unat (iw s - ir s)) (typed s)"

definition input_ok :: "input \<Rightarrow> bool" where
  "input_ok s \<longleftrightarrow> length (ibuf s) = 128 \<and> unat (iw s - ir s) \<le> unat (ie s - ir s) \<and> unat (ie s - ir s) \<le> 128 \<and>
     10 \<notin> set (editing s)"

definition edit_key :: "int \<Rightarrow> u8 list \<times> u8 list \<Rightarrow> u8 list \<times> u8 list" where
  "edit_key c = (\<lambda>(done, line).
     if c = 16 \<or> c = 0 then (done, line)
     else if c = 21 then (done, [])
     else if c = 8 \<or> c = 127 then (done, butlast line)
     else if length done + length line < 128 then
       let c = (if c = 13 then 10 else c); line = line @ [of_int c]
       in if c = 10 \<or> c = 4 \<or> length done + length line = 128 then (done @ line, []) else (done, line)
     else (done, line))"

lemma take_ring_list: "take k (ring_list b r n) = ring_list b r (min k n)"
  by (cases "k \<le> n") (simp_all add: ring_list_def take_map take_upt min_def)

lemma nth_ring_list: "k < n \<Longrightarrow> ring_list b r n ! k = b ! ((unat r + k) mod length b)"
  by (simp add: ring_list_def)

lemma length_typed [simp]: "length (typed s) = unat (ie s - ir s)"
  by (simp add: typed_def)

lemma ready_editing: "typed s = ready s @ editing s"
  by (simp add: ready_def editing_def)

lemma length_editing: "input_ok s \<Longrightarrow> length (editing s) = unat (ie s - ir s) - unat (iw s - ir s)"
  by (simp add: editing_def)

lemma length_ready: "input_ok s \<Longrightarrow> length (ready s) = unat (iw s - ir s)"
  by (simp add: ready_def input_ok_def)

lemma editing_empty: "input_ok s \<Longrightarrow> editing s = [] \<longleftrightarrow> ie s = iw s"
proof -
  assume ok: "input_ok s"
  have "editing s = [] \<longleftrightarrow> unat (ie s - ir s) = unat (iw s - ir s)"
    using ok by (auto simp: editing_def input_ok_def)
  also have "\<dots> \<longleftrightarrow> ie s - ir s = iw s - ir s" by (metis word_unat_eq_iff)
  finally show ?thesis by simp
qed

lemma slot_at: "unat (k mod INPUT_BUF) = unat k mod 128"
  using unat_mod_dvd [of 128 k] by (simp add: INPUT_BUF_def)

lemma erase_one:
  assumes ok: "input_ok s" and ne: "ie s \<noteq> iw s"
  shows "in_at (ie s - 1) s = List.last (editing s)" and "input_ok (s\<lparr>ie := ie s - 1\<rparr>)"
    and "ready (s\<lparr>ie := ie s - 1\<rparr>) = ready s" and "editing (s\<lparr>ie := ie s - 1\<rparr>) = butlast (editing s)"
    and "Suc (unat (ie s - 1 - ir s)) = unat (ie s - ir s)"
proof -
  let ?n = "unat (ie s - ir s)" and ?w = "unat (iw s - ir s)" and ?t = "s\<lparr>ie := ie s - 1\<rparr>"
  have l: "length (ibuf s) = 128" "?w \<le> ?n" "?n \<le> 128" "10 \<notin> set (editing s)" using ok by (auto simp: input_ok_def)
  have "editing s \<noteq> []" using editing_empty [OF ok] ne by simp
  then have lt: "?w < ?n" using length_editing [OF ok] by (cases "?w < ?n") auto
  then have "ie s - ir s \<noteq> 0" by auto
  then have m: "unat (ie s - ir s - 1) = ?n - 1" using unat_minus_one by blast
  moreover have e: "ie s - 1 - ir s = ie s - ir s - 1" by simp
  ultimately show n: "Suc (unat (ie s - 1 - ir s)) = ?n" using lt by (simp only: Suc_diff_1)
  have t: "typed ?t = butlast (typed s)"
    using n by (simp add: typed_def butlast_conv_take take_ring_list flip: n)
  have "?w \<le> ?n - 1" using lt by simp
  then show r: "ready ?t = ready s" by (simp add: ready_def t butlast_conv_take min_absorb1)
  show ed: "editing ?t = butlast (editing s)" by (simp add: editing_def t drop_butlast)
  have "ie s - 1 = ir s + of_nat (?n - 1)" 
  proof -
    have "ie s - 1 = ir s + of_nat (unat (ie s - 1 - ir s))" by simp
    then show ?thesis unfolding e m .
  qed
  then have "unat ((ie s - 1) mod INPUT_BUF) = (unat (ir s) + (?n - 1)) mod 128"
    using unat_counter [of 128 "ir s" "?n - 1"] by (simp add: slot_at)
  then have "in_at (ie s - 1) s = typed s ! (?n - 1)" using lt by (simp add: in_at_def typed_def nth_ring_list l(1))
  also have "\<dots> = List.last (typed s)"
  proof -
    have "typed s \<noteq> []" using lt length_typed [of s] by (metis list.size(3) not_less0)
    then show ?thesis by (simp add: last_conv_nth)
  qed
  also have "\<dots> = List.last (editing s)" using lt by (simp add: editing_def last_drop)
  finally show "in_at (ie s - 1) s = List.last (editing s)" .
  show "input_ok ?t" using l lt n ed in_set_butlastD [of 10 "editing s"] by (auto simp: input_ok_def)
qed

lemma kill_line_spec:
  "input_ok s \<Longrightarrow> input_ok (snd (kill_line s)) \<and> ready (snd (kill_line s)) = ready s \<and>
   editing (snd (kill_line s)) = [] \<and> fst (kill_line s) = length (editing s)"
proof (induction s rule: kill_line.induct)
  case (1 s)
  show ?case
  proof (cases "ie s = iw s")
    case True
    then show ?thesis using 1(2) editing_empty [OF 1(2)] by (simp add: kill_line.simps)
  next
    case False
    note e = erase_one [OF 1(2) False]
    have ne: "editing s \<noteq> []" using editing_empty [OF 1(2)] False by simp
    have "10 \<notin> set (editing s)" using 1(2) by (simp add: input_ok_def)
    then have "in_at (ie s - 1) s \<noteq> 10" using e(1) last_in_set [OF ne] by auto
    then have c: "ie s \<noteq> iw s \<and> in_at (ie s - 1) s \<noteq> 10" using False by simp
    obtain n u where u: "kill_line (s\<lparr>ie := ie s - 1\<rparr>) = (n, u)" by fastforce
    have k: "kill_line s = (n + 1, u)" using c u by (subst kill_line.simps) simp
    have "input_ok u \<and> ready u = ready s \<and> editing u = [] \<and> n = length (butlast (editing s))"
      using 1(1) [OF c e(2)] unfolding u e(3,4) by simp
    then show ?thesis using ne by (simp add: k)
  qed
qed

lemma type_one:
  assumes ok: "input_ok s" and room: "ie s - ir s < INPUT_BUF"
    and t: "t = s\<lparr>ibuf := (ibuf s)[unat (ie s mod INPUT_BUF) := x], ie := ie s + 1\<rparr>"
  shows "typed t = typed s @ [x]" and "unat (ie s + 1 - ir s) = Suc (unat (ie s - ir s))"
    and "unat (ie s - ir s) < 128"
proof -
  let ?n = "unat (ie s - ir s)"
  have l: "length (ibuf s) = 128" using ok by (simp add: input_ok_def)
  show n: "?n < 128" using room by (simp add: INPUT_BUF_def word_less_nat_alt)
  then show g: "unat (ie s + 1 - ir s) = Suc ?n" using counter_gap [of "ie s" "ir s"] by simp
  have "ie s = ir s + of_nat ?n" by simp
  then have "unat (ie s mod INPUT_BUF) = (unat (ir s) + ?n) mod length (ibuf s)"
    using unat_counter [of 128 "ir s" ?n] by (simp add: slot_at l)
  from ring_list_put [OF this, of x] n l g show "typed t = typed s @ [x]" by (simp add: typed_def t)
qed

text \<open>An ordinary key, for which the buffer has room.\<close>

lemma ordinary_key:
  assumes ok: "input_ok s" and c0: "0 \<le> c" "c < 256" and key: "console_key c s = (out, w, t)"
    and c: "c \<notin> {0, 16, 21, 8, 127}" and room: "ie s - ir s < INPUT_BUF"
  shows "input_ok t \<and> (ready t, editing t) = edit_key c (ready s, editing s) \<and> (w \<longleftrightarrow> ready t \<noteq> ready s)"
proof -
  define d where "d = (if c = 13 then 10 else c)"
  define u where "u = s\<lparr>ibuf := (ibuf s)[unat (ie s mod INPUT_BUF) := of_int d], ie := ie s + 1\<rparr>"
  note ty = type_one [OF ok room u_def]
  have len: "length (ready s) + length (editing s) = unat (ie s - ir s)"
    using length_typed [of s] unfolding ready_editing by simp
  have full: "ie u = ir u + INPUT_BUF \<longleftrightarrow> unat (ie s - ir s) = 127"
  proof -
    have "ie u = ir u + INPUT_BUF \<longleftrightarrow> ie s + 1 - ir s = 128"
      by (auto simp: u_def INPUT_BUF_def algebra_simps)
    also have "\<dots> \<longleftrightarrow> Suc (unat (ie s - ir s)) = 128" unfolding ty(2) [symmetric] by (simp add: word_unat_eq_iff)
    finally show ?thesis by simp
  qed
  have w: "unat (iw s - ir s) \<le> unat (ie s - ir s)" using ok by (simp add: input_ok_def)
  have ed: "editing u = editing s @ [of_int d]" and re: "ready u = ready s"
    using w by (simp_all add: editing_def ready_def ty(1)) (simp_all add: u_def)
  have t: "t = (if d = 10 \<or> d = 4 \<or> ie u = ir u + INPUT_BUF then u\<lparr>iw := ie u\<rparr> else u)"
    and wk: "w \<longleftrightarrow> d = 10 \<or> d = 4 \<or> ie u = ir u + INPUT_BUF"
    using key c room by (auto simp: console_key_def Let_def d_def u_def split: if_splits)
  have ek: "edit_key c (ready s, editing s) = (if d = 10 \<or> d = 4 \<or> ie u = ir u + INPUT_BUF
      then (typed u, []) else (ready s, editing u))"
    using c ty(3) len by (auto simp: edit_key_def Let_def d_def full ed ty(1) ready_editing re)
  have lu: "length (ibuf u) = 128" "ir u = ir s" "ie u = ie s + 1" "iw u = iw s"
    using ok by (simp_all add: u_def input_ok_def)
  show ?thesis
  proof (cases "d = 10 \<or> d = 4 \<or> ie u = ir u + INPUT_BUF")
    case True
    have "ready (u\<lparr>iw := ie u\<rparr>) = typed u" "editing (u\<lparr>iw := ie u\<rparr>) = []"
      by (simp_all add: ready_def editing_def typed_def)
    moreover have "typed u \<noteq> ready s"
    proof
      assume "typed u = ready s"
      then have "length (typed u) = length (ready s)" by simp
      then show False using ty(1) len by simp
    qed
    moreover have "unat (ie u - ir u) \<le> 128" using ty(2,3) lu by simp
    ultimately show ?thesis using True lu by (simp add: t wk ek input_ok_def)
  next
    case False
    have "0 \<le> d" "d < 256" "d \<noteq> 10" using c0 False by (auto simp: d_def)
    then have "uint (of_int d :: u8) = d" by (simp add: unsigned_of_int take_bit_int_eq_self)
    then have "(of_int d :: u8) \<noteq> 10" using \<open>d \<noteq> 10\<close> by auto
    then have "10 \<notin> set (editing u)" using ok by (simp add: ed input_ok_def)
    then show ?thesis using False lu ty(2,3) w re by (simp add: t wk ek input_ok_def ed)
  qed
qed

text \<open>
  C28. The input ring with its three counters implements a line editor: a key appends to the line being
  edited, erases its last character or all of it, or hands the line to the readers (on newline, on
  control-D, and when the buffer is full), never touches a line already handed over, and wakes the
  readers exactly when a line is handed over. Keys are dropped when the buffer is full.
\<close>

theorem console_line_editing:
  assumes "input_ok s" and "0 \<le> c" and "c < 256" and "console_key c s = (out, w, t)"
  shows "input_ok t \<and> (ready t, editing t) = edit_key c (ready s, editing s) \<and> (w \<longleftrightarrow> ready t \<noteq> ready s)"
proof -
  note ok = assms(1)
  consider "c = 16 \<or> c = 0" | "c = 21" | "c = 8 \<or> c = 127" | "c \<notin> {0, 16, 21, 8, 127}" "\<not> ie s - ir s < INPUT_BUF"
    | "c \<notin> {0, 16, 21, 8, 127}" "ie s - ir s < INPUT_BUF" by blast
  then show ?thesis
  proof cases
    case 1
    then have "t = s" "\<not> w" using assms(4) by (auto simp: console_key_def)
    then show ?thesis using ok 1 by (simp add: edit_key_def)
  next
    case 2
    then have "t = snd (kill_line s)" "\<not> w" using assms(4) by (auto simp: console_key_def split: prod.splits)
    then show ?thesis using kill_line_spec [OF ok] 2 by (simp add: edit_key_def)
  next
    case 3
    then have k: "console_key c s = (if ie s \<noteq> iw s then ([BACKSPACE], False, s\<lparr>ie := ie s - 1\<rparr>) else ([], False, s))"
      by (auto simp: console_key_def)
    show ?thesis
    proof (cases "ie s = iw s")
      case True
      then have "t = s" "\<not> w" "editing s = []" using assms(4) k editing_empty [OF ok] by simp_all
      then show ?thesis using ok 3 by (auto simp: edit_key_def)
    next
      case False
      then have "t = s\<lparr>ie := ie s - 1\<rparr>" "\<not> w" using assms(4) k by simp_all
      then show ?thesis using erase_one(2-4) [OF ok False] 3 by (auto simp: edit_key_def)
    qed
  next
    case 4
    then have "t = s" "\<not> w" using assms(4) by (auto simp: console_key_def)
    moreover have "128 \<le> unat (ie s - ir s)" using 4(2) by (simp add: INPUT_BUF_def word_less_nat_alt)
    then have "\<not> length (ready s) + length (editing s) < 128"
      using length_typed [of s] unfolding ready_editing by simp
    ultimately show ?thesis using ok 4(1) by (simp add: edit_key_def)
  next
    case 5
    then show ?thesis using ordinary_key [OF ok assms(2-4)] by simp
  qed
qed

definition demo_input :: input where
  "demo_input = \<lparr>ibuf = replicate 126 0 @ [108, 115], ir = 0xFFFFFFFE, iw = 0xFFFFFFFE, ie = 0\<rparr>"

text \<open>Enter, after two characters that lie just before the counters wrap around.\<close>

theorem console_line_editing_witness:
  "case console_key 13 demo_input of (out, w, t) \<Rightarrow>
     input_ok t \<and> (ready t, editing t) = edit_key 13 ([], [108, 115]) \<and> (w \<longleftrightarrow> ready t \<noteq> [])"
proof -
  have l: "unat (0xFFFFFFFE :: u32) = 4294967294" by simp
  have t: "typed demo_input = [108, 115]"
    by (simp add: typed_def demo_input_def ring_list_def l nth_append upt_rec)
  have d: "ready demo_input = []" "editing demo_input = [108, 115]"
    unfolding ready_def editing_def t by (simp_all add: demo_input_def)
  then have "input_ok demo_input" by (simp add: input_ok_def) (simp add: demo_input_def)
  moreover obtain out w t where "console_key 13 demo_input = (out, w, t)" by (cases "console_key 13 demo_input")
  ultimately show ?thesis using console_line_editing [of demo_input 13 out w t] d by simp
qed

text \<open>
  C40. Whatever is printed, the cursor stays on the first 24 lines of the screen: \<open>cgaputc\<close> never
  panics, every store lies in the screen memory, and scrolling brings the cursor back to the last line.
\<close>

theorem cga_cursor_on_screen:
  assumes "length (crt s) = 25 * 80" and "0 \<le> cursor s" and "cursor s < 24 * 80"
  shows "\<exists>t. cgaputc c s = Inr t \<and> length (crt t) = 25 * 80 \<and> 0 \<le> cursor t \<and> cursor t < 24 * 80"
proof -
  define pos where "pos = (if c = 10 then cursor s + (80 - cursor s mod 80)
    else if c = BACKSPACE then (if 0 < cursor s then cursor s - 1 else cursor s) else cursor s + 1)"
  define x where "x = (if c = 10 \<or> c = BACKSPACE then crt s
    else (crt s)[nat (cursor s) := (of_int c AND 0xFF) OR 0x0700])"
  have line: "cursor s - cursor s mod 80 \<le> 1840"
  proof -
    have "cursor s div 80 < 24" using assms(3) by simp
    then show ?thesis by (simp add: minus_mod_eq_mult_div)
  qed
  have pos: "0 \<le> pos" "pos \<le> 24 * 80" using assms(2,3) line by (auto simp: pos_def)
  have x: "length x = 2000" using assms(1) by (simp add: x_def)
  define r where "r = (if 24 \<le> pos div 80
      then (pos - 80, take (nat (pos - 80)) (take 1840 (drop 80 x) @ drop 1840 x) @
        replicate (1920 - nat (pos - 80)) 0 @ drop 1920 (take 1840 (drop 80 x) @ drop 1840 x))
      else (pos, x))"
  have pair: "(if c = 10 then (cursor s + (80 - cursor s mod 80), crt s)
      else if c = BACKSPACE then (if 0 < cursor s then cursor s - 1 else cursor s, crt s)
      else (cursor s + 1, (crt s)[nat (cursor s) := (of_int c AND 0xFF) OR 0x0700])) = (pos, x)"
    unfolding pos_def x_def by simp
  have n: "24 * 80 = (1920 :: int)" "24 * 80 = (1920 :: nat)" "23 * 80 = (1840 :: nat)" by simp_all
  have "cgaputc c s = (if pos < 0 \<or> 25 * 80 < pos then Inl (Panic ''pos under/overflow'')
      else case r of (pos, t) \<Rightarrow> Inr \<lparr>crt = t[nat pos := 0x0720], cursor = pos\<rparr>)"
    unfolding cgaputc_def Let_def pair prod.case r_def n by simp
  then have "cgaputc c s = Inr \<lparr>crt = (snd r)[nat (fst r) := 0x0720], cursor = fst r\<rparr>"
    using pos by (simp add: split_beta)
  moreover have "0 \<le> fst r \<and> fst r < 1920 \<and> length (snd r) = 2000"
    using pos x by (auto simp: r_def min_def)
  ultimately show ?thesis by simp
qed

theorem cga_cursor_on_screen_witness:
  "\<exists>t. cgaputc 10 \<lparr>crt = replicate 2000 0, cursor = 1919\<rparr> = Inr t \<and> length (crt t) = 25 * 80 \<and>
     0 \<le> cursor t \<and> cursor t < 24 * 80"
  by (rule cga_cursor_on_screen) simp_all

end
