(* ===== verification/FileData.thy ===== *)
theory FileData
  imports Inode
begin

text \<open>
  The contents of a file: \<open>readi\<close> and \<open>writei\<close> implement an array of bytes. The proof rests on an
  invariant of the block map of one inode: its blocks are allocated, distinct, and none of them holds
  file system structures; the block allocator returns a block that was free.
\<close>

declare balloc_from.simps [simp del] readi_loop.simps [simp del] writei_loop.simps [simp del]

subsection \<open>Writing blocks\<close>

lemma put_blockD:
  assumes "put_block b x s = Inr t"
  shows "blk c t = (if c = b then x else blk c s)" and "icache t = icache s" and "fsb t = fsb s"
    and "devsw t = devsw s" and "fdev t = fdev s"
  using assms by (auto simp: put_block_def log_write_def Let_def bview_def kres_simps split: if_splits option.splits)

lemma upd_inode_simps [simp]:
  "flog (upd_inode i f s) = flog s" "fsb (upd_inode i f s) = fsb s" "devsw (upd_inode i f s) = devsw s"
  "fdev (upd_inode i f s) = fdev s"
  "j < length (icache s) \<Longrightarrow> inode_at j (upd_inode i f s) = (if i = j then f (inode_at j s) else inode_at j s)"
  "length (icache (upd_inode i f s)) = length (icache s)"
  by (simp_all add: upd_inode_def)

subsection \<open>The bitmap\<close>

definition used :: "('d, 'z) fsys_scheme \<Rightarrow> u32 \<Rightarrow> bool" where
  "used s b \<longleftrightarrow> \<not> bit_free (blk (BBLOCK b (fsb s)) s) (unat b mod 4096)"

definition valid :: "('d, 'z) fsys_scheme \<Rightarrow> u32 \<Rightarrow> bool" where
  "valid s b \<longleftrightarrow> unat b < unat (sb_size (fsb s))"

text \<open>
  The disk is well formed: blocks have 512 bytes, and the boot block and the blocks of the bitmap are
  themselves marked as used.
\<close>

definition disk_wf :: "('d, 'z) fsys_scheme \<Rightarrow> bool" where
  "disk_wf s \<longleftrightarrow> (\<forall>c. length (blk c s) = 512) \<and> used s 0 \<and>
     (\<forall>b. valid s b \<longrightarrow> valid s (BBLOCK b (fsb s)) \<and> used s (BBLOCK b (fsb s)))"

lemma BBLOCK_eq: "BBLOCK b sb = b div 4096 + sb_bmapstart sb"
  by (simp add: BBLOCK_def BPB_def BSIZE_def)

lemma bitmask_index: "bi div 8 = bj div 8 \<Longrightarrow> bitmask bi AND bitmask bj \<noteq> 0 \<longleftrightarrow> bi = bj"
proof -
  assume d: "bi div 8 = bj div 8"
  have b: "bit (bitmask k) n \<longleftrightarrow> n = k mod 8" if "n < 8" for k n
    using that by (auto simp: bitmask_def bit_simps)
  show ?thesis
  proof
    assume "bitmask bi AND bitmask bj \<noteq> 0"
    then obtain n where n: "bit (bitmask bi) n" "bit (bitmask bj) n" by (auto simp: bit_eq_iff bit_simps)
    then have "n < 8" using bit_imp_le_length [of "bitmask bi" n] by simp
    then have "bi mod 8 = bj mod 8" using n b by auto
    with d show "bi = bj" by (metis div_mult_mod_eq)
  next
    assume e: "bi = bj"
    have "bit (bitmask bi AND bitmask bj) (bi mod 8)" using b [of "bi mod 8" bi] e by (simp add: bit_simps)
    then show "bitmask bi AND bitmask bj \<noteq> 0" by auto
  qed
qed

lemma bit_free_set:
  assumes "bi div 8 < length x"
  shows "bit_free (x[bi div 8 := x ! (bi div 8) OR bitmask bi]) bj \<longleftrightarrow> bit_free x bj \<and> bi \<noteq> bj"
proof (cases "bi div 8 = bj div 8")
  case True
  have "(x ! (bi div 8) OR bitmask bi) AND bitmask bj = 0 \<longleftrightarrow>
      x ! (bi div 8) AND bitmask bj = 0 \<and> bitmask bi AND bitmask bj = 0"
    by (auto simp: bit_eq_iff bit_simps)
  then show ?thesis using True assms bitmask_index [OF True] by (auto simp: bit_free_def)
qed (auto simp: bit_free_def)

lemma unat_div_4096: "unat (b div 4096 :: u32) = unat b div 4096" "unat (b mod 4096 :: u32) = unat b mod 4096"
  by (simp_all add: unat_div_distrib unat_mod_distrib)

lemma same_bitmap: "BBLOCK b sb = BBLOCK c sb \<Longrightarrow> unat b mod 4096 = unat c mod 4096 \<Longrightarrow> b = c"
proof -
  assume "BBLOCK b sb = BBLOCK c sb" "unat b mod 4096 = unat c mod 4096"
  then have "unat (b div 4096) = unat (c div 4096)" "unat b mod 4096 = unat c mod 4096" by (simp_all add: BBLOCK_eq)
  then have "unat b = unat c" unfolding unat_div_4096 by (metis div_mult_mod_eq)
  then show "b = c" by (rule unsigned_word_eqI)
qed

text \<open>What \<open>balloc\<close> does: it takes a free block, marks it, and fills it with zeros.\<close>

definition allocated :: "('d, 'z) fsys_scheme \<Rightarrow> u32 \<Rightarrow> ('d, 'z) fsys_scheme \<Rightarrow> bool" where
  "allocated s b t \<longleftrightarrow> \<not> used s b \<and> valid s b \<and> icache t = icache s \<and> fsb t = fsb s \<and>
     devsw t = devsw s \<and> (\<forall>c. valid s c \<longrightarrow> (used t c \<longleftrightarrow> used s c \<or> c = b)) \<and> blk b t = replicate 512 0 \<and>
     (\<forall>c. c \<noteq> b \<longrightarrow> c \<noteq> BBLOCK b (fsb s) \<longrightarrow> blk c t = blk c s) \<and> disk_wf t"

lemma find_lessD: "find P [0..<n] = Some k \<Longrightarrow> k < n \<and> P k"
  by (auto simp: find_Some_iff)

lemma balloc_from_spec:
  "balloc_from k s = Inr (b, t) \<Longrightarrow> disk_wf s \<Longrightarrow> k mod 4096 = 0 \<Longrightarrow> allocated s b t"
proof (induction k s rule: balloc_from.induct)
  case (1 k s)
  let ?sz = "unat (sb_size (fsb s))" and ?bb = "BBLOCK (of_nat k) (fsb s)"
  have sz: "k < ?sz" using 1(2) by (subst (asm) balloc_from.simps) (auto split: if_splits)
  have k: "unat (of_nat k :: u32) = k"
    using sz unat_bound [of "sb_size (fsb s)"] by (simp add: unat_of_nat take_bit_nat_eq_self)
  show ?case
  proof (cases "find (bit_free (blk ?bb s)) [0..<min BPB (?sz - k)]")
    case None
    then have "balloc_from (k + BPB) s = Inr (b, t)"
      using 1(2) sz by (subst (asm) balloc_from.simps) (simp add: Let_def)
    then show ?thesis using 1(1) [OF sz refl refl None] 1(3,4) by (simp add: BPB_def BSIZE_def)
  next
    case (Some bi)
    let ?x = "blk ?bb s"
    let ?y = "?x[bi div 8 := ?x ! (bi div 8) OR bitmask bi]"
    have bi: "bi < 4096" "k + bi < ?sz" "bit_free ?x bi"
      using find_lessD [OF Some] by (auto simp: BPB_def BSIZE_def)
    obtain u where u: "put_block ?bb ?y s = Inr u" "bzero (of_nat (k + bi)) u = Inr t" "b = of_nat (k + bi)"
      using 1(2) sz Some by (subst (asm) balloc_from.simps) (auto simp: Let_def kres_simps)
    note pu = put_blockD [OF u(1)] and pt = put_blockD [OF u(2) [unfolded bzero_def]]
    have ub: "unat b = k + bi"
      using bi unat_bound [of "sb_size (fsb s)"] by (simp add: u(3) unat_of_nat take_bit_nat_eq_self del: of_nat_add)
    have bm: "unat b mod 4096 = bi" "unat b div 4096 = k div 4096" using 1(4) bi(1) by (auto simp: ub mod_eq_0_iff_dvd elim: dvdE)
    have "unat (b div 4096) = unat (of_nat k div 4096 :: u32)" using bm(2) by (simp add: unat_div_4096 k)
    then have bb: "BBLOCK b (fsb s) = ?bb" by (simp add: BBLOCK_eq unsigned_word_eqI)
    have nu: "\<not> used s b" using bi(3) by (simp add: used_def bb bm)
    have len: "length (blk c s) = 512" for c using 1(3) by (simp add: disk_wf_def)
    have fsb: "fsb t = fsb s" using pu pt by simp
    have ne: "BBLOCK c (fsb s) \<noteq> b" if "valid s c" for c using nu 1(3) that by (auto simp: disk_wf_def)
    have vb: "valid s b" using ub bi(2) by (simp add: valid_def)
    have bl: "blk c t = (if c = b then replicate 512 0 else if c = ?bb then ?y else blk c s)" for c
      using pu(1) pt(1) by (simp add: u(3) BSIZE_def)
    have us: "used t c \<longleftrightarrow> used s c \<or> c = b" if v: "valid s c" for c
    proof (cases "BBLOCK c (fsb s) = ?bb")
      case True
      then have "c = b \<longleftrightarrow> unat c mod 4096 = bi" using same_bitmap [of c "fsb s" b] bb bm by auto
      then show ?thesis
        using True ne [OF v] bit_free_set [of bi ?x "unat c mod 4096"] bi(1) len by (auto simp: used_def fsb bl)
    next
      case False
      then show ?thesis using ne [OF v] bb by (auto simp: used_def fsb bl)
    qed
    have "valid t = valid s" by (simp add: fun_eq_iff valid_def fsb)
    moreover have "valid s 0" using vb by (auto simp: valid_def)
    ultimately have "disk_wf t" using 1(3) us bl len by (simp add: disk_wf_def fsb)
    moreover have "blk b t = replicate 512 0" "c \<noteq> b \<Longrightarrow> c \<noteq> BBLOCK b (fsb s) \<Longrightarrow> blk c t = blk c s" for c
      by (simp_all add: bl bb)
    moreover have "icache t = icache s" "devsw t = devsw s" using pu pt by simp_all
    ultimately show ?thesis unfolding allocated_def using nu us fsb vb by blast
  qed
qed

lemma balloc_spec: "balloc s = Inr (b, t) \<Longrightarrow> disk_wf s \<Longrightarrow> allocated s b t"
  by (simp add: balloc_def balloc_from_spec)

subsection \<open>The blocks of a file\<close>

definition ind_block :: "nat \<Rightarrow> ('d, 'z) fsys_scheme \<Rightarrow> u32" where
  "ind_block i s = i_addrs (inode_at i s) ! 12"

text \<open>The disk block of the block \<open>n\<close> of the file, 0 if it has none.\<close>

definition fmap :: "nat \<Rightarrow> ('d, 'z) fsys_scheme \<Rightarrow> nat \<Rightarrow> u32" where
  "fmap i s n =
     (if n < 12 then i_addrs (inode_at i s) ! n
      else if ind_block i s = 0 then 0 else get32 (blk (ind_block i s) s) (4 * (n - 12)))"

definition file_meta :: "('d, 'z) fsys_scheme \<Rightarrow> u32 \<Rightarrow> bool" where
  "file_meta s b \<longleftrightarrow> valid s b \<and> used s b \<and> (\<forall>c. valid s c \<longrightarrow> b \<noteq> BBLOCK c (fsb s))"

definition file_block :: "nat \<Rightarrow> ('d, 'z) fsys_scheme \<Rightarrow> u32 \<Rightarrow> bool" where
  "file_block i s b \<longleftrightarrow> b \<noteq> 0 \<and> valid s b \<and> used s b \<and> (\<forall>c. valid s c \<longrightarrow> b \<noteq> BBLOCK c (fsb s)) \<and> b \<noteq> IBLOCK (i_inum (inode_at i s)) (fsb s)"

definition file_ok :: "nat \<Rightarrow> ('d, 'z) fsys_scheme \<Rightarrow> bool" where
  "file_ok i s \<longleftrightarrow> i < length (icache s) \<and> length (i_addrs (inode_at i s)) = 13 \<and> disk_wf s \<and>
     file_meta s (IBLOCK (i_inum (inode_at i s)) (fsb s)) \<and>
     (ind_block i s \<noteq> 0 \<longrightarrow> file_block i s (ind_block i s)) \<and>
     (\<forall>n<140. fmap i s n \<noteq> 0 \<longrightarrow> file_block i s (fmap i s n) \<and> fmap i s n \<noteq> ind_block i s \<and>
        (\<forall>m<140. fmap i s m = fmap i s n \<longrightarrow> m = n))"

text \<open>The byte \<open>k\<close> of the file; a block that has not been allocated reads as zeros.\<close>

definition fbyte :: "nat \<Rightarrow> ('d, 'z) fsys_scheme \<Rightarrow> nat \<Rightarrow> u8" where
  "fbyte i s k = (if fmap i s (k div 512) = 0 then 0 else blk (fmap i s (k div 512)) s ! (k mod 512))"

text \<open>What \<open>bmap\<close> may change: nothing of the inode but its addresses.\<close>

definition same_meta :: "nat \<Rightarrow> ('d, 'z) fsys_scheme \<Rightarrow> ('d, 'z) fsys_scheme \<Rightarrow> bool" where
  "same_meta i s t \<longleftrightarrow> i_size (inode_at i t) = i_size (inode_at i s) \<and> i_type (inode_at i t) = i_type (inode_at i s) \<and>
     i_inum (inode_at i t) = i_inum (inode_at i s) \<and> fsb t = fsb s"

lemma file_okD:
  assumes "file_ok i s"
  shows "i < length (icache s)" and "length (i_addrs (inode_at i s)) = 13" and "disk_wf s"
    and "file_meta s (IBLOCK (i_inum (inode_at i s)) (fsb s))"
    and "ind_block i s \<noteq> 0 \<Longrightarrow> file_block i s (ind_block i s)"
    and "n < 140 \<Longrightarrow> fmap i s n \<noteq> 0 \<Longrightarrow> file_block i s (fmap i s n) \<and> fmap i s n \<noteq> ind_block i s"
    and "n < 140 \<Longrightarrow> m < 140 \<Longrightarrow> fmap i s n \<noteq> 0 \<Longrightarrow> fmap i s m = fmap i s n \<Longrightarrow> m = n"
  using assms unfolding file_ok_def by blast+

text \<open>
  The state after a block has been allocated for a place in the block map: \<open>f\<close> is the new map, which
  differs from the old one at most in the new block, and \<open>j\<close> the new indirect block.
\<close>

lemma file_ok_extend:
  assumes ok: "file_ok i s" and al: "allocated s b t0"
    and t: "\<And>c. valid s c \<Longrightarrow> used t c = used t0 c" "fsb t = fsb s" "length (icache t) = length (icache s)" "disk_wf t"
      "i_inum (inode_at i t) = i_inum (inode_at i s)" "length (i_addrs (inode_at i t)) = 13"
    and ind: "ind_block i t = ind_block i s \<or> ind_block i s = 0 \<and> ind_block i t = b"
    and map: "\<And>n. n < 140 \<Longrightarrow> fmap i t n = fmap i s n \<or> n = k \<and> fmap i t n = b \<and> ind_block i t = ind_block i s"
  shows "file_ok i t"
proof -
  have nu: "\<not> used s b" and vb: "valid s b" and us: "\<And>c. valid s c \<Longrightarrow> used t c \<longleftrightarrow> used s c \<or> c = b"
    using al t(1) by (auto simp: allocated_def)
  have vt: "valid t = valid s" by (simp add: fun_eq_iff valid_def t(2))
  have wf: "disk_wf s" by (rule file_okD(3) [OF ok])
  have nb: "b \<noteq> 0" "\<And>c. valid s c \<Longrightarrow> b \<noteq> BBLOCK c (fsb s)" "b \<noteq> IBLOCK (i_inum (inode_at i s)) (fsb s)"
    using nu wf file_okD(4) [OF ok] by (auto simp: disk_wf_def file_meta_def)
  have fb: "file_block i t c \<longleftrightarrow> file_block i s c \<or> c = b" for c
    using nb us vb by (auto simp: file_block_def t(2,5) vt)
  have old: "file_block i s c \<Longrightarrow> c \<noteq> b" for c using nu by (auto simp: file_block_def)
  have fm: "n < 140 \<Longrightarrow> fmap i s n \<noteq> b" for n using old file_okD(6) [OF ok, of n] nb(1) by auto
  have ib: "ind_block i s \<noteq> b" using old file_okD(5) [OF ok] nb(1) by auto
  show ?thesis
    unfolding file_ok_def
  proof (intro conjI allI impI)
    show "i < length (icache t)" "length (i_addrs (inode_at i t)) = 13" "disk_wf t"
      "file_meta t (IBLOCK (i_inum (inode_at i t)) (fsb t))"
      using file_okD(1,4) [OF ok] us by (auto simp: t file_meta_def vt)
    show "ind_block i t \<noteq> 0 \<Longrightarrow> file_block i t (ind_block i t)" using ind file_okD(5) [OF ok] unfolding fb by metis
    fix n
    assume n: "n < 140" "fmap i t n \<noteq> 0"
    show "file_block i t (fmap i t n)" using map [OF n(1)] n file_okD(6) [OF ok, of n] unfolding fb by metis
    show "fmap i t n \<noteq> ind_block i t"
      using map [OF n(1)] n file_okD(6) [OF ok n(1)] ind fm [OF n(1)] ib by metis
    fix m
    assume m: "m < 140" "fmap i t m = fmap i t n"
    have "fmap i t n = fmap i s n \<or> n = k \<and> fmap i t n = b" "fmap i t m = fmap i s m \<or> m = k \<and> fmap i t m = b"
      using map [OF n(1)] map [OF m(1)] by blast+
    then show "m = n"
      using m n(2) file_okD(7) [OF ok n(1) m(1)] fm [OF n(1)] fm [OF m(1)] by metis
  qed
qed

lemma fbyte_extend:
  assumes ok: "file_ok i s" and k: "p < 140 * 512"
    and map: "\<And>n. n < 140 \<Longrightarrow> fmap i t n = fmap i s n \<or> fmap i s n = 0 \<and> blk (fmap i t n) t = replicate 512 0"
    and blk: "\<And>n. n < 140 \<Longrightarrow> fmap i s n \<noteq> 0 \<Longrightarrow> blk (fmap i s n) t = blk (fmap i s n) s"
  shows "fbyte i t p = fbyte i s p"
proof -
  have n: "p div 512 < 140" using k by (simp add: less_mult_imp_div_less)
  then show ?thesis using map [OF n] blk [OF n] by (auto simp: fbyte_def)
qed

text \<open>
  What \<open>bmap\<close> promises: the block that now belongs to the place \<open>n\<close>; every byte of the file is as it
  was, and the other places keep their blocks.
\<close>

definition bmap_ok :: "nat \<Rightarrow> nat \<Rightarrow> ('d, 'z) fsys_scheme \<Rightarrow> u32 \<Rightarrow> ('d, 'z) fsys_scheme \<Rightarrow> bool" where
  "bmap_ok i n s b t \<longleftrightarrow> file_ok i t \<and> fmap i t n = b \<and> b \<noteq> 0 \<and> same_meta i s t \<and> devsw t = devsw s \<and>
     (\<forall>p<140 * 512. fbyte i t p = fbyte i s p) \<and> (\<forall>m<140. fmap i s m \<noteq> 0 \<longrightarrow> fmap i t m \<noteq> 0)"

lemma allocated_facts:
  assumes "allocated s b t" and "file_ok i s"
  shows "b \<noteq> 0" and "\<And>n. n < 140 \<Longrightarrow> fmap i s n \<noteq> b" and "ind_block i s \<noteq> b"
    and "\<And>n. n < 140 \<Longrightarrow> fmap i s n \<noteq> 0 \<Longrightarrow> blk (fmap i s n) t = blk (fmap i s n) s"
    and "ind_block i s \<noteq> 0 \<Longrightarrow> blk (ind_block i s) t = blk (ind_block i s) s"
proof -
  have nu: "\<not> used s b" and vb: "valid s b" and bl: "\<And>c. c \<noteq> b \<Longrightarrow> c \<noteq> BBLOCK b (fsb s) \<Longrightarrow> blk c t = blk c s"
    using assms(1) by (auto simp: allocated_def)
  show b: "b \<noteq> 0" using nu file_okD(3) [OF assms(2)] by (auto simp: disk_wf_def)
  show f: "n < 140 \<Longrightarrow> fmap i s n \<noteq> b" for n
    using nu b file_okD(6) [OF assms(2), of n] by (auto simp: file_block_def)
  show i: "ind_block i s \<noteq> b" using nu b file_okD(5) [OF assms(2)] by (auto simp: file_block_def)
  show "n < 140 \<Longrightarrow> fmap i s n \<noteq> 0 \<Longrightarrow> blk (fmap i s n) t = blk (fmap i s n) s" for n
    using f bl vb file_okD(6) [OF assms(2), of n] unfolding file_block_def by metis
  show "ind_block i s \<noteq> 0 \<Longrightarrow> blk (ind_block i s) t = blk (ind_block i s) s"
    using i bl vb file_okD(5) [OF assms(2)] unfolding file_block_def by metis
qed

text \<open>A direct block, or the indirect block (\<open>k = 12\<close>), is allocated.\<close>

lemma alloc_addr:
  assumes ok: "file_ok i s" and al: "allocated s b t0" and k: "k \<le> 12" "i_addrs (inode_at i s) ! k = 0"
    and t: "t = upd_inode i (\<lambda>ip. ip\<lparr>i_addrs := (i_addrs ip)[k := b]\<rparr>) t0"
  shows "file_ok i t" and "i_addrs (inode_at i t) ! k = b" and "same_meta i s t" and "devsw t = devsw s"
    and "\<forall>p<140 * 512. fbyte i t p = fbyte i s p" and "\<forall>m<140. fmap i s m \<noteq> 0 \<longrightarrow> fmap i t m \<noteq> 0"
proof -
  have ic: "icache t0 = icache s" "fsb t0 = fsb s" "disk_wf t0" "devsw t0 = devsw s" and bb: "blk b t0 = replicate 512 0"
    using al by (simp_all add: allocated_def)
  have i: "i < length (icache s)" "length (i_addrs (inode_at i s)) = 13" using file_okD(1,2) [OF ok] by simp_all
  have at: "inode_at i t = (inode_at i s)\<lparr>i_addrs := (i_addrs (inode_at i s))[k := b]\<rparr>"
    using i ic by (simp add: t)
  have bt: "blk c t = blk c t0" and ut: "used t c = used t0 c" for c by (simp_all add: t used_def)
  note af = allocated_facts [OF al ok]
  show ik: "i_addrs (inode_at i t) ! k = b" using i k(1) by (simp add: at)
  show "same_meta i s t" by (simp add: same_meta_def at) (simp add: t ic)
  show "devsw t = devsw s" by (simp add: t ic)
  have ind: "ind_block i t = (if k = 12 then b else ind_block i s)" using i by (simp add: ind_block_def at)
  have fm: "fmap i t n = (if n = k \<and> k < 12 then b else fmap i s n)" if n: "n < 140" for n
  proof (cases "n < 12")
    case True
    then show ?thesis using i by (auto simp: fmap_def at)
  next
    case False
    show ?thesis
    proof (cases "k = 12")
      case True
      then have "ind_block i s = 0" using k(2) by (simp add: ind_block_def)
      moreover have "get32 (replicate 512 0) (4 * (n - 12)) = 0" using n False by (simp add: get32_def)
      ultimately show ?thesis using False True af(1) bb by (simp add: fmap_def ind bt)
    next
      case k12: False
      then show ?thesis using False k(1) af(5) by (auto simp: fmap_def ind bt)
    qed
  qed
  show "\<forall>m<140. fmap i s m \<noteq> 0 \<longrightarrow> fmap i t m \<noteq> 0" using af(1) by (simp add: fm)
  have indz: "k = 12 \<Longrightarrow> ind_block i s = 0" using k(2) by (simp add: ind_block_def)
  have "valid t = valid t0" by (simp add: fun_eq_iff valid_def t)
  then have "disk_wf t" using ic(3) by (simp add: disk_wf_def bt ut) (simp add: t)
  then show "file_ok i t"
    by (intro file_ok_extend [OF ok al ut, where k = k]) (use ind indz fm i ic k in \<open>auto simp: at t\<close>)
  have z: "k < 12 \<Longrightarrow> fmap i s k = 0" using k(2) by (simp add: fmap_def)
  show "\<forall>p<140 * 512. fbyte i t p = fbyte i s p"
  proof (intro allI impI fbyte_extend [OF ok])
    show "fmap i t n = fmap i s n \<or> fmap i s n = 0 \<and> blk (fmap i t n) t = replicate 512 0" if "n < 140" for n
      using fm [OF that] z bb by (auto simp: bt)
    show "blk (fmap i s n) t = blk (fmap i s n) s" if "n < 140" "fmap i s n \<noteq> 0" for n
      using af(4) [OF that] by (simp add: bt)
  qed
qed

text \<open>An entry of the indirect block is allocated.\<close>

lemma alloc_entry:
  assumes ok: "file_ok i s" and al: "allocated s b t0" and n: "12 \<le> n" "n < 140" "fmap i s n = 0"
    and ind: "ind_block i s \<noteq> 0"
    and put: "put_block (ind_block i s) (put32 (4 * (n - 12)) b (blk (ind_block i s) s)) t0 = Inr t"
  shows "bmap_ok i n s b t"
proof -
  let ?ind = "ind_block i s"
  have ic: "icache t0 = icache s" "fsb t0 = fsb s" "disk_wf t0" "devsw t0 = devsw s" and bb: "blk b t0 = replicate 512 0"
    using al by (simp_all add: allocated_def)
  note af = allocated_facts [OF al ok] and pt = put_blockD [OF put]
  have i: "i < length (icache s)" "length (i_addrs (inode_at i s)) = 13" using file_okD(1,2) [OF ok] by simp_all
  have at: "inode_at i t = inode_at i s" "ind_block i t = ?ind" using pt(2) ic(1) by (simp_all add: ind_block_def)
  have nbb: "BBLOCK c (fsb s) \<noteq> ?ind" if "valid s c" for c
    using file_okD(5) [OF ok ind] that unfolding file_block_def by metis
  have ut: "used t c = used t0 c" if "valid s c" for c using nbb [OF that] by (simp add: used_def pt(1,3) ic(2))
  have len: "length (blk ?ind s) = 512" using file_okD(3) [OF ok] by (simp add: disk_wf_def)
  have v: "valid t = valid s" "valid t0 = valid s" by (simp_all add: fun_eq_iff valid_def pt(3) ic(2))
  have "valid s 0" using file_okD(4) [OF ok] by (auto simp: file_meta_def valid_def)
  then have wft: "disk_wf t" using ic(3) len by (simp add: disk_wf_def ut pt(1,3) v ic(2))
  have fm: "fmap i t m = (if m = n then b else fmap i s m)" if m: "m < 140" for m
  proof (cases "m < 12")
    case True
    then show ?thesis using n by (simp add: fmap_def at)
  next
    case False
    then have "m \<noteq> n \<Longrightarrow> 4 * (m - 12) + 3 < 4 * (n - 12) \<or> 4 * (n - 12) + 3 < 4 * (m - 12)"
      using n(1) by linarith
    then show ?thesis
      using n m ind len False by (auto simp: fmap_def at pt(1) get32_put32 get_put_other)
  qed
  have okt: "file_ok i t"
    by (rule file_ok_extend [OF ok al ut, where k = n]) (use fm pt(2,3) ic(1,2) wft i at in auto)
  have "fbyte i t p = fbyte i s p" if "p < 140 * 512" for p
  proof (rule fbyte_extend [OF ok that])
    show "fmap i t m = fmap i s m \<or> fmap i s m = 0 \<and> blk (fmap i t m) t = replicate 512 0" if "m < 140" for m
      using fm [OF that] n(3) af(3) bb by (auto simp: pt(1))
    show "blk (fmap i s m) t = blk (fmap i s m) s" if "m < 140" "fmap i s m \<noteq> 0" for m
      using af(4) [OF that] file_okD(6) [OF ok that] by (simp add: pt(1))
  qed
  then show ?thesis
    using okt fm af(1) n(2) pt ic at unfolding bmap_ok_def same_meta_def by metis
qed

lemma bmap_ok_refl: "file_ok i s \<Longrightarrow> fmap i s n = b \<Longrightarrow> b \<noteq> 0 \<Longrightarrow> bmap_ok i n s b s"
  by (simp add: bmap_ok_def same_meta_def)

lemma bmap_spec:
  assumes b: "bmap i bn s = Inr (b, t)" and ok: "file_ok i s" and n: "unat bn < 140"
  shows "bmap_ok i (unat bn) s b t"
proof -
  let ?n = "unat bn"
  show ?thesis
  proof (cases "?n < 12")
    case True
    show ?thesis
    proof (cases "i_addrs (inode_at i s) ! ?n = 0")
      case False
      then have "t = s" "b = fmap i s ?n" using b True by (auto simp: bmap_def Let_def NDIRECT_def fmap_def)
      then show ?thesis using bmap_ok_refl [OF ok, of ?n b] False True by (simp add: fmap_def)
    next
      case z: True
      then obtain t0 where t0: "balloc s = Inr (b, t0)" "t = upd_inode i (\<lambda>ip. ip\<lparr>i_addrs := (i_addrs ip)[?n := b]\<rparr>) t0"
        using b True by (auto simp: bmap_def Let_def NDIRECT_def kres_simps)
      have al: "allocated s b t0" by (rule balloc_spec [OF t0(1) file_okD(3) [OF ok]])
      have k: "?n \<le> 12" using True by simp
      note a = alloc_addr [OF ok al k z t0(2)]
      have "fmap i t ?n = b" using a(2) True by (simp add: fmap_def)
      then show ?thesis using a(1,3-6) allocated_facts(1) [OF al ok] by (simp add: bmap_ok_def)
    qed
  next
    case False
    have lt: "?n - NDIRECT < NINDIRECT" "\<not> ?n < NDIRECT" "4 * (?n - NDIRECT) = 4 * (?n - 12)"
      using n False by (simp_all add: NDIRECT_def NINDIRECT_def BSIZE_def)
    obtain ind s1 where s1: "(if ind_block i s = 0 then kbind (balloc s) (\<lambda>(addr, s).
          Inr (addr, upd_inode i (\<lambda>ip. ip\<lparr>i_addrs := (i_addrs ip)[NDIRECT := addr]\<rparr>) s))
        else Inr (ind_block i s, s)) = Inr (ind, s1)"
      and r: "(let x = blk ind s1; addr = get32 x (4 * (?n - 12)) in
          if addr = 0 then kbind (balloc s1) (\<lambda>(addr, s).
            kbind (put_block ind (put32 (4 * (?n - 12)) addr x) s) (\<lambda>s. Inr (addr, s)))
          else Inr (addr, s1)) = Inr (b, t)"
      using b lt unfolding bmap_def Let_def ind_block_def NDIRECT_def by (auto simp: kres_simps)
    have s1_ok: "file_ok i s1 \<and> same_meta i s s1 \<and> devsw s1 = devsw s \<and> ind_block i s1 = ind \<and> ind \<noteq> 0 \<and>
      (\<forall>p<140 * 512. fbyte i s1 p = fbyte i s p) \<and> (\<forall>m<140. fmap i s m \<noteq> 0 \<longrightarrow> fmap i s1 m \<noteq> 0)"
    proof (cases "ind_block i s = 0")
      case z: True
      then obtain t0 where t0: "balloc s = Inr (ind, t0)"
        "s1 = upd_inode i (\<lambda>ip. ip\<lparr>i_addrs := (i_addrs ip)[12 := ind]\<rparr>) t0"
        using s1 by (auto simp: kres_simps NDIRECT_def)
      have al: "allocated s ind t0" by (rule balloc_spec [OF t0(1) file_okD(3) [OF ok]])
      note a = alloc_addr [OF ok al _ z [unfolded ind_block_def] t0(2)]
      show ?thesis using a(1-6) allocated_facts(1) [OF al ok] by (simp add: ind_block_def)
    next
      case nz: False
      then have "ind = ind_block i s" "s1 = s" using s1 by auto
      then show ?thesis using ok nz by (simp add: same_meta_def)
    qed
    have f1: "fmap i s1 ?n = get32 (blk ind s1) (4 * (?n - 12))" using False s1_ok by (simp add: fmap_def)
    have "bmap_ok i ?n s1 b t"
    proof (cases "fmap i s1 ?n = 0")
      case z: True
      then obtain t0 where t0: "balloc s1 = Inr (b, t0)" "put_block ind (put32 (4 * (?n - 12)) b (blk ind s1)) t0 = Inr t"
        using r f1 by (auto simp: Let_def kres_simps)
      have al: "allocated s1 b t0" by (rule balloc_spec [OF t0(1)]) (use s1_ok file_okD(3) in blast)
      show ?thesis using alloc_entry [OF _ al _ n z] s1_ok False t0(2) by simp
    next
      case nz: False
      then have "b = fmap i s1 ?n" "t = s1" using r f1 by (auto simp: Let_def)
      then show ?thesis using bmap_ok_refl [of i s1 ?n b] nz s1_ok by simp
    qed
    then show ?thesis using s1_ok unfolding bmap_ok_def same_meta_def by simp
  qed
qed

lemma bmap_okD:
  assumes "bmap_ok i n s b t"
  shows "file_ok i t" and "fmap i t n = b" and "b \<noteq> 0" and "i_size (inode_at i t) = i_size (inode_at i s)"
    and "i_type (inode_at i t) = i_type (inode_at i s)" and "devsw t = devsw s"
    and "p < 140 * 512 \<Longrightarrow> fbyte i t p = fbyte i s p" and "m < 140 \<Longrightarrow> fmap i s m \<noteq> 0 \<Longrightarrow> fmap i t m \<noteq> 0"
  using assms by (auto simp: bmap_ok_def same_meta_def)

lemma bmap_hit: "unat bn < 140 \<Longrightarrow> fmap i s (unat bn) \<noteq> 0 \<Longrightarrow> bmap i bn s = Inr (fmap i s (unat bn), s)"
  by (auto simp: bmap_def Let_def fmap_def ind_block_def NDIRECT_def NINDIRECT_def BSIZE_def split: if_splits)

subsection \<open>Reading\<close>

text \<open>The arithmetic of one turn of the loops, on numbers.\<close>

lemma chunk_facts:
  fixes off :: u32
  assumes "unat off + r \<le> 140 * 512" and "0 < r"
  shows "unat (off div of_nat BSIZE) = unat off div 512" and "unat (off mod of_nat BSIZE) = unat off mod 512"
    and "unat off div 512 < 140" and "0 < chunk off r" and "chunk off r \<le> r"
    and "unat off mod 512 + chunk off r \<le> 512" and "unat (off + of_nat (chunk off r)) = unat off + chunk off r"
proof -
  show d: "unat (off div of_nat BSIZE) = unat off div 512" and m: "unat (off mod of_nat BSIZE) = unat off mod 512"
    by (simp_all add: BSIZE_def unat_div_distrib unat_mod_distrib)
  show "unat off div 512 < 140" using assms by (simp add: less_mult_imp_div_less)
  show "0 < chunk off r" by (rule chunk_pos [OF assms(2)])
  show c: "chunk off r \<le> r" by (simp add: chunk_def)
  have "chunk off r \<le> 512 - unat off mod 512" unfolding chunk_def m by (simp add: BSIZE_def)
  moreover have "unat off mod 512 < 512" by simp
  ultimately show "unat off mod 512 + chunk off r \<le> 512" by linarith
  have "unat (of_nat (chunk off r) :: u32) = chunk off r"
    using c assms(1) by (simp add: unat_of_nat take_bit_nat_eq_self)
  then show "unat (off + of_nat (chunk off r)) = unat off + chunk off r"
    using unat_add_small [of off "of_nat (chunk off r)"] c assms(1) by simp
qed

lemma byte_index:
  assumes "k < (m :: nat)" and "off mod 512 + m \<le> 512"
  shows "(off + k) div 512 = off div 512" and "(off + k) mod 512 = off mod 512 + k"
proof -
  have e: "512 * (off div 512) + (off mod 512 + k) = off + k" by simp
  have "(512 * a + c) div 512 = a" "(512 * a + c) mod 512 = c" if "c < 512" for a c :: nat using that by simp_all
  from this [of "off mod 512 + k" "off div 512"] assms
  show "(off + k) div 512 = off div 512" "(off + k) mod 512 = off mod 512 + k" unfolding e by simp_all
qed

lemma readi_loop_spec:
  "readi_loop i off r s = Inr (bs, t) \<Longrightarrow> file_ok i s \<Longrightarrow> unat off + r \<le> 140 * 512 \<Longrightarrow>
   bs = map (fbyte i s) [unat off..<unat off + r] \<and> file_ok i t \<and> (\<forall>p<140 * 512. fbyte i t p = fbyte i s p) \<and>
   i_size (inode_at i t) = i_size (inode_at i s) \<and> i_type (inode_at i t) = i_type (inode_at i s) \<and> devsw t = devsw s"
proof (induction i off r s arbitrary: bs t rule: readi_loop.induct)
  case (1 i off r s)
  show ?case
  proof (cases "r = 0")
    case True
    then show ?thesis using 1(2,3) by (simp add: readi_loop.simps)
  next
    case False
    let ?m = "chunk off r"
    note c = chunk_facts [OF 1(4)] False
    obtain b s1 where b: "bmap i (off div of_nat BSIZE) s = Inr (b, s1)"
      and "kbind (readi_loop i (off + of_nat ?m) (r - ?m) s1) (\<lambda>(rest, s).
          Inr (take ?m (drop (unat (off mod of_nat BSIZE)) (blk b s1)) @ rest, s)) = Inr (bs, t)"
      using 1(2) False by (subst (asm) readi_loop.simps) (auto simp: Let_def kres_simps)
    then obtain rest where rest: "readi_loop i (off + of_nat ?m) (r - ?m) s1 = Inr (rest, t)"
      and bs: "bs = take ?m (drop (unat off mod 512) (blk b s1)) @ rest"
      using c by (auto simp: kres_simps)
    have bm: "bmap_ok i (unat off div 512) s b s1" using bmap_spec [OF b 1(3)] c by simp
    note d = bmap_okD [OF bm]
    have off: "unat (off + of_nat ?m) + (r - ?m) = unat off + r" using c by simp
    have ih: "rest = map (fbyte i s1) [unat off + ?m..<unat off + r] \<and> file_ok i t \<and>
        (\<forall>p<140 * 512. fbyte i t p = fbyte i s1 p) \<and> i_size (inode_at i t) = i_size (inode_at i s1) \<and>
        i_type (inode_at i t) = i_type (inode_at i s1) \<and> devsw t = devsw s1"
      using 1(1) [OF False b refl refl refl rest d(1)] 1(4) off c by simp
    have len: "length (blk b s1) = 512" using file_okD(3) [OF d(1)] by (simp add: disk_wf_def)
    have "take ?m (drop (unat off mod 512) (blk b s1)) = map (fbyte i s) [unat off..<unat off + ?m]"
    proof (rule nth_equalityI)
      show "length (take ?m (drop (unat off mod 512) (blk b s1))) = length (map (fbyte i s) [unat off..<unat off + ?m])"
        using len c by simp
      fix k
      assume "k < length (take ?m (drop (unat off mod 512) (blk b s1)))"
      then have k: "k < ?m" by simp
      have "fbyte i s (unat off + k) = fbyte i s1 (unat off + k)" using d(7) k c 1(4) by simp
      also have "\<dots> = blk b s1 ! (unat off mod 512 + k)"
        using byte_index [OF k] c d(2,3) by (simp add: fbyte_def)
      finally show "take ?m (drop (unat off mod 512) (blk b s1)) ! k = map (fbyte i s) [unat off..<unat off + ?m] ! k"
        using k c len by simp
    qed
    moreover have "map (fbyte i s1) [unat off + ?m..<unat off + r] = map (fbyte i s) [unat off + ?m..<unat off + r]"
      using d(7) 1(4) by auto
    moreover have "[unat off..<unat off + ?m] @ [unat off + ?m..<unat off + r] = [unat off..<unat off + r]"
      using c upt_add_eq_append [of "unat off" "unat off + ?m" "r - ?m"] by simp
    ultimately have "bs = map (fbyte i s) [unat off..<unat off + r]"
      using ih bs by (metis map_append)
    then show ?thesis using ih d by simp
  qed
qed

subsection \<open>Writing\<close>

text \<open>Filling a block of the file, or the block with its inode, keeps the block map.\<close>

lemma used_put:
  assumes "put_block b x s = Inr t" and "\<And>c. valid s c \<Longrightarrow> b \<noteq> BBLOCK c (fsb s)" and "valid s c"
  shows "used t c = used s c"
  using assms(2) [OF assms(3)] put_blockD(1,3) [OF assms(1)] by (simp add: used_def)

lemma file_ok_put:
  assumes ok: "file_ok i s" and put: "put_block b x s = Inr t" and x: "length x = 512"
    and b: "\<And>c. valid s c \<Longrightarrow> b \<noteq> BBLOCK c (fsb s)" "ind_block i s \<noteq> 0 \<Longrightarrow> b \<noteq> ind_block i s"
  shows "file_ok i t" and "fmap i t n = fmap i s n" and "inode_at i t = inode_at i s"
proof -
  note p = put_blockD [OF put]
  have v: "valid t = valid s" by (simp add: fun_eq_iff valid_def p(3))
  have u: "used t c = used s c" if "valid s c" for c by (rule used_put [OF put b(1) that])
  show at: "inode_at i t = inode_at i s" by (simp add: p(2))
  have ind: "ind_block i t = ind_block i s" by (simp add: ind_block_def at)
  show fm: "fmap i t n = fmap i s n" for n using b(2) by (auto simp: fmap_def at ind p(1))
  have "valid s 0" using file_okD(4) [OF ok] by (auto simp: file_meta_def valid_def)
  then have wf: "disk_wf t" using file_okD(3) [OF ok] x by (simp add: disk_wf_def p(1,3) u v)
  have m: "file_meta t = file_meta s" by (auto simp: fun_eq_iff file_meta_def v p(3) u)
  have fb: "file_block i t = file_block i s" by (auto simp: fun_eq_iff file_block_def v p(3) u at)
  show "file_ok i t" using ok wf unfolding file_ok_def ind fm at m fb by (simp add: p(2,3))
qed

lemma write_data_block:
  assumes ok: "file_ok i s" and put: "put_block (fmap i s n) x s = Inr t" and x: "length x = 512"
    and n: "n < 140" "fmap i s n \<noteq> 0"
  shows "file_ok i t" and "inode_at i t = inode_at i s"
    and "p < 140 * 512 \<Longrightarrow> fbyte i t p = (if p div 512 = n then x ! (p mod 512) else fbyte i s p)"
    and "fmap i t m = fmap i s m"
proof -
  have f: "file_block i s (fmap i s n)" "fmap i s n \<noteq> ind_block i s" using file_okD(6) [OF ok n] by simp_all
  have b: "valid s c \<Longrightarrow> fmap i s n \<noteq> BBLOCK c (fsb s)" for c using f(1) by (simp add: file_block_def)
  note k = file_ok_put [OF ok put x b f(2)]
  show "file_ok i t" "inode_at i t = inode_at i s" "fmap i t m = fmap i s m" using k by simp_all
  assume "p < 140 * 512"
  then have p: "p div 512 < 140" by (simp add: less_mult_imp_div_less)
  have "fmap i s (p div 512) = fmap i s n \<longleftrightarrow> p div 512 = n"
    using file_okD(7) [OF ok n(1) p n(2)] by auto
  then show "fbyte i t p = (if p div 512 = n then x ! (p mod 512) else fbyte i s p)"
    using n(2) put_blockD(1) [OF put] by (auto simp: fbyte_def k(2))
qed

lemma splice_nth:
  assumes "k + m \<le> length x" and "m \<le> length src" and "j < length x"
  shows "(take k x @ take m src @ drop (k + m) x) ! j = (if k \<le> j \<and> j < k + m then src ! (j - k) else x ! j)"
  using assms by (auto simp: nth_append min_def not_less)

text \<open>A position of the file lies in the written part of a block exactly if it lies in the written range.\<close>

lemma range_index:
  fixes off p m :: nat
  assumes "off mod 512 + m \<le> 512"
  shows "p div 512 = off div 512 \<and> off mod 512 \<le> p mod 512 \<and> p mod 512 < off mod 512 + m \<longleftrightarrow> off \<le> p \<and> p < off + m"
proof -
  have p: "512 * (p div 512) + p mod 512 = p" and off: "512 * (off div 512) + off mod 512 = off" by simp_all
  have "p mod 512 < 512" by simp
  show ?thesis
  proof
    assume a: "off \<le> p \<and> p < off + m"
    then obtain d where d: "p = off + d" "d < m" using le_Suc_ex by auto
    show "p div 512 = off div 512 \<and> off mod 512 \<le> p mod 512 \<and> p mod 512 < off mod 512 + m"
      unfolding d(1) byte_index [OF d(2) assms] using d(2) by simp
  next
    assume a: "p div 512 = off div 512 \<and> off mod 512 \<le> p mod 512 \<and> p mod 512 < off mod 512 + m"
    then have "512 * (p div 512) = 512 * (off div 512)" by simp
    then show "off \<le> p \<and> p < off + m" using a p off by linarith
  qed
qed

lemma later_block:
  fixes off k m :: nat
  assumes "off < 512 * (k + 1)" and "k \<noteq> off div 512" and "off mod 512 + m \<le> 512"
  shows "off + m \<le> 512 * k"
proof -
  have e: "512 * (off div 512) + off mod 512 = off" by simp
  have "off div 512 < k + 1" using assms(1) by (intro less_mult_imp_div_less) simp
  then have "off div 512 + 1 \<le> k" using assms(2) by simp
  then have "512 * (off div 512) + 512 \<le> 512 * k" by simp
  then show ?thesis using assms(3) e by linarith
qed

lemma writei_loop_spec:
  "writei_loop i off src s = Inr (off', t) \<Longrightarrow> file_ok i s \<Longrightarrow> unat off + length src \<le> 140 * 512 \<Longrightarrow>
   unat off' = unat off + length src \<and> file_ok i t \<and>
   (\<forall>p<140 * 512. fbyte i t p =
      (if unat off \<le> p \<and> p < unat off + length src then src ! (p - unat off) else fbyte i s p)) \<and>
   i_size (inode_at i t) = i_size (inode_at i s) \<and> i_type (inode_at i t) = i_type (inode_at i s) \<and>
   (\<forall>m<140. fmap i s m \<noteq> 0 \<or> src \<noteq> [] \<and> unat off < 512 * (m + 1) \<and> 512 * m < unat off + length src \<longrightarrow> fmap i t m \<noteq> 0)"
proof (induction i off src s arbitrary: off' t rule: writei_loop.induct)
  case (1 i off src s)
  show ?case
  proof (cases "src = []")
    case True
    then show ?thesis using 1(2,3) by (auto simp: writei_loop.simps)
  next
    case False
    let ?m = "chunk off (length src)" and ?o = "unat off"
    have r: "0 < length src" using False by simp
    note c = chunk_facts [OF 1(4) r]
    obtain b s1 s2 where b: "bmap i (off div of_nat BSIZE) s = Inr (b, s1)"
      and p: "put_block b (take (unat (off mod of_nat BSIZE)) (blk b s1) @ take ?m src @
          drop (unat (off mod of_nat BSIZE) + ?m) (blk b s1)) s1 = Inr s2"
      and w: "writei_loop i (off + of_nat ?m) (drop ?m src) s2 = Inr (off', t)"
      using 1(2) False by (subst (asm) writei_loop.simps) (auto simp: Let_def kres_simps)
    have bm: "bmap_ok i (?o div 512) s b s1" using bmap_spec [OF b 1(3)] c by simp
    note d = bmap_okD [OF bm]
    have len: "length (blk b s1) = 512" using file_okD(3) [OF d(1)] by (simp add: disk_wf_def)
    let ?x = "take (?o mod 512) (blk b s1) @ take ?m src @ drop (?o mod 512 + ?m) (blk b s1)"
    have x: "length ?x = 512" using c len by simp
    have p': "put_block (fmap i s1 (?o div 512)) ?x s1 = Inr s2" using p c(2) d(2) by simp
    note wd = write_data_block [OF d(1) p' x c(3)]
    have nz: "fmap i s1 (?o div 512) \<noteq> 0" using d(2,3) by simp
    have s2: "fbyte i s2 q = (if ?o \<le> q \<and> q < ?o + ?m then src ! (q - ?o) else fbyte i s q)" if q: "q < 140 * 512" for q
    proof (cases "q div 512 = ?o div 512")
      case True
      have e: "fbyte i s2 q = ?x ! (q mod 512)" using wd(3) [OF nz q] True by simp
      have old: "blk b s1 ! (q mod 512) = fbyte i s q" using d(2,3) d(7) [OF q] True by (simp add: fbyte_def)
      have "?o \<le> q \<and> q < ?o + ?m \<Longrightarrow> q mod 512 - ?o mod 512 = q - ?o"
        using True div_mult_mod_eq [of q 512] div_mult_mod_eq [of ?o 512] by linarith
      then show ?thesis
        unfolding e using range_index [OF c(6), of q] True splice_nth [of "?o mod 512" ?m "blk b s1" src "q mod 512"] c len old
        by auto
    next
      case neq: False
      then show ?thesis using wd(3) [OF nz q] d(7) [OF q] range_index [OF c(6), of q] by auto
    qed
    have off: "unat (off + of_nat ?m) + length (drop ?m src) = ?o + length src" using c by simp
    have ih: "unat off' = ?o + length src \<and> file_ok i t \<and> (\<forall>q<140 * 512. fbyte i t q =
        (if ?o + ?m \<le> q \<and> q < ?o + length src then drop ?m src ! (q - (?o + ?m)) else fbyte i s2 q)) \<and>
        i_size (inode_at i t) = i_size (inode_at i s2) \<and> i_type (inode_at i t) = i_type (inode_at i s2) \<and>
        (\<forall>k<140. fmap i s2 k \<noteq> 0 \<or> drop ?m src \<noteq> [] \<and> ?o + ?m < 512 * (k + 1) \<and> 512 * k < ?o + length src \<longrightarrow> fmap i t k \<noteq> 0)"
      using 1(1) [OF False b refl refl refl refl p w wd(1) [OF nz]] 1(4) off c(7) by simp
    have "fbyte i t q = (if ?o \<le> q \<and> q < ?o + length src then src ! (q - ?o) else fbyte i s q)" if q: "q < 140 * 512" for q
    proof -
      have m: "?m \<le> length src" by (rule c(5))
      have "fbyte i t q = (if ?o + ?m \<le> q \<and> q < ?o + length src then drop ?m src ! (q - (?o + ?m)) else fbyte i s2 q)"
        using ih q by blast
      then show ?thesis unfolding s2 [OF q] using m by auto
    qed
    moreover have "fmap i t k \<noteq> 0" if k: "k < 140" "fmap i s k \<noteq> 0 \<or> src \<noteq> [] \<and> ?o < 512 * (k + 1) \<and> 512 * k < ?o + length src" for k
    proof -
      have old: "fmap i s k \<noteq> 0 \<Longrightarrow> fmap i s2 k \<noteq> 0" using d(8) [OF k(1)] wd(4) [OF nz, of k] by simp
      have "k = ?o div 512 \<Longrightarrow> fmap i s2 k \<noteq> 0" using nz wd(4) [OF nz, of k] by simp
      moreover have "?o < 512 * (k + 1) \<Longrightarrow> k \<noteq> ?o div 512 \<Longrightarrow> 512 * k < ?o + length src \<Longrightarrow>
          ?o + ?m < 512 * (k + 1) \<and> drop ?m src \<noteq> []" using later_block [OF _ _ c(6), of k] by fastforce
      ultimately show ?thesis using ih k old by blast
    qed
    ultimately show ?thesis using ih d(4,5) wd(2) [OF nz] by simp
  qed
qed

text \<open>The calls that a write can end in: the disk is full, or the transaction is.\<close>

definition write_errors :: "stop set" where
  "write_errors = {Panic ''balloc: out of blocks'', Panic ''too big a transaction'', Panic ''log_write outside of trans''}"

lemma put_block_err: "put_block b x s = Inl e \<Longrightarrow> e \<in> write_errors"
  by (auto simp: put_block_def log_write_def Let_def kres_simps write_errors_def split: if_splits)

lemma balloc_from_err: "balloc_from k s = Inl e \<Longrightarrow> e \<in> write_errors"
proof (induction k s rule: balloc_from.induct)
  case (1 k s)
  then show ?case
    by (subst (asm) (2) balloc_from.simps)
      (auto simp: Let_def kres_simps bzero_def write_errors_def dest: put_block_err split: if_splits option.splits)
qed

lemma bmap_err: "unat bn < 140 \<Longrightarrow> bmap i bn s = Inl e \<Longrightarrow> e \<in> write_errors"
  by (auto simp: bmap_def Let_def balloc_def kres_simps NDIRECT_def NINDIRECT_def BSIZE_def
      dest: balloc_from_err put_block_err split: if_splits)

lemma writei_loop_err:
  "writei_loop i off src s = Inl e \<Longrightarrow> unat off + length src \<le> 140 * 512 \<Longrightarrow> e \<in> write_errors"
proof (induction i off src s rule: writei_loop.induct)
  case (1 i off src s)
  show ?case
  proof (cases "src = []")
    case True
    then show ?thesis using 1(2) by (simp add: writei_loop.simps)
  next
    case False
    let ?m = "chunk off (length src)"
    have r: "0 < length src" using False by simp
    note c = chunk_facts [OF 1(3) r]
    have n: "unat (off div of_nat BSIZE) < 140" using c by simp
    have l: "unat (off + of_nat ?m) + length (drop ?m src) \<le> 140 * 512" using c 1(3) by simp
    show ?thesis
      using 1(2) False 1(1) [OF False _ refl refl refl refl _ _ l] bmap_err [OF n]
      by (subst (asm) writei_loop.simps) (auto simp: Let_def kres_simps dest: put_block_err)
  qed
qed

subsection \<open>A file is an array of bytes\<close>

text \<open>
  The representation invariant of an ordinary file: its block map is sound, its size is at most the
  largest one, and every block below the size is allocated. The abstract file is the list of its bytes.
\<close>

definition file_wf :: "nat \<Rightarrow> ('d, 'z) fsys_scheme \<Rightarrow> bool" where
  "file_wf i s \<longleftrightarrow> file_ok i s \<and> i_type (inode_at i s) \<noteq> T_DEV \<and> unat (i_size (inode_at i s)) \<le> MAXFILE * BSIZE \<and>
     (\<forall>n<140. 512 * n < unat (i_size (inode_at i s)) \<longrightarrow> fmap i s n \<noteq> 0)"

definition file_bytes :: "nat \<Rightarrow> ('d, 'z) fsys_scheme \<Rightarrow> u8 list" where
  "file_bytes i s = map (fbyte i s) [0..<unat (i_size (inode_at i s))]"

definition file_read :: "nat \<Rightarrow> nat \<Rightarrow> u8 list \<Rightarrow> u8 list option" where
  "file_read off n f = (if off \<le> length f then Some (take n (drop off f)) else None)"

definition file_write :: "nat \<Rightarrow> u8 list \<Rightarrow> u8 list \<Rightarrow> u8 list option" where
  "file_write off src f =
     (if off \<le> length f \<and> off + length src \<le> MAXFILE * BSIZE
      then Some (take off f @ src @ drop (off + length src) f) else None)"

lemma MAXFILE_bytes: "MAXFILE * BSIZE = 71680"
  by (simp add: MAXFILE_def NDIRECT_def NINDIRECT_def BSIZE_def)

lemma block_bounds: "512 * (n div 512) \<le> n" "n < 512 * (n div 512 + 1)" for n :: nat
  by simp_all

lemma add_overflow_iff: "off + n < off \<longleftrightarrow> \<not> unat off + unat n < 2 ^ 32" for off n :: u32
  using no_olen_add_nat [of off n] by (simp add: linorder_not_le [symmetric])

lemma take_upt_min: "take n [a..<b] = [a..<min (a + n) b]"
  by (cases "a + n \<le> b") (auto simp: min_def)

lemma readi_loop_total:
  assumes "\<And>n. n < 140 \<Longrightarrow> unat off < 512 * (n + 1) \<Longrightarrow> 512 * n < unat off + r \<Longrightarrow> fmap i s n \<noteq> 0"
    and "unat off + r \<le> 140 * 512"
  shows "\<exists>bs. readi_loop i off r s = Inr (bs, s)"
  using assms
proof (induction r arbitrary: off rule: less_induct)
  case (less r)
  show ?case
  proof (cases "r = 0")
    case True
    then show ?thesis by (simp add: readi_loop.simps)
  next
    case False
    let ?m = "chunk off r"
    note c = chunk_facts [OF less(3)] False
    have "unat off < 512 * (unat off div 512 + 1)" "512 * (unat off div 512) < unat off + r"
      using block_bounds [of "unat off"] False by simp_all
    then have "fmap i s (unat off div 512) \<noteq> 0" using less(2) [of "unat off div 512"] c by simp
    then have b: "bmap i (off div of_nat BSIZE) s = Inr (fmap i s (unat off div 512), s)"
      using bmap_hit [of "off div of_nat BSIZE" i s] c by simp
    have "\<exists>bs. readi_loop i (off + of_nat ?m) (r - ?m) s = Inr (bs, s)"
      by (rule less(1)) (use c less(2,3) in auto)
    then show ?thesis using False b by (subst readi_loop.simps) (auto simp: Let_def)
  qed
qed

text \<open>\<open>readi\<close> reads the abstract file, without an error and without a change of the state.\<close>

lemma readi_exact:
  assumes wf: "file_wf i s"
  shows "readi i off n s =
    (case file_read (unat off) (unat n) (file_bytes i s) of
       None \<Rightarrow> Inr (-1, [], s)
     | Some bs \<Rightarrow> if unat off + unat n < 2 ^ 32 then Inr (int (length bs), bs, s) else Inr (-1, [], s))"
proof -
  let ?sz = "i_size (inode_at i s)"
  have ok: "file_ok i s" and ty: "i_type (inode_at i s) \<noteq> T_DEV" and sz: "unat ?sz \<le> 71680"
    and full: "\<And>k. k < 140 \<Longrightarrow> 512 * k < unat ?sz \<Longrightarrow> fmap i s k \<noteq> 0"
    using wf by (auto simp: file_wf_def MAXFILE_bytes)
  have len: "length (file_bytes i s) = unat ?sz" by (simp add: file_bytes_def)
  have ov: "off + n < off \<longleftrightarrow> \<not> unat off + unat n < 2 ^ 32" by (rule add_overflow_iff)
  show ?thesis
  proof (cases "?sz < off \<or> off + n < off")
    case True
    then show ?thesis using ty ov len by (auto simp: readi_def Let_def file_read_def word_less_nat_alt)
  next
    case False
    then have le: "unat off \<le> unat ?sz" and nov: "unat off + unat n < 2 ^ 32" using ov by (auto simp: word_less_nat_alt)
    have un: "unat (off + n) = unat off + unat n" by (rule unat_add_small [OF nov])
    let ?n = "if ?sz < off + n then ?sz - off else n"
    have n: "unat ?n = min (unat n) (unat ?sz - unat off)"
      using le un by (auto simp: word_less_nat_alt unat_sub word_le_nat_alt)
    have b: "unat off + unat ?n \<le> unat ?sz" using n le by simp
    obtain bs where bs: "readi_loop i off (unat ?n) s = Inr (bs, s)"
      using readi_loop_total [of off "unat ?n" i s] full b sz by auto
    have bs_eq: "bs = map (fbyte i s) [unat off..<unat off + unat ?n]"
      using readi_loop_spec [OF bs ok] b sz by simp
    have "bs = take (unat n) (drop (unat off) (file_bytes i s))"
      unfolding bs_eq n file_bytes_def using le
      by (simp add: take_map drop_map drop_upt take_upt_min min_def)
    moreover have "sint ?n = int (length bs)" using b sz sint_small [of ?n] by (simp add: bs_eq)
    ultimately show ?thesis
      using False ty bs nov len le by (simp add: readi_def Let_def file_read_def)
  qed
qed

text \<open>Setting the size and writing the inode to its block.\<close>

lemma file_ok_size:
  assumes "file_ok i s"
  shows "file_ok i (upd_inode i (\<lambda>ip. ip\<lparr>i_size := x\<rparr>) s)"
    and "fmap i (upd_inode i (\<lambda>ip. ip\<lparr>i_size := x\<rparr>) s) n = fmap i s n"
    and "fbyte i (upd_inode i (\<lambda>ip. ip\<lparr>i_size := x\<rparr>) s) p = fbyte i s p"
proof -
  let ?t = "upd_inode i (\<lambda>ip. ip\<lparr>i_size := x\<rparr>) s"
  have i: "i < length (icache s)" by (rule file_okD(1) [OF assms])
  have at: "inode_at i ?t = (inode_at i s)\<lparr>i_size := x\<rparr>" using i by simp
  have b: "blk c ?t = blk c s" for c by simp
  have v: "valid ?t = valid s" "used ?t = used s" by (simp_all add: fun_eq_iff valid_def used_def)
  have ind: "ind_block i ?t = ind_block i s" by (simp add: ind_block_def at)
  show fm: "fmap i ?t n = fmap i s n" for n by (simp add: fmap_def at ind)
  show "fbyte i ?t p = fbyte i s p" by (simp add: fbyte_def fm)
  have w: "disk_wf ?t = disk_wf s" by (simp add: disk_wf_def v)
  have m: "file_meta ?t = file_meta s" "file_block i ?t = file_block i s"
    by (simp_all add: fun_eq_iff file_meta_def file_block_def v at)
  show "file_ok i ?t" using assms unfolding file_ok_def ind fm m at w by simp
qed

lemma iupdate_ok:
  assumes up: "iupdate i s = Inr t" and ok: "file_ok i s"
  shows "file_ok i t" and "fmap i t n = fmap i s n" and "inode_at i t = inode_at i s"
    and "p < 140 * 512 \<Longrightarrow> fbyte i t p = fbyte i s p"
proof -
  let ?b = "IBLOCK (i_inum (inode_at i s)) (fsb s)"
  let ?x = "put_dinode (i_inum (inode_at i s)) (to_dinode (inode_at i s)) (blk ?b s)"
  have put: "put_block ?b ?x s = Inr t" using up by (simp add: iupdate_def Let_def)
  have len: "length ?x = 512" using file_okD(3) [OF ok] by (simp add: put_dinode_def Let_def disk_wf_def)
  have nb: "valid s c \<Longrightarrow> ?b \<noteq> BBLOCK c (fsb s)" for c using file_okD(4) [OF ok] by (simp add: file_meta_def)
  have ni: "ind_block i s \<noteq> 0 \<Longrightarrow> ?b \<noteq> ind_block i s" using file_okD(5) [OF ok] by (auto simp: file_block_def)
  note k = file_ok_put [OF ok put len nb ni]
  show "file_ok i t" "inode_at i t = inode_at i s" using k(1,3) by simp_all
  show fm: "fmap i t n = fmap i s n" for n by (rule k(2))
  assume "p < 140 * 512"
  then have "p div 512 < 140" by (simp add: less_mult_imp_div_less)
  then have "fmap i s (p div 512) \<noteq> 0 \<Longrightarrow> fmap i s (p div 512) \<noteq> ?b"
    using file_okD(6) [OF ok] by (auto simp: file_block_def)
  then show "fbyte i t p = fbyte i s p" using put_blockD(1) [OF put] by (auto simp: fbyte_def fm)
qed

text \<open>The bytes of the file after the loop of \<open>writei\<close>, as a list.\<close>

lemma spliced_bytes:
  assumes "off \<le> n" and "m = max n (off + length src)"
    and "\<And>p. p < m \<Longrightarrow> g p = (if off \<le> p \<and> p < off + length src then src ! (p - off) else f p)"
  shows "map g [0..<m] = take off (map f [0..<n]) @ src @ drop (off + length src) (map f [0..<n])"
proof (rule nth_equalityI)
  show "length (map g [0..<m]) = length (take off (map f [0..<n]) @ src @ drop (off + length src) (map f [0..<n]))"
    using assms(1,2) by (simp add: max_def)
  fix p
  assume "p < length (map g [0..<m])"
  then have p: "p < m" by simp
  show "map g [0..<m] ! p = (take off (map f [0..<n]) @ src @ drop (off + length src) (map f [0..<n])) ! p"
    using p assms(1,2) assms(3) [OF p] by (auto simp: nth_append max_def split: if_splits)
qed

lemma writei_spec:
  assumes wf: "file_wf i s" and f: "file_write (unat off) src (file_bytes i s) = Some f"
    and w: "writei i src off s = Inr (r, t)"
  shows "r = int (length src) \<and> file_wf i t \<and> file_bytes i t = f"
proof -
  let ?sz = "i_size (inode_at i s)" and ?n = "of_nat (length src) :: u32"
  have ok: "file_ok i s" and ty: "i_type (inode_at i s) \<noteq> T_DEV" and sz: "unat ?sz \<le> 71680"
    and full: "\<And>k. k < 140 \<Longrightarrow> 512 * k < unat ?sz \<Longrightarrow> fmap i s k \<noteq> 0"
    using wf by (auto simp: file_wf_def MAXFILE_bytes)
  have len: "length (file_bytes i s) = unat ?sz" by (simp add: file_bytes_def)
  have le: "unat off \<le> unat ?sz" and lim: "unat off + length src \<le> 71680"
    and f_eq: "f = take (unat off) (file_bytes i s) @ src @ drop (unat off + length src) (file_bytes i s)"
    using f by (auto simp: file_write_def len MAXFILE_bytes split: if_splits)
  have un: "unat ?n = length src" using lim by (simp add: unat_of_nat take_bit_nat_eq_self)
  have sn: "sint ?n = int (length src)" using sint_small [of ?n] un lim by simp
  have uo: "unat (off + ?n) = unat off + length src" using unat_add_small [of off ?n] un lim by simp
  have g: "\<not> ?sz < off" "\<not> off + ?n < off" "\<not> of_nat (MAXFILE * BSIZE) < off + ?n"
    using le lim uo add_overflow_iff [of off ?n] un by (simp_all add: word_less_nat_alt MAXFILE_bytes)
  obtain off' s1 where l: "writei_loop i off src s = Inr (off', s1)"
    and k: "(if 0 < ?n \<and> i_size (inode_at i s1) < off'
        then kbind (iupdate i (upd_inode i (\<lambda>ip. ip\<lparr>i_size := off'\<rparr>) s1)) (\<lambda>s. Inr (sint ?n, s))
        else Inr (sint ?n, s1)) = Inr (r, t)"
    using w ty g by (auto simp: writei_def Let_def kres_simps)
  have L: "unat off' = unat off + length src" "file_ok i s1" "i_size (inode_at i s1) = ?sz"
    "i_type (inode_at i s1) = i_type (inode_at i s)"
    "\<And>p. p < 71680 \<Longrightarrow> fbyte i s1 p =
      (if unat off \<le> p \<and> p < unat off + length src then src ! (p - unat off) else fbyte i s p)"
    "\<And>m. m < 140 \<Longrightarrow> fmap i s m \<noteq> 0 \<or> src \<noteq> [] \<and> unat off < 512 * (m + 1) \<and> 512 * m < unat off + length src \<Longrightarrow>
      fmap i s1 m \<noteq> 0"
    using writei_loop_spec [OF l ok] lim by auto
  let ?m = "max (unat ?sz) (unat off + length src)"
  have T: "r = int (length src) \<and> file_ok i t \<and> unat (i_size (inode_at i t)) = ?m \<and>
      i_type (inode_at i t) = i_type (inode_at i s) \<and> (\<forall>p<71680. fbyte i t p = fbyte i s1 p) \<and> (\<forall>m. fmap i t m = fmap i s1 m)"
  proof (cases "0 < ?n \<and> i_size (inode_at i s1) < off'")
    case True
    let ?s2 = "upd_inode i (\<lambda>ip. ip\<lparr>i_size := off'\<rparr>) s1"
    have up: "iupdate i ?s2 = Inr t" and r: "r = sint ?n" using k True by (auto simp: kres_simps)
    have at: "inode_at i ?s2 = (inode_at i s1)\<lparr>i_size := off'\<rparr>" using file_okD(1) [OF L(2)] by simp
    note z = file_ok_size [OF L(2), of off']
    note u = iupdate_ok [OF up z(1)]
    have m: "?m = unat off'" using True L(1,3) by (simp add: word_less_nat_alt)
    have p: "\<forall>p<71680. fbyte i t p = fbyte i s1 p" "\<forall>m. fmap i t m = fmap i s1 m" using u(2,4) z(2,3) by simp_all
    show ?thesis unfolding m using u(1,3) p r sn L(4) at by simp
  next
    case False
    have "unat off + length src \<le> unat ?sz"
    proof (cases "src = []")
      case True
      then show ?thesis using le by simp
    next
      case ne: False
      then have "0 < ?n" using un by (simp add: word_less_nat_alt)
      then show ?thesis using False L(1,3) by (simp add: word_less_nat_alt)
    qed
    then show ?thesis using k False L(2-4) sn by (auto simp: max_def)
  qed
  have b: "file_bytes i t = f"
    unfolding file_bytes_def f_eq using T
    by (intro spliced_bytes) (use le sz lim L(5) in \<open>auto simp: max_def split: if_splits\<close>)
  have "fmap i t k \<noteq> 0" if k: "k < 140" "512 * k < unat (i_size (inode_at i t))" for k
  proof (cases "512 * k < unat ?sz")
    case True
    then show ?thesis using T L(6) [OF k(1)] full [OF k(1)] by simp
  next
    case False
    then have "512 * k < unat off + length src" "unat off < 512 * (k + 1)" using k(2) T le by auto
    moreover have "src \<noteq> []" using calculation(1) False le by auto
    ultimately show ?thesis using T L(6) [OF k(1)] by auto
  qed
  then have "file_wf i t" using T sz lim ty by (auto simp: file_wf_def MAXFILE_bytes)
  then show ?thesis using T b by blast
qed

lemma writei_rejects:
  assumes ty: "i_type (inode_at i s) \<noteq> T_DEV" and len: "length src < 2 ^ 32"
    and sz: "unat (i_size (inode_at i s)) \<le> MAXFILE * BSIZE"
    and f: "file_write (unat off) src (file_bytes i s) = None"
  shows "writei i src off s = Inr (-1, s)"
proof -
  let ?n = "of_nat (length src) :: u32"
  have un: "unat ?n = length src" using len by (simp add: unat_of_nat take_bit_nat_eq_self)
  have "unat off \<le> unat (i_size (inode_at i s)) \<Longrightarrow> unat off + length src < 2 ^ 32 \<Longrightarrow>
      unat (off + ?n) = unat off + length src"
    using unat_add_small [of off ?n] un by simp
  then have "i_size (inode_at i s) < off \<or> off + ?n < off \<or> of_nat (MAXFILE * BSIZE) < off + ?n"
    using f add_overflow_iff [of off ?n] un
    by (auto simp: file_write_def file_bytes_def word_less_nat_alt MAXFILE_bytes split: if_splits)
  then show ?thesis using ty by (auto simp: writei_def Let_def)
qed

lemma writei_err:
  assumes w: "writei i src off s = Inl e" and ty: "i_type (inode_at i s) \<noteq> T_DEV" and len: "length src < 2 ^ 32"
  shows "e \<in> write_errors"
proof -
  let ?n = "of_nat (length src) :: u32"
  have g: "\<not> off + ?n < off" "\<not> of_nat (MAXFILE * BSIZE) < off + ?n"
    and k: "kbind (writei_loop i off src s) (\<lambda>(off, s). if 0 < ?n \<and> i_size (inode_at i s) < off
        then kbind (iupdate i (upd_inode i (\<lambda>ip. ip\<lparr>i_size := off\<rparr>) s)) (\<lambda>s. Inr (sint ?n, s))
        else Inr (sint ?n, s)) = Inl e"
    using w ty by (auto simp: writei_def Let_def split: if_splits)
  have un: "unat ?n = length src" using len by (simp add: unat_of_nat take_bit_nat_eq_self)
  have lim: "unat off + length src \<le> 140 * 512"
    using g add_overflow_iff [of off ?n] unat_add_small [of off ?n] un by (simp add: word_less_nat_alt MAXFILE_bytes)
  show ?thesis
    using k writei_loop_err [OF _ lim] by (auto simp: kres_simps iupdate_def Let_def dest: put_block_err split: if_splits)
qed

text \<open>
  C16. \<open>writei\<close> implements a byte array: for an ordinary file it either refuses the write (-1, nothing
  changed), exactly when the offset lies beyond the end of the file or the result would be too long, or it
  replaces the bytes from the offset on by the source, extending the file as far as needed, or it panics
  because the disk or the transaction is full.
\<close>

theorem writei_refines:
  assumes "file_wf i s" and "length src < 2 ^ 32"
  shows "case writei i src off s of
      Inl e \<Rightarrow> file_write (unat off) src (file_bytes i s) \<noteq> None \<and> e \<in> write_errors
    | Inr (r, t) \<Rightarrow> (case file_write (unat off) src (file_bytes i s) of
        None \<Rightarrow> r = -1 \<and> t = s
      | Some f \<Rightarrow> r = int (length src) \<and> file_wf i t \<and> file_bytes i t = f)"
proof -
  have ty: "i_type (inode_at i s) \<noteq> T_DEV" and sz: "unat (i_size (inode_at i s)) \<le> MAXFILE * BSIZE"
    using assms(1) by (simp_all add: file_wf_def)
  show ?thesis
  proof (cases "file_write (unat off) src (file_bytes i s)")
    case None
    then show ?thesis using writei_rejects [OF ty assms(2) sz None] by simp
  next
    case f: (Some f)
    show ?thesis
    proof (cases "writei i src off s")
      case (Inl e)
      then show ?thesis using f writei_err [OF Inl ty assms(2)] by simp
    next
      case (Inr x)
      obtain r t where x: "x = (r, t)" by fastforce
      then show ?thesis using f Inr writei_spec [OF assms(1) f Inr [unfolded x]] by simp
    qed
  qed
qed

text \<open>
  C17. What has been written can be read back: after a write that was not refused, \<open>readi\<close> at the same offset
  returns exactly the bytes written and leaves the state alone.
\<close>

theorem writei_readi:
  assumes "file_wf i s" and "length src < 2 ^ 32" and "writei i src off s = Inr (r, t)" and "r \<noteq> -1"
  shows "readi i off (of_nat (length src)) t = Inr (int (length src), src, t)"
proof -
  have ty: "i_type (inode_at i s) \<noteq> T_DEV" and sz: "unat (i_size (inode_at i s)) \<le> MAXFILE * BSIZE"
    using assms(1) by (simp_all add: file_wf_def)
  obtain f where f: "file_write (unat off) src (file_bytes i s) = Some f"
    using writei_rejects [OF ty assms(2) sz] assms(3,4) by fastforce
  have t: "file_wf i t" "file_bytes i t = f" using writei_spec [OF assms(1) f assms(3)] by simp_all
  have le: "unat off \<le> length (file_bytes i s)" and lim: "unat off + length src \<le> 71680"
    and fe: "f = take (unat off) (file_bytes i s) @ src @ drop (unat off + length src) (file_bytes i s)"
    using f by (auto simp: file_write_def MAXFILE_bytes split: if_splits)
  have un: "unat (of_nat (length src) :: u32) = length src" using lim by (simp add: unat_of_nat take_bit_nat_eq_self)
  have r: "file_read (unat off) (length src) f = Some src" using le by (simp add: fe file_read_def)
  show ?thesis unfolding readi_exact [OF t(1)] un t(2) r using lim by simp
qed

text \<open>A disk with one file of three bytes.\<close>

definition demo_fs :: "(unit, unit) fsys_scheme" where
  "demo_fs = \<lparr>flog = \<lparr>disk = (\<lambda>b. if b = 2 then replicate 512 (-1) else replicate 512 0), cache = (\<lambda>b. None), wr = [],
       lstart = 1, lsize = 30, outstanding = 1, committing = False, lh = []\<rparr>,
     fsb = \<lparr>sb_size = 8, sb_nblocks = 4, sb_ninodes = 8, sb_nlog = 0, sb_logstart = 1, sb_inodestart = 3, sb_bmapstart = 2\<rparr>,
     icache = [\<lparr>i_dev = 1, i_inum = 1, i_ref = 1, i_lock = initsleeplock, i_valid = True, i_type = T_FILE, i_major = 0,
       i_minor = 0, i_nlink = 1, i_size = 3, i_addrs = 5 # replicate 12 0\<rparr>],
     fdev = (), devsw = (\<lambda>m. \<lparr>dev_read = None, dev_write = None\<rparr>)\<rparr>"

lemma demo_fs_wf: "file_wf 0 demo_fs"
proof -
  have sm: "valid demo_fs c \<longleftrightarrow> unat c < 8" for c by (simp add: valid_def demo_fs_def)
  have bb: "BBLOCK c (fsb demo_fs) = 2" if "unat c < 8" for c
  proof -
    have "unat (c div 4096) = 0" using that by (simp add: unat_div_distrib)
    then show ?thesis by (simp add: BBLOCK_eq demo_fs_def unat_eq_0)
  qed
  have bl: "blk c demo_fs = (if c = 2 then replicate 512 (-1) else replicate 512 0)" for c
    by (simp add: demo_fs_def bview_def)
  have us: "used demo_fs c" if "unat c < 8" for c
    using bitmask_index [of "unat c" "unat c"] bb [OF that] that by (simp add: used_def bl bit_free_def)
  have ib: "IBLOCK (i_inum (inode_at 0 demo_fs)) (fsb demo_fs) = 3" by (simp add: demo_fs_def IBLOCK_def IPB_def)
  have at: "i_addrs (inode_at 0 demo_fs) = 5 # replicate 12 0" by (simp add: demo_fs_def)
  have fm: "fmap 0 demo_fs n = (if n = 0 then 5 else 0)" for n
    by (auto simp: fmap_def ind_block_def at nth_Cons')
  have "file_ok 0 demo_fs"
    by (auto simp: file_ok_def disk_wf_def file_meta_def file_block_def ib fm sm bb us bl ind_block_def at split: if_splits)
      (simp_all add: demo_fs_def)
  then show ?thesis by (auto simp: file_wf_def fm MAXFILE_bytes) (simp_all add: demo_fs_def T_DEV_def T_FILE_def)
qed

theorem writei_refines_witness:
  "file_wf 0 demo_fs \<and> (case writei 0 [1, 2, 3, 4] 1 demo_fs of
      Inl e \<Rightarrow> file_write 1 [1, 2, 3, 4] (file_bytes 0 demo_fs) \<noteq> None \<and> e \<in> write_errors
    | Inr (r, t) \<Rightarrow> (case file_write 1 [1, 2, 3, 4] (file_bytes 0 demo_fs) of
        None \<Rightarrow> r = -1 \<and> t = demo_fs
      | Some f \<Rightarrow> r = 4 \<and> file_wf 0 t \<and> file_bytes 0 t = f))"
  using writei_refines [OF demo_fs_wf, of "[1, 2, 3, 4]" 1] demo_fs_wf
  by (auto split: sum.splits option.splits prod.splits)

lemma demo_write: "\<exists>t. writei 0 [1, 2, 3, 4] 1 demo_fs = Inr (4, t)"
  by (simp add: writei_def Let_def writei_loop.simps bmap_def NDIRECT_def put_block_def log_write_def LOGSIZE_def
      MAXOPBLOCKS_def demo_fs_def chunk_def BSIZE_def T_DEV_def T_FILE_def MAXFILE_def
      NINDIRECT_def iupdate_def)

theorem writei_readi_witness:
  "\<exists>t. writei 0 [1, 2, 3, 4] 1 demo_fs = Inr (4, t) \<and> readi 0 1 4 t = Inr (4, [1, 2, 3, 4], t)"
proof -
  obtain t where t: "writei 0 [1, 2, 3, 4] 1 demo_fs = Inr (4, t)" using demo_write by blast
  then show ?thesis using writei_readi [OF demo_fs_wf _ t] by auto
qed

end
