(* ===== verification/Proc.thy ===== *)
theory Proc
  imports Exec
begin

text \<open>
  Creation and end of processes (\<open>allocproc\<close>, \<open>userinit\<close>, \<open>fork\<close>, \<open>exit\<close>, \<open>wait\<close>, \<open>forkret\<close>) over the whole
  state of the paging kernel: the process table with its locks, the memory, the open files and the log.
  The fields of the running process live in the \<open>us_\<close> fields of the state, those of every other process
  in the table; \<open>save_cur\<close> and \<open>load_cur\<close> move them when a process stops and starts running.
\<close>

record 'd kstate = "'d estate" +
  ktab :: "proc ptab"
  us_regs :: trapframe
  kticks :: u32
  forkret_first :: bool

text \<open>
  What the code is given by the boot loader and the linker: the CPU it runs on, the end of the kernel
  image and the start of its data, the addresses of \<open>forkret\<close> and \<open>trapret\<close>, and the page that
  \<open>kalloc\<close> provides for a pipe.
\<close>

record kenv =
  ke_cpu :: nat
  ke_end :: u32
  ke_data :: u32
  ke_forkret :: u32
  ke_trapret :: u32
  ke_pipe :: "(nat \<times> u8 list) option"

text \<open>
  How a stretch of kernel code ends: with a result, asleep or yielded after \<open>sched\<close> (with the saved
  interrupt flag), or as a zombie that \<open>sched\<close> will not return to.
\<close>

datatype outcome = Done int | Asleep bool | Yielded bool | Dead bool

definition on_proc :: "nat \<Rightarrow> (proc \<Rightarrow> proc) \<Rightarrow> ('d, 'z) kstate_scheme \<Rightarrow> ('d, 'z) kstate_scheme" where
  "on_proc i f s = s\<lparr>ktab := upd_proc i f (ktab s)\<rparr>"

definition locked_ptable :: "nat \<Rightarrow> (proc ptab \<Rightarrow> 'r \<times> proc ptab) \<Rightarrow> ('d, 'z) kstate_scheme \<Rightarrow>
    ('r \<times> ('d, 'z) kstate_scheme) kres" where
  "locked_ptable c f s = kbind (critical c PtableLock f (ktab s)) (\<lambda>(r, t). Inr (r, s\<lparr>ktab := t\<rparr>))"

text \<open>The trap frame of the running process; \<open>eip\<close> and \<open>esp\<close> are kept in fields of their own.\<close>

definition cur_tf :: "('d, 'z) kstate_scheme \<Rightarrow> trapframe" where
  "cur_tf s = (us_regs s)\<lparr>tf_eip := us_eip s, tf_esp := us_esp s\<rparr>"

definition save_cur :: "('d, 'z) kstate_scheme \<Rightarrow> ('d, 'z) kstate_scheme" where
  "save_cur s = on_proc (us_slot s) (\<lambda>p. p\<lparr>p_sz := us_sz s, p_pgdir := us_pgdir s, p_tf := cur_tf s,
     p_ofile := us_ofile s, p_cwd := Some (us_cwd s), p_name := us_name s\<rparr>) s"

definition load_cur :: "nat \<Rightarrow> ('d, 'z) kstate_scheme \<Rightarrow> ('d, 'z) kstate_scheme" where
  "load_cur i s = (let p = proc_at i (ktab s) in
     s\<lparr>us_slot := i, us_pid := p_pid p, us_killed := p_killed p, us_sz := p_sz p, us_pgdir := p_pgdir p,
       us_regs := p_tf p, us_eip := tf_eip (p_tf p), us_esp := tf_esp (p_tf p), us_ofile := p_ofile p,
       us_cwd := (case p_cwd p of None \<Rightarrow> 0 | Some d \<Rightarrow> d), us_name := p_name p,
       us_mem := user_byte (p_pgdir p) (pm s)\<rparr>)"

subsection \<open>New processes\<close>

text \<open>
  The kernel stack of a new process: above the saved context, whose program counter is \<open>forkret\<close>, lies
  the return address \<open>trapret\<close>, above that the 76 bytes of the trap frame.
\<close>

definition stack_init :: "kenv \<Rightarrow> u8 list \<Rightarrow> u8 list" where
  "stack_init e pg = put32 4016 (ke_trapret e) (put32s 3996 [0, 0, 0, 0, ke_forkret e] pg)"

definition allocproc :: "kenv \<Rightarrow> ('d, 'z) kstate_scheme \<Rightarrow> (nat option \<times> ('d, 'z) kstate_scheme) kres" where
  "allocproc e s =
     kbind (locked_ptable (ke_cpu e) claim_slot s) (\<lambda>(r, s).
       case r of
         None \<Rightarrow> Inr (None, s)
       | Some i \<Rightarrow>
           (case kalloc (pm s) of (k, m) \<Rightarrow>
              if k = 0 then Inr (None, on_proc i (\<lambda>p. p\<lparr>p_kstack := 0, p_state := UNUSED\<rparr>) s)
              else
                let s = s\<lparr>pm := set_page k (stack_init e (pages m k)) m\<rparr>;
                    s = on_proc i (\<lambda>p. p\<lparr>p_kstack := k, p_context := zero_context\<lparr>cx_eip := ke_forkret e\<rparr>\<rparr>) s
                in kbind (alloc_meta i (p_pid (proc_at i (ktab s))) s) (\<lambda>s. Inr (Some i, s))))"

definition make_runnable :: "nat \<Rightarrow> nat \<Rightarrow> ('d, 'z) kstate_scheme \<Rightarrow> ('d, 'z) kstate_scheme kres" where
  "make_runnable c i s =
     kbind (locked_ptable c (\<lambda>t. ((), upd_proc i (\<lambda>p. p\<lparr>p_state := RUNNABLE\<rparr>) t)) s) (\<lambda>(_, s). Inr s)"

definition user_tf :: trapframe where
  "user_tf = zero_tf\<lparr>tf_cs := 0x1B, tf_ds := 0x23, tf_es := 0x23, tf_ss := 0x23, tf_eflags := 0x200,
     tf_esp := PGSIZE, tf_eip := 0\<rparr>"

definition userinit :: "kenv \<Rightarrow> u8 list \<Rightarrow> u32 \<Rightarrow> ('d, 'z) kstate_scheme \<Rightarrow> ('d, 'z) kstate_scheme kres" where
  "userinit e init isz s =
     kbind (allocproc e s) (\<lambda>(r, s).
       case r of
         None \<Rightarrow> Inl (Fault ''null'')
       | Some i \<Rightarrow>
           let s = s\<lparr>ktab := (ktab s)\<lparr>initproc := Some i\<rparr>\<rparr> in
           kbind (setupkvm (ke_end e) (ke_data e) (pm s)) (\<lambda>(d, m).
             if d = 0 then Inl (Panic ''userinit: out of memory?'')
             else kbind (inituvm d init isz m) (\<lambda>m.
               let s = on_proc i (\<lambda>p. p\<lparr>p_pgdir := d, p_sz := PGSIZE, p_tf := user_tf,
                         p_name := map of_char ''initcode''\<rparr>) (s\<lparr>pm := m\<rparr>) in
               kbind (namei (us_pid s) (us_cwd s) [slash] s) (\<lambda>(d, s).
                 make_runnable (ke_cpu e) i (on_proc i (\<lambda>p. p\<lparr>p_cwd := d\<rparr>) s)))))"

fun dup_files :: "nat option list \<Rightarrow> ('d, 'z) kstate_scheme \<Rightarrow> ('d, 'z) kstate_scheme kres" where
  "dup_files [] s = Inr s"
| "dup_files (None # fs) s = dup_files fs s"
| "dup_files (Some f # fs) s = kbind (filedup f s) (dup_files fs)"

text \<open>Entries for which the parent has no file keep what the slot held before.\<close>

definition inherit_files :: "nat option list \<Rightarrow> nat option list \<Rightarrow> nat option list" where
  "inherit_files ps cs = map2 (\<lambda>p c. if p = None then c else p) ps cs"

definition fork :: "kenv \<Rightarrow> ('d, 'z) kstate_scheme \<Rightarrow> (int \<times> ('d, 'z) kstate_scheme) kres" where
  "fork e s =
     kbind (allocproc e s) (\<lambda>(r, s).
       case r of
         None \<Rightarrow> Inr (-1, s)
       | Some np \<Rightarrow>
           kbind (copyuvm (ke_end e) (ke_data e) (us_pgdir s) (us_sz s) (pm s)) (\<lambda>(d, m).
             let s = on_proc np (\<lambda>p. p\<lparr>p_pgdir := d\<rparr>) (s\<lparr>pm := m\<rparr>) in
             if d = 0 then
               kbind (kfree (ke_end e) (p_kstack (proc_at np (ktab s))) (pm s)) (\<lambda>m.
                 Inr (-1, on_proc np (\<lambda>p. p\<lparr>p_kstack := 0, p_state := UNUSED\<rparr>) (s\<lparr>pm := m\<rparr>)))
             else
               let s = on_proc np (\<lambda>p. p\<lparr>p_sz := us_sz s, p_parent := Some (us_slot s), p_tf := (cur_tf s)\<lparr>tf_eax := 0\<rparr>\<rparr>) s in
               kbind (dup_files (us_ofile s) s) (\<lambda>s.
               let s = idup (us_cwd s) s;
                   s = on_proc np (\<lambda>p. p\<lparr>p_ofile := inherit_files (us_ofile s) (p_ofile p), p_cwd := Some (us_cwd s),
                         p_name := us_name s\<rparr>) s;
                   pid = p_pid (proc_at np (ktab s)) in
               kbind (fork_meta np s) (\<lambda>s.
               kbind (make_runnable (ke_cpu e) np s) (\<lambda>s. Inr (sint pid, s))))))"

text \<open>The first return of a new process; the first one of all initialises the inode cache and the log.\<close>

definition forkret :: "nat \<Rightarrow> ('d, 'z) kstate_scheme \<Rightarrow> ('d, 'z) kstate_scheme kres" where
  "forkret c s =
     kbind (release c PtableLock (pmach (ktab s))) (\<lambda>m.
       let s = s\<lparr>ktab := (ktab s)\<lparr>pmach := m\<rparr>\<rparr> in
       if forkret_first s then
         let s = iinit (s\<lparr>forkret_first := False\<rparr>); sb = readsb s in
         kbind (initlog (sb_logstart sb) (sb_nlog sb) (flog s)) (\<lambda>l. Inr (s\<lparr>flog := l\<rparr>))
       else Inr s)"

subsection \<open>The end of a process\<close>

fun close_files :: "nat list \<Rightarrow> ('d, 'z) kstate_scheme \<Rightarrow> ('d, 'z) kstate_scheme kres" where
  "close_files [] s = Inr s"
| "close_files (fd # fds) s =
     (case us_ofile s ! fd of
        None \<Rightarrow> close_files fds s
      | Some f \<Rightarrow> kbind (fileclose (us_pid s) f s) (\<lambda>s. close_files fds (s\<lparr>us_ofile := (us_ofile s)[fd := None]\<rparr>)))"

text \<open>
  \<open>exit\<close> up to the \<open>swtch\<close> in \<open>sched\<close>; there is always an initial process to which the children go.
\<close>

definition exit :: "nat \<Rightarrow> ('d, 'z) kstate_scheme \<Rightarrow> (outcome \<times> ('d, 'z) kstate_scheme) kres" where
  "exit c s =
     (case initproc (ktab s) of
        None \<Rightarrow> Inl (Fault ''null'')
      | Some ini \<Rightarrow>
         if us_slot s = ini then Inl (Panic ''init exiting'')
         else
           kbind (close_files [0..<NOFILE] s) (\<lambda>s.
           kbind (removeSwapFile (us_slot s) s) (\<lambda>(r, s).
             if r \<noteq> 0 then Inl (Panic ''Swap File Remove Failed'')
             else
               kbind (do_begin_op s) (\<lambda>s.
               kbind (iput (us_pid s) (us_cwd s) s) (\<lambda>s.
               kbind (do_end_op s) (\<lambda>s.
               let s = on_proc (us_slot s) (\<lambda>p. p\<lparr>p_cwd := None\<rparr>) (save_cur s) in
               kbind (acquire c PtableLock (pmach (ktab s))) (\<lambda>m.
               let t = exit_table (us_slot s) ini ((ktab s)\<lparr>pmach := m\<rparr>) in
               kbind (sched_enter c t) (\<lambda>(ie, t). Inr (Dead ie, s\<lparr>ktab := t\<rparr>)))))))))"

text \<open>
  \<open>wait\<close> with \<open>ptable.lock\<close> held, from the start of a scan to the return or the next \<open>sleep\<close>.
\<close>

definition wait_step :: "kenv \<Rightarrow> ('d, 'z) kstate_scheme \<Rightarrow> (outcome \<times> ('d, 'z) kstate_scheme) kres" where
  "wait_step e s =
     (let c = ke_cpu e; cur = us_slot s; t = ktab s in
      case wait_scan cur t of
        Exited i \<Rightarrow>
          let p = proc_at i t in
          kbind (kfree (ke_end e) (p_kstack p) (pm s)) (\<lambda>m.
          kbind (freevm (ke_end e) (p_pgdir p) m) (\<lambda>m.
          kbind (release c PtableLock (pmach t)) (\<lambda>k.
            Inr (Done (sint (p_pid p)), s\<lparr>pm := m, ktab := (reap_slot i t)\<lparr>pmach := k\<rparr>\<rparr>))))
      | r \<Rightarrow>
          if r = NoKids \<or> p_killed (proc_at cur t) then
            kbind (release c PtableLock (pmach t)) (\<lambda>k. Inr (Done (-1), s\<lparr>ktab := t\<lparr>pmach := k\<rparr>\<rparr>))
          else
            let s = save_cur s in
            kbind (sleep_enter c (ChanProc cur) (Some PtableLock) (ktab s)) (\<lambda>(ie, t). Inr (Asleep ie, s\<lparr>ktab := t\<rparr>)))"

definition wait :: "kenv \<Rightarrow> ('d, 'z) kstate_scheme \<Rightarrow> (outcome \<times> ('d, 'z) kstate_scheme) kres" where
  "wait e s =
     kbind (acquire (ke_cpu e) PtableLock (pmach (ktab s))) (\<lambda>m. wait_step e (s\<lparr>ktab := (ktab s)\<lparr>pmach := m\<rparr>\<rparr>))"

subsection \<open>The process listing\<close>

text \<open>
  What \<open>procdump\<close> prints of the processes and their page tables: entry numbers and physical page numbers.
  The call stack of a sleeping process is left out.
\<close>

definition dumped :: "u32 \<Rightarrow> bool" where
  "dumped w \<longleftrightarrow> w AND PTE_P \<noteq> 0 \<and> w AND PTE_U \<noteq> 0"

definition dump_table :: "u32 \<Rightarrow> pmem \<Rightarrow> (nat \<times> u32) list" where
  "dump_table t m = map (\<lambda>j. (j, drop_bit 12 (PTE_ADDR (pte_get (t, of_nat j) m))))
     (filter (\<lambda>j. dumped (pte_get (t, of_nat j) m)) [0..<NPDENTRIES])"

definition dump_pgdir :: "u32 \<Rightarrow> pmem \<Rightarrow> (nat \<times> u32 \<times> (nat \<times> u32) list) list" where
  "dump_pgdir pgdir m = map (\<lambda>i. let pde = pte_get (pgdir, of_nat i) m in
       (i, drop_bit 12 (PTE_ADDR pde), dump_table (P2V (PTE_ADDR pde)) m))
     (filter (\<lambda>i. dumped (pte_get (pgdir, of_nat i) m)) [0..<NPDENTRIES div 2])"

definition procdump :: "('d, 'z) kstate_scheme \<Rightarrow>
    (u32 \<times> procstate \<times> u8 list \<times> u32 \<times> (nat \<times> u32 \<times> (nat \<times> u32) list) list) list" where
  "procdump s = map (\<lambda>p. (p_pid p, p_state p, p_name p, p_pgdir p, dump_pgdir (p_pgdir p) (pm s)))
     (filter (\<lambda>p. p_state p \<noteq> UNUSED) (procs (ktab s)))"

end
