(* ===== verification/Icache.thy ===== *)
theory Icache
  imports Sysfile
begin

text \<open>
  What the operations of the inode layer leave alone, and the invariant of the inode cache: no inode has
  two entries. The state of an operation is compared by its \<open>rim\<close>, everything but the log, the cached
  inodes and the devices, and by the identities of the cached inodes.
\<close>

declare balloc_from.simps [simp del] readi_loop.simps [simp del] writei_loop.simps [simp del]
  dirlookup_loop.simps [simp del] empty_dirent.simps [simp del] isdirempty_loop.simps [simp del]
  namex_loop.simps [simp del]

named_theorems frame \<open>what an operation leaves alone\<close>

definition rim :: "('d, 'z) fsys_scheme \<Rightarrow> superblock \<times> (u16 \<Rightarrow> 'd devops) \<times> nat \<times> 'z" where
  "rim s = (fsb s, devsw s, length (icache s), fsys.more s)"

definition idents :: "('d, 'z) fsys_scheme \<Rightarrow> (u32 \<times> u32 \<times> int) list" where
  "idents s = map (\<lambda>ip. (i_dev ip, i_inum ip, i_ref ip)) (icache s)"

lemma rim_flog [simp]: "rim (s\<lparr>flog := l\<rparr>) = rim s" "rim (s\<lparr>fdev := d\<rparr>) = rim s"
  by (simp_all add: rim_def)

lemma rim_upd_inode [simp]: "rim (upd_inode i f s) = rim s"
  by (simp add: rim_def upd_inode_def)

lemma idents_flog [simp]: "idents (s\<lparr>flog := l\<rparr>) = idents s" "idents (s\<lparr>fdev := d\<rparr>) = idents s"
  by (simp_all add: idents_def)

lemma idents_upd_inode:
  "(\<And>ip. i_dev (f ip) = i_dev ip \<and> i_inum (f ip) = i_inum ip \<and> i_ref (f ip) = i_ref ip) \<Longrightarrow>
   idents (upd_inode i f s) = idents s"
  by (simp add: idents_def upd_inode_def map_modify)

lemma idents_flags [simp]:
  "idents (upd_inode i (\<lambda>ip. ip\<lparr>i_lock := lk ip\<rparr>) s) = idents s"
  "idents (upd_inode i (\<lambda>ip. ip\<lparr>i_addrs := ad ip\<rparr>) s) = idents s"
  "idents (upd_inode i (\<lambda>ip. ip\<lparr>i_size := sz\<rparr>) s) = idents s"
  "idents (upd_inode i (\<lambda>ip. ip\<lparr>i_type := ty\<rparr>) s) = idents s"
  "idents (upd_inode i (\<lambda>ip. ip\<lparr>i_valid := v\<rparr>) s) = idents s"
  "idents (upd_inode i (\<lambda>ip. ip\<lparr>i_nlink := ln ip\<rparr>) s) = idents s"
  "idents (upd_inode i (\<lambda>ip. ip\<lparr>i_major := ma, i_minor := mi, i_nlink := k\<rparr>) s) = idents s"
  "idents (upd_inode i (\<lambda>ip. ip\<lparr>i_type := ty, i_major := ma, i_minor := mi, i_nlink := k, i_size := sz,
     i_addrs := ads, i_valid := v\<rparr>) s) = idents s"
  by (simp_all add: idents_upd_inode)

subsection \<open>Operations that keep identities and references\<close>

lemma put_block_frame [frame]: "put_block b x s = Inr t \<Longrightarrow> rim t = rim s \<and> idents t = idents s"
  by (auto simp: put_block_def kres_simps)

lemma begin_end_frame [frame]:
  "do_begin_op s = Inr t \<Longrightarrow> rim t = rim s \<and> idents t = idents s"
  "do_end_op s = Inr t \<Longrightarrow> rim t = rim s \<and> idents t = idents s"
  by (auto simp: do_begin_op_def do_end_op_def kres_simps)

lemma balloc_from_frame: "balloc_from k s = Inr (b, t) \<Longrightarrow> rim t = rim s \<and> idents t = idents s"
proof (induction k s rule: balloc_from.induct)
  case (1 k s)
  from 1(2) show ?case
    by (subst (asm) balloc_from.simps)
       (auto simp: Let_def kres_simps bzero_def dest!: put_block_frame 1(1) split: if_splits option.splits)
qed

lemma balloc_frame [frame]: "balloc s = Inr (b, t) \<Longrightarrow> rim t = rim s \<and> idents t = idents s"
  unfolding balloc_def by (rule balloc_from_frame)

lemma bfree_frame [frame]: "bfree b s = Inr t \<Longrightarrow> rim t = rim s \<and> idents t = idents s"
  by (auto simp: bfree_def Let_def dest: put_block_frame split: if_splits)

lemma free_blocks_frame [frame]: "free_blocks bs s = Inr t \<Longrightarrow> rim t = rim s \<and> idents t = idents s"
proof (induction bs arbitrary: s)
  case (Cons b bs)
  from Cons.prems show ?case by (auto simp: kres_simps dest!: bfree_frame Cons.IH split: if_splits)
qed simp

lemma iupdate_frame [frame]: "iupdate i s = Inr t \<Longrightarrow> rim t = rim s \<and> idents t = idents s"
  by (auto simp: iupdate_def Let_def dest: put_block_frame)

lemma set_nlink_frame [frame]: "set_nlink i g s = Inr t \<Longrightarrow> rim t = rim s \<and> idents t = idents s"
  by (auto simp: set_nlink_def dest!: iupdate_frame)

lemma lock_inode_frame [frame]: "lock_inode pid i s = Inr t \<Longrightarrow> rim t = rim s \<and> idents t = idents s"
  by (auto simp: lock_inode_def split: prod.splits sl_end.splits)

lemma ilock_frame [frame]: "ilock pid i s = Inr t \<Longrightarrow> rim t = rim s \<and> idents t = idents s"
  by (auto simp: ilock_def Let_def kres_simps dest!: lock_inode_frame split: if_splits)

lemma iunlock_frame [frame]: "iunlock pid i s = Inr t \<Longrightarrow> rim t = rim s \<and> idents t = idents s"
  by (auto simp: iunlock_def unlock_inode_def split: if_splits)

lemma bmap_frame [frame]: "bmap i bn s = Inr (b, t) \<Longrightarrow> rim t = rim s \<and> idents t = idents s"
  by (auto simp: bmap_def Let_def kres_simps dest!: balloc_frame put_block_frame split: if_splits)

lemma itrunc_frame [frame]: "itrunc i s = Inr t \<Longrightarrow> rim t = rim s \<and> idents t = idents s"
  by (auto simp: itrunc_def Let_def kres_simps dest!: free_blocks_frame bfree_frame iupdate_frame split: if_splits)

lemma readi_loop_frame: "readi_loop i off r s = Inr (bs, t) \<Longrightarrow> rim t = rim s \<and> idents t = idents s"
proof (induction r arbitrary: off s bs rule: less_induct)
  case (less r)
  have "\<And>m. 0 < r \<Longrightarrow> 0 < m \<Longrightarrow> r - m < r" by simp
  then have "0 < r \<Longrightarrow> r - chunk off r < r" using chunk_pos [of r off] by simp
  note IH = less.IH [OF this]
  from less.prems show ?case
    by (subst (asm) readi_loop.simps)
       (auto simp: Let_def kres_simps dest!: bmap_frame IH [rotated] split: if_splits)
qed

lemma writei_loop_frame: "writei_loop i off src s = Inr (o', t) \<Longrightarrow> rim t = rim s \<and> idents t = idents s"
proof (induction "length src" arbitrary: off src s rule: less_induct)
  case less
  have "src \<noteq> [] \<Longrightarrow> length (drop (chunk off (length src)) src) < length src"
    using chunk_pos [of "length src" off] by simp
  note IH = less.hyps [OF this]
  from less.prems show ?case
    by (subst (asm) writei_loop.simps)
       (auto simp: Let_def kres_simps dest!: bmap_frame put_block_frame IH [rotated] split: if_splits)
qed

lemma readi_frame [frame]: "readi i off n s = Inr (r, bs, t) \<Longrightarrow> rim t = rim s \<and> idents t = idents s"
  by (auto simp: readi_def Let_def kres_simps dest!: readi_loop_frame split: if_splits option.splits)

lemma writei_frame [frame]: "writei i src off s = Inr (r, t) \<Longrightarrow> rim t = rim s \<and> idents t = idents s"
  by (auto simp: writei_def Let_def kres_simps dest!: writei_loop_frame iupdate_frame split: if_splits option.splits)

lemma sameD: "idents t = idents s \<Longrightarrow> map (\<lambda>ip. i_ref ip) (icache t) = map (\<lambda>ip. i_ref ip) (icache s)"
  unfolding idents_def by (drule arg_cong [where f = "map (snd \<circ> snd)"]) (simp add: comp_def)

subsection \<open>Operations that move references\<close>

lemma idents_len [simp]: "length (idents s) = length (icache s)"
  by (simp add: idents_def)

lemma idents_nth: "i < length (icache s) \<Longrightarrow> idents s ! i = (i_dev (inode_at i s), i_inum (inode_at i s), i_ref (inode_at i s))"
  by (simp add: idents_def)

text \<open>No inode has two entries that are in use.\<close>

definition one_entry :: "(u32 \<times> u32 \<times> int) list \<Rightarrow> bool" where
  "one_entry xs \<longleftrightarrow> (\<forall>i<length xs. \<forall>j<length xs. case (xs ! i, xs ! j) of ((d, n, r), (d', n', r')) \<Rightarrow>
     0 < r \<and> 0 < r' \<and> d = d' \<and> n = n' \<longrightarrow> i = j)"

lemma one_entryD:
  "one_entry xs \<Longrightarrow> i < length xs \<Longrightarrow> j < length xs \<Longrightarrow> xs ! i = (d, n, r) \<Longrightarrow> xs ! j = (d, n, r') \<Longrightarrow> 0 < r \<Longrightarrow> 0 < r' \<Longrightarrow> i = j"
  unfolding one_entry_def by (drule spec, drule mp, assumption, drule spec [of _ j]) simp

lemma one_entry_count:
  assumes "one_entry xs" "i < length xs" "xs ! i = (d, n, r)" "0 < r' \<Longrightarrow> 0 < r"
  shows "one_entry (xs[i := (d, n, r')])"
  using one_entryD [OF assms(1)] assms(2-) unfolding one_entry_def by (auto simp: nth_list_update split: prod.splits)

lemma one_entry_new:
  assumes "one_entry xs" "\<forall>j<length xs. case xs ! j of (d', n', r') \<Rightarrow> \<not> (0 < r' \<and> d' = d \<and> n' = n)"
  shows "one_entry (xs[i := (d, n, r)])"
proof (cases "i < length xs")
  case True
  show ?thesis
    using one_entryD [OF assms(1)] assms(2) True unfolding one_entry_def by (auto simp: nth_list_update split: prod.splits)
next
  case False
  then have "xs[i := (d, n, r)] = xs" by (intro list_update_beyond) simp
  then show ?thesis using assms(1) by simp
qed

lemma idents_upd:
  "i < length (icache s) \<Longrightarrow> idents (upd_inode i f s) =
     (idents s)[i := (i_dev (f (inode_at i s)), i_inum (f (inode_at i s)), i_ref (f (inode_at i s)))]"
  by (simp add: idents_def upd_inode_def modify_def map_update)

lemma iget_rim [frame]: "iget dev inum s = Inr (i, t) \<Longrightarrow> rim t = rim s"
  by (auto simp: iget_def split: option.splits)

lemma iget_one_entry:
  assumes "iget dev inum s = Inr (i, t)" "one_entry (idents s)"
  shows "one_entry (idents t)"
proof (cases "first_index (\<lambda>ip. 0 < i_ref ip \<and> i_dev ip = dev \<and> i_inum ip = inum) (icache s)")
  case (Some k)
  then have "k < length (icache s)" and "0 < i_ref (inode_at k s)" by (auto dest: first_index_SomeD)
  then show ?thesis
    using assms Some one_entry_count [OF assms(2), of k] by (auto simp: iget_def idents_upd idents_nth)
next
  case None
  then have "\<forall>ip\<in>set (icache s). \<not> (0 < i_ref ip \<and> i_dev ip = dev \<and> i_inum ip = inum)" by (simp add: first_index_None)
  then have "\<forall>j<length (idents s). case idents s ! j of (d', n', r') \<Rightarrow> \<not> (0 < r' \<and> d' = dev \<and> n' = inum)"
    by (auto simp: idents_nth)
  then show ?thesis
    using assms None one_entry_new [OF assms(2)] by (auto simp: iget_def idents_upd split: option.splits dest!: first_index_SomeD(1))
qed

lemma iputD:
  assumes "iput pid i s = Inr t"
  shows "\<exists>u. rim u = rim s \<and> idents u = idents s \<and> t = upd_inode i (\<lambda>ip. ip\<lparr>i_ref := i_ref ip - 1\<rparr>) u"
proof -
  from assms obtain a v where a: "lock_inode pid i s = Inr a"
    and m: "(let ip = inode_at i a in
            if i_valid ip \<and> i_nlink ip = 0 \<and> i_ref ip = 1 then
              kbind (itrunc i a) (\<lambda>s.
              kbind (iupdate i (upd_inode i (\<lambda>ip. ip\<lparr>i_type := 0\<rparr>) s)) (\<lambda>s.
                Inr (upd_inode i (\<lambda>ip. ip\<lparr>i_valid := False\<rparr>) s)))
            else Inr a) = Inr v"
    and t: "t = upd_inode i (\<lambda>ip. ip\<lparr>i_ref := i_ref ip - 1\<rparr>) (unlock_inode i v)"
    by (simp only: iput_def kres_simps) blast
  have "rim v = rim a \<and> idents v = idents a"
    using m by (auto simp: Let_def kres_simps dest!: itrunc_frame iupdate_frame split: if_splits)
  with lock_inode_frame [OF a] t show ?thesis
    by (intro exI [of _ "unlock_inode i v"]) (simp add: unlock_inode_def)
qed

lemma iput_rim [frame]: "iput pid i s = Inr t \<Longrightarrow> rim t = rim s"
  by (auto dest!: iputD)

lemma iput_one_entry:
  assumes "iput pid i s = Inr t" "one_entry (idents s)"
  shows "one_entry (idents t)"
proof -
  obtain u where u: "rim u = rim s" "idents u = idents s" "t = upd_inode i (\<lambda>ip. ip\<lparr>i_ref := i_ref ip - 1\<rparr>) u"
    using iputD [OF assms(1)] by blast
  show ?thesis
  proof (cases "i < length (icache u)")
    case True
    have "one_entry (idents u)" using assms(2) u(2) by simp
    then show ?thesis
      unfolding u(3) idents_upd [OF True] using True
      by (intro one_entry_count [where r = "i_ref (inode_at i u)"]) (simp_all add: idents_nth)
  next
    case False
    then have "upd_inode i (\<lambda>ip. ip\<lparr>i_ref := i_ref ip - 1\<rparr>) u = u"
      by (simp add: upd_inode_def modify_def list_update_beyond)
    then show ?thesis using u assms(2) by simp
  qed
qed

lemma iunlockput_frame [frame]: "iunlockput pid i s = Inr t \<Longrightarrow> rim t = rim s"
  by (auto simp: iunlockput_def kres_simps dest!: iunlock_frame iput_rim)

lemma ialloc_loop_frame:
  "ialloc_loop dev ty ns s = Inr (i, t) \<Longrightarrow> rim t = rim s \<and> (one_entry (idents s) \<longrightarrow> one_entry (idents t))"
proof (induction ns)
  case (Cons n ns)
  from Cons.prems show ?case
    by (auto simp: Let_def kres_simps iget_one_entry dest!: put_block_frame dest: Cons.IH iget_rim split: if_splits)
qed simp

lemma ialloc_frame [frame]:
  "ialloc dev ty s = Inr (i, t) \<Longrightarrow> rim t = rim s \<and> (one_entry (idents s) \<longrightarrow> one_entry (idents t))"
  unfolding ialloc_def by (rule ialloc_loop_frame)

lemma dirlookup_loop_frame:
  "dirlookup_loop dp name off sz s = Inr (r, t) \<Longrightarrow> rim t = rim s \<and> (one_entry (idents s) \<longrightarrow> one_entry (idents t))"
proof (induction "sz - off" arbitrary: off s rule: less_induct)
  case less
  have "off < sz \<Longrightarrow> sz - (off + 16) < sz - off" by simp
  note IH = less.hyps [OF this]
  from less.prems show ?case
    by (subst (asm) dirlookup_loop.simps)
       (auto simp: Let_def kres_simps iget_one_entry dest!: readi_frame IH [rotated] dest: iget_rim split: if_splits)
qed

lemma dirlookup_frame [frame]:
  "dirlookup dp name s = Inr (r, t) \<Longrightarrow> rim t = rim s \<and> (one_entry (idents s) \<longrightarrow> one_entry (idents t))"
  by (auto simp: dirlookup_def dest: dirlookup_loop_frame split: if_splits)

lemma empty_dirent_frame: "empty_dirent dp off sz s = Inr (r, t) \<Longrightarrow> rim t = rim s \<and> idents t = idents s"
proof (induction "sz - off" arbitrary: off s rule: less_induct)
  case less
  have "off < sz \<Longrightarrow> sz - (off + 16) < sz - off" by simp
  note IH = less.hyps [OF this]
  from less.prems show ?case
    by (subst (asm) empty_dirent.simps) (auto simp: kres_simps dest!: readi_frame IH [rotated] split: if_splits)
qed

lemma isdirempty_loop_frame: "isdirempty_loop dp off sz s = Inr (r, t) \<Longrightarrow> rim t = rim s \<and> idents t = idents s"
proof (induction "sz - off" arbitrary: off s rule: less_induct)
  case less
  have "off < sz \<Longrightarrow> sz - (off + 16) < sz - off" by simp
  note IH = less.hyps [OF this]
  from less.prems show ?case
    by (subst (asm) isdirempty_loop.simps) (auto simp: kres_simps dest!: readi_frame IH [rotated] split: if_splits)
qed

lemma isdirempty_frame [frame]: "isdirempty dp s = Inr (r, t) \<Longrightarrow> rim t = rim s \<and> idents t = idents s"
  unfolding isdirempty_def by (rule isdirempty_loop_frame)

lemma dirlookup_rim [frame]: "dirlookup dp name s = Inr (r, t) \<Longrightarrow> rim t = rim s"
  by (simp add: dirlookup_frame)

lemma dirlink_rim [frame]: "dirlink pid dp name inum s = Inr (r, t) \<Longrightarrow> rim t = rim s"
  by (auto simp: dirlink_def kres_simps dest!: dirlookup_rim empty_dirent_frame writei_frame iput_rim
      split: option.splits if_splits)

lemma dirlink_one_entry: "dirlink pid dp name inum s = Inr (r, t) \<Longrightarrow> one_entry (idents s) \<Longrightarrow> one_entry (idents t)"
  by (auto simp: dirlink_def kres_simps dest!: dirlookup_frame empty_dirent_frame writei_frame
      dest: iput_one_entry split: option.splits if_splits)

lemma namex_loop_rim: "namex_loop pid par path name ip s = Inr (r, t) \<Longrightarrow> rim t = rim s"
proof (induction "length path" arbitrary: par path name ip s rule: less_induct)
  case less
  have IH: "namex_loop pid par' p n i u = Inr (r, t) \<Longrightarrow> length p < length path \<Longrightarrow> rim t = rim u" for par' p n i u
    using less.hyps by blast
  from less.prems show ?case
    by (subst (asm) namex_loop.simps,
        auto simp: kres_simps dest!: ilock_frame iunlock_frame dirlookup_rim iunlockput_frame iput_rim
          IH split: option.splits if_splits)
       (erule skipelem_shorter)+
qed

lemma namex_rim: "namex pid cwd par path s = Inr (r, t) \<Longrightarrow> rim t = rim s"
  by (auto simp: namex_def idup_def kres_simps dest!: namex_loop_rim iget_rim split: if_splits)

lemma namei_rim [frame]: "namei pid cwd path s = Inr (r, t) \<Longrightarrow> rim t = rim s"
  by (auto simp: namei_def kres_simps dest!: namex_rim)

lemma nameiparent_rim [frame]: "nameiparent pid cwd path s = Inr (r, t) \<Longrightarrow> rim t = rim s"
  unfolding nameiparent_def by (rule namex_rim)

subsection \<open>The invariant\<close>

text \<open>
  The operations on inodes, in any order. The caller of \<open>idup\<close> holds a reference. The operations that
  read and write the contents of an inode or of a directory are given the arguments that they get.
\<close>

inductive icache_step :: "('d, 'z) fsys_scheme \<Rightarrow> ('d, 'z) fsys_scheme \<Rightarrow> bool" where
  step_iget: "iget dev inum s = Inr (i, t) \<Longrightarrow> icache_step s t"
| step_idup: "i < length (icache s) \<Longrightarrow> 0 < i_ref (inode_at i s) \<Longrightarrow> icache_step s (idup i s)"
| step_iput: "iput pid i s = Inr t \<Longrightarrow> icache_step s t"
| step_ialloc: "ialloc dev ty s = Inr (i, t) \<Longrightarrow> icache_step s t"
| step_ilock: "ilock pid i s = Inr t \<Longrightarrow> icache_step s t"
| step_iunlock: "iunlock pid i s = Inr t \<Longrightarrow> icache_step s t"
| step_nlink: "set_nlink i g s = Inr t \<Longrightarrow> icache_step s t"
| step_readi: "readi i off n s = Inr (r, bs, t) \<Longrightarrow> icache_step s t"
| step_writei: "writei i src off s = Inr (r, t) \<Longrightarrow> icache_step s t"
| step_dirlookup: "dirlookup dp name s = Inr (f, t) \<Longrightarrow> icache_step s t"
| step_dirlink: "dirlink pid dp name inum s = Inr (r, t) \<Longrightarrow> icache_step s t"
| step_begin: "do_begin_op s = Inr t \<Longrightarrow> icache_step s t"
| step_end: "do_end_op s = Inr t \<Longrightarrow> icache_step s t"

definition icache_empty :: "('d, 'z) fsys_scheme \<Rightarrow> bool" where
  "icache_empty s \<longleftrightarrow> (\<forall>ip\<in>set (icache s). i_ref ip = 0)"

lemma idup_one_entry:
  assumes "i < length (icache s)" "0 < i_ref (inode_at i s)" "one_entry (idents s)"
  shows "one_entry (idents (idup i s))"
  using assms one_entry_count [OF assms(3), of i] by (simp add: idup_def idents_upd idents_nth)

lemma icache_step_one_entry: "icache_step s t \<Longrightarrow> one_entry (idents s) \<Longrightarrow> one_entry (idents t)"
  by (induction rule: icache_step.induct)
     (auto dest: frame iget_one_entry iput_one_entry dirlink_one_entry idup_one_entry)

lemma icache_empty_one_entry: "icache_empty s \<Longrightarrow> one_entry (idents s)"
  by (auto simp: one_entry_def icache_empty_def idents_nth split: prod.splits)

interpretation icache_sys: transition_system icache_empty icache_step "\<lambda>s. one_entry (idents s)"
  by unfold_locales (rule icache_empty_one_entry, assumption, rule icache_step_one_entry)

text \<open>
  C10. An inode of the disk is in the inode cache at most once, so two processes that open the same file
  share its entry and its lock: in every state that the operations on inodes reach from an empty cache,
  two entries in use with the same device and inode number are the same entry.
\<close>

theorem inode_cached_once:
  assumes "reachable icache_empty icache_step s"
    and "i < length (icache s)" "j < length (icache s)" "0 < i_ref (inode_at i s)" "0 < i_ref (inode_at j s)"
    and "i_dev (inode_at i s) = i_dev (inode_at j s)" "i_inum (inode_at i s) = i_inum (inode_at j s)"
  shows "i = j"
  using one_entryD [OF icache_sys.reachable_inv [OF assms(1)], of i j] assms(2-) by (simp add: idents_nth)

text \<open>A cache of three entries in which inode 5 has been opened twice and inode 6 once.\<close>

definition demo_inode :: inode where
  "demo_inode = \<lparr>i_dev = 0, i_inum = 0, i_ref = 0, i_lock = initsleeplock, i_valid = False, i_type = 0, i_major = 0,
     i_minor = 0, i_nlink = 0, i_size = 0, i_addrs = replicate 13 0\<rparr>"

definition demo_icache :: "(unit, unit) fsys_scheme" where
  "demo_icache = \<lparr>flog = \<lparr>disk = (\<lambda>b. replicate 512 0), cache = (\<lambda>b. None), wr = [], lstart = 1, lsize = 30,
       outstanding = 0, committing = False, lh = []\<rparr>,
     fsb = \<lparr>sb_size = 8, sb_nblocks = 4, sb_ninodes = 8, sb_nlog = 0, sb_logstart = 1, sb_inodestart = 3, sb_bmapstart = 2\<rparr>,
     icache = [demo_inode, demo_inode, demo_inode], fdev = (), devsw = (\<lambda>m. \<lparr>dev_read = None, dev_write = None\<rparr>)\<rparr>"

definition demo_opened :: "(unit, unit) fsys_scheme" where
  "demo_opened = demo_icache\<lparr>icache := [demo_inode\<lparr>i_dev := 1, i_inum := 5, i_ref := 2\<rparr>,
     demo_inode\<lparr>i_dev := 1, i_inum := 6, i_ref := 1\<rparr>, demo_inode]\<rparr>"

lemma demo_opened_reachable: "reachable icache_empty icache_step demo_opened"
proof -
  let ?s1 = "demo_icache\<lparr>icache := [demo_inode\<lparr>i_dev := 1, i_inum := 5, i_ref := 1\<rparr>, demo_inode, demo_inode]\<rparr>"
  let ?s2 = "?s1\<lparr>icache := [demo_inode\<lparr>i_dev := 1, i_inum := 5, i_ref := 1\<rparr>, demo_inode\<lparr>i_dev := 1, i_inum := 6, i_ref := 1\<rparr>, demo_inode]\<rparr>"
  note defs = iget_def demo_icache_def demo_inode_def demo_opened_def upd_inode_def modify_def
  have "reachable icache_empty icache_step demo_icache"
    by (rule reach_init) (simp add: icache_empty_def demo_icache_def demo_inode_def)
  moreover have "iget 1 5 demo_icache = Inr (0, ?s1)" by (simp add: defs)
  moreover have "iget 1 6 ?s1 = Inr (1, ?s2)" by (simp add: defs)
  moreover have "iget 1 5 ?s2 = Inr (0, demo_opened)" by (simp add: defs)
  ultimately show ?thesis by (blast intro: reach_step step_iget)
qed

theorem inode_cached_once_witness:
  "reachable icache_empty icache_step demo_opened \<and> i_ref (inode_at 0 demo_opened) = 2 \<and>
   \<not> (\<exists>j. 0 < j \<and> j < length (icache demo_opened) \<and> 0 < i_ref (inode_at j demo_opened) \<and>
      i_dev (inode_at 0 demo_opened) = i_dev (inode_at j demo_opened) \<and>
      i_inum (inode_at 0 demo_opened) = i_inum (inode_at j demo_opened))"
proof -
  have l: "length (icache demo_opened) = 3" "i_ref (inode_at 0 demo_opened) = 2" by (simp_all add: demo_opened_def)
  have "0 = j" if "j < length (icache demo_opened)" "0 < i_ref (inode_at j demo_opened)"
      "i_dev (inode_at 0 demo_opened) = i_dev (inode_at j demo_opened)"
      "i_inum (inode_at 0 demo_opened) = i_inum (inode_at j demo_opened)" for j
    using inode_cached_once [OF demo_opened_reachable, of 0 j] that l by simp
  then show ?thesis using demo_opened_reachable l by auto
qed

end
