(* ===== verification/Descr.thy ===== *)
theory Descr
  imports Icache
begin

text \<open>
  The references to open files. In every state the reference count of an open file is the number of
  descriptors that point to it: those of the running process, and those that the other processes and the
  calls in progress hold. Opening, duplicating and closing move references and keep the account exact.
\<close>

subsection \<open>What the file operations leave alone\<close>

definition frefs :: "('d, 'z) files_scheme \<Rightarrow> int list" where
  "frefs s = map f_ref (ftable s)"

lemma rim_files: "rim t = rim s \<Longrightarrow> ftable t = ftable s \<and> files.more t = files.more s"
  for s t :: "('d, 'z) files_scheme"
  by (cases s; cases t; simp add: rim_def)

lemma frefs_upd_file: "frefs (upd_file f g s) = (frefs s)[f := f_ref (g (file_at f s))]"
  by (cases "f < length (ftable s)") (simp_all add: frefs_def upd_file_def modify_def map_update list_update_beyond)

lemma upd_file_simps [simp]: "files.more (upd_file f g s) = files.more s" "length (ftable (upd_file f g s)) = length (ftable s)"
  "f < length (ftable s) \<Longrightarrow> file_at f (upd_file f g s) = g (file_at f s)"
  by (simp_all add: upd_file_def)

lemma frefs_same: "f_ref (g (file_at f s)) = f_ref (file_at f s) \<Longrightarrow> frefs (upd_file f g s) = frefs s"
  by (simp add: frefs_def upd_file_def map_modify modify_def map_update)
     (metis length_map list_update_beyond list_update_id not_le nth_map)

lemma frefs_len [simp]: "length (frefs s) = length (ftable s)"
  by (simp add: frefs_def)

lemma frefs_nth: "f < length (ftable s) \<Longrightarrow> frefs s ! f = f_ref (file_at f s)"
  by (simp add: frefs_def)

lemma fileclose_frefs:
  assumes "fileclose pid f s = Inr t" "f < length (ftable s)"
  shows "frefs t = (frefs s)[f := frefs s ! f - 1] \<and> files.more t = files.more s"
proof -
  let ?s1 = "upd_file f (\<lambda>x. x\<lparr>f_ref := f_ref x - 1\<rparr>) s"
  let ?s2 = "upd_file f (\<lambda>x. x\<lparr>f_ref := 0, f_type := FD_NONE\<rparr>) ?s1"
  have 1: "frefs ?s1 = (frefs s)[f := frefs s ! f - 1]" using assms(2) by (simp add: frefs_upd_file frefs_nth)
  show ?thesis
  proof (cases "1 < f_ref (file_at f s)")
    case True
    then have "t = ?s1" using assms by (simp add: fileclose_def Let_def split: if_splits)
    then show ?thesis using 1 by simp
  next
    case False
    then have r: "f_ref (file_at f s) = 1" using assms by (auto simp: fileclose_def split: if_splits)
    have 2: "frefs ?s2 = (frefs s)[f := frefs s ! f - 1]" using assms(2) r by (simp add: frefs_upd_file frefs_nth)
    have "frefs t = frefs ?s2 \<and> files.more t = files.more s"
      using assms r by (auto simp: fileclose_def Let_def kres_simps frefs_def split: ftype.splits prod.splits
          dest!: begin_end_frame iput_rim rim_files)
    then show ?thesis using 2 by simp
  qed
qed

subsection \<open>The account\<close>

text \<open>
  \<open>others f\<close> is the number of references to file \<open>f\<close> that the running process has no descriptor for.
\<close>

definition refs_ok :: "(nat \<Rightarrow> int) \<Rightarrow> ('d, 'z) sysst_scheme \<Rightarrow> bool" where
  "refs_ok others s \<longleftrightarrow>
     (\<forall>f<length (ftable s). f_ref (file_at f s) = int (count_list (us_ofile s) (Some f)) + others f) \<and>
     (\<forall>f. Some f \<in> set (us_ofile s) \<longrightarrow> f < length (ftable s)) \<and> length (us_ofile s) = NOFILE"

lemma count_list_update:
  "i < length xs \<Longrightarrow> int (count_list (xs[i := y]) x) =
     int (count_list xs x) - (if xs ! i = x then 1 else 0) + (if y = x then 1 else 0)"
proof (induction xs arbitrary: i)
  case (Cons a xs)
  show ?case
  proof (cases i)
    case (Suc k)
    with Cons.prems have "k < length xs" by simp
    from Cons.IH [OF this] Suc show ?thesis by (simp split: if_splits)
  qed simp
qed simp

lemma refs_ok_keep:
  assumes "refs_ok o' s" "frefs t = frefs s" "us_ofile t = us_ofile s"
  shows "refs_ok o' t"
proof -
  have l: "length (ftable t) = length (ftable s)" using assms(2) frefs_len by metis
  then have "f_ref (file_at f t) = f_ref (file_at f s)" if "f < length (ftable s)" for f
    using that assms(2) frefs_nth [of f s] frefs_nth [of f t] by simp
  then show ?thesis using assms(1,3) l by (simp add: refs_ok_def)
qed

lemma sysst_more: "files.more t = files.more s \<Longrightarrow> us_ofile t = us_ofile s \<and> us_mem t = us_mem s \<and> us_sz t = us_sz s \<and> us_pid t = us_pid s \<and> us_cwd t = us_cwd s"
  for s t :: "('d, 'z) sysst_scheme"
  by (cases s; cases t; simp)

lemma refs_ok_rim: "rim t = rim s \<Longrightarrow> refs_ok o' s \<Longrightarrow> refs_ok o' t"
  by (auto dest!: rim_files sysst_more intro: refs_ok_keep simp: frefs_def)

lemma refs_ok_ref:
  fixes s t :: "('d, 'z) sysst_scheme"
  assumes "refs_ok o' s" "f < length (ftable s)" "frefs t = (frefs s)[f := frefs s ! f + d]" "files.more t = files.more s"
  shows "refs_ok (o'(f := o' f + d)) t"
proof -
  have l: "length (ftable t) = length (ftable s)" using assms(3) by (metis frefs_len length_list_update)
  have "f_ref (file_at g t) = f_ref (file_at g s) + (if g = f then d else 0)" if "g < length (ftable s)" for g
    using that assms(2) l frefs_nth [of g t] by (cases "g = f") (simp_all add: assms(3) frefs_nth)
  then show ?thesis using assms(1) sysst_more [OF assms(4)] l by (simp add: refs_ok_def)
qed

lemma refs_ok_fd:
  assumes "refs_ok o' s" "fd < length (us_ofile s)" "us_ofile s ! fd = None" "f < length (ftable s)"
  shows "refs_ok (o'(f := o' f - 1)) (s\<lparr>us_ofile := (us_ofile s)[fd := Some f]\<rparr>)"
  using assms unfolding refs_ok_def by (auto simp: count_list_update dest!: set_update_subset_insert [THEN subsetD])

lemma refs_ok_drop:
  assumes "refs_ok o' s" "fd < length (us_ofile s)" "us_ofile s ! fd = Some f"
  shows "refs_ok (o'(f := o' f + 1)) (s\<lparr>us_ofile := (us_ofile s)[fd := None]\<rparr>)"
  using assms unfolding refs_ok_def by (auto simp: count_list_update dest!: set_update_subset_insert [THEN subsetD])

lemma refs_ok_mem [simp]: "refs_ok o' (s\<lparr>us_mem := m\<rparr>) = refs_ok o' s"
  by (simp add: refs_ok_def)

subsection \<open>The moves of references\<close>

lemma filealloc_refs:
  assumes "filealloc s = (Some f, t)" "refs_ok o' s"
  shows "f < length (ftable t)" and "refs_ok (o'(f := o' f + 1)) t"
proof -
  from assms(1) have f: "f < length (ftable s)" "f_ref (file_at f s) = 0"
    and t: "t = upd_file f (\<lambda>x. x\<lparr>f_ref := 1\<rparr>) s"
    by (auto simp: filealloc_def split: option.splits dest: first_index_less first_index_holds)
  show "f < length (ftable t)" using f t by simp
  show "refs_ok (o'(f := o' f + 1)) t"
    using f t by (intro refs_ok_ref [OF assms(2)]) (simp_all add: frefs_upd_file frefs_nth)
qed

lemma filedup_refs:
  assumes "filedup f s = Inr t" "refs_ok o' s" "f < length (ftable s)"
  shows "refs_ok (o'(f := o' f + 1)) t"
proof -
  have t: "t = upd_file f (\<lambda>x. x\<lparr>f_ref := f_ref x + 1\<rparr>) s" using assms(1) by (auto simp: filedup_def split: if_splits)
  show ?thesis using assms(3) t by (intro refs_ok_ref [OF assms(2)]) (simp_all add: frefs_upd_file frefs_nth)
qed

lemma fileclose_refs:
  assumes "fileclose pid f s = Inr t" "refs_ok o' s" "f < length (ftable s)"
  shows "refs_ok (o'(f := o' f - 1)) t" and "length (ftable t) = length (ftable s)"
  using fileclose_frefs [OF assms(1,3)] refs_ok_ref [OF assms(2,3), of t "-1"] frefs_len [of t]
  by (auto simp: frefs_def intro: arg_cong [where f = length])

lemma fdalloc_refs:
  assumes "fdalloc f s = (Some fd, t)" "refs_ok o' s" "f < length (ftable s)"
  shows "refs_ok (o'(f := o' f - 1)) t" and "us_ofile s ! fd = None" and "t = s\<lparr>us_ofile := (us_ofile s)[fd := Some f]\<rparr>"
    and "fd < length (us_ofile s)"
proof -
  have l: "length (us_ofile s) = NOFILE" using assms(2) by (simp add: refs_ok_def)
  with assms(1) show fd: "us_ofile s ! fd = None" "fd < length (us_ofile s)"
    and t: "t = s\<lparr>us_ofile := (us_ofile s)[fd := Some f]\<rparr>"
    by (auto simp: fdalloc_def split: option.splits dest: first_index_less first_index_holds)
  show "refs_ok (o'(f := o' f - 1)) t" unfolding t by (rule refs_ok_fd [OF assms(2) fd(2,1) assms(3)])
qed

lemma argfdD:
  assumes "argfd n s = Some (fd, f)" "refs_ok o' s"
  shows "fd < length (us_ofile s)" "us_ofile s ! fd = Some f" "f < length (ftable s)"
proof -
  from assms show fd: "fd < length (us_ofile s)" "us_ofile s ! fd = Some f"
    by (auto simp: argfd_def refs_ok_def NOFILE_def unat_sint split: option.splits if_splits)
  then have "Some f \<in> set (us_ofile s)" using nth_mem by fastforce
  then show "f < length (ftable s)" using assms(2) by (simp add: refs_ok_def)
qed

subsection \<open>The system calls\<close>

declare filewrite_loop.simps [simp del]

lemma frefs_rim [simp]: "frefs (s\<lparr>pipes := p\<rparr>) = frefs s" "frefs (s\<lparr>pipes := p, fwake := w\<rparr>) = frefs s"
  by (simp_all add: frefs_def)

lemma rim_frefs: "rim t = rim s \<Longrightarrow> frefs t = frefs s \<and> files.more t = files.more s"
  by (drule rim_files) (simp add: frefs_def)

lemma frefs_off [simp]: "frefs (upd_file f (\<lambda>x. x\<lparr>f_off := o' x\<rparr>) s) = frefs s"
  by (simp add: frefs_same)

lemma fileread_frame:
  "fileread pid killed f n s = Inr (r, bs, t) \<Longrightarrow> frefs t = frefs s \<and> files.more t = files.more s"
  by (auto simp: fileread_def Let_def kres_simps split: if_splits ftype.splits pipe_end.splits prod.splits
      dest!: ilock_frame readi_frame iunlock_frame rim_frefs)

lemma filestat_frame: "filestat pid f s = Inr (r, t) \<Longrightarrow> frefs t = frefs s \<and> files.more t = files.more s"
  by (auto simp: filestat_def Let_def kres_simps split: if_splits dest!: ilock_frame iunlock_frame rim_frefs)

lemma filewrite_loop_frame:
  "filewrite_loop pid f src i s = Inr (k, t) \<Longrightarrow> frefs t = frefs s \<and> files.more t = files.more s"
proof (induction "length src" arbitrary: src i s rule: less_induct)
  case less
  have "src \<noteq> [] \<Longrightarrow> length (drop (min (length src) max_write) src) < length src"
    by (simp add: max_write_def MAXOPBLOCKS_def)
  note IH = less.hyps [OF this]
  from less.prems show ?case
    by (subst (asm) filewrite_loop.simps)
       (auto simp: Let_def kres_simps split: if_splits
         dest!: begin_end_frame ilock_frame writei_frame iunlock_frame rim_frefs IH [rotated])
qed

lemma filewrite_frame: "filewrite pid killed f src s = Inr (r, t) \<Longrightarrow> frefs t = frefs s \<and> files.more t = files.more s"
  by (auto simp: filewrite_def Let_def kres_simps split: if_splits ftype.splits pipe_end.splits prod.splits
      dest!: filewrite_loop_frame)

lemma refs_ok_frame: "refs_ok o' s \<Longrightarrow> frefs t = frefs s \<Longrightarrow> files.more t = files.more s \<Longrightarrow> refs_ok o' t"
  for s t :: "('d, 'z) sysst_scheme"
  by (auto dest!: sysst_more intro: refs_ok_keep)

lemma sys_read_refs: "sys_read s = Inr (r, t) \<Longrightarrow> refs_ok o' s \<Longrightarrow> refs_ok o' t"
  by (auto simp: sys_read_def kres_simps split: option.splits dest!: fileread_frame) (erule (2) refs_ok_frame)

lemma sys_write_refs: "sys_write s = Inr (r, t) \<Longrightarrow> refs_ok o' s \<Longrightarrow> refs_ok o' t"
  by (auto simp: sys_write_def split: option.splits dest!: filewrite_frame dest: refs_ok_frame)

lemma sys_fstat_refs: "sys_fstat s = Inr (r, t) \<Longrightarrow> refs_ok o' s \<Longrightarrow> refs_ok o' t"
  by (auto simp: sys_fstat_def kres_simps split: option.splits dest!: filestat_frame) (erule (2) refs_ok_frame)+

lemma sys_close_refs:
  assumes "sys_close s = Inr (r, t)" "refs_ok o' s"
  shows "refs_ok o' t"
proof (cases "argfd 0 s")
  case None
  then show ?thesis using assms by (simp add: sys_close_def)
next
  case (Some x)
  obtain fd f where x: "x = (fd, f)" by fastforce
  let ?s = "s\<lparr>us_ofile := (us_ofile s)[fd := None]\<rparr>"
  note a = argfdD [OF Some [unfolded x] assms(2)]
  have c: "fileclose (us_pid s) f ?s = Inr t" using assms(1) Some x by (auto simp: sys_close_def kres_simps)
  have "refs_ok (o'(f := o' f + 1)) ?s" using assms(2) a(1,2) by (rule refs_ok_drop)
  from fileclose_refs(1) [OF c this] a(3) show ?thesis by simp
qed

lemma sys_dup_refs:
  assumes "sys_dup s = Inr (r, t)" "refs_ok o' s"
  shows "refs_ok o' t"
proof (cases "argfd 0 s")
  case None
  then show ?thesis using assms by (simp add: sys_dup_def)
next
  case (Some x)
  obtain fd f where x: "x = (fd, f)" by fastforce
  note a = argfdD [OF Some [unfolded x] assms(2)]
  show ?thesis
  proof (cases "fdalloc f s")
    case (Pair k u)
    show ?thesis
    proof (cases k)
      case None
      then show ?thesis using assms Some x Pair by (auto simp: sys_dup_def fdalloc_def split: option.splits)
    next
      case (Some fd')
      with Pair have fd: "fdalloc f s = (Some fd', u)" by simp
      have d: "filedup f u = Inr t" using assms(1) \<open>argfd 0 s = Some x\<close> x fd by (auto simp: sys_dup_def kres_simps)
      note u = fdalloc_refs [OF fd assms(2) a(3)]
      have "f < length (ftable u)" using a(3) u(3) by simp
      from filedup_refs [OF d u(1) this] show ?thesis by simp
    qed
  qed
qed

lemma ialloc_rim: "ialloc dev ty s = Inr (i, t) \<Longrightarrow> rim t = rim s"
  by (simp add: ialloc_frame)

lemma create_rim: "create path ty ma mi s = Inr (r, t) \<Longrightarrow> rim t = rim s"
  by (auto simp: create_def kres_simps split: option.splits if_splits
      dest!: nameiparent_rim ilock_frame dirlookup_rim iunlockput_frame ialloc_rim iupdate_frame set_nlink_frame dirlink_rim)

lemma open_inode_rim: "open_inode path om s = Inr (r, t) \<Longrightarrow> rim t = rim s"
  by (auto simp: open_inode_def kres_simps split: option.splits if_splits
      dest!: create_rim namei_rim ilock_frame iunlockput_frame)

lemma fail_op_rim: "fail_op s = Inr (r, t) \<Longrightarrow> rim t = rim s"
  by (auto simp: fail_op_def kres_simps dest!: begin_end_frame)

text \<open>The end of \<open>sys_open\<close>, from the locked inode on.\<close>

lemma open_end_refs:
  assumes "(case filealloc s of
         (None, s) \<Rightarrow> kbind (iunlockput (us_pid s) ip s) fail_op
       | (Some f, s) \<Rightarrow>
           (case fdalloc f s of
              (None, s) \<Rightarrow> kbind (fileclose (us_pid s) f s) (\<lambda>s. kbind (iunlockput (us_pid s) ip s) fail_op)
            | (Some fd, s) \<Rightarrow>
                kbind (iunlock (us_pid s) ip s) (\<lambda>s.
                kbind (do_end_op s) (\<lambda>s.
                  Inr (int fd, upd_file f (\<lambda>x. x\<lparr>f_type := FD_INODE, f_ip := ip, f_off := 0,
                    f_readable := rb, f_writable := wb\<rparr>) s))))) = Inr (r, t)" (is "?m = _")
    and ok: "refs_ok o' s"
  shows "refs_ok o' t"
proof (cases "filealloc s")
  case (Pair k u)
  show ?thesis
  proof (cases k)
    case None
    then have "u = s" using Pair by (auto simp: filealloc_def split: option.splits)
    then have "rim t = rim s" using assms(1) Pair None by (auto simp: kres_simps dest!: iunlockput_frame fail_op_rim)
    then show ?thesis using ok by (rule refs_ok_rim)
  next
    case (Some f)
    with Pair have fa: "filealloc s = (Some f, u)" by simp
    note u = filealloc_refs [OF fa ok]
    show ?thesis
    proof (cases "fdalloc f u")
      case fd: (Pair l v)
      show ?thesis
      proof (cases l)
        case None
        then have v: "v = u" using fd by (auto simp: fdalloc_def split: option.splits)
        obtain w where w: "fileclose (us_pid u) f u = Inr w" and "rim t = rim w"
          using assms(1) fa fd None v by (auto simp: kres_simps dest!: iunlockput_frame fail_op_rim)
        moreover have "refs_ok o' w" using fileclose_refs(1) [OF w u(2,1)] by simp
        ultimately show ?thesis by (blast intro: refs_ok_rim)
      next
        case (Some n)
        with fd have fd': "fdalloc f u = (Some n, v)" by simp
        note v = fdalloc_refs [OF fd' u(2,1)]
        obtain w where w: "rim w = rim v" and t: "t = upd_file f (\<lambda>x. x\<lparr>f_type := FD_INODE, f_ip := ip, f_off := 0,
              f_readable := rb, f_writable := wb\<rparr>) w"
          using assms(1) fa fd' by (auto simp: kres_simps dest!: iunlock_frame begin_end_frame)
        have "refs_ok o' w" using refs_ok_rim [OF w v(1)] by simp
        then show ?thesis unfolding t by (rule refs_ok_frame) (simp_all add: frefs_same)
      qed
    qed
  qed
qed

lemma sys_open_refs:
  assumes "sys_open s = Inr (r, t)" "refs_ok o' s"
  shows "refs_ok o' t"
proof (cases "argpath 0 s = None \<or> argint 1 s = None")
  case True
  then show ?thesis using assms by (auto simp: sys_open_def split: option.splits)
next
  case False
  then obtain path om where a: "argpath 0 s = Some path" "argint 1 s = Some om" by auto
  obtain u where u: "do_begin_op s = Inr u" using assms(1) a by (auto simp: sys_open_def kres_simps)
  obtain k v where v: "open_inode path om u = Inr (k, v)" using assms(1) a u by (auto simp: sys_open_def kres_simps)
  have "rim v = rim s" using begin_end_frame(1) [OF u] open_inode_rim [OF v] by simp
  then have ok: "refs_ok o' v" using assms(2) by (rule refs_ok_rim)
  show ?thesis
  proof (cases k)
    case None
    then show ?thesis using assms(1) a u v ok by (auto simp: sys_open_def dest!: fail_op_rim intro: refs_ok_rim)
  next
    case (Some ip)
    then show ?thesis using assms(1) a u v ok by (simp add: sys_open_def) (erule open_end_refs)
  qed
qed

lemma filealloc_None: "filealloc s = (None, t) \<Longrightarrow> t = s"
  by (auto simp: filealloc_def split: option.splits)

lemma fdalloc_None: "fdalloc f s = (None, t) \<Longrightarrow> t = s"
  by (auto simp: fdalloc_def split: option.splits)

text \<open>Two references more, two references less.\<close>

abbreviation plus_ref :: "nat \<Rightarrow> (nat \<Rightarrow> int) \<Rightarrow> nat \<Rightarrow> int" where
  "plus_ref f m \<equiv> m(f := m f + 1)"

abbreviation minus_ref :: "nat \<Rightarrow> (nat \<Rightarrow> int) \<Rightarrow> nat \<Rightarrow> int" where
  "minus_ref f m \<equiv> m(f := m f - 1)"

lemma refs_back: "minus_ref g (minus_ref f (plus_ref g (plus_ref f m))) = m"
  by auto

lemma close_two_refs:
  assumes "kbind (fileclose pid f s) (\<lambda>s. kbind (fileclose (q s) g s) (\<lambda>s. Inr (h s))) = Inr b"
    and "refs_ok (plus_ref g (plus_ref f m)) s" "f < length (ftable s)" "g < length (ftable s)"
  shows "\<exists>t. b = h t \<and> refs_ok m t"
proof -
  from assms(1) obtain u t where u: "fileclose pid f s = Inr u" and t: "fileclose (q u) g u = Inr t" and b: "b = h t"
    by (auto simp: kres_simps)
  note fu = fileclose_refs [OF u assms(2,3)]
  have "g < length (ftable u)" using fu(2) assms(4) by simp
  from fileclose_refs(1) [OF t fu(1) this] show ?thesis unfolding refs_back using b by blast
qed

lemma pipealloc_refs:
  assumes "pipealloc pid pg s = Inr (r, t)" "refs_ok m s"
  shows "case r of None \<Rightarrow> refs_ok m t
    | Some (f, g) \<Rightarrow> refs_ok (plus_ref g (plus_ref f m)) t \<and> f < length (ftable t) \<and> g < length (ftable t)"
proof (cases "filealloc s")
  case (Pair k u)
  show ?thesis
  proof (cases k)
    case None
    then show ?thesis using assms Pair by (auto simp: pipealloc_def dest: filealloc_None)
  next
    case (Some f)
    with Pair have f: "filealloc s = (Some f, u)" by simp
    note fu = filealloc_refs [OF f assms(2)]
    show ?thesis
    proof (cases "filealloc u")
      case P2: (Pair l v)
      show ?thesis
      proof (cases l)
        case None
        with P2 have v: "v = u" by (auto dest: filealloc_None)
        then have "fileclose pid f u = Inr t" "r = None" using assms(1) f P2 None by (auto simp: pipealloc_def kres_simps)
        then show ?thesis using fileclose_refs(1) [OF _ fu(2,1)] by simp
      next
        case (Some g)
        with P2 have g: "filealloc u = (Some g, v)" by simp
        note gv = filealloc_refs [OF g fu(2)]
        have fv: "f < length (ftable v)" using fu(1) g by (auto simp: filealloc_def split: option.splits)
        show ?thesis
        proof (cases pg)
          case None
          then have "kbind (fileclose pid f v) (\<lambda>s. kbind (fileclose pid g s) (\<lambda>s. Inr (None, s))) = Inr (r, t)"
            using assms(1) f g by (simp add: pipealloc_def)
          from close_two_refs [where q = "\<lambda>_. pid", OF this gv(2) fv gv(1)] show ?thesis by auto
        next
          case (Some p)
          then have "r = Some (f, g)" and t: "frefs t = frefs v" "files.more t = files.more v"
              "length (ftable t) = length (ftable v)"
            using assms(1) f g by (auto simp: pipealloc_def frefs_same split: prod.splits)
          then show ?thesis using refs_ok_frame [OF gv(2) t(1,2)] fv gv(1) by simp
        qed
      qed
    qed
  qed
qed

lemma sys_pipe_refs:
  assumes "sys_pipe pg s = Inr (r, t)" "refs_ok m s"
  shows "refs_ok m t"
proof (cases "argptr 0 8 s")
  case None
  then show ?thesis using assms by (simp add: sys_pipe_def)
next
  case a: (Some fdp)
  obtain k u where p: "pipealloc (us_pid s) pg s = Inr (k, u)" using assms(1) a by (auto simp: sys_pipe_def kres_simps)
  note pu = pipealloc_refs [OF p assms(2)]
  show ?thesis
  proof (cases k)
    case None
    then show ?thesis using assms(1) a p pu by (simp add: sys_pipe_def)
  next
    case (Some fg)
    then obtain f g where k: "k = Some (f, g)" by (cases fg) auto
    with pu have ok: "refs_ok (plus_ref g (plus_ref f m)) u" "f < length (ftable u)" "g < length (ftable u)" by simp_all
    obtain x v where P1: "fdalloc f u = (x, v)" by fastforce
    show ?thesis
    proof (cases x)
      case None
      with P1 have "v = u" by (auto dest: fdalloc_None)
      then have "kbind (fileclose (us_pid u) f u) (\<lambda>s. kbind (fileclose (us_pid s) g s) (\<lambda>s. Inr (-1, s))) = Inr (r, t)"
        using assms(1) a p k P1 None by (simp add: sys_pipe_def)
      from close_two_refs [OF this ok] show ?thesis by auto
    next
      case (Some fd)
      with P1 have f1: "fdalloc f u = (Some fd, v)" by simp
      note v = fdalloc_refs [OF f1 ok(1,2)]
      have len: "f < length (ftable v)" "g < length (ftable v)" using ok v(3) by simp_all
      obtain y w where P2: "fdalloc g v = (y, w)" by fastforce
      show ?thesis
      proof (cases y)
        case None
        let ?v = "v\<lparr>us_ofile := (us_ofile v)[fd := None]\<rparr>"
        from P2 None have "w = v" by (auto dest: fdalloc_None)
        then have "kbind (fileclose (us_pid ?v) f ?v) (\<lambda>s. kbind (fileclose (us_pid s) g s) (\<lambda>s. Inr (-1, s))) = Inr (r, t)"
          using assms(1) a p k f1 P2 None by (simp add: sys_pipe_def)
        moreover have "?v = u\<lparr>us_ofile := us_ofile u\<rparr>" using v(2,4) unfolding v(3) by (simp add: list_update_same_conv)
        then have "refs_ok (plus_ref g (plus_ref f m)) ?v" using ok(1) by simp
        ultimately show ?thesis using close_two_refs [of "us_pid ?v" f ?v us_pid g "\<lambda>s. (-1, s)"] len by auto
      next
        case (Some fd')
        with P2 have "fdalloc g v = (Some fd', w)" by simp
        note w = fdalloc_refs [OF this v(1) len(2)]
        have "refs_ok m w" using w(1) unfolding refs_back .
        then show ?thesis using assms(1) a p k f1 P2 Some by (auto simp: sys_pipe_def)
      qed
    qed
  qed
qed

subsection \<open>Descriptors are well typed\<close>

inductive fd_call :: "('d, 'z) sysst_scheme \<Rightarrow> ('d, 'z) sysst_scheme \<Rightarrow> bool" where
  call_read: "sys_read s = Inr (r, t) \<Longrightarrow> fd_call s t"
| call_write: "sys_write s = Inr (r, t) \<Longrightarrow> fd_call s t"
| call_fstat: "sys_fstat s = Inr (r, t) \<Longrightarrow> fd_call s t"
| call_dup: "sys_dup s = Inr (r, t) \<Longrightarrow> fd_call s t"
| call_close: "sys_close s = Inr (r, t) \<Longrightarrow> fd_call s t"
| call_open: "sys_open s = Inr (r, t) \<Longrightarrow> fd_call s t"
| call_pipe: "sys_pipe pg s = Inr (r, t) \<Longrightarrow> fd_call s t"

lemma fd_call_refs: "fd_call s t \<Longrightarrow> refs_ok m s \<Longrightarrow> refs_ok m t"
  by (induction rule: fd_call.induct)
     (blast intro: sys_read_refs sys_write_refs sys_fstat_refs sys_dup_refs sys_close_refs sys_open_refs sys_pipe_refs)+

interpretation fds: transition_system "refs_ok m" fd_call "refs_ok m" for m
  by unfold_locales (assumption, rule fd_call_refs)

text \<open>
  C11. Descriptors are well typed: when the reference counts are exact at the start, then after any sequence of
  system calls on descriptors (\<open>read\<close>, \<open>write\<close>, \<open>fstat\<close>, \<open>dup\<close>, \<open>close\<close>, \<open>open\<close>, \<open>pipe\<close>, whether they succeed or fail on
  the way) every descriptor in use points to an entry of the file table that is in use, and the count of
  that entry is the number of descriptors that point to it, those of other processes included.
\<close>

theorem descriptors_typed:
  assumes "reachable (refs_ok others) fd_call s" and "\<forall>f. 0 \<le> others f"
    and "fd < NOFILE" and "us_ofile s ! fd = Some f"
  shows "f < length (ftable s) \<and> 0 < f_ref (file_at f s) \<and>
    f_ref (file_at f s) = int (count_list (us_ofile s) (Some f)) + others f"
proof -
  have ok: "refs_ok others s" using assms(1) by (rule fds.reachable_inv)
  then have "Some f \<in> set (us_ofile s)" using assms(3,4) nth_mem [of fd "us_ofile s"] by (simp add: refs_ok_def)
  moreover from this have "0 < count_list (us_ofile s) (Some f)" by (metis count_list_0_iff gr0I)
  moreover have "0 \<le> others f" using assms(2) by simp
  ultimately show ?thesis using ok by (simp add: refs_ok_def)
qed

text \<open>Standard input and output are the same file; the process calls \<open>close(1)\<close>.\<close>

definition demo_file :: kfile where
  "demo_file = \<lparr>f_type = FD_NONE, f_ref = 0, f_readable = True, f_writable = True, f_pipe = 0, f_ip = 0, f_off = 0\<rparr>"

definition demo_fds :: "(unit, unit) sysst_scheme" where
  "demo_fds = \<lparr>flog = flog demo_icache, fsb = fsb demo_icache, icache = icache demo_icache, fdev = (), devsw = devsw demo_icache,
     ftable = [demo_file\<lparr>f_type := FD_INODE, f_ref := 2\<rparr>, demo_file], pipes = (\<lambda>k. pipe_init []), fwake = [],
     us_pid = 3, us_killed = False, us_sz = 4096, us_esp = 0, us_mem = (\<lambda>a. if a = 4 then 1 else 0),
     us_ofile = Some 0 # Some 0 # replicate 14 None, us_cwd = 0\<rparr>"

definition demo_closed :: "(unit, unit) sysst_scheme" where
  "demo_closed = demo_fds\<lparr>us_ofile := Some 0 # None # replicate 14 None,
     ftable := [demo_file\<lparr>f_type := FD_INODE, f_ref := 1\<rparr>, demo_file]\<rparr>"

lemma demo_close: "sys_close demo_fds = Inr (0, demo_closed)"
proof -
  have "argint 0 demo_fds = Some 1" by (simp add: argint_def fetchint_def load32_def demo_fds_def)
  then have "argfd 0 demo_fds = Some (1, 0)" by (simp add: argfd_def demo_fds_def NOFILE_def)
  then show ?thesis
    by (simp add: sys_close_def fileclose_def upd_file_def modify_def demo_closed_def demo_fds_def demo_file_def)
qed

lemma demo_fds_ok: "refs_ok (\<lambda>_. 0) demo_fds"
proof -
  have "f_ref (ftable demo_fds ! f) = int (count_list (us_ofile demo_fds) (Some f))" if "f < length (ftable demo_fds)" for f
  proof -
    have "f = 0 \<or> f = 1" using that by (auto simp: demo_fds_def)
    then show ?thesis by (auto simp: demo_fds_def demo_file_def eval_nat_numeral)
  qed
  then show ?thesis by (auto simp: refs_ok_def demo_fds_def NOFILE_def)
qed

theorem descriptors_typed_witness:
  "sys_close demo_fds = Inr (0, demo_closed) \<and> 0 < f_ref (file_at 0 demo_closed) \<and>
   f_ref (file_at 0 demo_closed) = int (count_list (us_ofile demo_closed) (Some 0))"
proof -
  have "reachable (refs_ok (\<lambda>_. 0)) fd_call demo_closed"
    by (rule reach_step, rule reach_init, rule demo_fds_ok, rule call_close, rule demo_close)
  from descriptors_typed [OF this, of 0 0] show ?thesis
    using demo_close by (simp add: demo_closed_def NOFILE_def)
qed

end
