(* ===== verification/Usermem.thy ===== *)
theory Usermem
  imports Descr
begin

text \<open>
  The memory of the calling process: a system call on descriptors stores nothing above the size of the
  process, whatever addresses and counts the process passes.
\<close>

lemma poke_outside: "unat p + length bs \<le> unat a \<Longrightarrow> poke p bs m a = m a"
proof (induction bs arbitrary: p m)
  case (Cons b bs)
  from Cons.prems have lt: "unat p < unat a" by simp
  then have "unat (p + 1) = unat p + 1" using unat_bound [of a] unat_add_small [of p 1] by simp
  then show ?case using Cons lt by auto
qed simp

lemma argptr_range:
  assumes "argptr n len s = Some p" "unat (us_sz s) \<le> 2 ^ 31"
  shows "unat p + unat len \<le> unat (us_sz s)"
proof -
  from assms(1) have l: "0 \<le> sint len" and p: "p < us_sz s" "p + len \<le> us_sz s"
    by (auto simp: argptr_def not_less not_le split: option.splits if_splits)
  have "sint len < 2 ^ 31" using sint_lt [of len] by simp
  then have "unat len < 2 ^ 31" using unat_sint [OF l] l by (simp add: nat_less_iff)
  moreover have "unat p < 2 ^ 31" using p(1) assms(2) by (simp add: word_less_nat_alt)
  ultimately have "unat (p + len) = unat p + unat len" by (intro unat_add_small) simp
  then show ?thesis using p(2) by (simp add: word_le_nat_alt)
qed

lemma argptr_nonneg: "argptr n len s = Some p \<Longrightarrow> 0 \<le> sint len"
  by (auto simp: argptr_def split: option.splits if_splits)

lemma readi_loop_length: "readi_loop i off r s = Inr (bs, t) \<Longrightarrow> length bs \<le> r"
proof (induction r arbitrary: off s bs rule: less_induct)
  case (less r)
  show ?case
  proof (cases "r = 0")
    case True
    then show ?thesis using less.prems by (simp add: readi_loop.simps)
  next
    case False
    let ?m = "chunk off r"
    have m: "0 < ?m" "?m \<le> r" using False chunk_pos [of r off] by (simp_all add: chunk_def)
    from less.prems False obtain b u rest where rest: "readi_loop i (off + of_nat ?m) (r - ?m) u = Inr (rest, t)"
      and bs: "bs = take ?m (drop (unat (off mod of_nat BSIZE)) (blk b u)) @ rest"
      by (subst (asm) readi_loop.simps) (auto simp: Let_def kres_simps)
    have "length rest \<le> r - ?m" using less.IH [OF _ rest] m by simp
    then show ?thesis using bs m by simp
  qed
qed

text \<open>A device returns at most as many bytes as it was asked for.\<close>

definition devs_bounded :: "('d, 'z) fsys_scheme \<Rightarrow> bool" where
  "devs_bounded s \<longleftrightarrow> (\<forall>m f i n d r bs d'. dev_read (devsw s m) = Some f \<longrightarrow> f i n d = Inr (r, bs, d') \<longrightarrow> length bs \<le> unat n)"

lemma readi_length:
  assumes "readi i off n s = Inr (r, bs, t)" "devs_bounded s"
  shows "length bs \<le> unat n"
proof (cases "i_type (inode_at i s) = T_DEV")
  case True
  with assms(1) consider "bs = []" | f d where "dev_read (devsw s (i_major (inode_at i s))) = Some f" "f i n (fdev s) = Inr (r, bs, d)"
    by (auto simp: readi_def Let_def kres_simps split: if_splits option.splits)
  then show ?thesis using assms(2) by cases (simp, unfold devs_bounded_def, blast)
next
  case False
  let ?n = "if i_size (inode_at i s) < off + n then i_size (inode_at i s) - off else n"
  from False assms(1) consider "bs = []"
    | "off \<le> i_size (inode_at i s)" "off \<le> off + n" "readi_loop i off (unat ?n) s = Inr (bs, t)"
    by (auto simp: readi_def Let_def kres_simps not_less split: if_splits)
  then show ?thesis
  proof cases
    case 2
    have "unat ?n \<le> unat n"
    proof (cases "i_size (inode_at i s) < off + n")
      case True
      have "unat (off + n) = unat off + unat n" using 2(2) unat_bound [of n]
        by (simp add: unat_plus_if_size word_size word_le_nat_alt split: if_splits)
      then show ?thesis using 2(1) True by (simp add: unat_sub word_less_nat_alt)
    qed simp
    then show ?thesis using readi_loop_length [OF 2(3)] by simp
  qed simp
qed

lemma piperead_copy_length: "length (fst (piperead_copy n p)) \<le> n"
  by (induction n arbitrary: p) (auto simp: split_beta)

lemma rim_devs: "rim t = rim s \<Longrightarrow> devs_bounded t = devs_bounded s"
  by (simp add: rim_def devs_bounded_def)

lemma fileread_length:
  assumes "fileread pid killed f n s = Inr (r, bs, t)" "devs_bounded s" "0 \<le> sint n"
  shows "length bs \<le> unat n"
proof -
  consider "bs = []" | k p w q where "piperead k killed (sint n) p = (Ret r, bs, w, q)"
    | i off u v where "rim u = rim s" "readi i off n u = Inr (r, bs, v)"
    using assms(1)
    by (auto simp: fileread_def Let_def kres_simps split: if_splits ftype.splits pipe_end.splits prod.splits
        dest!: ilock_frame)
  then show ?thesis
  proof cases
    case 2
    then show ?thesis using piperead_copy_length [of "nat (sint n)" p] unat_sint [OF assms(3)]
      by (auto simp: piperead_def split_beta split: if_splits)
  next
    case 3
    then show ?thesis using readi_length [OF 3(2)] rim_devs [OF 3(1)] assms(2) by simp
  qed simp
qed

subsection \<open>Stores of the calls\<close>

text \<open>The memory at and above the size of the process is untouched.\<close>

definition above_same :: "('d, 'z) sysst_scheme \<Rightarrow> ('d, 'z) sysst_scheme \<Rightarrow> bool" where
  "above_same s t \<longleftrightarrow> (\<forall>a. us_sz s \<le> a \<longrightarrow> us_mem t a = us_mem s a)"

lemma above_same_more: "files.more t = files.more s \<Longrightarrow> above_same s t"
  by (auto simp: above_same_def dest!: sysst_more)

lemma rim_above: "rim t = rim s \<Longrightarrow> above_same s t"
  by (auto dest!: rim_files intro: above_same_more)

lemma poke_above:
  assumes "argptr k len s = Some p" "unat (us_sz s) \<le> 2 ^ 31" "us_sz s \<le> a" "off + length bs \<le> unat len"
  shows "poke (p + of_nat off) bs m a = m a"
proof -
  have r: "unat p + unat len \<le> unat (us_sz s)" using assms(1,2) by (rule argptr_range)
  have "off < 2 ^ 32" using assms(4) unat_bound [of len] by simp
  then have "unat (of_nat off :: u32) = off" by (simp add: unat_of_nat take_bit_nat_eq_self)
  then have "unat (p + of_nat off) = unat p + off"
    using r assms(2,4) unat_add_small [of p "of_nat off"] by simp
  then show ?thesis using r assms(3,4) by (intro poke_outside) (simp add: word_le_nat_alt)
qed

lemma sys_read_above:
  assumes "sys_read s = Inr (r, t)" "unat (us_sz s) \<le> 2 ^ 31" "devs_bounded s"
  shows "above_same s t"
proof -
  from assms(1) consider "t = s" | f n p bs u where "argptr 1 n s = Some p"
      "fileread (us_pid s) (us_killed s) f n s = Inr (r, bs, u)" "t = u\<lparr>us_mem := poke p bs (us_mem u)\<rparr>"
    by (auto simp: sys_read_def kres_simps split: option.splits)
  then show ?thesis
  proof cases
    case 2
    have "us_mem u = us_mem s" using fileread_frame [OF 2(2)] sysst_more by blast
    moreover have "length bs \<le> unat n" using 2(2) assms(3) argptr_nonneg [OF 2(1)] by (rule fileread_length)
    ultimately show ?thesis using poke_above [OF 2(1) assms(2), of _ 0 bs] by (simp add: above_same_def 2(3))
  qed (simp add: above_same_def)
qed

lemma poke_stat_above:
  assumes "argptr k 20 s = Some p" "unat (us_sz s) \<le> 2 ^ 31" "us_sz s \<le> a"
  shows "poke_stat p st m a = m a"
  using poke_above [OF assms, of 0] poke_above [OF assms, of 4] poke_above [OF assms, of 8] poke_above [OF assms, of 12]
    poke_above [OF assms, of 16]
  by (simp add: poke_stat_def)

lemma sys_fstat_above:
  assumes "sys_fstat s = Inr (r, t)" "unat (us_sz s) \<le> 2 ^ 31"
  shows "above_same s t"
proof -
  from assms(1) consider "t = s" | f u where "filestat (us_pid s) f s = Inr (None, u)" "t = u"
    | f p st u where "argptr 1 20 s = Some p" "filestat (us_pid s) f s = Inr (Some st, u)"
        "t = u\<lparr>us_mem := poke_stat p st (us_mem u)\<rparr>"
    by (auto simp: sys_fstat_def kres_simps split: option.splits)
  then show ?thesis
  proof cases
    case 2
    then show ?thesis using filestat_frame above_same_more by blast
  next
    case 3
    have "us_mem u = us_mem s" using filestat_frame [OF 3(2)] sysst_more by blast
    then show ?thesis using poke_stat_above [OF 3(1) assms(2)] by (simp add: above_same_def 3(3))
  qed (simp add: above_same_def)
qed

lemma fileclose_more: "fileclose pid f s = Inr t \<Longrightarrow> files.more t = files.more s"
  by (auto simp: fileclose_def Let_def kres_simps split: if_splits ftype.splits prod.splits
      dest!: begin_end_frame iput_rim rim_frefs)

lemma filedup_more: "filedup f s = Inr t \<Longrightarrow> files.more t = files.more s"
  by (auto simp: filedup_def split: if_splits)

lemma filealloc_more [simp]: "files.more (snd (filealloc s)) = files.more s"
  by (simp add: filealloc_def split: option.splits)

lemma pipealloc_more: "pipealloc pid pg s = Inr (k, t) \<Longrightarrow> files.more t = files.more s"
  by (auto simp: pipealloc_def Let_def kres_simps split_beta split: option.splits dest!: fileclose_more)

lemma fdalloc_mem [simp]: "us_mem (snd (fdalloc f s)) = us_mem s"
  by (simp add: fdalloc_def split: option.splits)

lemma filealloc_mem [simp]: "us_mem (snd (filealloc s)) = us_mem s"
  using sysst_more [OF filealloc_more [of s]] by simp

lemma sys_write_mem: "sys_write s = Inr (r, t) \<Longrightarrow> us_mem t = us_mem s"
  by (auto simp: sys_write_def split: option.splits dest!: filewrite_frame sysst_more)

lemma sys_dup_mem: "sys_dup s = Inr (r, t) \<Longrightarrow> us_mem t = us_mem s"
  by (auto simp: sys_dup_def kres_simps split_beta split: option.splits dest!: filedup_more sysst_more)

lemma sys_close_mem: "sys_close s = Inr (r, t) \<Longrightarrow> us_mem t = us_mem s"
  by (auto simp: sys_close_def kres_simps split: option.splits dest!: fileclose_more sysst_more)

lemma rim_mem: "rim t = rim s \<Longrightarrow> us_mem t = us_mem s"
  for s t :: "('d, 'z) sysst_scheme"
  by (auto dest!: rim_files sysst_more)

lemma sys_open_mem:
  assumes "sys_open s = Inr (r, t)"
  shows "us_mem t = us_mem s"
proof (cases "argpath 0 s = None \<or> argint 1 s = None")
  case True
  then show ?thesis using assms by (auto simp: sys_open_def split: option.splits)
next
  case False
  then obtain path om where a: "argpath 0 s = Some path" "argint 1 s = Some om" by auto
  obtain u where u: "do_begin_op s = Inr u" using assms a by (auto simp: sys_open_def kres_simps)
  obtain k v where v: "open_inode path om u = Inr (k, v)" using assms a u by (auto simp: sys_open_def kres_simps)
  have "rim v = rim s" using begin_end_frame(1) [OF u] open_inode_rim [OF v] by simp
  then have "us_mem v = us_mem s" by (rule rim_mem)
  moreover have "us_mem t = us_mem v"
  proof (cases k)
    case None
    then have "fail_op v = Inr (r, t)" using assms a u v by (simp add: sys_open_def)
    then show ?thesis using fail_op_rim rim_mem by blast
  next
    case k: (Some ip)
    obtain x w where w: "filealloc v = (x, w)" by fastforce
    then have mw: "us_mem w = us_mem v" using filealloc_mem [of v] by simp
    show ?thesis
    proof (cases x)
      case None
      then have "kbind (iunlockput (us_pid w) ip w) fail_op = Inr (r, t)" using assms a u v k w by (simp add: sys_open_def)
      then show ?thesis using mw by (auto simp: kres_simps dest!: iunlockput_frame fail_op_rim rim_mem)
    next
      case f: (Some f)
      obtain y z where z: "fdalloc f w = (y, z)" by fastforce
      then have mz: "us_mem z = us_mem v" using fdalloc_mem [of f w] mw by simp
      show ?thesis
        using assms a u v k w f z mz
        by (cases y) (auto simp: sys_open_def kres_simps
          upd_file_def dest!: fileclose_more iunlockput_frame fail_op_rim iunlock_frame begin_end_frame rim_mem sysst_more)
    qed
  qed
  ultimately show ?thesis by simp
qed

lemma sys_pipe_stores:
  assumes "sys_pipe pg s = Inr (r, t)"
  shows "us_mem t = us_mem s \<or> (\<exists>fdp x y. argptr 0 8 s = Some fdp \<and>
    us_mem t = poke (fdp + 4) (put32 0 x [0, 0, 0, 0]) (poke fdp (put32 0 y [0, 0, 0, 0]) (us_mem s)))"
proof (cases "argptr 0 8 s")
  case None
  then show ?thesis using assms by (simp add: sys_pipe_def)
next
  case a: (Some fdp)
  obtain k u where p: "pipealloc (us_pid s) pg s = Inr (k, u)" using assms a by (auto simp: sys_pipe_def kres_simps)
  then have m: "us_mem u = us_mem s" using pipealloc_more sysst_more by blast
  show ?thesis
  proof (cases k)
    case None
    then show ?thesis using assms a p m by (simp add: sys_pipe_def)
  next
    case (Some fg)
    then obtain f g where k: "k = Some (f, g)" by (cases fg) auto
    show ?thesis
      using assms a p m k
      by (cases "fst (fdalloc f u)"; cases "fst (fdalloc g (snd (fdalloc f u)))",
          auto simp: sys_pipe_def kres_simps split_beta dest!: fileclose_more sysst_more) blast
  qed
qed

lemma sys_pipe_above:
  assumes "sys_pipe pg s = Inr (r, t)" "unat (us_sz s) \<le> 2 ^ 31"
  shows "above_same s t"
  using sys_pipe_stores [OF assms(1)] poke_above [OF _ assms(2), of 0 8 _ _ 0] poke_above [OF _ assms(2), of 0 8 _ _ 4]
  by (auto simp: above_same_def)


text \<open>\<open>fstat(0, 2000)\<close> on the file of \<^const>\<open>demo_fds\<close>: the structure is stored, nothing else.\<close>

definition demo_stat :: "(unit, unit) sysst_scheme" where
  "demo_stat = demo_fds\<lparr>icache := [demo_inode\<lparr>i_ref := 1, i_valid := True, i_size := 7\<rparr>],
     us_mem := (\<lambda>a. 0)(8 := 0xD0, 9 := 7)\<rparr>"

lemma demo_fstat: "\<exists>t. sys_fstat demo_stat = Inr (0, t) \<and> us_mem t 2016 = 7"
proof -
  have a: "argfd 0 demo_stat = Some (0, 0)"
    by (simp add: argfd_def argint_def fetchint_def load32_def demo_stat_def demo_fds_def NOFILE_def)
  have p: "argptr 1 20 demo_stat = Some 2000"
    by (simp add: argptr_def argint_def fetchint_def load32_def demo_stat_def demo_fds_def)
  have f: "\<exists>t st. filestat 3 0 demo_stat = Inr (Some st, t) \<and> st_size st = 7 \<and> us_mem t = us_mem demo_stat"
    by (simp add: filestat_def ilock_def lock_inode_def acquiresleep_def initsleeplock_def iunlock_def holdingsleep_def
      unlock_inode_def upd_inode_def modify_def stati_def demo_stat_def demo_fds_def demo_file_def demo_inode_def)
  then obtain t st where t: "filestat 3 0 demo_stat = Inr (Some st, t)" "st_size st = 7" by blast
  have pid: "us_pid demo_stat = 3" by (simp add: demo_stat_def demo_fds_def)
  have "poke_stat 2000 st m 2016 = ucast (st_size st)" for m by (simp add: poke_stat_def put32_def put16_def)
  then show ?thesis using a p t pid by (simp add: sys_fstat_def)
qed


end
