(* ===== verification/Copyuvm.thy ===== *)
theory Copyuvm
  imports Vm
begin

text \<open>
  The copy of an address space: the loop of \<open>copyuvm\<close> gives the new page table a page of its own for every
  page of the old one, with the same contents and flags, and leaves the old one alone.
\<close>

declare copy_loop.simps [simp del]

subsection \<open>Mapping one page\<close>

text \<open>The pages that make up a page table.\<close>

definition pt_page :: "u32 \<Rightarrow> pmem \<Rightarrow> u32 \<Rightarrow> bool" where
  "pt_page d m b \<longleftrightarrow> b = d \<or> (\<exists>i<1024. table d m i = Some b)"

lemma pt_page_free: "space_ok d xs m \<Longrightarrow> pt_page d m b \<Longrightarrow> b \<notin> set xs"
  using space_okD(3,5) by (auto simp: pt_page_def)

lemma walk_alloc_tables:
  assumes ok: "space_ok d xs m" and w: "walkpgdir d va True m = (Some p, n)" and b: "pt_page d n b"
  shows "pt_page d m b \<or> b \<in> set xs"
proof (cases "table d m (PDX va)")
  case (Some t)
  then have "n = m" using w by (auto simp: walkpgdir_def table_def Let_def split: if_splits)
  then show ?thesis using b by simp
next
  case None
  then have np: "\<not> pte_get (d, PDX va) m AND PTE_P \<noteq> 0" by (auto simp: table_def split: if_splits)
  with w kalloc_spec(1) [OF space_okD(1) [OF ok]] obtain t ys where xs: "xs = t # ys"
    by (cases xs) (auto simp: walkpgdir_def Let_def)
  let ?k = "m\<lparr>freelist := get32 (pages m t) 0\<rparr>"
  let ?e = "V2P t OR PTE_P OR PTE_W OR PTE_U"
  have "kalloc m = (t, ?k)" "t \<noteq> 0" using kalloc_spec(2) [OF space_okD(1) [OF ok] xs] by blast+
  then have n: "n = pte_set (d, PDX va) ?e (set_page t zero_page ?k)" using w np by (auto simp: walkpgdir_def Let_def)
  have tp: "t \<noteq> d" "aligned t" using space_okD(2,3) [OF ok] xs by auto
  have "pte_get (d, i) n = (if i = PDX va then ?e else pte_get (d, i) m)" for i
    using tp space_okD(4) [OF ok] index_less
    by (auto simp: n pte_get_set_same pte_get_set_other pte_get_set_page pages_set_page)
  then have "table d n i = (if i = PDX va then Some t else table d m i)" for i
    using new_entry [OF tp(2)] by (simp add: table_def)
  then show ?thesis using b xs by (auto simp: pt_page_def split: if_splits)
qed

text \<open>
  What mapping one page does, if it succeeds: the page tables may take free pages, and every page outside
  them stays as it was.
\<close>

definition map_effect :: "u32 \<Rightarrow> u32 list \<Rightarrow> pmem \<Rightarrow> u32 \<Rightarrow> u32 \<Rightarrow> u32 list \<Rightarrow> pmem \<Rightarrow> bool" where
  "map_effect d xs m i e ys n \<longleftrightarrow> space_ok d ys n \<and> set ys \<subseteq> set xs \<and>
     (\<forall>v. lookup d n v = (if PGROUNDDOWN v = i then e else lookup d m v)) \<and>
     (\<forall>b. b \<notin> set xs \<longrightarrow> \<not> pt_page d m b \<longrightarrow> pages n b = pages m b \<and> \<not> pt_page d n b)"

lemma mappages_one:
  assumes ok: "space_ok d xs m" and al: "aligned i" and r: "mappages d i PGSIZE pa perm m = Inr (r, n)" "\<not> r < 0"
  shows "\<exists>ys. map_effect d xs m i (pa OR perm OR PTE_P) ys n"
proof -
  have "i + PGSIZE - 1 = i + 4095" by (simp add: PGSIZE_def)
  also have "PGROUNDDOWN (i + 4095) = i"
  proof -
    have "unat i mod 4096 = 0" using al by (simp add: aligned_nat)
    then have "unat i + 4095 < 2 ^ 32" using unat_bound [of i] by (auto simp: mod_eq_0_iff_dvd elim!: dvdE)
    then have "unat (i + 4095) = unat i + 4095" using unat_add_small [of i 4095] by simp
    then have "PGROUNDDOWN (i + 4095) = PGROUNDDOWN i"
      using PGROUNDDOWN_aligned [OF al] by (intro page_between) simp_all
    then show ?thesis using PGROUNDDOWN_aligned [OF al] by simp
  qed
  finally have l: "PGROUNDDOWN (i + PGSIZE - 1) = i" .
  have "mappages_loop d i i pa perm m = Inr (r, n)"
    using r(1) PGROUNDDOWN_aligned [OF al] unfolding mappages_def l by simp
  then obtain p n1 where w: "walkpgdir d i True m = (Some p, n1)" and n: "n = pte_set p (pa OR perm OR PTE_P) n1"
    using r(2) by (subst (asm) mappages_loop.simps) (auto simp: Let_def split: prod.splits option.splits if_splits)
  from walk_alloc [OF ok w] obtain t ys where p: "p = (t, PTX i)" and t: "table d n1 (PDX i) = Some t"
    and ys: "space_ok d ys n1" "set ys \<subseteq> set xs" "\<And>v. lookup d n1 v = lookup d m v"
    and pg: "\<And>b. b \<noteq> d \<Longrightarrow> b \<notin> set xs \<Longrightarrow> pages n1 b = pages m b"
    by auto
  have "space_ok d ys n" "lookup d n v = (if PGROUNDDOWN v = i then pa OR perm OR PTE_P else lookup d m v)" for v
    using space_ok_pte_set [OF ys(1) t] same_entry [of v i] PGROUNDDOWN_aligned [OF al] by (simp_all add: n p ys(3))
  moreover have "pages n b = pages m b \<and> \<not> pt_page d n b" if "b \<notin> set xs" "\<not> pt_page d m b" for b
  proof -
    have nb: "\<not> pt_page d n1 b" using walk_alloc_tables [OF ok w] that by blast
    then have "b \<noteq> t" "b \<noteq> d" using t index_less(1) by (auto simp: pt_page_def)
    moreover have "table d n j = table d n1 j" if "j < 1024" for j
      unfolding n p by (rule table_upd [OF ys(1) _ _ index_less(1) that]) (use t index_less in auto)
    ultimately show ?thesis using nb pg that by (auto simp: n p pages_pte_set pt_page_def)
  qed
  ultimately show ?thesis using ys(2) unfolding map_effect_def by blast
qed

subsection \<open>One turn of the loop\<close>

lemma table_agree: "pages m d = pages s d \<Longrightarrow> table d m i = table d s i"
  by (simp add: table_def pte_get_def)

lemma lookup_agree:
  assumes "\<And>b. pt_page d s b \<Longrightarrow> pages m b = pages s b"
  shows "lookup d m v = lookup d s v" and "table d m i = table d s i"
proof -
  have d: "pages m d = pages s d" by (rule assms) (simp add: pt_page_def)
  then show "table d m i = table d s i" by (rule table_agree)
  show "lookup d m v = lookup d s v"
  proof (cases "table d s (PDX v)")
    case (Some t)
    then have "pages m t = pages s t" using index_less(1) by (intro assms) (auto simp: pt_page_def)
    then show ?thesis using Some by (simp add: lookup_table table_agree [OF d] pte_get_def)
  qed (simp add: lookup_table table_agree [OF d])
qed

text \<open>Taking a page and filling it keeps the page tables.\<close>

lemma take_page:
  assumes "space_ok d (x # xs) m" and m2_def: "m2 = set_page x pg (m\<lparr>freelist := get32 (pages m x) 0\<rparr>)"
  shows "kalloc m = (x, m\<lparr>freelist := get32 (pages m x) 0\<rparr>)" and "x \<noteq> 0" and "x \<notin> set xs" and "aligned x"
    and "\<not> pt_page d m x" and "space_ok d xs m2" and "pt_page d m2 = pt_page d m" and "lookup d m2 = lookup d m"
    and "b \<noteq> x \<Longrightarrow> pages m2 b = pages m b" and "pages m2 x = pg"
proof -
  let ?k = "m\<lparr>freelist := get32 (pages m x) 0\<rparr>"
  have k: "kalloc m = (x, ?k) \<and> free_pages ?k xs \<and> x \<noteq> 0 \<and> x \<notin> set xs"
    using kalloc_spec(2) [OF space_okD(1) [OF assms(1)] refl] by blast
  then show "kalloc m = (x, ?k)" "x \<noteq> 0" "x \<notin> set xs" by simp_all
  show "aligned x" using space_okD(2) [OF assms(1)] by simp
  show np: "\<not> pt_page d m x" using pt_page_free [OF assms(1), of x] by auto
  show pg: "pages m2 b = pages m b" if "b \<noteq> x" for b using that by (simp add: m2_def set_page_def)
  show "pages m2 x = pg" by (simp add: m2_def set_page_def)
  have same: "pages m2 b = pages m b" if "pt_page d m b" for b using np that pg by metis
  have tab: "table d m2 i = table d m i" for i using lookup_agree(2) [OF same] by simp
  then show "pt_page d m2 = pt_page d m" by (simp add: pt_page_def fun_eq_iff)
  show "lookup d m2 = lookup d m" using lookup_agree(1) [OF same] by (simp add: fun_eq_iff)
  have "free_pages m2 xs" using k by (simp add: m2_def free_pages_set)
  moreover have "pages m2 d = pages m d" by (rule same) (simp add: pt_page_def)
  moreover have "pages m2 u = pages m u" if "i < 1024" "table d m i = Some u" for i u
    using that by (intro same) (auto simp: pt_page_def)
  ultimately show "space_ok d xs m2"
    using assms(1) unfolding space_ok_def tab by simp
qed

text \<open>
  \<open>A\<close> are the pages of the old address space: its page table and the pages it maps. The pages below \<open>i\<close> have
  been copied.
\<close>

definition page_copied :: "u32 set \<Rightarrow> u32 \<Rightarrow> pmem \<Rightarrow> u32 \<Rightarrow> u32 list \<Rightarrow> pmem \<Rightarrow> u32 \<Rightarrow> bool" where
  "page_copied A p s d xs m v \<longleftrightarrow> (let f = frame d m v in
     f \<notin> set xs \<and> \<not> pt_page d m f \<and> f \<notin> A \<and> pages m f = pages s (frame p s v) \<and>
     PTE_FLAGS (lookup d m v) = PTE_FLAGS (lookup p s v))"

definition copy_inv :: "u32 set \<Rightarrow> u32 \<Rightarrow> pmem \<Rightarrow> u32 \<Rightarrow> u32 list \<Rightarrow> u32 \<Rightarrow> pmem \<Rightarrow> bool" where
  "copy_inv A p s d xs i m \<longleftrightarrow> space_ok d xs m \<and> aligned i \<and>
     (\<forall>b\<in>A. b \<notin> set xs \<and> \<not> pt_page d m b \<and> pages m b = pages s b) \<and>
     (\<forall>v. PGROUNDDOWN v < i \<longrightarrow> page_copied A p s d xs m v) \<and>
     (\<forall>v w. PGROUNDDOWN v < i \<longrightarrow> PGROUNDDOWN w < i \<longrightarrow> frame d m v = frame d m w \<longrightarrow> PGROUNDDOWN v = PGROUNDDOWN w)"

lemma copy_invD:
  assumes "copy_inv A p s d xs i m"
  shows "space_ok d xs m" and "aligned i" and "b \<in> A \<Longrightarrow> b \<notin> set xs \<and> \<not> pt_page d m b \<and> pages m b = pages s b"
    and "PGROUNDDOWN v < i \<Longrightarrow> page_copied A p s d xs m v"
    and "PGROUNDDOWN v < i \<Longrightarrow> PGROUNDDOWN w < i \<Longrightarrow> frame d m v = frame d m w \<Longrightarrow> PGROUNDDOWN v = PGROUNDDOWN w"
  using assms unfolding copy_inv_def by blast+

text \<open>The entry for the copy of a page.\<close>

lemma copy_entry:
  assumes "aligned x" and "e AND PTE_P \<noteq> 0"
  shows "P2V (PTE_ADDR (V2P x OR PTE_FLAGS e OR PTE_P)) = x" and "PTE_FLAGS (V2P x OR PTE_FLAGS e OR PTE_P) = PTE_FLAGS e"
proof -
  have p: "bit e 0" using assms(2) by (simp add: PTE_P_def and_one_eq bit_0 mod_2_eq_odd split: if_splits)
  have v: "aligned (V2P x)" using assms(1) by (simp add: aligned_V2P)
  have fl: "PTE_FLAGS w = take_bit 12 w" for w :: u32 by (simp add: PTE_FLAGS_def take_bit_eq_mask mask_eq_exp_minus_1)
  have or: "PTE_FLAGS e OR PTE_P = PTE_FLAGS e"
    unfolding fl by (rule bit_word_eqI) (use p in \<open>auto simp: PTE_P_def bit_simps\<close>)
  have "PTE_ADDR (V2P x OR PTE_FLAGS e) = V2P x"
    by (rule entry_addr [OF v]) (simp add: fl, rule bit_word_eqI, auto simp: bit_simps)
  then show "P2V (PTE_ADDR (V2P x OR PTE_FLAGS e OR PTE_P)) = x" by (simp add: or or.assoc)
  have "PTE_FLAGS (V2P x OR PTE_FLAGS e) = PTE_FLAGS e"
    using v by (simp add: fl take_bit_or aligned_def)
  then show "PTE_FLAGS (V2P x OR PTE_FLAGS e OR PTE_P) = PTE_FLAGS e" by (simp add: or or.assoc)
qed

lemma page_before_next:
  fixes i :: u32
  assumes "aligned i" "unat i < 2 ^ 31" "PGROUNDDOWN v < i + PGSIZE"
  shows "PGROUNDDOWN v < i \<or> PGROUNDDOWN v = i"
proof -
  have i: "unat (i + PGSIZE) = unat i + 4096" using assms(2) unat_add_small [of i PGSIZE] by (simp add: PGSIZE_def)
  obtain k l where k: "unat (PGROUNDDOWN v) = 4096 * k" "unat i = 4096 * l"
    using unat_page(2) [of v] assms(1) by (auto simp: aligned_nat mod_eq_0_iff_dvd elim!: dvdE)
  have "k \<le> l" using assms(3) i k by (simp add: word_less_nat_alt)
  then show ?thesis using k by (auto simp: word_less_nat_alt word_unat_eq_iff)
qed

lemma copy_turn:
  assumes inv: "copy_inv A p s d (x # xs) i m" and par: "\<And>b. pt_page p s b \<Longrightarrow> b \<in> A" and fr: "frame p s i \<in> A"
    and pres: "lookup p s i AND PTE_P \<noteq> 0" and small: "unat i < 2 ^ 31"
    and m2: "m2 = set_page x (pages m (frame p s i)) (m\<lparr>freelist := get32 (pages m x) 0\<rparr>)"
    and n: "map_effect d xs m2 i (V2P x OR PTE_FLAGS (lookup p s i) OR PTE_P) ys n"
  shows "copy_inv A p s d ys (i + PGSIZE) n"
proof -
  note inv = copy_invD [OF inv]
  note tp = take_page [OF inv(1) m2]
  have ys: "space_ok d ys n" "set ys \<subseteq> set xs"
    and look: "\<And>v. lookup d n v = (if PGROUNDDOWN v = i then V2P x OR PTE_FLAGS (lookup p s i) OR PTE_P else lookup d m v)"
    and pgs: "\<And>b. b \<notin> set xs \<Longrightarrow> \<not> pt_page d m b \<Longrightarrow> pages n b = pages m2 b \<and> \<not> pt_page d n b"
    using n tp(7,8) unfolding map_effect_def by simp_all
  note ce = copy_entry [OF tp(4) pres]
  have x: "frame d n v = x" "PTE_FLAGS (lookup d n v) = PTE_FLAGS (lookup p s v)" "frame p s v = frame p s i"
    if "PGROUNDDOWN v = i" for v
  proof -
    have "lookup p s v = lookup p s i" using that inv(2) by (intro lookup_page) (simp add: PGROUNDDOWN_aligned)
    then show "frame d n v = x" "PTE_FLAGS (lookup d n v) = PTE_FLAGS (lookup p s v)" "frame p s v = frame p s i"
      using ce that by (simp_all add: frame_def look)
  qed
  have old: "frame d n v = frame d m v" "lookup d n v = lookup d m v" "page_copied A p s d (x # xs) m v"
    if "PGROUNDDOWN v < i" for v
    using that look inv(4) by (auto simp: frame_def)
  have xn: "x \<notin> A" using inv(3) by auto
  have "page_copied A p s d ys n v" if "PGROUNDDOWN v < i + PGSIZE" for v
    using page_before_next [OF inv(2) small that]
  proof
    assume v: "PGROUNDDOWN v < i"
    then show ?thesis using old [OF v] ys(2) pgs tp(9) by (auto simp: page_copied_def Let_def)
  next
    assume v: "PGROUNDDOWN v = i"
    have "pages n x = pages s (frame p s i)" "\<not> pt_page d n x" using pgs [OF tp(3,5)] tp(10) inv(3) [OF fr] by simp_all
    then show ?thesis using x [OF v] xn tp(3) ys(2) by (auto simp: page_copied_def)
  qed
  moreover have "b \<notin> set ys \<and> \<not> pt_page d n b \<and> pages n b = pages s b" if "b \<in> A" for b
    using inv(3) [OF that] pgs [of b] tp(9) [of b] ys(2) by auto
  moreover have "PGROUNDDOWN v = PGROUNDDOWN w" if "PGROUNDDOWN v < i + PGSIZE" "PGROUNDDOWN w < i + PGSIZE"
    "frame d n v = frame d n w" for v w
  proof -
    have ne: "frame d n u \<noteq> x" if "PGROUNDDOWN u < i" for u using old [OF that] by (auto simp: page_copied_def Let_def)
    from page_before_next [OF inv(2) small that(1)] page_before_next [OF inv(2) small that(2)] show ?thesis
      using that(3) ne x(1) old(1) inv(5) [of v w] by metis
  qed
  moreover have "aligned (i + PGSIZE)" using inv(2) by (simp add: aligned_plus)
  ultimately show ?thesis using ys(1) unfolding copy_inv_def by blast
qed

subsection \<open>The loop\<close>

text \<open>One turn, with what the code tests read off.\<close>

lemma copy_loop_turn:
  assumes "copy_loop kend p d i sz m = Inr (True, t)" and "i < sz" and "unat i < 2 ^ 31" and free: "space_ok d xs m"
  shows "lookup p m i AND PTE_P \<noteq> 0 \<and> (\<exists>x xs' m2 r n. xs = x # xs' \<and>
    m2 = set_page x (pages m (frame p m i)) (m\<lparr>freelist := get32 (pages m x) 0\<rparr>) \<and>
    mappages d i PGSIZE (V2P x) (PTE_FLAGS (lookup p m i)) m2 = Inr (r, n) \<and> \<not> r < 0 \<and>
    copy_loop kend p d (i + PGSIZE) sz n = Inr (True, t))"
proof -
  have "unat (i + PGSIZE) = unat i + 4096" using assms(3) unat_add_small [of i PGSIZE] by (simp add: PGSIZE_def)
  then have up: "i < i + PGSIZE" by (simp add: word_less_nat_alt)
  obtain u where u: "table p m (PDX i) = Some u" "pte_get (u, PTX i) m AND PTE_P \<noteq> 0"
    using assms(1,2) by (subst (asm) copy_loop.simps) (auto simp: walk_noalloc split: option.splits if_splits)
  then have l: "lookup p m i = pte_get (u, PTX i) m" by (simp add: lookup_table)
  obtain x xs' where xs: "xs = x # xs'"
    using assms(1,2) u kalloc_spec(1) [OF space_okD(1) [OF free]]
    by (cases xs; subst (asm) copy_loop.simps) (auto simp: walk_noalloc Let_def split: if_splits)
  have k: "kalloc m = (x, m\<lparr>freelist := get32 (pages m x) 0\<rparr>)" "x \<noteq> 0"
    using kalloc_spec(2) [OF space_okD(1) [OF free] xs] by blast+
  let ?m2 = "set_page x (pages m (frame p m i)) (m\<lparr>freelist := get32 (pages m x) 0\<rparr>)"
  obtain r n where "mappages d i PGSIZE (V2P x) (PTE_FLAGS (lookup p m i)) ?m2 = Inr (r, n)" "\<not> r < 0"
    "copy_loop kend p d (i + PGSIZE) sz n = Inr (True, t)"
    using assms(1,2) u k up l
    by (subst (asm) copy_loop.simps) (auto simp: walk_noalloc Let_def kres_simps frame_def split: if_splits)
  then show ?thesis
    using u l xs
    by (intro conjI exI [of _ x] exI [of _ xs'] exI [of _ ?m2] exI [of _ r] exI [of _ n]) simp_all
qed

lemma copy_loop_inv:
  assumes "copy_loop kend p d i sz m = Inr (True, t)" and "copy_inv A p s d xs i m" and "unat sz \<le> 2 ^ 31"
    and par: "\<And>b. pt_page p s b \<Longrightarrow> b \<in> A" and fr: "\<And>v. v < sz \<Longrightarrow> frame p s v \<in> A"
  shows "\<exists>ys k. copy_inv A p s d ys k t \<and> sz \<le> k"
  using assms(1,2)
proof (induction "2 ^ 32 - unat i" arbitrary: i m xs rule: less_induct)
  case less
  show ?case
  proof (cases "i < sz")
    case False
    then have "t = m" using less.prems(1) by (subst (asm) copy_loop.simps) simp
    then show ?thesis using less.prems(2) False by (intro exI [of _ xs] exI [of _ i]) (simp add: not_less)
  next
    case True
    then have small: "unat i < 2 ^ 31" using assms(3) by (simp add: word_less_nat_alt)
    note inv = copy_invD [OF less.prems(2)]
    have l: "lookup p m v = lookup p s v" for v by (rule lookup_agree(1)) (use inv(3) par in auto)
    obtain x xs' m2 r n where pres: "lookup p s i AND PTE_P \<noteq> 0" and xs: "xs = x # xs'"
      and m2: "m2 = set_page x (pages m (frame p s i)) (m\<lparr>freelist := get32 (pages m x) 0\<rparr>)"
      and n: "mappages d i PGSIZE (V2P x) (PTE_FLAGS (lookup p s i)) m2 = Inr (r, n)" "\<not> r < 0"
      and rest: "copy_loop kend p d (i + PGSIZE) sz n = Inr (True, t)"
      using copy_loop_turn [OF less.prems(1) True small inv(1)] by (auto simp: l frame_def)
    have "space_ok d xs' m2" using take_page(6) [OF inv(1) [unfolded xs] m2] .
    from mappages_one [OF this inv(2) n] obtain ys
      where ys: "map_effect d xs' m2 i (V2P x OR PTE_FLAGS (lookup p s i) OR PTE_P) ys n" ..
    have "copy_inv A p s d ys (i + PGSIZE) n"
      by (rule copy_turn [OF less.prems(2) [unfolded xs] par fr [OF True] pres small m2 ys])
    moreover have "2 ^ 32 - unat (i + PGSIZE) < 2 ^ 32 - unat i"
      using small unat_add_small [of i PGSIZE] by (simp add: PGSIZE_def)
    ultimately show ?thesis using less.hyps rest by blast
  qed
qed

text \<open>
  The start: a new page table \<open>d\<close> that maps nothing below \<open>sz\<close> yet, in a memory whose free pages and whose new
  page table are not part of the old address space.
\<close>

definition space_pages :: "u32 \<Rightarrow> u32 \<Rightarrow> pmem \<Rightarrow> u32 set" where
  "space_pages p sz s = {b. pt_page p s b} \<union> frame p s ` {v. v < sz}"

definition copy_start :: "u32 \<Rightarrow> u32 \<Rightarrow> u32 \<Rightarrow> u32 list \<Rightarrow> pmem \<Rightarrow> bool" where
  "copy_start p sz d xs s \<longleftrightarrow> space_ok d xs s \<and> (\<forall>b\<in>space_pages p sz s. b \<notin> set xs \<and> \<not> pt_page d s b)"

text \<open>
  C19. \<open>fork\<close> gives the child a copy of the memory: when the loop of \<open>copyuvm\<close> has ended with success, every user
  address below the size reads the same byte through the new page table as through the old one, with the
  same permissions; the old address space reads as before; and no page is shared, neither with the old
  address space nor between two pages of the new one.
\<close>

theorem copyuvm_copies:
  assumes "copy_loop kend p d 0 sz s = Inr (True, t)" and "copy_start p sz d xs s" and "unat sz \<le> 2 ^ 31"
    and "v < sz" and "w < sz"
  shows "user_byte d t v = user_byte p s v \<and> PTE_FLAGS (lookup d t v) = PTE_FLAGS (lookup p s v) \<and>
    user_byte p t v = user_byte p s v \<and> frame d t v \<noteq> frame p t w \<and>
    (frame d t v = frame d t w \<longrightarrow> PGROUNDDOWN v = PGROUNDDOWN w)"
proof -
  let ?A = "space_pages p sz s"
  have i0: "copy_inv ?A p s d xs 0 s"
    using assms(2) unfolding copy_inv_def copy_start_def by (auto simp: aligned_nat)
  obtain ys k where inv: "copy_inv ?A p s d ys k t" and k: "sz \<le> k"
    using copy_loop_inv [OF assms(1) i0 assms(3)] by (auto simp: space_pages_def)
  note inv = copy_invD [OF inv]
  have below: "PGROUNDDOWN u < k" if "u < sz" for u
    using that k unat_page(1) [of u] by (simp add: word_less_nat_alt word_le_nat_alt)
  have keep: "pages t b = pages s b" if "b \<in> ?A" for b using inv(3) [OF that] by simp
  have lk: "lookup p t u = lookup p s u" for u by (rule lookup_agree(1)) (simp add: keep space_pages_def)
  then have fr: "frame p t u = frame p s u" for u by (simp add: frame_def)
  have fA: "frame p s u \<in> ?A" if "u < sz" for u using that by (simp add: space_pages_def)
  have c: "page_copied ?A p s d ys t v" using inv(4) below assms(4) by blast
  then have "pages t (frame d t v) = pages s (frame p s v)" "PTE_FLAGS (lookup d t v) = PTE_FLAGS (lookup p s v)" "frame d t v \<notin> ?A"
    by (simp_all add: page_copied_def Let_def)
  then show ?thesis
    using keep [OF fA [OF assms(4)]] fr fA [OF assms(5)] inv(5) [OF below [OF assms(4)] below [OF assms(5)]]
    by (auto simp: user_byte_def)
qed

subsection \<open>A process of two pages\<close>

text \<open>
  The page table at \<open>0x80003000\<close> maps a writable page filled with 7 and a read-only page filled with 9; the
  child gets the page table at \<open>0x8000A000\<close>; three pages are free.
\<close>

definition demo_fork :: pmem where
  "demo_fork = \<lparr>pages = (\<lambda>a. if a = 0x80003000 then put32 0 0x4007 zero_page
       else if a = 0x80004000 then put32 4 0x6005 (put32 0 0x5007 zero_page)
       else if a = 0x80005000 then replicate 4096 7 else if a = 0x80006000 then replicate 4096 9
       else if a = 0x80007000 then put32 0 0x80008000 zero_page else if a = 0x80008000 then put32 0 0x80009000 zero_page
       else zero_page),
     use_lock = True, freelist = 0x80007000\<rparr>"

lemma get32_zero_page: "get32 zero_page 0 = 0" "get32 zero_page 4 = 0"
  by (simp_all add: get32_zero)

lemma demo_fork_runs: "\<exists>t. copy_loop 0 0x80003000 0x8000A000 0 0x2000 demo_fork = Inr (True, t)"
  by (simp add: copy_loop.simps walkpgdir_def mappages_def mappages_loop.simps kalloc_def Let_def pte_get_def pte_set_def set_page_def
    PDX_def PTX_def PTE_P_def PTE_W_def PTE_U_def PTE_ADDR_def PTE_FLAGS_def P2V_def V2P_def KERNBASE_def PGSIZE_def PGROUNDDOWN_def
    get32_put32 get_put_other get32_zero_page demo_fork_def)

lemma demo_fork_pages:
  "pages demo_fork 0x80003000 = put32 0 0x4007 zero_page"
  "pages demo_fork 0x80004000 = put32 4 0x6005 (put32 0 0x5007 zero_page)"
  "pages demo_fork 0x80006000 = replicate 4096 9" "pages demo_fork 0x8000A000 = zero_page"
  by (simp_all add: demo_fork_def)

lemma demo_fork_tables:
  "i < 1024 \<Longrightarrow> table 0x80003000 demo_fork i = (if i = 0 then Some 0x80004000 else None)"
  "i < 1024 \<Longrightarrow> table 0x8000A000 demo_fork i = None"
  using index_nat [of i]
  by (simp_all add: table_def pte_get_def demo_fork_pages get32_put32_zero get32_zero)
    (simp add: PTE_P_def PTE_ADDR_def P2V_def KERNBASE_def get32_put32)

lemma demo_fork_lookup: "v < 0x2000 \<Longrightarrow> lookup 0x80003000 demo_fork v = (if v < 0x1000 then 0x5007 else 0x6005)"
proof -
  assume v: "v < 0x2000"
  then have n: "unat v < 0x2000" by (simp add: word_less_nat_alt)
  have "drop_bit 22 v = 0" by (rule word_unat_eq_iff [THEN iffD2]) (use n in \<open>simp add: drop_bit_eq_div unat_div_distrib\<close>)
  then have "PDX v = 0" by (simp add: PDX_def)
  moreover have "unat (drop_bit 12 v) = unat v div 4096" by (simp add: drop_bit_eq_div unat_div_distrib)
  then have "drop_bit 12 v = (if v < 0x1000 then 0 else 1)"
    using n by (auto simp: word_unat_eq_iff word_less_nat_alt)
  ultimately have d: "PDX v = 0" "drop_bit 12 v = (if v < 0x1000 then 0 else 1)" by simp_all
  then show ?thesis
    by (simp add: lookup_table demo_fork_tables pte_get_def demo_fork_pages PTX_def get32_put32 get_put_other)
qed

lemma demo_fork_start: "copy_start 0x80003000 0x2000 0x8000A000 [0x80007000, 0x80008000, 0x80009000] demo_fork"
proof -
  have f: "frame 0x80003000 demo_fork v \<in> {0x80005000, 0x80006000}" if "v < 0x2000" for v
    using demo_fork_lookup [OF that] by (simp add: frame_def PTE_ADDR_def P2V_def KERNBASE_def)
  have "pt_page 0x80003000 demo_fork b \<Longrightarrow> b \<in> {0x80003000, 0x80004000}" for b
    by (auto simp: pt_page_def demo_fork_tables split: if_splits)
  with f have "space_pages 0x80003000 0x2000 demo_fork \<subseteq> {0x80003000, 0x80004000, 0x80005000, 0x80006000}"
    by (auto simp: space_pages_def)
  moreover have "pt_page 0x8000A000 demo_fork b \<longleftrightarrow> b = 0x8000A000" for b
    by (auto simp: pt_page_def demo_fork_tables)
  moreover have "space_ok 0x8000A000 [0x80007000, 0x80008000, 0x80009000] demo_fork"
    by (simp add: space_ok_def demo_fork_tables)
      (simp add: demo_fork_def free_pages_def get32_put32 get32_zero aligned_nat)
  ultimately show ?thesis unfolding copy_start_def by auto
qed

theorem copyuvm_copies_witness:
  "\<exists>t. copy_loop 0 0x80003000 0x8000A000 0 0x2000 demo_fork = Inr (True, t) \<and> user_byte 0x8000A000 t 0x1004 = 9 \<and>
     user_byte 0x80003000 t 0x1004 = 9 \<and> frame 0x8000A000 t 0x1004 \<noteq> frame 0x80003000 t 0x1004 \<and>
     PTE_FLAGS (lookup 0x8000A000 t 0x1004) = 5"
proof -
  obtain t where t: "copy_loop 0 0x80003000 0x8000A000 0 0x2000 demo_fork = Inr (True, t)" using demo_fork_runs by blast
  have l: "lookup 0x80003000 demo_fork 0x1004 = 0x6005" using demo_fork_lookup [of "0x1004"] by simp
  have b: "user_byte 0x80003000 demo_fork 0x1004 = 9"
    by (simp add: user_byte_def frame_def l PTE_ADDR_def P2V_def KERNBASE_def demo_fork_pages take_bit_eq_mask mask_eq_exp_minus_1)
  have "unat (0x2000 :: u32) \<le> 2 ^ 31" "(0x1004 :: u32) < 0x2000" by simp_all
  from copyuvm_copies [OF t demo_fork_start this this(2)] show ?thesis
    using t b l by (simp add: PTE_FLAGS_def)
qed

end
