(* ===== verification/Trap.thy ===== *)
theory Trap
  imports Proc Descr
begin

text \<open>
  System call dispatch (\<open>syscall.c\<close>, \<open>sysproc.c\<close>) and traps (\<open>trap.c\<close>). A stretch of kernel code ends as in
  \<^const>\<open>Done\<close>, \<^const>\<open>Asleep\<close>, \<^const>\<open>Yielded\<close>, \<^const>\<open>Dead\<close>; what follows a sleep is a stretch of its own.
  The handlers of the disk, the keyboard and the serial line are an argument.
\<close>

subsection \<open>System calls on processes\<close>

text \<open>The calls that cannot sleep, as stretches.\<close>

definition done_with :: "(int \<times> 's) kres \<Rightarrow> (outcome \<times> 's) kres" where
  "done_with m = kbind m (\<lambda>(r, s). Inr (Done r, s))"

definition sys_kill :: "nat \<Rightarrow> ('d, 'z) kstate_scheme \<Rightarrow> (int \<times> ('d, 'z) kstate_scheme) kres" where
  "sys_kill c s =
     (case argint 0 s of None \<Rightarrow> Inr (-1, s) | Some pid \<Rightarrow> locked_ptable c (kill_scan pid) s)"

definition sys_getpid :: "('d, 'z) kstate_scheme \<Rightarrow> int" where
  "sys_getpid s = sint (us_pid s)"

text \<open>
  \<open>sys_sleep\<close> with \<open>tickslock\<close> held: one test of the loop, ending in a return or in \<open>sleep\<close>. The count \<open>n\<close>
  is converted to an unsigned number in the comparison.
\<close>

definition sleep_test :: "nat \<Rightarrow> u32 \<Rightarrow> u32 \<Rightarrow> ('d, 'z) kstate_scheme \<Rightarrow> (outcome \<times> ('d, 'z) kstate_scheme) kres" where
  "sleep_test c ticks0 n s =
     (let t = ktab s; finish = (\<lambda>r. kbind (release c TicksLock (pmach t)) (\<lambda>m. Inr (Done r, s\<lparr>ktab := t\<lparr>pmach := m\<rparr>\<rparr>))) in
      if kticks s - ticks0 < n then
        if p_killed (proc_at (us_slot s) t) then finish (-1)
        else let s = save_cur s in
          kbind (sleep_enter c ChanTicks (Some TicksLock) (ktab s)) (\<lambda>(ie, t). Inr (Asleep ie, s\<lparr>ktab := t\<rparr>))
      else finish 0)"

definition sys_sleep :: "nat \<Rightarrow> ('d, 'z) kstate_scheme \<Rightarrow> (outcome \<times> ('d, 'z) kstate_scheme) kres" where
  "sys_sleep c s =
     (case argint 0 s of
        None \<Rightarrow> Inr (Done (-1), s)
      | Some n \<Rightarrow>
          kbind (acquire c TicksLock (pmach (ktab s))) (\<lambda>m.
            sleep_test c (kticks s) n (s\<lparr>ktab := (ktab s)\<lparr>pmach := m\<rparr>\<rparr>)))"

definition sys_uptime :: "nat \<Rightarrow> ('d, 'z) kstate_scheme \<Rightarrow> (int \<times> ('d, 'z) kstate_scheme) kres" where
  "sys_uptime c s =
     kbind (critical c TicksLock (\<lambda>t. (kticks s, t)) (ktab s)) (\<lambda>(x, t). Inr (sint x, s\<lparr>ktab := t\<rparr>))"

subsection \<open>Dispatch\<close>

definition SYS_fork :: int where "SYS_fork = 1"
definition SYS_exit :: int where "SYS_exit = 2"
definition SYS_wait :: int where "SYS_wait = 3"
definition SYS_pipe :: int where "SYS_pipe = 4"
definition SYS_read :: int where "SYS_read = 5"
definition SYS_kill :: int where "SYS_kill = 6"
definition SYS_exec :: int where "SYS_exec = 7"
definition SYS_fstat :: int where "SYS_fstat = 8"
definition SYS_chdir :: int where "SYS_chdir = 9"
definition SYS_dup :: int where "SYS_dup = 10"
definition SYS_getpid :: int where "SYS_getpid = 11"
definition SYS_sbrk :: int where "SYS_sbrk = 12"
definition SYS_sleep :: int where "SYS_sleep = 13"
definition SYS_uptime :: int where "SYS_uptime = 14"
definition SYS_open :: int where "SYS_open = 15"
definition SYS_write :: int where "SYS_write = 16"
definition SYS_mknod :: int where "SYS_mknod = 17"
definition SYS_unlink :: int where "SYS_unlink = 18"
definition SYS_link :: int where "SYS_link = 19"
definition SYS_mkdir :: int where "SYS_mkdir = 20"
definition SYS_close :: int where "SYS_close = 21"

lemmas SYS_defs = SYS_fork_def SYS_exit_def SYS_wait_def SYS_pipe_def SYS_read_def SYS_kill_def SYS_exec_def
  SYS_fstat_def SYS_chdir_def SYS_dup_def SYS_getpid_def SYS_sbrk_def SYS_sleep_def SYS_uptime_def SYS_open_def
  SYS_write_def SYS_mknod_def SYS_unlink_def SYS_link_def SYS_mkdir_def SYS_close_def

text \<open>The table of system calls; \<open>None\<close> where it has no entry.\<close>

definition syscalls :: "kenv \<Rightarrow> int \<Rightarrow>
    (('d, 'z) kstate_scheme \<Rightarrow> (outcome \<times> ('d, 'z) kstate_scheme) kres) option" where
  "syscalls e = map_of
     [(SYS_fork, \<lambda>s. done_with (fork e s)), (SYS_exit, exit (ke_cpu e)), (SYS_wait, wait e),
      (SYS_pipe, \<lambda>s. done_with (sys_pipe (ke_pipe e) s)), (SYS_read, \<lambda>s. done_with (sys_read s)),
      (SYS_kill, \<lambda>s. done_with (sys_kill (ke_cpu e) s)),
      (SYS_exec, \<lambda>s. done_with (sys_exec (ke_end e) (ke_data e) s)), (SYS_fstat, \<lambda>s. done_with (sys_fstat s)),
      (SYS_chdir, \<lambda>s. done_with (sys_chdir s)), (SYS_dup, \<lambda>s. done_with (sys_dup s)),
      (SYS_getpid, \<lambda>s. Inr (Done (sys_getpid s), s)), (SYS_sbrk, \<lambda>s. done_with (sys_sbrk (ke_end e) s)),
      (SYS_sleep, sys_sleep (ke_cpu e)), (SYS_uptime, \<lambda>s. done_with (sys_uptime (ke_cpu e) s)),
      (SYS_open, \<lambda>s. done_with (sys_open s)), (SYS_write, \<lambda>s. done_with (sys_write s)),
      (SYS_mknod, \<lambda>s. done_with (sys_mknod s)), (SYS_unlink, \<lambda>s. done_with (sys_unlink s)),
      (SYS_link, \<lambda>s. done_with (sys_link s)), (SYS_mkdir, \<lambda>s. done_with (sys_mkdir s)),
      (SYS_close, \<lambda>s. done_with (sys_close s))]"

definition set_eax :: "int \<Rightarrow> ('d, 'z) kstate_scheme \<Rightarrow> ('d, 'z) kstate_scheme" where
  "set_eax r s = s\<lparr>us_regs := (us_regs s)\<lparr>tf_eax := of_int r\<rparr>\<rparr>"

definition syscall :: "kenv \<Rightarrow> ('d, 'z) kstate_scheme \<Rightarrow> (outcome \<times> ('d, 'z) kstate_scheme) kres" where
  "syscall e s =
     (let num = sint (tf_eax (us_regs s)) in
      case (if 0 < num then syscalls e num else None) of
        None \<Rightarrow> Inr (Done (-1), set_eax (-1) s)
      | Some f \<Rightarrow>
          kbind (f s) (\<lambda>(r, s). case r of Done v \<Rightarrow> Inr (Done v, set_eax v s) | _ \<Rightarrow> Inr (r, s)))"

subsection \<open>Traps\<close>

definition T_PGFLT :: u32 where "T_PGFLT = 14"
definition T_IRQ0 :: u32 where "T_IRQ0 = 32"
definition T_SYSCALL :: u32 where "T_SYSCALL = 64"
definition IRQ_TIMER :: u32 where "IRQ_TIMER = 0"
definition IRQ_KBD :: u32 where "IRQ_KBD = 1"
definition IRQ_COM1 :: u32 where "IRQ_COM1 = 4"
definition IRQ_IDE :: u32 where "IRQ_IDE = 14"
definition IRQ_SPURIOUS :: u32 where "IRQ_SPURIOUS = 31"

text \<open>The clock tick, counted by the first CPU.\<close>

definition clock_tick :: "nat \<Rightarrow> ('d, 'z) kstate_scheme \<Rightarrow> ('d, 'z) kstate_scheme kres" where
  "clock_tick c s =
     (if c \<noteq> 0 then Inr s
      else
        kbind (acquire c TicksLock (pmach (ktab s))) (\<lambda>m.
          let s = s\<lparr>ktab := (ktab s)\<lparr>pmach := m\<rparr>, kticks := kticks s + 1\<rparr> in
          kbind (wakeup c ChanTicks (ktab s)) (\<lambda>(_, t).
          kbind (release c TicksLock (pmach t)) (\<lambda>m. Inr (s\<lparr>ktab := t\<lparr>pmach := m\<rparr>\<rparr>)))))"

text \<open>The privilege level of the interrupted code.\<close>

definition from_user :: "trapframe \<Rightarrow> bool" where
  "from_user tf \<longleftrightarrow> tf_cs tf AND 3 = 3"

definition cur_killed :: "nat \<Rightarrow> ('d, 'z) kstate_scheme \<Rightarrow> bool" where
  "cur_killed c s \<longleftrightarrow> (case curproc c (ktab s) of None \<Rightarrow> False | Some i \<Rightarrow> p_killed (proc_at i (ktab s)))"

text \<open>
  The cases of the \<open>switch\<close>; \<open>True\<close> if the trap returns at once (a page that has been swapped in). \<open>dev\<close>
  are the handlers of the devices, \<open>cr2\<close> is the faulting address.
\<close>

definition bad_trap :: "nat \<Rightarrow> trapframe \<Rightarrow> ('d, 'z) kstate_scheme \<Rightarrow> (bool \<times> ('d, 'z) kstate_scheme) kres" where
  "bad_trap c tf s =
     (case curproc c (ktab s) of
        None \<Rightarrow> Inl (Panic ''trap'')
      | Some i \<Rightarrow>
          if tf_cs tf AND 3 = 0 then Inl (Panic ''trap'')
          else Inr (False, on_proc i (\<lambda>p. p\<lparr>p_killed := True\<rparr>) s))"

definition handle_trap :: "(u32 \<Rightarrow> ('d, 'z) kstate_scheme \<Rightarrow> ('d, 'z) kstate_scheme kres) \<Rightarrow> kenv \<Rightarrow> u32 \<Rightarrow> trapframe \<Rightarrow>
    ('d, 'z) kstate_scheme \<Rightarrow> (bool \<times> ('d, 'z) kstate_scheme) kres" where
  "handle_trap dev e cr2 tf s =
     (let c = ke_cpu e; no = tf_trapno tf; go = (\<lambda>m. kbind m (\<lambda>s. Inr (False, s))) in
      if no = T_IRQ0 + IRQ_TIMER then go (clock_tick c s)
      else if no = T_IRQ0 + IRQ_IDE then go (dev IRQ_IDE s)
      else if no = T_IRQ0 + IRQ_IDE + 1 then Inr (False, s)
      else if no = T_IRQ0 + IRQ_KBD then go (dev IRQ_KBD s)
      else if no = T_IRQ0 + IRQ_COM1 then go (dev IRQ_COM1 s)
      else if no = T_IRQ0 + 7 \<or> no = T_IRQ0 + IRQ_SPURIOUS then Inr (False, s)
      else if no = T_PGFLT then
        if curproc c (ktab s) = None then Inl (Fault ''null'')
        else kbind (page_fault (ke_end e) cr2 s) (\<lambda>(swapped, s). if swapped then Inr (True, s) else bad_trap c tf s)
      else bad_trap c tf s)"

text \<open>The end of \<open>trap\<close>: a killed process leaves, a clock tick makes the running process yield.\<close>

definition trap_tail :: "nat \<Rightarrow> trapframe \<Rightarrow> ('d, 'z) kstate_scheme \<Rightarrow> (outcome \<times> ('d, 'z) kstate_scheme) kres" where
  "trap_tail c tf s =
     (if cur_killed c s \<and> from_user tf then exit c s
      else case curproc c (ktab s) of
        None \<Rightarrow> Inr (Done 0, s)
      | Some i \<Rightarrow>
          if p_state (proc_at i (ktab s)) = RUNNING \<and> tf_trapno tf = T_IRQ0 + IRQ_TIMER then
            let s = save_cur s in kbind (yield_enter c (ktab s)) (\<lambda>(ie, t). Inr (Yielded ie, s\<lparr>ktab := t\<rparr>))
          else Inr (Done 0, s))"

text \<open>What follows when the process that yielded runs again.\<close>

definition trap_resume :: "nat \<Rightarrow> bool \<Rightarrow> trapframe \<Rightarrow> ('d, 'z) kstate_scheme \<Rightarrow> (outcome \<times> ('d, 'z) kstate_scheme) kres" where
  "trap_resume c ie tf s =
     kbind (yield_exit c ie (ktab s)) (\<lambda>t.
       let s = s\<lparr>ktab := t\<rparr> in if cur_killed c s \<and> from_user tf then exit c s else Inr (Done 0, s))"

text \<open>
  A trap from user mode finds the kernel stack empty: its frame is the one that the \<open>tf\<close> of the process
  points to.
\<close>

definition enter_trap :: "trapframe \<Rightarrow> ('d, 'z) kstate_scheme \<Rightarrow> ('d, 'z) kstate_scheme" where
  "enter_trap tf s = s\<lparr>us_regs := tf, us_eip := tf_eip tf, us_esp := tf_esp tf\<rparr>"

definition trap :: "(u32 \<Rightarrow> ('d, 'z) kstate_scheme \<Rightarrow> ('d, 'z) kstate_scheme kres) \<Rightarrow> kenv \<Rightarrow> u32 \<Rightarrow> trapframe \<Rightarrow>
    ('d, 'z) kstate_scheme \<Rightarrow> (outcome \<times> ('d, 'z) kstate_scheme) kres" where
  "trap dev e cr2 tf s =
     (let c = ke_cpu e in
      if tf_trapno tf = T_SYSCALL then
        case curproc c (ktab s) of
          None \<Rightarrow> Inl (Fault ''null'')
        | Some i \<Rightarrow>
            if cur_killed c s then exit c s
            else
              kbind (syscall e (enter_trap tf (s\<lparr>us_killed := False\<rparr>))) (\<lambda>(r, s).
                case r of
                  Done _ \<Rightarrow> if cur_killed c s then exit c s else Inr (Done 0, s)
                | _ \<Rightarrow> Inr (r, s))
      else
        kbind (handle_trap dev e cr2 tf (if from_user tf then enter_trap tf s else s)) (\<lambda>(back, s).
          if back then Inr (Done 0, s) else trap_tail c tf s))"

subsection \<open>The end of a process\<close>

text \<open>The operations on files do not touch the process table.\<close>

lemma more_same: "files.more t = files.more s \<Longrightarrow> ktab t = ktab s \<and> us_slot t = us_slot s"
  for s t :: "('d, 'z) kstate_scheme"
  by (cases s; cases t; simp)

lemma rim_same: "rim t = rim s \<Longrightarrow> ktab t = ktab s \<and> us_slot t = us_slot s"
  for s t :: "('d, 'z) kstate_scheme"
  by (auto dest!: rim_files more_same)

lemma fileclose_same: "fileclose pid f s = Inr t \<Longrightarrow> ktab t = ktab s \<and> us_slot t = us_slot s"
  for s t :: "('d, 'z) kstate_scheme"
  by (auto simp: fileclose_def Let_def kres_simps split: if_splits ftype.splits prod.splits
      dest!: begin_end_frame iput_rim rim_frefs more_same) (simp_all add: upd_file_def)

lemma close_files_same: "close_files fds s = Inr t \<Longrightarrow> ktab t = ktab s \<and> us_slot t = us_slot s"
  for s t :: "('d, 'z) kstate_scheme"
proof (induction fds arbitrary: s)
  case (Cons fd fds)
  from Cons.prems show ?case
    by (auto simp: kres_simps split: option.splits dest!: Cons.IH fileclose_same)
qed simp

lemma unlink_path_rim: "unlink_path path s = Inr (r, t) \<Longrightarrow> rim t = rim s"
  by (auto simp: unlink_path_def Let_def kres_simps split: option.splits if_splits
      dest!: begin_end_frame nameiparent_rim fail_op_rim ilock_frame iunlockput_frame dirlookup_rim isdirempty_frame
        writei_frame set_nlink_frame)

lemma removeSwapFile_same: "removeSwapFile p s = Inr (r, t) \<Longrightarrow> ktab t = ktab s \<and> us_slot t = us_slot s"
  for s t :: "('d, 'z) kstate_scheme"
  by (auto simp: removeSwapFile_def kres_simps split: option.splits dest!: fileclose_same unlink_path_rim rim_same)

lemma exit_table_zombie: "cur < length (procs t) \<Longrightarrow> p_state (proc_at cur (exit_table cur ini t)) = ZOMBIE"
  by (simp add: exit_table_def Let_def reparent_simps)

lemma sched_enter_procs: "sched_enter c t = Inr (ie, u) \<Longrightarrow> procs u = procs t"
  by (auto simp: sched_enter_def Let_def kres_simps split: option.splits if_splits)

lemma exit_ends:
  assumes "exit c s = Inr (r, t)" "us_slot s < length (procs (ktab s))"
  shows "\<exists>ie. r = Dead ie \<and> p_state (proc_at (us_slot s) (ktab t)) = ZOMBIE"
proof -
  obtain ini where ini: "initproc (ktab s) = Some ini" "us_slot s \<noteq> ini"
    using assms(1) by (auto simp: exit_def split: option.splits if_splits)
  from assms(1) ini obtain s1 s2 s3 s4 s5 where 1: "close_files [0..<NOFILE] s = Inr s1"
    and 2: "removeSwapFile (us_slot s1) s1 = Inr (0, s2)" and 3: "do_begin_op s2 = Inr s3"
    and 4: "iput (us_pid s3) (us_cwd s3) s3 = Inr s4" and 5: "do_end_op s4 = Inr s5"
    and 6: "(let s = on_proc (us_slot s5) (\<lambda>p. p\<lparr>p_cwd := None\<rparr>) (save_cur s5) in
               kbind (acquire c PtableLock (pmach (ktab s))) (\<lambda>m.
               let t = exit_table (us_slot s) ini ((ktab s)\<lparr>pmach := m\<rparr>) in
               kbind (sched_enter c t) (\<lambda>(ie, t). Inr (Dead ie, s\<lparr>ktab := t\<rparr>)))) = Inr (r, t)"
    by (auto simp: exit_def kres_simps split: if_splits)
  have same: "ktab s5 = ktab s \<and> us_slot s5 = us_slot s"
    using close_files_same [OF 1] removeSwapFile_same [OF 2] begin_end_frame(1) [OF 3] iput_rim [OF 4]
      begin_end_frame(2) [OF 5] by (auto dest!: rim_same)
  let ?u = "on_proc (us_slot s5) (\<lambda>p. p\<lparr>p_cwd := None\<rparr>) (save_cur s5)"
  have u: "us_slot ?u = us_slot s" "length (procs (ktab ?u)) = length (procs (ktab s))"
    using same by (simp_all add: on_proc_def save_cur_def)
  obtain m ie v where "sched_enter c (exit_table (us_slot ?u) ini ((ktab ?u)\<lparr>pmach := m\<rparr>)) = Inr (ie, v)"
    and t: "r = Dead ie" "ktab t = v"
    using 6 by (auto simp: Let_def kres_simps)
  then have "procs v = procs (exit_table (us_slot s) ini ((ktab ?u)\<lparr>pmach := m\<rparr>))" by (simp add: sched_enter_procs u)
  then show ?thesis using t u assms(2) exit_table_zombie [of "us_slot s" "(ktab ?u)\<lparr>pmach := m\<rparr>" ini] by simp
qed


subsection \<open>A process that dies\<close>

text \<open>
  A machine with one CPU on which process 3 runs, a child of the first process: its open files are closed,
  its swap file is the entry \<open>.swap3\<close> of the root directory. It takes a general protection fault.
\<close>

definition demo_rest :: block where "demo_rest = replicate 496 0"
definition demo_zeros :: block where "demo_zeros = replicate 512 0"

definition demo_root_block :: block where
  "demo_root_block = put_dirent \<lparr>de_inum = 2, de_name = strncpy_bytes DIRSIZ [46, 115, 119, 97, 112, 51]\<rparr> @ demo_rest"

definition demo_table :: "bool \<Rightarrow> proc ptab" where
  "demo_table k = \<lparr>pmach = \<lparr>cpus = [zero_cpu\<lparr>cproc := Some 1, iflag := True\<rparr>], locks = (\<lambda>l. \<lparr>locked = False, lcpu = None\<rparr>)\<rparr>,
     procs = [zero_proc\<lparr>p_state := SLEEPING, p_pid := 1\<rparr>, zero_proc\<lparr>p_state := RUNNING, p_pid := 3, p_parent := Some 0, p_killed := k\<rparr>],
     nextpid = 4, initproc = Some 0\<rparr>"

definition demo_trap :: trapframe where
  "demo_trap = zero_tf\<lparr>tf_trapno := 13, tf_cs := 0x1B\<rparr>"

definition demo_kernel :: "bool \<Rightarrow> unit kstate" where
  "demo_kernel k = \<lparr>flog = \<lparr>disk = (\<lambda>b. if b = 5 then demo_root_block else demo_zeros), cache = (\<lambda>b. None), wr = [],
       lstart = 100, lsize = 30, outstanding = 0, committing = False, lh = []\<rparr>,
     fsb = \<lparr>sb_size = 200, sb_nblocks = 90, sb_ninodes = 8, sb_nlog = 30, sb_logstart = 100, sb_inodestart = 3, sb_bmapstart = 2\<rparr>,
     icache = [demo_inode\<lparr>i_dev := 1, i_inum := 1, i_ref := 2, i_valid := True, i_type := T_DIR, i_nlink := 1, i_size := 16,
         i_addrs := 5 # replicate 12 0\<rparr>,
       demo_inode\<lparr>i_dev := 1, i_inum := 2, i_ref := 2, i_valid := True, i_type := T_FILE, i_nlink := 1\<rparr>, demo_inode],
     fdev = (), devsw = (\<lambda>m. \<lparr>dev_read = None, dev_write = None\<rparr>),
     ftable = [demo_file\<lparr>f_type := FD_INODE, f_ref := 1, f_ip := 1\<rparr>, demo_file], pipes = (\<lambda>k. pipe_init []), fwake = [],
     us_pid = 3, us_killed = False, us_sz = 4096, us_esp = 0, us_mem = (\<lambda>a. 0), us_ofile = replicate 16 None, us_cwd = 0,
     pm = \<lparr>pages = (\<lambda>a. []), use_lock = True, freelist = 0\<rparr>,
     pgm = replicate 2 \<lparr>swapFile = Some 0, nPagesInPhyMemory = 0, nPagesInSwapFile = 0, pagesInPhyMem = [], pagesInSwapFile = [], qhead = None\<rparr>,
     us_slot = 1, us_pgdir = 0, us_eip = 0, us_name = [],
     ktab = demo_table k,
     us_regs = demo_trap, kticks = 0, forkret_first = False\<rparr>"

definition demo_env :: kenv where
  "demo_env = \<lparr>ke_cpu = 0, ke_end = 0, ke_data = 0, ke_forkret = 0, ke_trapret = 0, ke_pipe = None\<rparr>"

lemmas demo_simps = demo_kernel_def demo_inode_def demo_file_def



lemmas lock_simps = acquire_def acquire_begin_def acquire_xchg_def acquire_end_def holding_def pushcli_def popcli_def upd_cpu_def modify_def

lemmas inode_simps = fileclose_def upd_file_def modify_def do_begin_op_def begin_op_def LOGSIZE_def MAXOPBLOCKS_def
    iput_def lock_inode_def acquiresleep_def initsleeplock_def upd_inode_def unlock_inode_def releasesleep_def
    do_end_op_def end_op_def end_op_begin_def commit_def

lemma close_no_files: "us_ofile s = replicate 16 None \<Longrightarrow> set fds \<subseteq> {..<16} \<Longrightarrow> close_files fds s = Inr s"
  by (induction fds) auto

lemma demo_swap_path: "swap_path 3 = [47, 46, 115, 119, 97, 112, 51]"
  by (simp add: swap_path_def itoa_def)


lemma demo_swap_closed: "fileclose 3 0 (demo_kernel k) = Inr ((demo_kernel k)\<lparr>ftable := [demo_file\<lparr>f_ip := 1\<rparr>, demo_file],
    icache := modify 1 (\<lambda>ip. ip\<lparr>i_ref := 1\<rparr>) (icache (demo_kernel k))\<rparr>)"
  by (simp add: inode_simps demo_simps)

lemmas path_simps = unlink_path_def nameiparent_def namex_def first_byte_def slash_def iget_def idup_def ROOTDEV_def ROOTINO_def
  namex_loop.simps skipelem_def DIRSIZ_def ilock_def iunlock_def holdingsleep_def T_DIR_def T_FILE_def T_DEV_def
  dirlookup_def dirlookup_loop.simps readi_def readi_loop.simps chunk_def bmap_def BSIZE_def NDIRECT_def
  bview_def demo_root_block_def put_dirent_def get_dirent_def put16_def get16_def namecmp_def dot_def dotdot_def


lemma bytes_numeral:
  "strncpy_bytes (numeral k) t = (if first_byte t = 0 then replicate (numeral k) 0 else first_byte t # strncpy_bytes (pred_numeral k) (tl t))"
  "strncmp_bytes (numeral k) p q =
     (if first_byte p \<noteq> 0 \<and> first_byte p = first_byte q then strncmp_bytes (pred_numeral k) (tl p) (tl q)
      else uint (first_byte p) - uint (first_byte q))"
  by (simp_all add: numeral_eq_Suc)

lemma eight_zeros: "replicate 8 (0 :: u8) = [0, 0, 0, 0, 0, 0, 0, 0]"
  by (simp add: eval_nat_numeral)

lemma demo_names: "strncpy_bytes 14 [46, 115, 119, 97, 112, 51] = [46, 115, 119, 97, 112, 51, 0, 0, 0, 0, 0, 0, 0, 0]"
  "strncmp_bytes 14 [46, 115, 119, 97, 112, 51] [46, 115, 119, 97, 112, 51, 0, 0, 0, 0, 0, 0, 0, 0] = 0"
  "strncmp_bytes 14 [46, 115, 119, 97, 112, 51] [46] \<noteq> 0" "strncmp_bytes 14 [46, 115, 119, 97, 112, 51] [46, 46] \<noteq> 0"
  by (simp_all add: bytes_numeral first_byte_def eight_zeros)

definition demo_unswapped :: "bool \<Rightarrow> unit kstate" where
  "demo_unswapped k = (demo_kernel k)\<lparr>ftable := [demo_file\<lparr>f_ip := 1\<rparr>, demo_file],
    icache := modify 1 (\<lambda>ip. ip\<lparr>i_ref := 1\<rparr>) (icache (demo_kernel k))\<rparr>"

lemma demo_unlink: "\<exists>t. unlink_path [47, 46, 115, 119, 97, 112, 51] (demo_unswapped k) = Inr (0, t) \<and> outstanding (flog t) = 0 \<and> \<not> committing (flog t) \<and> lh (flog t) = []
    \<and> icache t = modify 1 (\<lambda>ip. ip\<lparr>i_ref := 1, i_nlink := 0\<rparr>) (icache (demo_kernel k)) \<and> rim t = rim (demo_unswapped k)"
  by (simp add: path_simps inode_simps demo_simps demo_names demo_unswapped_def iunlockput_def writei_def writei_loop.simps MAXFILE_def NINDIRECT_def
    put_block_def log_write_def bwrite_block_def write_head_def set_nlink_def iupdate_def rim_def IBLOCK_def IPB_def Let_def)

lemma demo_table_killed: "upd_proc 1 (\<lambda>p. p\<lparr>p_killed := True\<rparr>) (demo_table False) = demo_table True"
  by (simp add: upd_proc_def modify_def demo_table_def)

lemma demo_exit: "\<exists>r t. exit 0 (demo_kernel True) = Inr (r, t)"
proof -
  have ini: "initproc (ktab (demo_kernel True)) = Some 0" "us_slot (demo_kernel True) = 1" "us_pid (demo_kernel True) = 3"
    and fs: "swapFile (pgm (demo_kernel True) ! 1) = Some 0"
    by (simp_all add: demo_kernel_def demo_table_def)
  have 1: "close_files [0..<NOFILE] (demo_kernel True) = Inr (demo_kernel True)"
    by (rule close_no_files) (auto simp: demo_kernel_def NOFILE_def)
  have us: "us_pid (demo_unswapped True) = 3" "us_cwd (demo_unswapped True) = 0" "us_slot (demo_unswapped True) = 1"
    "ktab (demo_unswapped True) = demo_table True"
    by (simp_all add: demo_unswapped_def demo_kernel_def)
  obtain t where t: "unlink_path [47, 46, 115, 119, 97, 112, 51] (demo_unswapped True) = Inr (0, t)"
    "outstanding (flog t) = 0" "\<not> committing (flog t)" "lh (flog t) = []"
    "icache t = modify 1 (\<lambda>ip. ip\<lparr>i_ref := 1, i_nlink := 0\<rparr>) (icache (demo_kernel True))" "rim t = rim (demo_unswapped True)"
    using demo_unlink [of True] by blast
  have rs: "removeSwapFile 1 (demo_kernel True) = Inr (0, t)"
    using fs demo_swap_closed [of True] t(1) ini(3) by (simp add: removeSwapFile_def demo_swap_path demo_unswapped_def)
  have tu: "us_pid t = 3" "us_cwd t = 0"
    using us(1,2) t(6) by (auto dest!: rim_files sysst_more)
  obtain u where u: "do_begin_op t = Inr u" "u = t\<lparr>flog := (flog t)\<lparr>outstanding := 1\<rparr>\<rparr>"
    using t(2-4) by (simp add: do_begin_op_def begin_op_def LOGSIZE_def MAXOPBLOCKS_def)
  obtain v where v: "iput 3 0 u = Inr v" "flog v = flog u"
    using u(2) t(5) by (simp add: iput_def inode_simps demo_simps T_DIR_def)
  obtain w where w: "do_end_op v = Inr w"
    using v(2) u(2) t(2-4) by (simp add: do_end_op_def end_op_def end_op_begin_def)
  have same: "ktab w = demo_table True" "us_slot w = 1"
    using begin_end_frame(1) [OF u(1)] iput_rim [OF v(1)] begin_end_frame(2) [OF w] t(6) us(3,4) by (auto dest!: rim_same)
  have uu: "us_pid u = 3" "us_cwd u = 0" using u(2) tu by simp_all
  show ?thesis
    using ini 1 rs u(1) v(1) w same uu
    by (simp add: exit_def Let_def save_cur_def on_proc_def demo_table_def upd_proc_def modify_def lock_simps exit_table_def
      wakeup1_def sched_enter_def zero_cpu_def zero_proc_def)
qed

lemma demo_trap_exit: "trap (\<lambda>_ s. Inr s) demo_env 0 demo_trap (demo_kernel False) = exit 0 (demo_kernel True)"
proof -
  have u: "from_user demo_trap" "tf_trapno demo_trap = 13" "\<not> tf_cs demo_trap AND 3 = 0" "ke_cpu demo_env = 0"
    by (simp_all add: from_user_def demo_trap_def demo_env_def)
  have e: "enter_trap demo_trap (demo_kernel False) = demo_kernel False"
    by (simp add: enter_trap_def demo_kernel_def demo_trap_def zero_tf_def)
  have c: "cproc (the_cpu 0 (pmach (ktab (demo_kernel False)))) = Some 1" by (simp add: demo_kernel_def demo_table_def)
  have k: "on_proc 1 (\<lambda>p. p\<lparr>p_killed := True\<rparr>) (demo_kernel False) = demo_kernel True"
    using demo_table_killed by (simp add: on_proc_def demo_kernel_def)
  have "cproc (the_cpu 0 (pmach (ktab (demo_kernel True)))) = Some 1" "p_killed (proc_at 1 (ktab (demo_kernel True)))"
    by (simp_all add: demo_kernel_def demo_table_def)
  then show ?thesis
    using u e c k
    by (simp add: trap_def handle_trap_def bad_trap_def Let_def trap_tail_def cur_killed_def T_SYSCALL_def T_PGFLT_def
      T_IRQ0_def IRQ_TIMER_def IRQ_IDE_def IRQ_KBD_def IRQ_COM1_def IRQ_SPURIOUS_def)
qed


end
