(* ===== verification/Umalloc.thy ===== *)
theory Umalloc
  imports Prelude
begin

text \<open>
  The memory allocator of user programs (\<open>umalloc.c\<close>): a circular list of free blocks in address order,
  threaded through the headers of the blocks. A header has 8 bytes; sizes count headers. The address of
  the static header \<open>base\<close> is an argument, and so are the results of the calls of \<open>sbrk\<close>, in order.
  A walk around a damaged list would not end, so the loops are partial functions.
\<close>

subsection \<open>The allocator\<close>

record heap =
  hptr :: "u32 \<Rightarrow> u32"
  hsize :: "u32 \<Rightarrow> u32"
  freep :: u32

definition set_ptr :: "u32 \<Rightarrow> u32 \<Rightarrow> heap \<Rightarrow> heap" where
  "set_ptr p q h = h\<lparr>hptr := (hptr h)(p := q)\<rparr>"

definition set_size :: "u32 \<Rightarrow> u32 \<Rightarrow> heap \<Rightarrow> heap" where
  "set_size p n h = h\<lparr>hsize := (hsize h)(p := n)\<rparr>"

text \<open>The loop of \<open>free\<close>: the block after which \<open>bp\<close> belongs.\<close>

partial_function (option) free_find :: "u32 \<Rightarrow> u32 \<Rightarrow> heap \<Rightarrow> u32 option" where
  [code]: "free_find bp p h =
     (if p < bp \<and> bp < hptr h p then Some p
      else if hptr h p \<le> p \<and> (p < bp \<or> bp < hptr h p) then Some p
      else free_find bp (hptr h p) h)"

definition join_upper :: "u32 \<Rightarrow> u32 \<Rightarrow> heap \<Rightarrow> heap" where
  "join_upper bp p h =
     (if bp + hsize h bp * 8 = hptr h p
      then let h' = set_size bp (hsize h bp + hsize h (hptr h p)) h in set_ptr bp (hptr h' (hptr h' p)) h'
      else set_ptr bp (hptr h p) h)"

definition join_lower :: "u32 \<Rightarrow> u32 \<Rightarrow> heap \<Rightarrow> heap" where
  "join_lower bp p h =
     (if p + hsize h p * 8 = bp
      then let h = set_size p (hsize h p + hsize h bp) h in set_ptr p (hptr h bp) h
      else set_ptr p bp h)"

definition ufree :: "u32 \<Rightarrow> heap \<Rightarrow> heap option" where
  "ufree ap h =
     (let bp = ap - 8 in
      case free_find bp (freep h) h of
        None \<Rightarrow> None
      | Some p \<Rightarrow> Some ((join_lower bp p (join_upper bp p h))\<lparr>freep := p\<rparr>))"

text \<open>\<open>morecore\<close>; the inner option is a null pointer, the results of \<open>sbrk\<close> that remain come second.\<close>

definition morecore :: "u32 \<Rightarrow> u32 list \<Rightarrow> heap \<Rightarrow> (u32 option \<times> u32 list \<times> heap) option" where
  "morecore nu rs h =
     (let nu = (if nu < 4096 then 4096 else nu) in
      case rs of
        [] \<Rightarrow> Some (None, [], h)
      | p # rs \<Rightarrow>
          if p = 0xFFFFFFFF then Some (None, rs, h)
          else case ufree (p + 8) (set_size p nu h) of
                 None \<Rightarrow> None
               | Some h \<Rightarrow> Some (Some (freep h), rs, h))"

definition nunits :: "u32 \<Rightarrow> u32" where
  "nunits nbytes = (nbytes + 8 - 1) div 8 + 1"

text \<open>Taking \<open>n\<close> units out of the block \<open>p\<close> that follows \<open>prevp\<close>: the whole block, or its upper end.\<close>

definition take_block :: "u32 \<Rightarrow> u32 \<Rightarrow> u32 \<Rightarrow> heap \<Rightarrow> u32 \<times> heap" where
  "take_block n prevp p h =
     (if hsize h p = n then (p + 8, (set_ptr prevp (hptr h p) h)\<lparr>freep := prevp\<rparr>)
      else
        let h = set_size p (hsize h p - n) h; q = p + hsize h p * 8
        in (q + 8, (set_size q n h)\<lparr>freep := prevp\<rparr>))"

partial_function (option) malloc_loop ::
    "u32 \<Rightarrow> u32 \<Rightarrow> u32 \<Rightarrow> u32 list \<Rightarrow> heap \<Rightarrow> (u32 \<times> u32 list \<times> heap) option" where
  [code]: "malloc_loop n prevp p rs h =
     (if n \<le> hsize h p then (case take_block n prevp p h of (r, h) \<Rightarrow> Some (r, rs, h))
      else if p = freep h then
        (case morecore n rs h of
           None \<Rightarrow> None
         | Some (None, rs, h) \<Rightarrow> Some (0, rs, h)
         | Some (Some p, rs, h) \<Rightarrow> malloc_loop n p (hptr h p) rs h)
      else malloc_loop n p (hptr h p) rs h)"

definition malloc_init :: "u32 \<Rightarrow> heap \<Rightarrow> heap" where
  "malloc_init base h =
     (if freep h = 0 then set_size base 0 (set_ptr base base h)\<lparr>freep := base\<rparr> else h)"

definition malloc :: "u32 \<Rightarrow> u32 \<Rightarrow> u32 list \<Rightarrow> heap \<Rightarrow> (u32 \<times> u32 list \<times> heap) option" where
  "malloc base nbytes rs h =
     (let h = malloc_init base h in malloc_loop (nunits nbytes) (freep h) (hptr h (freep h)) rs h)"

subsection \<open>The free list\<close>

lemma set_simps [simp]:
  "hptr (set_ptr p q h) = (hptr h)(p := q)" "hsize (set_ptr p q h) = hsize h" "freep (set_ptr p q h) = freep h"
  "hptr (set_size p n h) = hptr h" "hsize (set_size p n h) = (hsize h)(p := n)" "freep (set_size p n h) = freep h"
  by (simp_all add: set_ptr_def set_size_def)

fun flinks :: "heap \<Rightarrow> u32 \<Rightarrow> u32 list \<Rightarrow> u32 \<Rightarrow> bool" where
  "flinks h p [] q \<longleftrightarrow> p = q"
| "flinks h p (x # xs) q \<longleftrightarrow> p = x \<and> flinks h (hptr h x) xs q"

lemma flinks_append: "flinks h p (xs @ ys) q \<longleftrightarrow> (\<exists>r. flinks h p xs r \<and> flinks h r ys q)"
  by (induction xs arbitrary: p) auto

lemma flinks_cong: "(\<And>x. x \<in> set xs \<Longrightarrow> hptr g x = hptr h x) \<Longrightarrow> flinks g p xs q \<longleftrightarrow> flinks h p xs q"
  by (induction xs arbitrary: p) auto

text \<open>The bytes of a free block.\<close>

definition bend :: "heap \<Rightarrow> u32 \<Rightarrow> nat" where
  "bend h x = unat x + 8 * unat (hsize h x)"

definition units :: "heap \<Rightarrow> u32 list \<Rightarrow> nat set" where
  "units h xs = (\<Union>x\<in>set xs. {unat x..<bend h x})"

text \<open>
  The invariant: the list of free blocks starts with \<open>base\<close>, which has no room, is circular and in
  address order without overlaps, and no block reaches beyond the end of memory.
\<close>

definition lies_below :: "heap \<Rightarrow> u32 \<Rightarrow> u32 \<Rightarrow> bool" where
  "lies_below h x y \<longleftrightarrow> unat x < unat y \<and> bend h x \<le> unat y"

definition heap_ok :: "u32 \<Rightarrow> u32 list \<Rightarrow> heap \<Rightarrow> bool" where
  "heap_ok base bs h \<longleftrightarrow> 0 < base \<and> hsize h base = 0 \<and> flinks h base (base # bs) base \<and>
     sorted_wrt (lies_below h) (base # bs) \<and> (\<forall>x\<in>set bs. 0 < hsize h x \<and> bend h x \<le> 2 ^ 32) \<and> freep h \<in> set (base # bs)"

lemma set_ptr_below [simp]: "bend (set_ptr p q h) = bend h" "lies_below (set_ptr p q h) = lies_below h"
  by (simp_all add: fun_eq_iff bend_def lies_below_def)

lemma free_find_walk:
  "flinks h p xs q \<Longrightarrow>
   (\<And>x. x \<in> set xs \<Longrightarrow> \<not> (x < bp \<and> bp < hptr h x) \<and> \<not> (hptr h x \<le> x \<and> (x < bp \<or> bp < hptr h x))) \<Longrightarrow>
   free_find bp p h = free_find bp q h"
proof (induction xs arbitrary: p)
  case (Cons x xs)
  have "free_find bp x h = free_find bp (hptr h x) h" using Cons(3) [of x] by (subst free_find.simps) auto
  then show ?case using Cons by simp
qed simp

lemma unat_end: "bend h x < 2 ^ 32 \<Longrightarrow> unat (x + hsize h x * 8) = bend h x"
proof -
  assume b: "bend h x < 2 ^ 32"
  have "unat (hsize h x * 8) = 8 * unat (hsize h x)" using b by (simp add: unat_word_ariths bend_def)
  then show ?thesis using b unat_add_small [of x "hsize h x * 8"] by (simp add: bend_def)
qed

lemma end_wraps: "bend h x = 2 ^ 32 \<Longrightarrow> x + hsize h x * 8 = 0"
proof -
  assume b: "bend h x = 2 ^ 32"
  have "of_nat (bend h x) = x + hsize h x * 8" by (simp add: bend_def algebra_simps)
  moreover have "of_nat (2 ^ 32) = (0 :: u32)" by simp
  ultimately show ?thesis unfolding b by metis
qed

lemma unat_size_sum:
  "unat x + 8 * (unat a + unat b) \<le> 2 ^ 32 \<Longrightarrow> unat (a + b :: u32) = unat a + unat b" for x :: u32
  by (rule unat_add_small) simp

lemma sorted_below_cong:
  assumes "sorted_wrt (lies_below h) xs" and "x \<notin> set xs" and "\<And>y. y \<noteq> x \<Longrightarrow> bend g y = bend h y"
  shows "sorted_wrt (lies_below g) xs"
proof (rule sorted_wrt_mono_rel [OF _ assms(1)])
  fix y w
  assume "y \<in> set xs" "lies_below h y w"
  then have "y \<noteq> x" "lies_below h y w" using assms(2) by auto
  then show "lies_below g y w" using assms(3) [of y] by (simp add: lies_below_def)
qed

lemma split_list_at:
  "sorted_wrt (lies_below h) (y # ys) \<Longrightarrow> y < bp \<Longrightarrow> bp \<notin> set ys \<Longrightarrow>
   \<exists>us x vs. y # ys = us @ x # vs \<and> (\<forall>z\<in>set (us @ [x]). z < bp) \<and> (\<forall>z\<in>set vs. bp < z)"
proof (induction ys arbitrary: y)
  case Nil
  then show ?case by (intro exI [of _ "[]"]) auto
next
  case (Cons z zs)
  show ?case
  proof (cases "z < bp")
    case True
    then obtain us x vs where "z # zs = us @ x # vs" "\<forall>w\<in>set (us @ [x]). w < bp" "\<forall>w\<in>set vs. bp < w"
      using Cons.IH [of z] Cons.prems by auto
    then show ?thesis using Cons.prems(2) by (intro exI [of _ "y # us"] exI [of _ x] exI [of _ vs]) auto
  next
    case False
    then have "bp < z" using Cons.prems(3) by auto
    moreover have "z < w" if "w \<in> set zs" for w using Cons.prems(1) that by (auto simp: lies_below_def word_less_nat_alt)
    ultimately show ?thesis using Cons.prems(2) by (intro exI [of _ "[]"]) (auto dest: order_less_trans)
  qed
qed

text \<open>A block that is to be freed: not empty, inside memory, above \<open>base\<close>, and not free already.\<close>

definition in_use :: "u32 \<Rightarrow> u32 list \<Rightarrow> heap \<Rightarrow> u32 \<Rightarrow> bool" where
  "in_use base bs h bp \<longleftrightarrow> base < bp \<and> 0 < hsize h bp \<and> bend h bp \<le> 2 ^ 32 \<and> {unat bp..<bend h bp} \<inter> units h bs = {}"

lemma gap:
  assumes "lies_below h x y \<or> lies_below h y x \<or> {unat x..<bend h x} \<inter> {unat y..<bend h y} = {}" and "x < y" and "0 < hsize h y"
  shows "lies_below h x y"
proof -
  have "unat y < bend h y" using assms(3) by (simp add: bend_def word_less_nat_alt)
  then have "unat y \<in> {unat y..<bend h y}" by simp
  moreover have "\<not> bend h x \<le> unat y \<Longrightarrow> unat y \<in> {unat x..<bend h x}" using assms(2) by (simp add: word_less_nat_alt)
  ultimately show ?thesis using assms(1,2) by (auto simp: lies_below_def word_less_nat_alt)
qed

lemma in_use_position:
  assumes ok: "heap_ok base bs h" and u: "in_use base bs h bp"
  obtains us x vs where "base # bs = us @ x # vs" "\<forall>z\<in>set (us @ [x]). z < bp" "\<forall>z\<in>set vs. bp < z"
    "sorted_wrt (lies_below h) (us @ x # bp # vs)"
proof -
  have d: "{unat y..<bend h y} \<inter> {unat bp..<bend h bp} = {}" if "y \<in> set bs" for y
    using u that unfolding in_use_def units_def by blast
  have pos: "\<And>y. y \<in> set bs \<Longrightarrow> 0 < hsize h y" and base: "hsize h base = 0" "base < bp" "0 < hsize h bp"
    using ok u by (auto simp: heap_ok_def in_use_def)
  have "bp \<notin> set bs" using d [of bp] base(3) by (auto simp: bend_def word_less_nat_alt)
  moreover have s: "sorted_wrt (lies_below h) (base # bs)" using ok by (simp add: heap_ok_def)
  ultimately obtain us x vs where sp: "base # bs = us @ x # vs" "\<forall>z\<in>set (us @ [x]). z < bp" "\<forall>z\<in>set vs. bp < z"
    using split_list_at [OF _ base(2), of h bs] by blast
  have lo: "lies_below h y bp" if y: "y \<in> set (us @ [x])" for y
  proof -
    have "y \<in> set (base # bs)" unfolding sp(1) using y by auto
    then have "y = base \<or> y \<in> set bs" by simp
    then show ?thesis
    proof
      assume "y = base"
      then show ?thesis using base by (simp add: lies_below_def bend_def word_less_nat_alt)
    next
      assume "y \<in> set bs"
      then show ?thesis using gap [OF _ _ base(3), of y] d sp(2) y by auto
    qed
  qed
  have hi: "lies_below h bp y" if y: "y \<in> set vs" for y
  proof -
    have "y \<noteq> base" using sp(3) y base(2) by auto
    moreover have "y \<in> set (base # bs)" unfolding sp(1) using y by simp
    ultimately have "y \<in> set bs" by simp
    then show ?thesis using gap [of h bp y] d [of y] pos [of y] sp(3) y by auto
  qed
  have "sorted_wrt (lies_below h) (us @ x # bp # vs)"
    using s lo hi unfolding sp(1) by (auto simp: sorted_wrt_append)
  then show ?thesis using sp that by blast
qed

text \<open>Joining with the block above.\<close>

text \<open>
  What joining with the block above leaves in a heap \<open>g\<close>: \<open>bp\<close> stands between \<open>x\<close> and the blocks \<open>vs'\<close>, and
  only \<open>bp\<close> has changed.
\<close>

definition joined_up :: "heap \<Rightarrow> u32 list \<Rightarrow> u32 \<Rightarrow> u32 \<Rightarrow> u32 list \<Rightarrow> u32 \<Rightarrow> heap \<Rightarrow> u32 list \<Rightarrow> bool" where
  "joined_up h us x bp vs base g vs' \<longleftrightarrow> sorted_wrt (lies_below g) (us @ x # bp # vs') \<and>
     (\<forall>y. y \<noteq> bp \<longrightarrow> hptr g y = hptr h y \<and> hsize g y = hsize h y) \<and>
     flinks g (hptr g bp) vs' base \<and> set vs' \<subseteq> set vs \<and>
     {unat bp..<bend g bp} \<union> units h vs' = {unat bp..<bend h bp} \<union> units h vs \<and>
     hsize h bp \<le> hsize g bp \<and> bend g bp \<le> 2 ^ 32"

lemma join_upper_apart:
  assumes s: "sorted_wrt (lies_below h) (us @ x # bp # vs)" and ch: "flinks h (hptr h x) vs base"
    and le: "bend h bp \<le> 2 ^ 32" and ne: "bp + hsize h bp * 8 \<noteq> hptr h x"
  shows "joined_up h us x bp vs base (join_upper bp x h) vs"
proof -
  have g: "join_upper bp x h = set_ptr bp (hptr h x) h" using ne by (simp add: join_upper_def)
  have "bp \<notin> set vs" using s by (auto simp: sorted_wrt_append lies_below_def)
  then have "flinks (join_upper bp x h) (hptr h x) vs base" using ch by (subst flinks_cong [of _ _ h]) (auto simp: g)
  then show ?thesis using s le by (simp add: joined_up_def g)
qed

lemma join_upper_touch:
  assumes s: "sorted_wrt (lies_below h) (us @ x # bp # z # zs)" and z: "hptr h x = z" "flinks h (hptr h z) zs base"
    and e: "bend h bp = unat z" "bp + hsize h bp * 8 = z" and le: "bend h z \<le> 2 ^ 32"
  shows "joined_up h us x bp (z # zs) base (join_upper bp x h) zs"
proof -
  let ?g = "join_upper bp x h" and ?n = "hsize h bp + hsize h z"
  have bz: "lies_below h bp z" "z \<noteq> bp" "bp \<notin> set zs" "bp \<notin> set (us @ [x])"
    using s by (auto simp: sorted_wrt_append lies_below_def)
  have g: "?g = set_ptr bp (hptr h z) (set_size bp ?n h)" using e(2) bz(2) by (simp add: join_upper_def z Let_def)
  have b: "unat bp + 8 * (unat (hsize h bp) + unat (hsize h z)) = bend h z" using e(1) by (simp add: bend_def)
  have n: "unat ?n = unat (hsize h bp) + unat (hsize h z)" using b le by (intro unat_size_sum [of bp]) simp
  have gb: "bend ?g bp = bend h z" using b n by (simp add: g bend_def)
  have ge: "bend ?g y = bend h y" if "y \<noteq> bp" for y using that by (simp add: g bend_def)
  have c: "flinks ?g (hptr h z) zs base" using z(2) bz(3) by (subst flinks_cong [of _ _ h]) (auto simp: g)
  have so: "sorted_wrt (lies_below h) (us @ x # zs)" "\<And>w. w \<in> set zs \<Longrightarrow> lies_below h z w"
    "\<And>y. y \<in> set (us @ [x]) \<Longrightarrow> lies_below h y bp"
    using s by (auto simp: sorted_wrt_append)
  have "lies_below ?g bp w" if "w \<in> set zs" for w using so(2) [OF that] gb bz(1) by (simp add: lies_below_def)
  moreover have "lies_below ?g y bp" if y: "y \<in> set (us @ [x])" for y
  proof -
    have "y \<noteq> bp" using y bz(4) by auto
    then show ?thesis using so(3) [OF y] ge [of y] by (simp add: lies_below_def)
  qed
  moreover have "sorted_wrt (lies_below ?g) (us @ x # zs)"
    by (rule sorted_below_cong [OF so(1) _ ge]) (use bz(3,4) in auto)
  ultimately have "sorted_wrt (lies_below ?g) (us @ x # bp # zs)" by (auto simp: sorted_wrt_append)
  moreover have "{unat bp..<bend ?g bp} \<union> units h zs = {unat bp..<bend h bp} \<union> units h (z # zs)"
    using e(1) unfolding gb units_def by (auto simp: bend_def)
  moreover have "hsize h bp \<le> hsize ?g bp" using n by (simp add: g word_le_nat_alt)
  ultimately show ?thesis using c gb le by (auto simp: joined_up_def g)
qed

lemma join_upper_ok:
  assumes ok: "heap_ok base bs h" and u: "in_use base bs h bp" and sp: "base # bs = us @ x # vs"
    and s: "sorted_wrt (lies_below h) (us @ x # bp # vs)"
  obtains vs' where "joined_up h us x bp vs base (join_upper bp x h) vs'"
proof -
  have ch: "flinks h (hptr h x) vs base" and b0: "0 < base"
    using ok unfolding heap_ok_def sp by (auto simp: flinks_append)
  have bp: "bend h bp \<le> 2 ^ 32" "base < bp" using u by (auto simp: in_use_def)
  show ?thesis
  proof (cases vs)
    case Nil
    have "bp + hsize h bp * 8 \<noteq> base"
    proof (cases "bend h bp = 2 ^ 32")
      case True
      then show ?thesis using end_wraps b0 by auto
    next
      case False
      then have "unat (bp + hsize h bp * 8) = bend h bp" using bp(1) by (intro unat_end) simp
      then show ?thesis using bp(2) by (auto simp: bend_def word_less_nat_alt)
    qed
    then show ?thesis using join_upper_apart [OF s ch bp(1)] ch Nil by (intro that) simp
  next
    case (Cons z zs)
    then have z: "hptr h x = z" "flinks h (hptr h z) zs base" and bz: "lies_below h bp z"
      using ch s by (auto simp: sorted_wrt_append)
    have un: "unat (bp + hsize h bp * 8) = bend h bp"
      using bz unat_bound [of z] by (intro unat_end) (simp add: lies_below_def)
    have "z \<in> set (base # bs)" "z \<noteq> base" unfolding sp using Cons bz bp(2) by (auto simp: lies_below_def word_less_nat_alt)
    then have le: "bend h z \<le> 2 ^ 32" using ok by (auto simp: heap_ok_def)
    show ?thesis
    proof (cases "bp + hsize h bp * 8 = z")
      case True
      then show ?thesis
        using join_upper_touch [OF s [unfolded Cons] z _ True le] un Cons by (intro that) simp
    next
      case False
      then show ?thesis using join_upper_apart [OF s ch bp(1)] z(1) by (intro that) simp
    qed
  qed
qed

text \<open>What joining with the block below leaves: only \<open>x\<close> has changed, and the blocks \<open>ws\<close> follow it.\<close>

definition joined_down :: "heap \<Rightarrow> u32 list \<Rightarrow> u32 \<Rightarrow> u32 \<Rightarrow> u32 list \<Rightarrow> u32 \<Rightarrow> heap \<Rightarrow> u32 list \<Rightarrow> bool" where
  "joined_down h us x bp vs base g ws \<longleftrightarrow> sorted_wrt (lies_below g) (us @ x # ws) \<and>
     (\<forall>y. y \<noteq> x \<longrightarrow> hptr g y = hptr h y \<and> hsize g y = hsize h y) \<and>
     flinks g (hptr g x) ws base \<and> set ws \<subseteq> insert bp (set vs) \<and>
     {unat x..<bend g x} \<union> units h ws = {unat x..<bend h x} \<union> {unat bp..<bend h bp} \<union> units h vs \<and>
     hsize h x \<le> hsize g x \<and> bend g x \<le> max (bend h x) (2 ^ 32) \<and> (hsize h x = 0 \<longrightarrow> hsize g x = 0) \<and>
     (bp \<in> set ws \<or> hsize h bp \<le> hsize g x)"

lemma join_lower_ok:
  assumes s: "sorted_wrt (lies_below h) (us @ x # bp # vs)" and ch: "flinks h (hptr h bp) vs base"
    and bp: "0 < hsize h bp" "bend h bp \<le> 2 ^ 32"
  obtains ws where "joined_down h us x bp vs base (join_lower bp x h) ws"
proof -
  let ?g = "join_lower bp x h"
  have xbp: "lies_below h x bp" and x: "x \<notin> set (bp # vs)" and nx: "x \<notin> set us"
    using s by (auto simp: sorted_wrt_append lies_below_def)
  have un: "unat (x + hsize h x * 8) = bend h x"
    using xbp unat_bound [of bp] by (intro unat_end) (simp add: lies_below_def)
  have eq: "x + hsize h x * 8 = bp \<longleftrightarrow> bend h x = unat bp" using un by (auto intro: unsigned_word_eqI)
  show ?thesis
  proof (cases "bend h x = unat bp")
    case False
    then have g: "?g = set_ptr x bp h" using eq by (simp add: join_lower_def)
    have c: "flinks ?g (hptr h bp) vs base" using ch x by (subst flinks_cong [of _ _ h]) (auto simp: g)
    show ?thesis
      by (rule that [of "bp # vs"]) (use s c x in \<open>auto simp: joined_down_def g units_def\<close>)
  next
    case True
    let ?n = "hsize h x + hsize h bp"
    have g: "?g = set_ptr x (hptr h bp) (set_size x ?n h)" using eq True by (simp add: join_lower_def Let_def)
    have b: "unat x + 8 * (unat (hsize h x) + unat (hsize h bp)) = bend h bp" using True by (simp add: bend_def)
    have n: "unat ?n = unat (hsize h x) + unat (hsize h bp)" using b bp(2) by (intro unat_size_sum [of x]) simp
    have gx: "bend ?g x = bend h bp" using b n by (simp add: g bend_def)
    have ge: "bend ?g y = bend h y" if "y \<noteq> x" for y using that by (simp add: g bend_def)
    have c: "flinks ?g (hptr h bp) vs base" using ch x by (subst flinks_cong [of _ _ h]) (auto simp: g)
    have lies_below: "lies_below ?g y w" if "y \<noteq> x" "lies_below h y w" for y w using that ge [OF that(1)] by (simp add: lies_below_def)
    have so: "sorted_wrt (lies_below ?g) (us @ x # vs)"
      unfolding sorted_wrt_append sorted_wrt.simps
    proof (intro conjI ballI)
      show "sorted_wrt (lies_below ?g) us" "sorted_wrt (lies_below ?g) vs"
        using s nx x by (auto intro!: sorted_below_cong [OF _ _ ge] simp: sorted_wrt_append)
      show "lies_below ?g x w" if "w \<in> set vs" for w using s that gx xbp by (auto simp: sorted_wrt_append lies_below_def)
      show "lies_below ?g y w" if "y \<in> set us" "w \<in> set (x # vs)" for y w
        using s that nx by (intro lies_below) (auto simp: sorted_wrt_append)
    qed
    have "{unat x..<bend h bp} = {unat x..<bend h x} \<union> {unat bp..<bend h bp}" using True by (auto simp: bend_def)
    moreover have "hsize h x \<le> ?n" "hsize h bp \<le> ?n" unfolding word_le_nat_alt n by simp_all
    moreover have "hsize h x \<noteq> 0" using True xbp by (auto simp: bend_def lies_below_def)
    ultimately show ?thesis
      by (intro that [of vs]) (use so c gx bp(2) in \<open>auto simp: joined_down_def g\<close>)
  qed
qed

lemma units_append: "units h (xs @ ys) = units h xs \<union> units h ys" and units_Cons: "units h (x # xs) = {unat x..<bend h x} \<union> units h xs"
  by (auto simp: units_def)

lemma units_cong: "(\<And>y. y \<in> set xs \<Longrightarrow> hsize g y = hsize h y) \<Longrightarrow> units g xs = units h xs"
  by (simp add: units_def bend_def)

lemma free_find_position:
  assumes ch: "flinks h base (us @ x # vs) base" and fp: "f \<in> set (us @ x # vs)" and hd: "base = hd (us @ [x])"
    and lo: "\<forall>z\<in>set (us @ [x]). z < bp" and hi: "\<forall>z\<in>set vs. bp < z" and s: "sorted_wrt (lies_below h) (us @ x # vs)"
  shows "free_find bp f h = Some x"
proof -
  have c: "flinks h base us x" "flinks h (hptr h x) vs base" using ch by (auto simp: flinks_append)
  have bx: "base \<le> x"
    using s hd by (cases us) (auto simp: lies_below_def word_less_nat_alt word_le_nat_alt)
  have nxt: "hptr h x = (case vs of [] \<Rightarrow> base | z # zs \<Rightarrow> z)" using c(2) by (cases vs) auto
  have stop: "free_find bp x h = Some x"
  proof (cases vs)
    case Nil
    then show ?thesis using nxt lo bx by (subst free_find.simps) auto
  next
    case (Cons z zs)
    then show ?thesis using nxt lo hi by (subst free_find.simps) auto
  qed
  have go_us: "\<not> (y < bp \<and> bp < hptr h y) \<and> \<not> (hptr h y \<le> y \<and> (y < bp \<or> bp < hptr h y))" if y: "y \<in> set us" for y
  proof -
    obtain as bs where us: "us = as @ y # bs" using y by (meson split_list)
    have "flinks h (hptr h y) bs x" using c(1) unfolding us by (auto simp: flinks_append)
    then have "hptr h y \<in> set (bs @ [x])" by (cases bs) auto
    then have "hptr h y < bp" "y < hptr h y"
      using lo s unfolding us by (auto simp: sorted_wrt_append lies_below_def word_less_nat_alt)
    then show ?thesis by auto
  qed
  have go_vs: "\<not> (y < bp \<and> bp < hptr h y) \<and> \<not> (hptr h y \<le> y \<and> (y < bp \<or> bp < hptr h y))" if y: "y \<in> set vs" for y
  proof -
    obtain as bs where vs: "vs = as @ y # bs" using y by (meson split_list)
    have "flinks h (hptr h y) bs base" using c(2) unfolding vs by (auto simp: flinks_append)
    then have "hptr h y = base \<or> hptr h y \<in> set bs" by (cases bs) auto
    moreover have "base < bp" using lo hd by (cases us) auto
    moreover have "z \<in> set bs \<Longrightarrow> y < z" for z using s unfolding vs by (auto simp: sorted_wrt_append lies_below_def word_less_nat_alt)
    ultimately have "hptr h y \<le> y \<Longrightarrow> \<not> bp < hptr h y" by (auto simp: not_le [symmetric])
    moreover have "\<not> y < bp" using hi y by (simp add: less_imp_not_less)
    ultimately show ?thesis by blast
  qed
  have from_us: "free_find bp f h = Some x" if f: "f \<in> set us" for f
  proof -
    obtain as bs where us: "us = as @ f # bs" using f by (meson split_list)
    have "flinks h f (f # bs) x" using c(1) unfolding us by (auto simp: flinks_append)
    then show ?thesis using free_find_walk [of h f "f # bs" x bp] go_us us stop by auto
  qed
  have fb: "free_find bp base h = Some x" using free_find_walk [OF c(1), of bp] go_us stop by simp
  show ?thesis
  proof (cases "f \<in> set vs")
    case True
    obtain as bs where vs: "vs = as @ f # bs" using True by (meson split_list)
    have "flinks h f (f # bs) base" using c(2) unfolding vs by (auto simp: flinks_append)
    then show ?thesis using free_find_walk [of h f "f # bs" base bp] go_vs vs fb by auto
  next
    case False
    then show ?thesis using fp from_us stop by auto
  qed
qed

lemma heap_ok_rebuild:
  assumes ok: "heap_ok base bs h" and sp: "base # bs = us @ x # vs"
    and so: "sorted_wrt (lies_below g) (us @ x # ws)" and ch: "flinks g (hptr g x) ws base"
    and same: "\<And>y. y \<in> set us \<Longrightarrow> hptr g y = hptr h y \<and> hsize g y = hsize h y"
    and x: "hsize h x = 0 \<Longrightarrow> hsize g x = 0" "hsize h x \<le> hsize g x" "bend g x \<le> 2 ^ 32"
    and ws: "\<And>y. y \<in> set ws \<Longrightarrow> 0 < hsize g y \<and> bend g y \<le> 2 ^ 32" and f: "freep g = x"
  obtains bs' where "base # bs' = us @ x # ws" and "heap_ok base bs' g"
proof -
  have hd: "base = hd (us @ [x])" using sp by (cases us) auto
  then obtain bs' where bs': "base # bs' = us @ x # ws" by (cases us) auto
  have b0: "0 < base" "hsize h base = 0" and s: "sorted_wrt (lies_below h) (us @ x # vs)"
    and c: "flinks h base us x" and pos: "\<And>y. y \<in> set bs \<Longrightarrow> 0 < hsize h y \<and> bend h y \<le> 2 ^ 32"
    using ok unfolding heap_ok_def sp by (auto simp: flinks_append)
  have dist: "base \<notin> set bs'"
    using so unfolding bs' [symmetric] by (auto simp: lies_below_def)
  have gb: "hsize g base = 0" using b0(2) same x(1) hd by (cases us) auto
  have cg: "flinks g base (us @ x # ws) base" using c ch same flinks_cong [of us g h] by (auto simp: flinks_append)
  have p: "0 < hsize g y \<and> bend g y \<le> 2 ^ 32" if y: "y \<in> set bs'" for y
  proof -
    have nb: "y \<noteq> base" using y dist by auto
    have "y \<in> set us \<or> y = x \<or> y \<in> set ws" using y bs' by (metis UnE list.set_intros(2) set_ConsD set_append)
    moreover have "y \<in> set us \<or> y = x \<Longrightarrow> y \<in> set bs"
    proof -
      assume "y \<in> set us \<or> y = x"
      then have "y \<in> set (base # bs)" unfolding sp by auto
      then show "y \<in> set bs" using nb by simp
    qed
    ultimately show ?thesis using same [of y] pos [of y] x(2,3) ws [of y] by (auto simp: bend_def)
  qed
  have "heap_ok base bs' g"
    unfolding heap_ok_def bs' using b0(1) gb cg so p f by auto
  then show ?thesis using bs' that by blast
qed

text \<open>The block \<open>bp\<close> is to be put behind \<open>x\<close>.\<close>

definition freeing :: "u32 \<Rightarrow> u32 list \<Rightarrow> heap \<Rightarrow> u32 \<Rightarrow> u32 list \<Rightarrow> u32 \<Rightarrow> u32 list \<Rightarrow> bool" where
  "freeing base bs h bp us x vs \<longleftrightarrow> heap_ok base bs h \<and> in_use base bs h bp \<and> base # bs = us @ x # vs \<and>
     sorted_wrt (lies_below h) (us @ x # bp # vs)"

lemma freeingD:
  assumes "freeing base bs h bp us x vs"
  shows "heap_ok base bs h" "base # bs = us @ x # vs" "sorted_wrt (lies_below h) (us @ x # bp # vs)"
    and "bp \<notin> set (us @ x # vs)" "x \<notin> set us" "x \<notin> set vs" "set vs \<subseteq> set bs" "0 < hsize h bp" "bend h x \<le> 2 ^ 32"
proof -
  show ok: "heap_ok base bs h" and sp: "base # bs = us @ x # vs" and s: "sorted_wrt (lies_below h) (us @ x # bp # vs)"
    and "0 < hsize h bp" using assms by (auto simp: freeing_def in_use_def)
  show "bp \<notin> set (us @ x # vs)" "x \<notin> set us" "x \<notin> set vs" using s by (auto simp: sorted_wrt_append lies_below_def)
  have "base \<notin> set vs" using s sp by (cases us) (auto simp: sorted_wrt_append lies_below_def)
  moreover have "set vs \<subseteq> set (base # bs)" unfolding sp by auto
  ultimately show "set vs \<subseteq> set bs" by auto
  show "bend h x \<le> 2 ^ 32" using s unat_bound [of bp] by (auto simp: sorted_wrt_append lies_below_def)
qed

text \<open>The two joins together, of which only \<open>bp\<close> and \<open>x\<close> can tell the difference.\<close>

lemma joined_blocks:
  assumes f: "freeing base bs h bp us x vs" and U: "joined_up h us x bp vs base h1 vs'" and L: "joined_down h1 us x bp vs' base h2 ws"
  shows "bend h1 x = bend h x" "hsize h1 x = hsize h x"
    and "y \<in> set us \<Longrightarrow> hptr h2 y = hptr h y \<and> hsize h2 y = hsize h y"
    and "y \<in> set ws \<Longrightarrow> y \<noteq> x \<and> hptr h2 y = hptr h1 y \<and> hsize h2 y = hsize h1 y \<and> 0 < hsize h2 y \<and> bend h2 y \<le> 2 ^ 32"
proof -
  note F = freeingD [OF f]
  have u: "hptr h1 y = hptr h y" "hsize h1 y = hsize h y" if "y \<noteq> bp" for y using U that by (simp_all add: joined_up_def)
  have l: "hptr h2 y = hptr h1 y" "hsize h2 y = hsize h1 y" if "y \<noteq> x" for y using L that by (simp_all add: joined_down_def)
  have ws: "set ws \<subseteq> insert bp (set vs)" using U L by (auto simp: joined_up_def joined_down_def)
  show "bend h1 x = bend h x" "hsize h1 x = hsize h x" using u(2) F(4) by (auto simp: bend_def)
  show "hptr h2 y = hptr h y \<and> hsize h2 y = hsize h y" if "y \<in> set us"
  proof -
    have "y \<noteq> x" "y \<noteq> bp" using that F(4,5) by auto
    then show ?thesis using u l by simp
  qed
  assume y: "y \<in> set ws"
  then have nx: "y \<noteq> x" using ws F(4,6) by auto
  have "0 < hsize h1 y \<and> bend h1 y \<le> 2 ^ 32"
  proof (cases "y = bp")
    case True
    have "hsize h bp \<le> hsize h1 bp" "bend h1 bp \<le> 2 ^ 32" using U by (simp_all add: joined_up_def)
    then show ?thesis using order_less_le_trans [OF F(8)] True by simp
  next
    case False
    then have "y \<in> set bs" using y ws F(7) by auto
    then show ?thesis using F(1) u(2) [OF False] by (auto simp: heap_ok_def bend_def)
  qed
  then show "y \<noteq> x \<and> hptr h2 y = hptr h1 y \<and> hsize h2 y = hsize h1 y \<and> 0 < hsize h2 y \<and> bend h2 y \<le> 2 ^ 32"
    using l [OF nx] nx by (simp add: bend_def)
qed

lemma freed_heap:
  assumes f: "freeing base bs h bp us x vs" and U: "joined_up h us x bp vs base h1 vs'" and L: "joined_down h1 us x bp vs' base h2 ws"
  obtains bs' where "base # bs' = us @ x # ws" "heap_ok base bs' (h2\<lparr>freep := x\<rparr>)"
proof (rule heap_ok_rebuild [OF freeingD(1,2) [OF f], of "h2\<lparr>freep := x\<rparr>" ws])
  let ?g = "h2\<lparr>freep := x\<rparr>"
  note J = joined_blocks [OF f U L]
  have g: "lies_below ?g = lies_below h2" "bend ?g = bend h2" by (simp_all add: fun_eq_iff lies_below_def bend_def)
  show "sorted_wrt (lies_below ?g) (us @ x # ws)" using L by (simp add: joined_down_def g)
  show "flinks ?g (hptr ?g x) ws base" using L by (subst flinks_cong [of _ _ h2]) (auto simp: joined_down_def)
  show "hptr ?g y = hptr h y \<and> hsize ?g y = hsize h y" if "y \<in> set us" for y using J(3) [OF that] by simp
  show "hsize h x = 0 \<Longrightarrow> hsize ?g x = 0" "hsize h x \<le> hsize ?g x" "bend ?g x \<le> 2 ^ 32"
    using L J(1,2) freeingD(9) [OF f] by (simp_all add: joined_down_def g)
  show "0 < hsize ?g y \<and> bend ?g y \<le> 2 ^ 32" if "y \<in> set ws" for y
    using J(4) [OF that] by (metis g(2) heap.select_convs(2) heap.surjective heap.update_convs(3))
qed (use that in auto)

lemma freed_units:
  assumes f: "freeing base bs h bp us x vs" and U: "joined_up h us x bp vs base h1 vs'" and L: "joined_down h1 us x bp vs' base h2 ws"
    and B: "base # bs' = us @ x # ws" "hsize h2 base = 0"
  shows "units h2 bs' = units h bs \<union> {unat bp..<bend h bp}"
proof -
  note F = freeingD [OF f] and J = joined_blocks [OF f U L]
  have up: "{unat bp..<bend h1 bp} \<union> units h vs' = {unat bp..<bend h bp} \<union> units h vs" and vs': "set vs' \<subseteq> set vs"
    and u: "hsize h1 y = hsize h y" if "y \<noteq> bp" for y using U that by (auto simp: joined_up_def)
  have low: "{unat x..<bend h2 x} \<union> units h1 ws = {unat x..<bend h1 x} \<union> {unat bp..<bend h1 bp} \<union> units h1 vs'"
    using L by (simp add: joined_down_def)
  have "units h (base # bs) = units h bs" using F(1) by (simp add: heap_ok_def units_Cons bend_def)
  then have ub: "units h bs = units h us \<union> {unat x..<bend h x} \<union> units h vs"
    unfolding F(2) by (auto simp: units_append units_Cons)
  have "units h2 bs' = units h2 (base # bs')" using B(2) by (simp add: units_Cons bend_def)
  also have "\<dots> = units h2 us \<union> ({unat x..<bend h2 x} \<union> units h2 ws)" unfolding B(1) by (auto simp: units_append units_Cons)
  also have "units h2 us = units h us" using J(3) by (intro units_cong) simp
  also have "units h2 ws = units h1 ws" using J(4) by (intro units_cong) simp
  also have "{unat x..<bend h2 x} \<union> units h1 ws = {unat x..<bend h x} \<union> ({unat bp..<bend h1 bp} \<union> units h vs')"
  proof -
    have "units h1 vs' = units h vs'" using U F(4) by (intro units_cong) (auto simp: joined_up_def)
    then show ?thesis using low J(1) by auto
  qed
  also have "units h us \<union> ({unat x..<bend h x} \<union> ({unat bp..<bend h1 bp} \<union> units h vs')) = units h bs \<union> {unat bp..<bend h bp}"
    using U unfolding ub joined_up_def by auto
  finally show ?thesis .
qed

lemma freed_room:
  assumes f: "freeing base bs h bp us x vs" and U: "joined_up h us x bp vs base h1 vs'" and L: "joined_down h1 us x bp vs' base h2 ws"
    and B: "base # bs' = us @ x # ws" "hsize h2 base = 0"
  shows "\<exists>y\<in>set bs'. hsize h bp \<le> hsize h2 y"
proof -
  have up: "hsize h bp \<le> hsize h1 bp" using U by (simp add: joined_up_def)
  have "\<exists>y\<in>set (base # bs'). hsize h bp \<le> hsize h2 y"
  proof (cases "bp \<in> set ws")
    case True
    then have "hsize h2 bp = hsize h1 bp" "bp \<in> set (base # bs')" using joined_blocks(4) [OF f U L True] B(1) by auto
    then show ?thesis using up by metis
  next
    case False
    then have "hsize h bp \<le> hsize h2 x" using L up by (auto simp: joined_down_def)
    moreover have "x \<in> set (base # bs')" using B(1) by simp
    ultimately show ?thesis by blast
  qed
  then show ?thesis using B(2) freeingD(8) [OF f] by auto
qed

lemma ufree_ok:
  assumes ok: "heap_ok base bs h" and u: "in_use base bs h bp"
  obtains h' bs' where "ufree (bp + 8) h = Some h'" and "heap_ok base bs' h'"
    and "units h' bs' = units h bs \<union> {unat bp..<bend h bp}" and "\<exists>y\<in>set bs'. hsize h bp \<le> hsize h' y"
proof -
  obtain us x vs where sp: "base # bs = us @ x # vs" and lo: "\<forall>z\<in>set (us @ [x]). z < bp" and hi: "\<forall>z\<in>set vs. bp < z"
    and s: "sorted_wrt (lies_below h) (us @ x # bp # vs)" by (rule in_use_position [OF ok u])
  have ch: "flinks h base (us @ x # vs) base" and fp: "freep h \<in> set (us @ x # vs)" and so: "sorted_wrt (lies_below h) (us @ x # vs)"
    using ok unfolding heap_ok_def sp by auto
  have hd: "base = hd (us @ [x])" using sp by (cases us) auto
  have ff: "free_find bp (freep h) h = Some x" by (rule free_find_position [OF ch fp hd lo hi so])
  have f: "freeing base bs h bp us x vs" using ok u sp s by (simp add: freeing_def)
  let ?h1 = "join_upper bp x h" and ?h2 = "join_lower bp x (join_upper bp x h)"
  obtain vs' where U: "joined_up h us x bp vs base ?h1 vs'" by (rule join_upper_ok [OF ok u sp s])
  have up: "hsize h bp \<le> hsize ?h1 bp" "bend ?h1 bp \<le> 2 ^ 32" "sorted_wrt (lies_below ?h1) (us @ x # bp # vs')"
    "flinks ?h1 (hptr ?h1 bp) vs' base" using U by (simp_all add: joined_up_def)
  obtain ws where L: "joined_down ?h1 us x bp vs' base ?h2 ws"
    by (rule join_lower_ok [OF up(3,4) order_less_le_trans [OF freeingD(8) [OF f] up(1)] up(2)])
  obtain bs' where B: "base # bs' = us @ x # ws" "heap_ok base bs' (?h2\<lparr>freep := x\<rparr>)" by (rule freed_heap [OF f U L])
  then have z: "hsize ?h2 base = 0" by (simp add: heap_ok_def)
  have un: "units (?h2\<lparr>freep := x\<rparr>) bs' = units ?h2 bs'" by (simp add: units_def bend_def)
  have "ufree (bp + 8) h = Some (?h2\<lparr>freep := x\<rparr>)" using ff by (simp add: ufree_def Let_def)
  then show ?thesis using B(2) freed_units [OF f U L B(1) z] freed_room [OF f U L B(1) z] un
    by (intro that [of "?h2\<lparr>freep := x\<rparr>" bs']) simp_all
qed

subsection \<open>Allocation\<close>

lemma malloc_walk:
  "flinks h p xs q \<Longrightarrow> (\<And>x. x \<in> set xs \<Longrightarrow> hsize h x < n \<and> x \<noteq> freep h) \<Longrightarrow>
   malloc_loop n prevp p rs h = malloc_loop n (last (prevp # xs)) q rs h"
proof (induction xs arbitrary: p prevp)
  case (Cons x xs)
  have x: "p = x" "hsize h x < n" "x \<noteq> freep h" using Cons(2,3) by auto
  then have "malloc_loop n prevp p rs h = malloc_loop n x (hptr h x) rs h"
    by (subst malloc_loop.simps) auto
  also have "\<dots> = malloc_loop n (last (x # xs)) q rs h" by (rule Cons.IH) (use Cons(2,3) in auto)
  finally show ?case by simp
qed simp

text \<open>What \<open>take_block\<close> hands out is no longer free, and nothing else has changed.\<close>

definition carved :: "u32 \<Rightarrow> u32 list \<Rightarrow> u32 \<Rightarrow> nat set \<Rightarrow> u32 \<Rightarrow> heap \<Rightarrow> bool" where
  "carved base bs n old r h \<longleftrightarrow> heap_ok base bs h \<and> in_use base bs h (r - 8) \<and> hsize h (r - 8) = n \<and>
     units h bs \<union> {unat (r - 8)..<bend h (r - 8)} = old"

text \<open>A block \<open>p\<close> of the free list, its predecessor \<open>w\<close>, and the blocks before and behind.\<close>

lemma block_at:
  assumes ok: "heap_ok base bs h" and sp: "base # bs = us @ w # p # vs"
  shows "sorted_wrt (lies_below h) (us @ w # p # vs)"
    and "\<And>y. y \<in> set (p # vs) \<Longrightarrow> y \<in> set bs \<and> 0 < hsize h y \<and> bend h y \<le> 2 ^ 32"
    and "flinks h base us w" "hptr h w = p" "flinks h (hptr h p) vs base"
    and "base < p" "bend h p \<le> 2 ^ 32" and "w \<noteq> p" "p \<notin> set us" "p \<notin> set vs" "w \<notin> set us" "w \<notin> set vs"
    and "bend h w \<le> 2 ^ 32"
    and "units h bs = units h us \<union> {unat w..<bend h w} \<union> {unat p..<bend h p} \<union> units h vs"
    and "{unat p..<bend h p} \<inter> (units h us \<union> {unat w..<bend h w} \<union> units h vs) = {}"
proof -
  have so: "sorted_wrt (lies_below h) (us @ w # p # vs)" and pos: "\<And>y. y \<in> set bs \<Longrightarrow> 0 < hsize h y \<and> bend h y \<le> 2 ^ 32"
    and b0: "hsize h base = 0" and ch: "flinks h base us w" "hptr h w = p" "flinks h (hptr h p) vs base"
    using ok unfolding heap_ok_def sp by (auto simp: flinks_append)
  have inb: "y \<in> set bs" if y: "y \<in> set (p # vs)" for y
  proof -
    have "y \<in> set (base # bs)" unfolding sp using y by auto
    moreover have "base \<in> set (us @ [w])" using sp by (cases us) auto
    then have "unat base < unat y" using so y by (auto simp: sorted_wrt_append lies_below_def)
    ultimately show ?thesis by auto
  qed
  have nb: "base < p" "bend h p \<le> 2 ^ 32" and pw: "w \<noteq> p" "p \<notin> set us" "p \<notin> set vs" "w \<notin> set us" "w \<notin> set vs"
    using sp so inb [of p] pos [of p] by (cases us; auto simp: sorted_wrt_append lies_below_def word_less_nat_alt)+
  have bw: "bend h w \<le> 2 ^ 32" using so unat_bound [of p] by (auto simp: sorted_wrt_append lies_below_def)
  have ub: "units h bs = units h us \<union> {unat w..<bend h w} \<union> {unat p..<bend h p} \<union> units h vs"
  proof -
    have "units h (base # bs) = units h bs" using b0 by (simp add: units_Cons bend_def)
    then show ?thesis unfolding sp by (auto simp: units_append units_Cons)
  qed
  have dis: "{unat p..<bend h p} \<inter> (units h us \<union> {unat w..<bend h w} \<union> units h vs) = {}"
    using so by (fastforce simp: units_def sorted_wrt_append lies_below_def)
  show "\<And>y. y \<in> set (p # vs) \<Longrightarrow> y \<in> set bs \<and> 0 < hsize h y \<and> bend h y \<le> 2 ^ 32" using inb pos by blast
  show "sorted_wrt (lies_below h) (us @ w # p # vs)" by (rule so)
  show "flinks h base us w" "hptr h w = p" "flinks h (hptr h p) vs base" by (rule ch)+
  show "base < p" "bend h p \<le> 2 ^ 32" by (rule nb)+
  show "w \<noteq> p" "p \<notin> set us" "p \<notin> set vs" "w \<notin> set us" "w \<notin> set vs" by (rule pw)+
  show "bend h w \<le> 2 ^ 32" by (rule bw)
  show "units h bs = units h us \<union> {unat w..<bend h w} \<union> {unat p..<bend h p} \<union> units h vs" by (rule ub)
  show "{unat p..<bend h p} \<inter> (units h us \<union> {unat w..<bend h w} \<union> units h vs) = {}" by (rule dis)
qed

lemma units_rest:
  assumes "base # bs' = us @ w # ws" and "heap_ok base bs' g"
  shows "units g bs' = units g us \<union> {unat w..<bend g w} \<union> units g ws"
proof -
  have "units g (base # bs') = units g bs'" using assms(2) by (simp add: heap_ok_def units_Cons bend_def)
  then show ?thesis unfolding assms(1) by (auto simp: units_append units_Cons)
qed

lemma take_whole_ok:
  assumes ok: "heap_ok base bs h" and sp: "base # bs = us @ w # p # vs" and n: "0 < n" "n \<le> hsize h p" and whole: "hsize h p = n"
  shows "\<exists>r g bs'. take_block n w p h = (r, g) \<and> carved base bs' n (units h bs) r g"
proof -
  note so = block_at(1) [OF ok sp] and blk = block_at(2) [OF ok sp] and ch = block_at(3-5) [OF ok sp]
    and nb = block_at(6,7) [OF ok sp] and pw = block_at(8-12) [OF ok sp] and bw = block_at(13) [OF ok sp]
    and ub = block_at(14) [OF ok sp] and dis = block_at(15) [OF ok sp]
  let ?g = "(set_ptr w (hptr h p) h)\<lparr>freep := w\<rparr>"
  have g: "lies_below ?g = lies_below h" "bend ?g = bend h" by (simp_all add: fun_eq_iff lies_below_def bend_def)
  obtain bs' where B: "base # bs' = us @ w # vs" "heap_ok base bs' ?g"
  proof (rule heap_ok_rebuild [OF ok sp, of ?g vs])
    show "sorted_wrt (lies_below ?g) (us @ w # vs)" using so by (auto simp: g sorted_wrt_append)
    show "flinks ?g (hptr ?g w) vs base" using ch(3) pw by (subst flinks_cong [of _ _ h]) auto
    show "hptr ?g y = hptr h y \<and> hsize ?g y = hsize h y" if "y \<in> set us" for y using that pw by auto
    show "0 < hsize ?g y \<and> bend ?g y \<le> 2 ^ 32" if "y \<in> set vs" for y using blk [of y] that by (simp add: g)
  qed (use bw that in \<open>auto simp: g\<close>)
  have ug: "units ?g xs = units h xs" for xs by (simp add: units_def g)
  have un: "units ?g bs' = units h us \<union> {unat w..<bend h w} \<union> units h vs" using units_rest [OF B] by (simp add: ug g)
  have iu: "in_use base bs' ?g p" using nb n whole dis un by (simp add: in_use_def g)
  have "carved base bs' n (units h bs) (p + 8) ?g"
    using B(2) iu whole un ub by (auto simp: carved_def g)
  moreover have "take_block n w p h = (p + 8, ?g)" using whole by (simp add: take_block_def)
  ultimately show ?thesis by blast
qed

lemma take_tail_ok:
  assumes ok: "heap_ok base bs h" and sp: "base # bs = us @ w # p # vs" and n: "0 < n" "n \<le> hsize h p" and part: "hsize h p \<noteq> n"
  shows "\<exists>r g bs'. take_block n w p h = (r, g) \<and> carved base bs' n (units h bs) r g"
proof -
  note so = block_at(1) [OF ok sp] and blk = block_at(2) [OF ok sp] and ch = block_at(3-5) [OF ok sp]
    and nb = block_at(6,7) [OF ok sp] and pw = block_at(8-12) [OF ok sp] and bw = block_at(13) [OF ok sp]
    and ub = block_at(14) [OF ok sp] and dis = block_at(15) [OF ok sp]
  let ?m = "hsize h p - n" and ?h = "set_size p (hsize h p - n) h"
  define q where "q = p + ?m * 8"
  let ?g = "(set_size q n ?h)\<lparr>freep := w\<rparr>"
  have mn: "unat ?m = unat (hsize h p) - unat n" using n(2) by (simp add: unat_sub word_le_nat_alt)
  have lt: "unat n < unat (hsize h p)" "0 < unat n" using n part unsigned_word_eqI [of n "hsize h p"]
    by (auto simp: word_le_nat_alt word_less_nat_alt le_less)
  have bq: "bend ?h p = unat p + 8 * (unat (hsize h p) - unat n)" by (simp add: bend_def mn)
  have "unat q = bend ?h p" unfolding q_def using unat_end [of ?h p] bq nb(2) lt by (simp add: bend_def)
  then have uq: "unat q = unat p + 8 * (unat (hsize h p) - unat n)" using bq by simp
  have qp: "unat p < unat q" "unat q + 8 * unat n = bend h p" using uq lt by (simp_all add: bend_def)
  have nq: "q \<noteq> p" "q \<noteq> w" "q \<notin> set us" "q \<notin> set vs"
  proof -
    have up: "unat y \<le> unat p" if "y \<in> set (us @ [w, p])" for y using that so by (auto simp: sorted_wrt_append lies_below_def)
    then show "q \<noteq> p" "q \<noteq> w" "q \<notin> set us" using qp(1) by fastforce+
    have "bend h p \<le> unat y" if "y \<in> set vs" for y using that so by (auto simp: sorted_wrt_append lies_below_def)
    then show "q \<notin> set vs" using qp lt by fastforce
  qed
  have ge: "bend ?g y = bend h y" if "y \<noteq> p" "y \<noteq> q" for y using that by (simp add: bend_def)
  have gp: "bend ?g p = unat q" "bend ?g q = bend h p" using nq uq mn qp by (simp_all add: bend_def)
  have bel: "lies_below ?g y z" if "lies_below h y z" "y \<in> set (us @ w # p # vs)" for y z
  proof (cases "y = p")
    case True
    then show ?thesis using that(1) gp(1) qp lt by (simp add: lies_below_def)
  next
    case F: False
    have "y \<noteq> q" using that(2) nq by auto
    then show ?thesis using that(1) ge [OF F] by (simp add: lies_below_def)
  qed
  have ch': "flinks ?g (hptr ?g w) (p # vs) base" using ch by (simp add: flinks_cong [of vs ?g h])
  obtain bs' where B: "base # bs' = us @ w # p # vs" "heap_ok base bs' ?g"
  proof (rule heap_ok_rebuild [OF ok sp, of ?g "p # vs"])
    show "sorted_wrt (lies_below ?g) (us @ w # p # vs)"
      by (rule sorted_wrt_mono_rel [OF _ so]) (use bel in blast)
    show "flinks ?g (hptr ?g w) (p # vs) base" by (rule ch')
    show "hptr ?g y = hptr h y \<and> hsize ?g y = hsize h y" if "y \<in> set us" for y using that pw nq by auto
    show "0 < hsize ?g y \<and> bend ?g y \<le> 2 ^ 32" if y: "y \<in> set (p # vs)" for y
    proof (cases "y = p")
      case True
      then show ?thesis using gp(1) qp nb(2) lt nq mn by (simp add: word_less_nat_alt)
    next
      case F: False
      then have "y \<in> set vs" using y by simp
      moreover then have "y \<noteq> q" using nq by auto
      ultimately show ?thesis using blk [of y] ge [OF F] F by simp
    qed
    show "hsize h w = 0 \<Longrightarrow> hsize ?g w = 0" "hsize h w \<le> hsize ?g w" "bend ?g w \<le> 2 ^ 32"
      using bw ge [of w] pw nq by auto
  qed (use that in auto)
  have "units ?g us = units h us" "units ?g vs = units h vs" using pw nq by (auto intro!: units_cong)
  moreover have "bend ?g w = bend h w" using ge [of w] pw nq by auto
  ultimately have un: "units ?g bs' = units h us \<union> {unat w..<bend h w} \<union> {unat p..<unat q} \<union> units h vs"
    using units_rest [OF B] by (auto simp: units_Cons gp)
  have sub: "{unat p..<bend h p} = {unat p..<unat q} \<union> {unat q..<bend h p}" using qp by auto
  have "{unat q..<bend h p} \<inter> units ?g bs' = {}"
    using dis unfolding un sub by auto
  then have iu: "in_use base bs' ?g q" using nb n qp gp by (simp add: in_use_def word_less_nat_alt)
  have "carved base bs' n (units h bs) (q + 8) ?g"
    using B(2) iu un ub sub gp by (auto simp: carved_def)
  moreover have "take_block n w p h = (q + 8, ?g)" using part by (simp add: take_block_def Let_def q_def)
  ultimately show ?thesis by blast
qed

lemma take_block_ok:
  assumes "heap_ok base bs h" and "base # bs = us @ w # p # vs" and "0 < n" "n \<le> hsize h p"
  shows "\<exists>r g bs'. take_block n w p h = (r, g) \<and> carved base bs' n (units h bs) r g"
  using take_whole_ok [OF assms] take_tail_ok [OF assms] by blast

lemma freep_split:
  assumes "heap_ok base bs h"
  obtains us vs where "base # bs = us @ freep h # vs"
    and "flinks h (hptr h (freep h)) (vs @ us @ [freep h]) (hptr h (freep h))"
proof -
  have "freep h \<in> set (base # bs)" and ch: "flinks h base (base # bs) base" using assms by (simp_all add: heap_ok_def)
  then obtain us vs where sp: "base # bs = us @ freep h # vs" by (meson split_list)
  have c: "flinks h base us (freep h)" "flinks h (hptr h (freep h)) vs base"
    using ch unfolding sp by (auto simp: flinks_append)
  then have "flinks h (hptr h (freep h)) (vs @ us @ [freep h]) (hptr h (freep h))" by (auto simp: flinks_append)
  then show ?thesis using sp that by blast
qed

lemma below_distinct: "sorted_wrt (lies_below h) xs \<Longrightarrow> distinct xs"
  by (induction xs) (auto simp: lies_below_def)

lemma heap_distinct: "heap_ok base bs h \<Longrightarrow> distinct (base # bs)"
  unfolding heap_ok_def using below_distinct by blast

text \<open>When some free block is large enough, the search ends at one and takes it.\<close>

lemma malloc_found:
  assumes ok: "heap_ok base bs h" and n: "0 < n" and big: "\<exists>y\<in>set bs. n \<le> hsize h y"
  shows "\<exists>r g bs'. malloc_loop n (freep h) (hptr h (freep h)) rs h = Some (r, rs, g) \<and> carved base bs' n (units h bs) r g"
proof -
  let ?f = "freep h"
  obtain us vs where sp: "base # bs = us @ ?f # vs" and ch: "flinks h (hptr h ?f) (vs @ us @ [?f]) (hptr h ?f)"
    by (rule freep_split [OF ok])
  have b0: "hsize h base = 0" and chb: "flinks h base (base # bs) base" using ok by (simp_all add: heap_ok_def)
  have ex: "\<exists>y\<in>set (vs @ us @ [?f]). n \<le> hsize h y"
  proof -
    have "set (vs @ us @ [?f]) = set (base # bs)" unfolding sp by auto
    then show ?thesis using big by auto
  qed
  obtain as p cs where xs: "vs @ us @ [?f] = as @ p # cs" and p: "n \<le> hsize h p" and small: "\<forall>y\<in>set as. \<not> n \<le> hsize h y"
    by (rule split_list_first_propE [OF ex])
  have dist: "distinct (vs @ us @ [?f])" using heap_distinct [OF ok] unfolding sp by auto
  have nf: "?f \<notin> set as"
  proof
    assume "?f \<in> set as"
    moreover have "last (as @ p # cs) = ?f" unfolding xs [symmetric] by simp
    then have "?f \<in> set (p # cs)" by (metis last_appendR last_in_set list.distinct(1))
    ultimately show False using dist unfolding xs by auto
  qed
  let ?w = "last (?f # as)"
  have ca: "flinks h (hptr h ?f) as p" using ch unfolding xs by (auto simp: flinks_append)
  have walk: "malloc_loop n ?f (hptr h ?f) rs h = malloc_loop n ?w p rs h"
    by (rule malloc_walk [OF ca]) (use small nf in auto)
  have wp: "hptr h ?w = p" using ca
  proof (cases as rule: rev_cases)
    case (snoc zs z)
    then show ?thesis using ca by (auto simp: flinks_append)
  qed simp
  have "?w \<in> set (base # bs)"
  proof -
    have "set as \<subseteq> set (vs @ us @ [?f])" unfolding xs by auto
    then have "set (?f # as) \<subseteq> set (base # bs)" unfolding sp by auto
    then show ?thesis using last_in_set [of "?f # as"] by blast
  qed
  then obtain us' vs' where sw: "base # bs = us' @ ?w # vs'" by (meson split_list)
  have "flinks h p vs' base" using chb wp unfolding sw by (auto simp: flinks_append)
  moreover have "p \<noteq> base" using p n b0 by (auto simp: word_le_nat_alt word_less_nat_alt)
  ultimately obtain ws where "vs' = p # ws" by (cases vs') auto
  then have sw': "base # bs = us' @ ?w # p # ws" using sw by simp
  obtain r g bs' where t: "take_block n ?w p h = (r, g)" "carved base bs' n (units h bs) r g"
    using take_block_ok [OF ok sw' n p] by blast
  have "malloc_loop n ?w p rs h = Some (r, rs, g)" using p t(1) by (subst malloc_loop.simps) simp
  then show ?thesis using walk t(2) by auto
qed

text \<open>Otherwise it comes around to \<open>freep\<close> and asks for more memory.\<close>

lemma malloc_grows:
  assumes ok: "heap_ok base bs h" and n: "0 < n" and small: "\<forall>y\<in>set bs. hsize h y < n"
  shows "malloc_loop n (freep h) (hptr h (freep h)) rs h =
    (case morecore n rs h of
       None \<Rightarrow> None
     | Some (None, rs, h) \<Rightarrow> Some (0, rs, h)
     | Some (Some p, rs, h) \<Rightarrow> malloc_loop n p (hptr h p) rs h)"
proof -
  let ?f = "freep h"
  obtain us vs where sp: "base # bs = us @ ?f # vs" and ch: "flinks h (hptr h ?f) (vs @ us @ [?f]) (hptr h ?f)"
    by (rule freep_split [OF ok])
  have sm: "hsize h y < n" if "y \<in> set (us @ ?f # vs)" for y
    using that small n ok unfolding sp [symmetric] by (auto simp: heap_ok_def)
  have c: "flinks h (hptr h ?f) (vs @ us) ?f" using ch by (auto simp: flinks_append)
  have d: "?f \<notin> set (vs @ us)" using heap_distinct [OF ok] unfolding sp by auto
  have "malloc_loop n ?f (hptr h ?f) rs h = malloc_loop n (last (?f # vs @ us)) ?f rs h"
    by (rule malloc_walk [OF c]) (use sm d in auto)
  then show ?thesis using sm [of ?f] by (subst (asm) (2) malloc_loop.simps) (simp add: not_le [symmetric])
qed

lemma nunits_eq: "nunits nbytes = (nbytes + 7) div 8 + 1"
proof -
  have "nbytes + 8 - 1 = nbytes + 7" by (simp add: algebra_simps)
  then show ?thesis by (simp only: nunits_def)
qed

lemma nunits_pos: "0 < nunits nbytes"
proof -
  have "unat ((nbytes + 7) div 8) < 2 ^ 29" using unat_bound [of "nbytes + 7"] by (simp add: unat_div_distrib)
  then have "unat (nunits nbytes) = unat ((nbytes + 7) div 8) + 1"
    using unat_add_small [of "(nbytes + 7) div 8" 1] by (simp add: nunits_eq)
  then show ?thesis by (simp add: word_less_nat_alt)
qed

text \<open>The block has room for the bytes asked for, unless rounding up wraps around.\<close>

lemma nunits_room:
  assumes "nbytes \<le> 0xFFFFFFF8"
  shows "unat nbytes \<le> 8 * (unat (nunits nbytes) - 1)"
proof -
  have "unat nbytes \<le> 0xFFFFFFF8" using assms by (simp add: word_le_nat_alt)
  then have "unat (nbytes + 7) = unat nbytes + 7" using unat_add_small [of nbytes 7] by simp
  then have d: "unat ((nbytes + 7) div 8) = (unat nbytes + 7) div 8" by (simp add: unat_div_distrib)
  then have "unat (nunits nbytes) = (unat nbytes + 7) div 8 + 1"
    using unat_add_small [of "(nbytes + 7) div 8" 1] unat_bound [of nbytes] by (simp add: nunits_eq)
  then show ?thesis by simp
qed

lemma nunits_wraps: "0xFFFFFFF8 < nbytes \<Longrightarrow> nunits nbytes = 1"
proof -
  assume "0xFFFFFFF8 < nbytes"
  then have b: "0xFFFFFFF8 < unat nbytes" by (simp add: word_less_nat_alt)
  then have "unat (nbytes + 7) = unat nbytes + 7 - 2 ^ 32" using unat_bound [of nbytes] by (simp add: unat_word_ariths le_mod_geq)
  then have "unat (nbytes + 7) < 8" using unat_bound [of nbytes] by simp
  then have "unat ((nbytes + 7) div 8) = 0" by (simp add: unat_div_distrib)
  then show ?thesis by (simp add: nunits_eq unat_eq_0)
qed

lemma malloc_init_ok: "freep h = 0 \<Longrightarrow> 0 < base \<Longrightarrow> heap_ok base [] (malloc_init base h)"
  by (simp add: malloc_init_def heap_ok_def)

lemma malloc_loop_start: "heap_ok base bs h \<Longrightarrow> malloc base nbytes rs h = malloc_loop (nunits nbytes) (freep h) (hptr h (freep h)) rs h"
proof -
  assume ok: "heap_ok base bs h"
  then have "freep h = base \<or> lies_below h base (freep h)" "0 < base" by (auto simp: heap_ok_def)
  then have "freep h \<noteq> 0" by (auto simp: lies_below_def)
  then show ?thesis by (simp add: malloc_def malloc_init_def)
qed

text \<open>
  C36. \<open>free\<close> returns on every well-formed heap: the block comes back into the free list, which stays
  circular, in address order and without overlaps, and the free bytes are the old ones and those of the
  block, wherever \<open>freep\<close> points and whichever neighbours the block is joined with.
\<close>

theorem free_returns_block:
  assumes "heap_ok base bs h" and "in_use base bs h bp"
  shows "\<exists>h' bs'. ufree (bp + 8) h = Some h' \<and> heap_ok base bs' h' \<and>
    units h' bs' = units h bs \<union> {unat bp..<bend h bp}"
  by (rule ufree_ok [OF assms]) blast

text \<open>The pages that \<open>sbrk\<close> has added, with the size \<open>morecore\<close> writes, as a block given back.\<close>

lemma free_new_block:
  assumes ok: "heap_ok base bs h" and iu: "in_use base bs (set_size a nu h) a"
  obtains h2 bs2 where "ufree (a + 8) (set_size a nu h) = Some h2" "heap_ok base bs2 h2"
    "units h2 bs2 = units h bs \<union> {unat a..<unat a + 8 * unat nu}" "\<exists>y\<in>set bs2. nu \<le> hsize h2 y"
proof -
  let ?h = "set_size a nu h"
  have ab: "base < a" "0 < nu" "{unat a..<bend ?h a} \<inter> units ?h bs = {}" using iu by (auto simp: in_use_def)
  have "unat a \<in> {unat a..<bend ?h a}" using ab(2) by (simp add: bend_def word_less_nat_alt)
  then have nin: "a \<notin> set bs" using ab(3) unfolding units_def by blast
  have be: "bend ?h y = bend h y" if "y \<noteq> a" for y using that by (simp add: bend_def)
  have so: "sorted_wrt (lies_below ?h) (base # bs)"
    by (rule sorted_below_cong [of h]) (use ok nin ab(1) be in \<open>auto simp: heap_ok_def\<close>)
  have "flinks ?h base (base # bs) base" using ok by (subst flinks_cong [of _ _ h]) (auto simp: heap_ok_def)
  moreover have "\<forall>x\<in>set bs. 0 < hsize ?h x \<and> bend ?h x \<le> 2 ^ 32"
  proof
    fix x
    assume x: "x \<in> set bs"
    then have "x \<noteq> a" using nin by auto
    then show "0 < hsize ?h x \<and> bend ?h x \<le> 2 ^ 32" using ok x be by (simp add: heap_ok_def)
  qed
  ultimately have ok': "heap_ok base bs ?h" using ok ab(1) so unfolding heap_ok_def by auto
  obtain h2 bs2 where F: "ufree (a + 8) ?h = Some h2" "heap_ok base bs2 h2"
    "units h2 bs2 = units ?h bs \<union> {unat a..<bend ?h a}" "\<exists>y\<in>set bs2. hsize ?h a \<le> hsize h2 y"
    by (rule ufree_ok [OF ok' iu])
  have "units ?h bs = units h bs" using nin by (intro units_cong) auto
  then have un: "units h2 bs2 = units h bs \<union> {unat a..<unat a + 8 * unat nu}" using F(3) by (simp add: bend_def)
  show ?thesis using that [OF F(1,2) un] F(4) by simp
qed

text \<open>
  C35. \<open>malloc\<close> returns on every well-formed heap. It fails only when no free block is large enough and
  \<open>sbrk\<close> fails; otherwise the block it returns is disjoint from the free list, has the rounded size, and
  together with what is still free makes up the old free bytes and the memory that \<open>sbrk\<close> has added.
\<close>

theorem malloc_carves_block:
  assumes ok: "heap_ok base bs h" and nu: "nu = max 4096 (nunits nbytes)"
    and fresh: "a \<noteq> 0xFFFFFFFF \<longrightarrow> in_use base bs (set_size a nu h) a"
  shows "\<exists>r rs g bs'. malloc base nbytes [a] h = Some (r, rs, g) \<and>
    (r = 0 \<and> a = 0xFFFFFFFF \<and> g = h \<and> (\<forall>y\<in>set bs. hsize h y < nunits nbytes) \<or>
     rs = [a] \<and> carved base bs' (nunits nbytes) (units h bs) r g \<or>
     rs = [] \<and> carved base bs' (nunits nbytes) (units h bs \<union> {unat a..<unat a + 8 * unat nu}) r g)"
proof -
  let ?n = "nunits nbytes" and ?L = "\<lambda>rs h. malloc_loop (nunits nbytes) (freep h) (hptr h (freep h)) rs h"
  note start = malloc_loop_start [OF ok, of nbytes "[a]"]
  show ?thesis
  proof (cases "\<exists>y\<in>set bs. ?n \<le> hsize h y")
    case True
    then show ?thesis using malloc_found [OF ok nunits_pos True, of "[a]"] start by auto
  next
    case False
    then have small: "\<forall>y\<in>set bs. hsize h y < ?n" by auto
    note grow = malloc_grows [OF ok nunits_pos small, of "[a]"]
    have nu': "(if ?n < 4096 then 4096 else ?n) = nu" by (auto simp: nu max_def)
    show ?thesis
    proof (cases "a = 0xFFFFFFFF")
      case True
      then have "?L [a] h = Some (0, [], h)" using grow by (simp add: morecore_def)
      then show ?thesis using start True small by auto
    next
      case na: False
      let ?h = "set_size a nu h"
      have iu: "in_use base bs ?h a" using fresh na by simp
      then obtain h2 bs2 where F: "ufree (a + 8) ?h = Some h2" "heap_ok base bs2 h2"
        "units h2 bs2 = units h bs \<union> {unat a..<unat a + 8 * unat nu}" "\<exists>y\<in>set bs2. nu \<le> hsize h2 y"
        by (rule free_new_block [OF ok])
      note un = F(3)
      have big: "\<exists>y\<in>set bs2. ?n \<le> hsize h2 y" using F(4) nu by (auto intro: order_trans)
      have "?L [a] h = ?L [] h2" using grow F(1) na by (simp add: morecore_def nu' Let_def)
      then show ?thesis using malloc_found [OF F(2) nunits_pos big, of "[]"] start un by auto
    qed
  qed
qed

text \<open>A heap with one free block of ten units and, right above it, a block of four units in use.\<close>

definition demo_heap :: heap where
  "demo_heap = \<lparr>hptr = (\<lambda>x. 0)(0x100 := 0x1000, 0x1000 := 0x100), hsize = (\<lambda>x. 0)(0x1000 := 10, 0x1050 := 4), freep = 0x100\<rparr>"

lemma demo_heap_ok: "heap_ok 0x100 [0x1000] demo_heap" "in_use 0x100 [0x1000] demo_heap 0x1050"
  by (simp_all add: heap_ok_def in_use_def demo_heap_def lies_below_def bend_def units_def)

theorem free_returns_block_witness:
  "\<exists>h' bs'. ufree 0x1058 demo_heap = Some h' \<and> heap_ok 0x100 bs' h' \<and>
    units h' bs' = units demo_heap [0x1000] \<union> {0x1050..<0x1070}"
  using free_returns_block [OF demo_heap_ok] by (simp add: bend_def demo_heap_def)

theorem malloc_carves_block_witness:
  "\<exists>r rs g bs'. malloc 0x100 20 [0x2000] demo_heap = Some (r, rs, g) \<and>
    (rs = [0x2000] \<and> carved 0x100 bs' 4 (units demo_heap [0x1000]) r g \<or>
     rs = [] \<and> carved 0x100 bs' 4 (units demo_heap [0x1000] \<union> {0x2000..<0xA000}) r g)"
proof -
  have n: "nunits 20 = 4" by (simp add: nunits_def)
  have "in_use 0x100 [0x1000] (set_size 0x2000 4096 demo_heap) 0x2000"
    by (simp add: in_use_def demo_heap_def bend_def units_def)
  then have "(0x2000 :: u32) \<noteq> 0xFFFFFFFF \<longrightarrow> in_use 0x100 [0x1000] (set_size 0x2000 4096 demo_heap) 0x2000" by simp
  from malloc_carves_block [OF demo_heap_ok(1) _ this, of 20] show ?thesis by (simp add: n max_def)
qed

end
