(* ===== verification/Grep.thy ===== *)
theory Grep
  imports CString
begin

text \<open>
  The programs \<open>grep\<close> and \<open>wc\<close> (\<open>grep.c\<close>, \<open>wc.c\<close>). A C string is the list of its bytes before the NUL. What
  \<open>read\<close> delivers is an argument: a list of pieces of data, as they become available; a call returns as much of
  the first piece as fits into the buffer, and 0 when there is no data left.
\<close>

subsection \<open>The matcher\<close>

function matchhere :: "u8 list \<Rightarrow> u8 list \<Rightarrow> bool" and matchstar :: "u8 \<Rightarrow> u8 list \<Rightarrow> u8 list \<Rightarrow> bool" where
  "matchhere re tx =
     (case re of
        [] \<Rightarrow> True
      | c # re' \<Rightarrow>
          if re' \<noteq> [] \<and> hd re' = 42 then matchstar c (tl re') tx
          else if c = 36 \<and> re' = [] then tx = []
          else case tx of [] \<Rightarrow> False | x # tx' \<Rightarrow> (c = 46 \<or> c = x) \<and> matchhere re' tx')"
| "matchstar c re tx =
     (matchhere re tx \<or> (case tx of [] \<Rightarrow> False | x # tx' \<Rightarrow> (x = c \<or> c = 46) \<and> matchstar c re tx'))"
  by pat_completeness auto
termination
  by (relation "measure (\<lambda>a. case a of Inl (re, tx) \<Rightarrow> 2 * (length re + length tx)
     | Inr (c, re, tx) \<Rightarrow> 2 * (length re + length tx) + 1)") (auto simp: neq_Nil_conv)

declare matchhere.simps [simp del] matchstar.simps [simp del]

fun match_from :: "u8 list \<Rightarrow> u8 list \<Rightarrow> bool" where
  "match_from re [] = matchhere re []"
| "match_from re (x # tx) = (matchhere re (x # tx) \<or> match_from re tx)"

definition match_re :: "u8 list \<Rightarrow> u8 list \<Rightarrow> bool" where
  "match_re re tx = (if re \<noteq> [] \<and> hd re = 94 then matchhere (tl re) tx else match_from re tx)"

subsection \<open>Lines\<close>

text \<open>
  The inner loop of \<open>grep\<close>: the lines that are printed, and what follows the last newline. The search for a
  newline stops at a NUL byte in the data.
\<close>

function grep_scan :: "u8 list \<Rightarrow> u8 list \<Rightarrow> u8 list list \<times> u8 list" where
  "grep_scan pat p =
     (let line = takeWhile (\<lambda>c. c \<noteq> 10 \<and> c \<noteq> 0) p; q = dropWhile (\<lambda>c. c \<noteq> 10 \<and> c \<noteq> 0) p in
      if q \<noteq> [] \<and> hd q = 10 then
        case grep_scan pat (tl q) of (out, r) \<Rightarrow> ((if match_re pat line then [line @ [10]] else []) @ out, r)
      else ([], p))"
  by pat_completeness auto
termination
proof (relation "measure (\<lambda>(pat, p). length p)")
  fix pat p q line :: "u8 list"
  assume q: "q = dropWhile (\<lambda>c. c \<noteq> 10 \<and> c \<noteq> 0) p" "q \<noteq> [] \<and> hd q = 10"
  have "length q \<le> length p" unfolding q(1) by (rule length_dropWhile_le)
  then show "((pat, tl q), pat, p) \<in> measure (\<lambda>(pat, p). length p)" using q(2) by (cases q) simp_all
qed simp

declare grep_scan.simps [simp del]

text \<open>
  The loop over the calls of \<open>read\<close>; \<open>pend\<close> is what the buffer of 1024 bytes holds before the call. Data in
  which no newline has been found is thrown away.
\<close>

function grep_loop :: "u8 list \<Rightarrow> u8 list \<Rightarrow> u8 list list \<Rightarrow> u8 list list" where
  "grep_loop pat pend chs =
     (case chs of
        [] \<Rightarrow> []
      | ch # chs' \<Rightarrow>
          let room = 1024 - length pend - 1; got = take room ch in
          if got = [] then []
          else
            case grep_scan pat (pend @ got) of (out, p) \<Rightarrow>
              out @ grep_loop pat (if length p = length (pend @ got) then [] else p)
                      (if drop room ch = [] then chs' else drop room ch # chs'))"
  by pat_completeness auto
termination
  by (relation "measure (\<lambda>(pat, pend, chs). sum_list (map length chs))") (auto simp: min_def split: if_splits)

declare grep_loop.simps [simp del]

definition grep :: "u8 list \<Rightarrow> u8 list list \<Rightarrow> u8 list list" where
  "grep pat chs = grep_loop pat [] chs"

subsection \<open>wc\<close>

definition wc_space :: "u8 \<Rightarrow> bool" where
  "wc_space c \<longleftrightarrow> c \<in> {32, 13, 9, 10, 11}"

text \<open>The state of the loop: lines, words, characters, and whether the last byte was inside a word.\<close>

fun wc_loop :: "u8 list \<Rightarrow> int \<times> int \<times> int \<times> bool \<Rightarrow> int \<times> int \<times> int \<times> bool" where
  "wc_loop [] s = s"
| "wc_loop (b # bs) (l, w, c, inword) =
     wc_loop bs (if b = 10 then l + 1 else l, if \<not> wc_space b \<and> \<not> inword then w + 1 else w, c + 1, \<not> wc_space b)"

definition wc :: "u8 list \<Rightarrow> int \<times> int \<times> int" where
  "wc bs = (case wc_loop bs (0, 0, 0, False) of (l, w, c, _) \<Rightarrow> (l, w, c))"

subsection \<open>What patterns mean\<close>

text \<open>
  A pattern is a list of items: a character or a dot, the same with a star, and a dollar at the end. The
  text is matched item by item; a star stands for any number of characters.
\<close>

datatype item = One u8 | Star u8 | AtEnd

fun pattern :: "u8 list \<Rightarrow> item list" where
  "pattern [] = []"
| "pattern [c] = (if c = 36 then [AtEnd] else [One c])"
| "pattern (c # d # re) = (if d = 42 then Star c # pattern re else One c # pattern (d # re))"

definition fits :: "u8 \<Rightarrow> u8 \<Rightarrow> bool" where
  "fits c x \<longleftrightarrow> c = 46 \<or> c = x"

text \<open>\<open>matches its u v\<close>: the items match \<open>u\<close>, where \<open>v\<close> is the text that follows.\<close>

inductive matches :: "item list \<Rightarrow> u8 list \<Rightarrow> u8 list \<Rightarrow> bool" where
  m_nil: "matches [] [] v"
| m_one: "fits c x \<Longrightarrow> matches its u v \<Longrightarrow> matches (One c # its) (x # u) v"
| m_star: "list_all (fits c) w \<Longrightarrow> matches its u v \<Longrightarrow> matches (Star c # its) (w @ u) v"
| m_end: "matches [AtEnd] [] []"

inductive_cases matches_oneE: "matches (One c # its) u v"
inductive_cases matches_starE: "matches (Star c # its) u v"
inductive_simps matches_nil [simp]: "matches [] u v"
inductive_simps matches_end [simp]: "matches [AtEnd] u v"

definition starts :: "item list \<Rightarrow> u8 list \<Rightarrow> bool" where
  "starts its tx \<longleftrightarrow> (\<exists>u v. tx = u @ v \<and> matches its u v)"

lemma starts_nil [simp]: "starts [] tx"
  by (simp add: starts_def)

lemma starts_end [simp]: "starts [AtEnd] tx \<longleftrightarrow> tx = []"
  by (simp add: starts_def)

lemma starts_one [simp]: "starts (One c # its) tx \<longleftrightarrow> (case tx of [] \<Rightarrow> False | x # t \<Rightarrow> fits c x \<and> starts its t)"
  unfolding starts_def by (cases tx) (auto elim!: matches_oneE intro: m_one simp: Cons_eq_append_conv)

lemma matches_star_none: "matches its u v \<Longrightarrow> matches (Star c # its) u v"
  using m_star [of c "[]" its u v] by simp

lemma starts_star: "starts (Star c # its) tx \<longleftrightarrow>
    starts its tx \<or> (case tx of [] \<Rightarrow> False | x # t \<Rightarrow> fits c x \<and> starts (Star c # its) t)"
proof (cases tx)
  case Nil
  have e: "starts i [] \<longleftrightarrow> matches i [] []" for i by (simp add: starts_def)
  have "matches its [] []" if m: "matches (Star c # its) [] []" using m by (rule matches_starE) simp
  then have "matches (Star c # its) [] [] \<longleftrightarrow> matches its [] []" using matches_star_none [of its "[]" "[]" c] by iprover
  then show ?thesis by (simp add: Nil e)
next
  case (Cons x t)
  have 1: "starts (Star c # its) tx" if "starts its tx"
    using that matches_star_none unfolding starts_def by blast
  have 2: "starts (Star c # its) (x # t)" if "fits c x" "starts (Star c # its) t"
  proof -
    from that(2) obtain w u v where t: "t = (w @ u) @ v" "list_all (fits c) w" "matches its u v"
      by (auto simp: starts_def elim: matches_starE)
    then have "matches (Star c # its) ((x # w) @ u) v" using that(1) by (intro m_star) simp_all
    moreover have "x # t = ((x # w) @ u) @ v" using t(1) by simp
    ultimately show ?thesis unfolding starts_def by blast
  qed
  have 3: "starts its (x # t) \<or> fits c x \<and> starts (Star c # its) t" if st: "starts (Star c # its) (x # t)"
  proof -
    obtain w u v where t: "x # t = w @ u @ v" "list_all (fits c) w" "matches its u v"
      using st by (auto simp: starts_def elim!: matches_starE)
    show ?thesis
    proof (cases w)
      case Nil
      then show ?thesis using t by (auto simp: starts_def)
    next
      case (Cons y w')
      then have "matches (Star c # its) (w' @ u) v" using t by (intro m_star) simp_all
      then show ?thesis using t Cons by (auto simp: starts_def)
    qed
  qed
  show ?thesis using 1 2 3 Cons by auto
qed

lemma match_starts:
  "matchhere re tx \<longleftrightarrow> starts (pattern re) tx"
  "matchstar c re tx \<longleftrightarrow> starts (Star c # pattern re) tx"
proof (induction re tx and c re tx rule: matchhere_matchstar.induct)
  case (1 re tx)
  then show ?case
    by (subst matchhere.simps) (cases re rule: pattern.cases; auto simp: fits_def split: list.splits)
next
  case (2 c re tx)
  then show ?case
    by (subst matchstar.simps, subst starts_star) (auto simp: fits_def split: list.splits)
qed

lemma match_from_starts: "match_from re tx \<longleftrightarrow> (\<exists>p q. tx = p @ q \<and> starts (pattern re) q)"
proof (induction tx)
  case (Cons x tx)
  show ?case
    unfolding match_from.simps Cons.IH match_starts by (auto simp: Cons_eq_append_conv)
qed (simp add: match_starts)

text \<open>
  C33. The matcher of \<open>grep\<close> decides the meaning of patterns: a pattern that begins with a caret matches a line
  that starts with it, every other pattern a line of which some part, the empty one included, matches it.
\<close>

theorem match_iff_meaning:
  "match_re re tx \<longleftrightarrow>
     (if re \<noteq> [] \<and> hd re = 94 then \<exists>u v. tx = u @ v \<and> matches (pattern (tl re)) u v
      else \<exists>p u v. tx = p @ u @ v \<and> matches (pattern re) u v)"
  unfolding match_re_def match_from_starts match_starts starts_def by (auto 0 4)

subsection \<open>Printing the lines that match\<close>

definition nl :: "u8 list \<Rightarrow> u8 list" where
  "nl line = line @ [10]"

lemma nl_app: "nl l @ x = l @ 10 # x" and nl_fold: "l @ [10] = nl l"
  by (simp_all add: nl_def)

definition text_line :: "u8 list \<Rightarrow> bool" where
  "text_line line \<longleftrightarrow> 10 \<notin> set line \<and> 0 \<notin> set line \<and> length line < 1023"

lemma scan_rest: "10 \<notin> set r \<Longrightarrow> grep_scan pat r = ([], r)"
proof -
  assume r: "10 \<notin> set r"
  have "dropWhile (\<lambda>c. c \<noteq> 10 \<and> c \<noteq> 0) r = [] \<or> hd (dropWhile (\<lambda>c. c \<noteq> 10 \<and> c \<noteq> 0) r) \<noteq> 10"
  proof (cases "dropWhile (\<lambda>c. c \<noteq> 10 \<and> c \<noteq> 0) r")
    case (Cons x q)
    then have "x \<in> set r" by (metis list.set_intros(1) set_dropWhileD)
    then show ?thesis using r Cons by auto
  qed simp
  then show ?thesis by (subst grep_scan.simps) (auto simp: Let_def)
qed

lemma scan_lines:
  assumes "list_all text_line ls" and "10 \<notin> set r"
  shows "grep_scan pat (concat (map nl ls) @ r) = (map nl (filter (match_re pat) ls), r)"
  using assms(1)
proof (induction ls)
  case Nil
  show ?case using scan_rest [OF assms(2)] by simp
next
  case (Cons l ls)
  have t: "takeWhile (\<lambda>c. c \<noteq> 10 \<and> c \<noteq> 0) (l @ 10 # x) = l" "dropWhile (\<lambda>c. c \<noteq> 10 \<and> c \<noteq> 0) (l @ 10 # x) = 10 # x" for x
    using Cons.prems by (induction l) (auto simp: text_line_def)
  then show ?case using Cons.IH Cons.prems by (subst grep_scan.simps) (simp add: nl_app nl_fold)
qed

text \<open>The lines that a prefix of the data contains completely.\<close>

lemma full_lines:
  assumes "list_all text_line ls"
  shows "\<exists>as bs r. ls = as @ bs \<and> take n (concat (map nl ls)) = concat (map nl as) @ r \<and> 10 \<notin> set r \<and>
    (\<exists>q. concat (map nl bs) = r @ q) \<and> length r < 1024 \<and> (ls \<noteq> [] \<longrightarrow> 1023 \<le> n \<longrightarrow> as \<noteq> []) \<and> (bs = [] \<longrightarrow> r = [])"
  using assms
proof (induction ls arbitrary: n)
  case (Cons l ls)
  then have l: "text_line l" "list_all text_line ls" by simp_all
  show ?case
  proof (cases "length (nl l) \<le> n")
    case True
    obtain as bs r where "ls = as @ bs" "take (n - length (nl l)) (concat (map nl ls)) = concat (map nl as) @ r" "10 \<notin> set r"
      "\<exists>q. concat (map nl bs) = r @ q" "length r < 1024" "bs = [] \<longrightarrow> r = []"
      using Cons.IH [OF l(2), of "n - length (nl l)"] by blast
    then show ?thesis using True by (intro exI [of _ "l # as"] exI [of _ bs] exI [of _ r]) simp
  next
    case False
    then have "n \<le> length l" by (simp add: nl_def)
    then have t: "take n (concat (map nl (l # ls))) = take n l" and "10 \<notin> set (take n l)" "length (take n l) < 1024" "n < 1023"
      using l(1) by (auto simp: nl_def text_line_def dest: in_set_takeD)
    moreover have "concat (map nl (l # ls)) = take n l @ drop n l @ [10] @ concat (map nl ls)" by (simp add: nl_def)
    ultimately show ?thesis by (intro exI [of _ "[]"] exI [of _ "l # ls"] exI [of _ "take n l"]) (auto simp: exI)
  qed
qed simp

lemma grep_loop_lines:
  assumes "list_all text_line ls" and "concat (map nl ls) = pend @ ch" and "10 \<notin> set pend" and "length pend < 1023"
  shows "grep_loop pat pend [ch] = map nl (filter (match_re pat) ls)"
  using assms
proof (induction "length ch" arbitrary: ls pend ch rule: less_induct)
  case less
  show ?case
  proof (cases "ls = []")
    case True
    then show ?thesis using less.prems by (simp add: grep_loop.simps)
  next
    case False
    let ?room = "1023 - length pend"
    have room: "pend @ take ?room ch = take 1023 (concat (map nl ls))"
      using less.prems(2,4) by simp
    obtain as bs r q where as: "ls = as @ bs" "take 1023 (concat (map nl ls)) = concat (map nl as) @ r" "10 \<notin> set r"
      "concat (map nl bs) = r @ q" "as \<noteq> []" "bs = [] \<Longrightarrow> r = []"
      using full_lines [OF less.prems(1), of 1023] False by blast
    have tl: "list_all text_line as" "list_all text_line bs" using less.prems(1) as(1) by simp_all
    have ne: "ch \<noteq> []"
    proof
      assume "ch = []"
      then have "10 \<notin> set (concat (map nl ls))" using less.prems(2,3) by simp
      then show False using False by (cases ls) (auto simp: nl_def)
    qed
    have got: "take ?room ch \<noteq> []" using ne less.prems(4) by simp
    have scan: "grep_scan pat (pend @ take ?room ch) = (map nl (filter (match_re pat) as), r)"
      unfolding room as(2) by (rule scan_lines [OF tl(1) as(3)])
    have "0 < length (concat (map nl as))" using as(5) by (cases as) (simp_all add: nl_def)
    moreover have "length (pend @ take ?room ch) = length (concat (map nl as)) + length r"
      unfolding room as(2) by simp
    moreover have "length (pend @ take ?room ch) \<le> 1023" unfolding room by simp
    ultimately have len: "length r < length (pend @ take ?room ch)" "length r < 1023" by linarith+
    have rest: "r @ drop ?room ch = concat (map nl bs)"
    proof -
      have "concat (map nl as) @ r @ q = pend @ take ?room ch @ drop ?room ch" using less.prems(2) as(1,4) by simp
      also have "... = concat (map nl as) @ r @ drop ?room ch" using room as(2) by (metis append.assoc)
      finally show ?thesis using as(4) by simp
    qed
    have "grep_loop pat r (if drop ?room ch = [] then [] else [drop ?room ch]) = map nl (filter (match_re pat) bs)"
    proof (cases "drop ?room ch = []")
      case True
      then have "10 \<notin> set (concat (map nl bs))" using rest as(3) by simp
      then have "bs = []" by (cases bs) (auto simp: nl_def)
      then show ?thesis using True by (simp add: grep_loop.simps)
    next
      case False
      have "length (drop ?room ch) < length ch" using ne less.prems(4) by (cases ch) simp_all
      from less.hyps [OF this tl(2) rest [symmetric] as(3) len(2)] show ?thesis using False by simp
    qed
    then show ?thesis using scan got len(1) as(1) by (subst grep_loop.simps) (simp add: Let_def)
  qed
qed


text \<open>Data that arrives in pieces loses the beginning of a line.\<close>

lemma grep_short_read: "grep [97, 98, 99] [[97, 98], [99, 10]] = []" "grep [97, 98, 99] [[97, 98, 99, 10]] = [[97, 98, 99, 10]]"
  by (simp_all add: grep_def grep_loop.simps grep_scan.simps match_re_def match_from.simps matchhere.simps)


subsection \<open>Counting\<close>

text \<open>The positions at which a word begins; \<open>inside\<close> if the text before the list ends inside a word.\<close>

definition word_starts :: "bool \<Rightarrow> u8 list \<Rightarrow> nat list" where
  "word_starts inside bs = filter (\<lambda>i. \<not> wc_space (bs ! i) \<and> (if i = 0 then \<not> inside else wc_space (bs ! (i - 1)))) [0..<length bs]"

lemma word_starts_Cons:
  "length (word_starts inside (b # bs)) =
     (if \<not> wc_space b \<and> \<not> inside then 1 else 0) + length (word_starts (\<not> wc_space b) bs)"
proof -
  let ?P = "\<lambda>i. \<not> wc_space ((b # bs) ! i) \<and> (if i = 0 then \<not> inside else wc_space ((b # bs) ! (i - 1)))"
  have u: "[0..<length (b # bs)] = 0 # map Suc [0..<length bs]" by (simp del: upt_Suc add: upt_conv_Cons [of 0] map_Suc_upt)
  have "filter (?P \<circ> Suc) [0..<length bs] = word_starts (\<not> wc_space b) bs"
    unfolding word_starts_def by (rule filter_cong) (auto simp: nth_Cons split: nat.splits)
  then show ?thesis unfolding word_starts_def u by (simp add: filter_map)
qed

lemma wc_loop_counts:
  "wc_loop bs (l, w, c, inside) = (l + int (count_list bs 10), w + int (length (word_starts inside bs)), c + int (length bs),
     if bs = [] then inside else \<not> wc_space (List.last bs))"
proof (induction bs arbitrary: l w c inside)
  case (Cons b bs)
  then show ?case by (simp add: word_starts_Cons)
qed (simp add: word_starts_def)

lemma wc_counts: "wc bs = (int (count_list bs 10), int (length (word_starts False bs)), int (length bs))"
  by (simp add: wc_def wc_loop_counts)

end
