(* ===== verification/Sh.thy ===== *)
theory Sh
  imports Sysfile
begin

text \<open>
  The shell (\<open>sh.c\<close>): tokens, the recursive descent parser, and what \<open>runcmd\<close> asks of the kernel. The text from
  the current position to the end of the line is a list of bytes without NUL; a word that the parser keeps by
  its two ends is the list of its bytes. \<open>panic\<close> prints a message and ends the program.
\<close>

subsection \<open>Commands\<close>

datatype cmd =
    EXEC "u8 list list"
  | REDIR cmd "u8 list" u32 int
  | PIPE cmd cmd
  | LIST cmd cmd
  | BACK cmd

definition MAXARGS :: nat where "MAXARGS = 10"

subsection \<open>Tokens\<close>

definition white :: "u8 \<Rightarrow> bool" where
  "white c \<longleftrightarrow> c \<in> {32, 9, 13, 10, 11}"

definition symbol :: "u8 \<Rightarrow> bool" where
  "symbol c \<longleftrightarrow> c \<in> {60, 124, 62, 38, 59, 40, 41}"

definition skip :: "u8 list \<Rightarrow> u8 list" where
  "skip s = dropWhile white s"

text \<open>The token, the bytes between \<open>q\<close> and \<open>eq\<close>, and the rest; \<open>+\<close> (43) stands for \<open>>>\<close>, \<open>a\<close> (97) for a word.\<close>

definition gettoken :: "u8 list \<Rightarrow> u8 \<times> u8 list \<times> u8 list" where
  "gettoken s =
     (case skip s of
        [] \<Rightarrow> (0, [], [])
      | c # r \<Rightarrow>
          if c \<in> {124, 40, 41, 59, 38, 60} then (c, [c], skip r)
          else if c = 62 then
            if r \<noteq> [] \<and> hd r = 62 then (43, [62, 62], skip (tl r)) else (62, [62], skip r)
          else (97, takeWhile (\<lambda>x. \<not> white x \<and> \<not> symbol x) (c # r),
                skip (dropWhile (\<lambda>x. \<not> white x \<and> \<not> symbol x) (c # r))))"

definition peek_tok :: "u8 list \<Rightarrow> u8 list \<Rightarrow> bool \<times> u8 list" where
  "peek_tok s toks = (let s = skip s in (s \<noteq> [] \<and> hd s \<in> set toks, s))"

definition after :: "u8 list \<Rightarrow> u8 list" where
  "after s = snd (snd (gettoken s))"

lemma length_skip: "length (skip s) \<le> length s"
  unfolding skip_def by (rule length_dropWhile_le)

lemma skip_skip [simp]: "skip (skip s) = skip s"
  by (induction s) (auto simp: skip_def)

lemma length_after: "skip s \<noteq> [] \<Longrightarrow> length (after s) < length s"
proof -
  assume "skip s \<noteq> []"
  then obtain c r where c: "skip s = c # r" by (cases "skip s") auto
  have "\<not> white c" using c hd_dropWhile [of white s] by (auto simp: skip_def)
  then have w: "\<not> symbol c \<Longrightarrow> length (dropWhile (\<lambda>x. \<not> white x \<and> \<not> symbol x) (c # r)) \<le> length r"
    by (simp add: length_dropWhile_le)
  have "length (skip r) \<le> length r" "length (skip (tl r)) \<le> length r"
    using length_skip [of r] length_skip [of "tl r"] by simp_all
  moreover have "\<not> symbol c \<Longrightarrow> length (skip (dropWhile (\<lambda>x. \<not> white x \<and> \<not> symbol x) (c # r))) \<le> length r"
    using w length_skip order_trans by blast
  moreover have "length r < length s" using c length_skip [of s] by simp
  ultimately show ?thesis using c by (auto simp: after_def gettoken_def symbol_def)
qed

lemma length_after_le: "length (after s) \<le> length s"
proof (cases "skip s = []")
  case False
  then show ?thesis using length_after [of s] by simp
qed (simp add: after_def gettoken_def)

lemma peek_skip: "peek_tok s toks = (b, t) \<Longrightarrow> t = skip s \<and> (b \<longrightarrow> t \<noteq> [])"
  by (auto simp: peek_tok_def Let_def)

subsection \<open>The parser\<close>

text \<open>
  The loops. The redirections that \<open>parseredirs\<close> finds are wrapped around the command from the inside out; the
  words of a command go into the innermost \<open>EXEC\<close>, so the two are collected apart.
\<close>

type_synonym redir = "u8 list \<times> u32 \<times> int"

definition redir_of :: "u8 \<Rightarrow> u8 list \<Rightarrow> redir" where
  "redir_of tok q = (if tok = 60 then (q, O_RDONLY, 0) else (q, O_WRONLY OR O_CREATE, 1))"

definition wrap :: "cmd \<Rightarrow> redir list \<Rightarrow> cmd" where
  "wrap c rs = foldl (\<lambda>c (file, mode, fd). REDIR c file mode fd) c rs"

function parseredirs :: "u8 list \<Rightarrow> (redir list \<times> u8 list) kres" where
  "parseredirs s =
     (case peek_tok s [60, 62] of
        (False, s) \<Rightarrow> Inr ([], s)
      | (True, s) \<Rightarrow>
          (case gettoken s of (tok, _, s') \<Rightarrow>
           case gettoken s' of (t, q, s'') \<Rightarrow>
             if t \<noteq> 97 then Inl (Panic ''missing file for redirection'')
             else kbind (parseredirs s'') (\<lambda>(rs, s). Inr (redir_of tok q # rs, s))))"
  by pat_completeness auto
termination
proof (relation "measure length")
  fix s b x tok q1 s' q2 t q s'' q3
  assume p: "(b, x) = peek_tok s [60, 62]" "(tok, q1) = gettoken x" "(q2, s') = q1" "(t, q) = gettoken s'" "(q3, s'') = q" and b: "b = True"
  have "s' = after x" "s'' = after s'" using p(2-5) by (auto simp: after_def dest: sym)
  moreover have "x = skip s" "x \<noteq> []" using peek_skip [OF p(1) [symmetric]] b by auto
  ultimately show "(s'', s) \<in> measure length"
    using length_after [of x] length_after_le [of s'] length_skip [of s] by simp
qed simp

declare parseredirs.simps [simp del]

lemma parseredirs_length: "parseredirs s = Inr (rs, t) \<Longrightarrow> length t \<le> length s"
proof (induction "length s" arbitrary: s rs rule: less_induct)
  case less
  obtain b x where p: "peek_tok s [60, 62] = (b, x)" by fastforce
  note x = peek_skip [OF p]
  have le: "length x \<le> length s" using x length_skip [of s] by simp
  show ?case
  proof (cases b)
    case True
    let ?s2 = "after (after x)"
    obtain rs' where r: "parseredirs ?s2 = Inr (rs', t)"
      using less.prems p True
      by (subst (asm) parseredirs.simps) (auto simp: kres_simps after_def split: prod.splits if_splits)
    have "length ?s2 < length s"
    proof -
      have "length (after x) < length x" using x True by (intro length_after) auto
      then show ?thesis using length_after_le [of "after x"] le by linarith
    qed
    with less.hyps [OF this r] show ?thesis by simp
  next
    case False
    then have "t = x" using less.prems p by (subst (asm) parseredirs.simps) simp
    then show ?thesis using le by simp
  qed
qed

text \<open>The words of a command and the redirections between and behind them; \<open>argc\<close> words have been read.\<close>

function parsewords :: "nat \<Rightarrow> u8 list \<Rightarrow> (u8 list list \<times> redir list \<times> u8 list) kres" where
  "parsewords argc s =
     (case peek_tok s [124, 41, 38, 59] of
        (True, s) \<Rightarrow> Inr ([], [], s)
      | (False, s) \<Rightarrow>
          (case gettoken s of (tok, q, s') \<Rightarrow>
             if tok = 0 then Inr ([], [], s')
             else if tok \<noteq> 97 then Inl (Panic ''syntax'')
             else if MAXARGS \<le> argc + 1 then Inl (Panic ''too many args'')
             else
               kbind (parseredirs s') (\<lambda>(rs, s'').
               kbind (parsewords (argc + 1) s'') (\<lambda>(ws, rs', t). Inr (q # ws, rs @ rs', t)))))"
  by pat_completeness auto
termination
proof (relation "measure (\<lambda>(argc, s). length s)")
  fix argc :: nat and s b x s' rs s'' tok q1 q a
  assume p: "(b, x) = peek_tok s [124, 41, 38, 59]" "(tok, q1) = gettoken x" "(q, s') = q1" "tok \<noteq> 0"
    "parseredirs s' = Inr a" "(rs, s'') = a"
  have "x = skip s" using peek_skip [OF p(1) [symmetric]] by simp
  moreover have "x \<noteq> []" using p(2,4) by (auto simp: gettoken_def skip_def)
  moreover have "s' = after x" using p(2,3) by (auto simp: after_def dest: sym)
  moreover have "length s'' \<le> length s'" using p(5,6) parseredirs_length by auto
  ultimately show "((argc + 1, s''), argc, s) \<in> measure (\<lambda>(argc, s). length s)"
    using length_after [of x] length_skip [of s] by simp
qed simp

text \<open>The loop of \<open>parseline\<close> over ampersands.\<close>

function backs :: "cmd \<Rightarrow> u8 list \<Rightarrow> cmd \<times> u8 list" where
  "backs c s = (case peek_tok s [38] of (False, s) \<Rightarrow> (c, s) | (True, s) \<Rightarrow> backs (BACK c) (after s))"
  by pat_completeness auto
termination
proof (relation "measure (\<lambda>(c, s). length s)")
  fix c s b x
  assume p: "(b, x) = peek_tok s [38]" and b: "b = True"
  have "x = skip s" "x \<noteq> []" using peek_skip [OF p [symmetric]] b by auto
  then show "((BACK c, after x), c, s) \<in> measure (\<lambda>(c, s). length s)"
    using length_after [of x] length_skip [of s] by simp
qed simp

declare parsewords.simps [simp del] backs.simps [simp del]

text \<open>The recursive functions, with fuel for the nesting of their calls.\<close>

fun parseline :: "nat \<Rightarrow> u8 list \<Rightarrow> (cmd \<times> u8 list) kres"
  and parsepipe :: "nat \<Rightarrow> u8 list \<Rightarrow> (cmd \<times> u8 list) kres"
  and parseexec :: "nat \<Rightarrow> u8 list \<Rightarrow> (cmd \<times> u8 list) kres"
  and parseblock :: "nat \<Rightarrow> u8 list \<Rightarrow> (cmd \<times> u8 list) kres" where
  "parseline 0 s = Inl Spin"
| "parseline (Suc n) s =
     kbind (parsepipe n s) (\<lambda>(c, s).
       case backs c s of (c, s) \<Rightarrow>
       case peek_tok s [59] of
         (True, s) \<Rightarrow> kbind (parseline n (after s)) (\<lambda>(d, s). Inr (LIST c d, s))
       | (False, s) \<Rightarrow> Inr (c, s))"
| "parsepipe 0 s = Inl Spin"
| "parsepipe (Suc n) s =
     kbind (parseexec n s) (\<lambda>(c, s).
       case peek_tok s [124] of
         (True, s) \<Rightarrow> kbind (parsepipe n (after s)) (\<lambda>(d, s). Inr (PIPE c d, s))
       | (False, s) \<Rightarrow> Inr (c, s))"
| "parseexec 0 s = Inl Spin"
| "parseexec (Suc n) s =
     (case peek_tok s [40] of
        (True, s) \<Rightarrow> parseblock n s
      | (False, s) \<Rightarrow>
          kbind (parseredirs s) (\<lambda>(rs, s).
          kbind (parsewords 0 s) (\<lambda>(ws, rs', s). Inr (wrap (EXEC ws) (rs @ rs'), s))))"
| "parseblock 0 s = Inl Spin"
| "parseblock (Suc n) s =
     (case peek_tok s [40] of
        (False, s) \<Rightarrow> Inl (Panic ''parseblock'')
      | (True, s) \<Rightarrow>
          kbind (parseline n (after s)) (\<lambda>(c, s).
            case peek_tok s [41] of
              (False, s) \<Rightarrow> Inl (Panic ''syntax - missing )'')
            | (True, s) \<Rightarrow> kbind (parseredirs (after s)) (\<lambda>(rs, s). Inr (wrap c rs, s))))"

definition parse_fuel :: "u8 list \<Rightarrow> nat" where
  "parse_fuel s = 6 * length s + 10"

definition parsecmd :: "u8 list \<Rightarrow> cmd kres" where
  "parsecmd s =
     kbind (parseline (parse_fuel s) s) (\<lambda>(c, s).
       if snd (peek_tok s []) \<noteq> [] then Inl (Panic ''syntax'') else Inr c)"

subsection \<open>The text of a command\<close>

text \<open>
  A text for every command: words and redirections, and parentheses around what is not a simple command in the
  place of one.
\<close>

definition p_word :: "u8 list \<Rightarrow> u8 list" where
  "p_word w = w @ [32]"

definition p_redir :: "redir \<Rightarrow> u8 list" where
  "p_redir r = (case r of (file, mode, fd) \<Rightarrow> (if fd = 0 then 60 else 62) # p_word file)"

fun p_exec :: "cmd \<Rightarrow> u8 list" and p_pipe :: "cmd \<Rightarrow> u8 list" and p_back :: "cmd \<Rightarrow> u8 list" and p_line :: "cmd \<Rightarrow> u8 list"
where
  "p_exec (EXEC ws) = concat (map p_word ws)"
| "p_exec (REDIR c file mode fd) = p_exec c @ p_redir (file, mode, fd)"
| "p_exec (PIPE l r) = 40 # p_exec l @ 124 # p_pipe r @ [41]"
| "p_exec (LIST l r) = 40 # p_back l @ 59 # p_line r @ [41]"
| "p_exec (BACK c) = 40 # p_back c @ [38, 41]"
| "p_pipe (PIPE l r) = p_exec l @ 124 # p_pipe r"
| "p_pipe c = p_exec c"
| "p_back (BACK c) = p_back c @ [38]"
| "p_back c = p_pipe c"
| "p_line (LIST l r) = p_back l @ 59 # p_line r"
| "p_line c = p_back c"

definition word_ok :: "u8 list \<Rightarrow> bool" where
  "word_ok w \<longleftrightarrow> w \<noteq> [] \<and> (\<forall>x\<in>set w. x \<noteq> 0 \<and> \<not> white x \<and> \<not> symbol x)"

definition redir_ok :: "redir \<Rightarrow> bool" where
  "redir_ok r \<longleftrightarrow> (case r of (file, mode, fd) \<Rightarrow>
     word_ok file \<and> (fd = 0 \<and> mode = O_RDONLY \<or> fd = 1 \<and> mode = O_WRONLY OR O_CREATE))"

fun cmd_ok :: "cmd \<Rightarrow> bool" where
  "cmd_ok (EXEC ws) \<longleftrightarrow> list_all word_ok ws \<and> length ws < MAXARGS"
| "cmd_ok (REDIR c file mode fd) \<longleftrightarrow> cmd_ok c \<and> redir_ok (file, mode, fd)"
| "cmd_ok (PIPE l r) \<longleftrightarrow> cmd_ok l \<and> cmd_ok r"
| "cmd_ok (LIST l r) \<longleftrightarrow> cmd_ok l \<and> cmd_ok r"
| "cmd_ok (BACK c) \<longleftrightarrow> cmd_ok c"

subsection \<open>Tokens of texts\<close>

lemma skip_id: "s = [] \<or> \<not> white (hd s) \<Longrightarrow> skip s = s"
  by (cases s) (auto simp: skip_def)

lemma skip_space [simp]: "skip (32 # s) = skip s"
  by (simp add: skip_def white_def)

definition one_of :: "u8 list \<Rightarrow> u8 list \<Rightarrow> bool" where
  "one_of cs s \<longleftrightarrow> s = [] \<or> hd s \<in> set cs"

lemma one_of_simps [simp]: "one_of cs []" "one_of cs (x # s) \<longleftrightarrow> x \<in> set cs"
  by (simp_all add: one_of_def)

lemma one_of_mono: "one_of cs s \<Longrightarrow> set cs \<subseteq> set ds \<Longrightarrow> one_of ds s"
  by (auto simp: one_of_def)

lemma skip_follow: "one_of cs s \<Longrightarrow> \<forall>c\<in>set cs. symbol c \<Longrightarrow> skip s = s"
  by (intro skip_id) (auto simp: one_of_def symbol_def white_def)

lemma word_take:
  assumes "word_ok w" and "s = [] \<or> white (hd s) \<or> symbol (hd s)"
  shows "takeWhile (\<lambda>x. \<not> white x \<and> \<not> symbol x) (w @ s) = w" "dropWhile (\<lambda>x. \<not> white x \<and> \<not> symbol x) (w @ s) = s"
proof -
  have w: "\<forall>x\<in>set w. \<not> white x \<and> \<not> symbol x" using assms(1) by (simp add: word_ok_def)
  show "takeWhile (\<lambda>x. \<not> white x \<and> \<not> symbol x) (w @ s) = w" "dropWhile (\<lambda>x. \<not> white x \<and> \<not> symbol x) (w @ s) = s"
    using w assms(2) by (induction w) (cases s; auto)+
qed

lemma word_hd: "word_ok w \<Longrightarrow> \<exists>c r. w = c # r \<and> \<not> white c \<and> \<not> symbol c"
  by (cases w) (auto simp: word_ok_def)

lemma gettoken_word:
  assumes "word_ok w"
  shows "gettoken (p_word w @ s) = (97, w, skip s)"
proof -
  obtain c r where w: "w = c # r" "\<not> white c" "\<not> symbol c" using word_hd [OF assms] by blast
  have s: "skip (p_word w @ s) = c # r @ 32 # s" using w by (simp add: p_word_def skip_def)
  have "32 # s = [] \<or> white (hd (32 # s)) \<or> symbol (hd (32 # s))" by (simp add: white_def)
  from word_take [OF assms this] w
  have t: "takeWhile (\<lambda>x. \<not> white x \<and> \<not> symbol x) (c # r @ 32 # s) = w"
    "dropWhile (\<lambda>x. \<not> white x \<and> \<not> symbol x) (c # r @ 32 # s) = 32 # s" by simp_all
  have "c \<notin> {124, 40, 41, 59, 38, 60}" "c \<noteq> 62" using w(3) by (auto simp: symbol_def)
  then show ?thesis unfolding gettoken_def s by (simp add: t del: takeWhile.simps dropWhile.simps)
qed

lemma after_symbol: "c \<in> {124, 40, 41, 59, 38, 60} \<Longrightarrow> after (c # s) = skip s"
  by (auto simp: after_def gettoken_def skip_def white_def)

lemma peek_word: "word_ok w \<Longrightarrow> \<forall>c\<in>set toks. symbol c \<Longrightarrow> peek_tok (p_word w @ s) toks = (False, p_word w @ s)"
  using word_hd [of w] by (auto simp: peek_tok_def p_word_def skip_def)

lemma peek_follow: "one_of cs s \<Longrightarrow> \<forall>c\<in>set cs. symbol c \<Longrightarrow> peek_tok s toks = (s \<noteq> [] \<and> hd s \<in> set toks, s)"
  using skip_follow by (simp add: peek_tok_def)

lemma symbols [simp]: "symbol 60" "symbol 124" "symbol 62" "symbol 38" "symbol 59" "symbol 40" "symbol 41"
  by (simp_all add: symbol_def)


lemma peek_tok_skip [simp]: "peek_tok (skip s) toks = peek_tok s toks"
  by (simp add: peek_tok_def)

lemma parseredirs_skip [simp]: "parseredirs (skip s) = parseredirs s"
  by (subst parseredirs.simps, subst (2) parseredirs.simps) simp

lemma parsewords_skip [simp]: "parsewords argc (skip s) = parsewords argc s"
  by (subst parsewords.simps, subst (2) parsewords.simps) simp

lemma backs_skip [simp]: "backs c (skip s) = backs c s"
  by (subst backs.simps, subst (2) backs.simps) simp

lemma parseexec_skip [simp]: "parseexec n (skip s) = parseexec n s"
proof (cases n)
  case (Suc m)
  then show ?thesis by simp
qed simp

lemma parsepipe_skip [simp]: "parsepipe n (skip s) = parsepipe n s"
  by (cases n) simp_all

lemma parseline_skip [simp]: "parseline n (skip s) = parseline n s"
  by (cases n) simp_all

subsection \<open>Redirections and words of a text\<close>

lemma parseredirs_none: "peek_tok s [60, 62] = (False, s') \<Longrightarrow> parseredirs s = Inr ([], s')"
  by (subst parseredirs.simps) simp

lemma peek_redir:
  "redir_ok r \<Longrightarrow> 60 \<notin> set toks \<Longrightarrow> 62 \<notin> set toks \<Longrightarrow> peek_tok (p_redir r @ s) toks = (False, p_redir r @ s)"
  by (auto simp: peek_tok_def p_redir_def redir_ok_def skip_def white_def split: prod.splits)

lemma skip_word: "word_ok w \<Longrightarrow> skip (p_word w @ s) = p_word w @ s"
  using word_hd [of w] by (auto simp: p_word_def skip_def)

lemma gettoken_redir:
  assumes "redir_ok (file, mode, fd)"
  shows "\<exists>tok q. gettoken (p_redir (file, mode, fd) @ s) = (tok, q, p_word file @ s) \<and>
           redir_of tok file = (file, mode, fd)"
proof -
  have w: "word_ok file" using assms by (simp add: redir_ok_def)
  have "hd (p_word file @ s) \<noteq> 62" using word_hd [OF w] by (auto simp: p_word_def)
  with assms skip_word [OF w] show ?thesis
    by (auto simp: redir_ok_def p_redir_def gettoken_def skip_def white_def redir_of_def)
qed

lemma parseredirs_print:
  assumes "list_all redir_ok rs" and "peek_tok s [60, 62] = (False, s')"
  shows "parseredirs (concat (map p_redir rs) @ s) = Inr (rs, s')"
  using assms(1)
proof (induction rs)
  case Nil
  then show ?case using parseredirs_none [OF assms(2)] by simp
next
  case (Cons r rs)
  obtain f md fd where r: "r = (f, md, fd)" by (cases r)
  let ?s = "concat (map p_redir rs) @ s"
  have w: "word_ok f" and ok: "redir_ok (f, md, fd)" using Cons.prems r by (auto simp: redir_ok_def)
  obtain tok q where g: "gettoken (p_redir (f, md, fd) @ ?s) = (tok, q, p_word f @ ?s)"
    "redir_of tok f = (f, md, fd)" using gettoken_redir [OF ok, of ?s] by blast
  have "peek_tok (p_redir (f, md, fd) @ ?s) [60, 62] = (True, p_redir (f, md, fd) @ ?s)"
    by (auto simp: peek_tok_def p_redir_def skip_def white_def)
  then have "parseredirs (p_redir r @ ?s) = kbind (parseredirs ?s) (\<lambda>(rs, t). Inr (r # rs, t))"
    using g gettoken_word [OF w, of ?s] r by (subst parseredirs.simps) simp
  then show ?case using Cons by (simp add: kres_simps)
qed

definition ends :: "u8 list \<Rightarrow> bool" where
  "ends s \<longleftrightarrow> one_of [124, 41, 38, 59] s"

lemma peek_ends: "ends s \<Longrightarrow> peek_tok s toks = (s \<noteq> [] \<and> hd s \<in> set toks, s)"
  unfolding ends_def by (erule peek_follow) simp

lemma parsewords_end: "ends s \<Longrightarrow> parsewords argc s = Inr ([], [], s)"
  by (subst parsewords.simps, cases s) (simp_all add: peek_ends, auto simp: ends_def gettoken_def skip_def)

lemma redirs_end:
  assumes "list_all redir_ok rs" and "ends s"
  shows "parseredirs (concat (map p_redir rs) @ s) = Inr (rs, s)"
proof (rule parseredirs_print [OF assms(1)])
  have "\<not> (s \<noteq> [] \<and> hd s \<in> set [60, 62])" using assms(2) by (auto simp: ends_def one_of_def)
  then show "peek_tok s [60, 62] = (False, s)" using peek_ends [OF assms(2)] by simp
qed

lemma parsewords_print:
  assumes "ws \<noteq> []" and "list_all word_ok ws" and "argc + length ws < MAXARGS" and "list_all redir_ok rs" and "ends s"
  shows "parsewords argc (concat (map p_word ws) @ concat (map p_redir rs) @ s) = Inr (ws, rs, s)"
  using assms(1-3)
proof (induction ws arbitrary: argc)
  case (Cons w ws)
  let ?r = "concat (map p_word ws) @ concat (map p_redir rs) @ s"
  have w: "word_ok w" and ws: "list_all word_ok ws" and a: "\<not> MAXARGS \<le> argc + 1" using Cons.prems by auto
  have "parseredirs ?r = Inr (if ws = [] then rs else [], if ws = [] then s else ?r)"
  proof (cases ws)
    case Nil
    then show ?thesis using redirs_end [OF assms(4,5)] by simp
  next
    case (Cons v vs)
    then show ?thesis using ws peek_word [of v "[60, 62]"] by (simp add: parseredirs_none)
  qed
  moreover have "parsewords (argc + 1) (if ws = [] then s else ?r) =
      Inr (ws, if ws = [] then [] else rs, s)"
    using Cons.IH [of "argc + 1"] Cons.prems parsewords_end [OF assms(5)] by simp
  moreover have "parsewords argc (p_word w @ ?r) =
      kbind (parseredirs ?r) (\<lambda>(rs, s''). kbind (parsewords (argc + 1) s'') (\<lambda>(ws, rs', t). Inr (w # ws, rs @ rs', t)))"
    using peek_word [OF w, of "[124, 41, 38, 59]" ?r] gettoken_word [OF w, of ?r] a
    by (subst parsewords.simps) simp
  ultimately show ?case by (simp add: kres_simps)
qed simp

lemma parseexec_simple:
  assumes "list_all word_ok ws" and "length ws < MAXARGS" and "list_all redir_ok rs" and "ends s"
  shows "parseexec (Suc n) (concat (map p_word ws) @ concat (map p_redir rs) @ s) = Inr (wrap (EXEC ws) rs, s)"
proof (cases ws)
  case Nil
  have "peek_tok (concat (map p_redir rs) @ s) [40] = (False, concat (map p_redir rs) @ s)"
  proof (cases rs)
    case Nil
    then show ?thesis using peek_ends [OF assms(4)] assms(4) by (auto simp: ends_def one_of_def)
  next
    case (Cons r rs')
    then show ?thesis using peek_redir [of r "[40]"] assms(3) by simp
  qed
  then show ?thesis using Nil redirs_end [OF assms(3,4)] parsewords_end [OF assms(4)] by (simp add: kres_simps)
next
  case (Cons w ws')
  let ?s = "concat (map p_word ws) @ concat (map p_redir rs) @ s"
  have "peek_tok ?s toks = (False, ?s)" if "\<forall>c\<in>set toks. symbol c" for toks
    using Cons assms(1) peek_word [of w toks] that by simp
  then have "peek_tok ?s [40] = (False, ?s)" "parseredirs ?s = Inr ([], ?s)" by (simp_all add: parseredirs_none)
  then show ?thesis using parsewords_print [OF _ assms(1) _ assms(3,4), of 0] Cons assms(2) by (simp add: kres_simps)
qed


subsection \<open>Reading a text back\<close>

lemma wrap_snoc: "wrap c (rs @ [(f, md, fd)]) = REDIR (wrap c rs) f md fd"
  by (simp add: wrap_def)

lemma wrap_Nil [simp]: "wrap c [] = c"
  by (simp add: wrap_def)

fun plain :: "cmd \<Rightarrow> bool" where
  "plain (REDIR c f md fd) \<longleftrightarrow> False"
| "plain c \<longleftrightarrow> True"

fun cdepth :: "cmd \<Rightarrow> nat" where
  "cdepth (EXEC ws) = 1"
| "cdepth (REDIR c f md fd) = cdepth c"
| "cdepth (PIPE l r) = Suc (max (cdepth l) (cdepth r))"
| "cdepth (LIST l r) = Suc (max (cdepth l) (cdepth r))"
| "cdepth (BACK c) = Suc (cdepth c)"

lemma unwrap: "\<exists>b rs. c = wrap b rs \<and> plain b"
proof (induction c)
  case (REDIR c f md fd)
  then obtain b rs where "c = wrap b rs" "plain b" by blast
  then show ?case by (metis wrap_snoc)
qed (metis plain.simps wrap_Nil)+

lemma wrap_simps:
  "p_exec (wrap b rs) = p_exec b @ concat (map p_redir rs)"
  "cmd_ok (wrap b rs) \<longleftrightarrow> cmd_ok b \<and> list_all redir_ok rs"
  "cdepth (wrap b rs) = cdepth b"
  "size b \<le> size (wrap b rs)"
  by (induction rs rule: rev_induct) (auto simp: wrap_snoc)

lemma p_simple: "p_pipe (wrap b rs) = p_exec (wrap b rs) \<and> p_back (wrap b rs) = p_exec (wrap b rs) \<and> p_line (wrap b rs) = p_exec (wrap b rs)"
  if "rs \<noteq> []"
  using that by (cases rs rule: rev_cases) (auto simp: wrap_snoc)

text \<open>What the four functions do with the text of a command, at the four places of the grammar.\<close>

definition reads_exec :: "cmd \<Rightarrow> bool" where
  "reads_exec c \<longleftrightarrow> (\<forall>n s. 6 * cdepth c \<le> n \<longrightarrow> ends s \<longrightarrow> parseexec n (p_exec c @ s) = Inr (c, s))"

definition reads_pipe :: "cmd \<Rightarrow> bool" where
  "reads_pipe c \<longleftrightarrow>
     (\<forall>n s. 6 * cdepth c + 1 \<le> n \<longrightarrow> one_of [41, 38, 59] s \<longrightarrow> parsepipe n (p_pipe c @ s) = Inr (c, s))"

definition reads_back :: "cmd \<Rightarrow> bool" where
  "reads_back c \<longleftrightarrow>
     (\<forall>n s. 6 * cdepth c + 1 \<le> n \<longrightarrow> one_of [41, 38, 59] s \<longrightarrow>
        (\<exists>c' s'. parsepipe n (p_back c @ s) = Inr (c', s') \<and> backs c' s' = backs c s))"

definition reads_line :: "cmd \<Rightarrow> bool" where
  "reads_line c \<longleftrightarrow>
     (\<forall>n s. 6 * cdepth c + 2 \<le> n \<longrightarrow> one_of [41] s \<longrightarrow> parseline n (p_line c @ s) = Inr (c, s))"

lemma peek_one_of:
  "one_of [41, 38, 59] s \<Longrightarrow> peek_tok s toks = (s \<noteq> [] \<and> hd s \<in> set toks, s)"
  by (erule peek_follow) simp

lemma backs_end: "one_of [41, 59] s \<Longrightarrow> backs c s = (c, s)"
  by (subst backs.simps, cases s) (auto simp: peek_one_of)

lemma backs_amp: "backs c (38 # s) = backs (BACK c) s"
  by (subst backs.simps) (simp add: peek_one_of after_symbol)

text \<open>The pipe level of a command that is no pipe, and the line level of one that is no list.\<close>

lemma pipe_of_exec:
  assumes "reads_exec c" and "6 * cdepth c + 1 \<le> n" and "one_of [41, 38, 59] s"
  shows "parsepipe n (p_exec c @ s) = Inr (c, s)"
proof -
  obtain m where m: "n = Suc m" "6 * cdepth c \<le> m" using assms(2) by (cases n) auto
  have "ends s" using assms(3) by (auto simp: ends_def one_of_def)
  then have "parseexec m (p_exec c @ s) = Inr (c, s)" using assms(1) m by (simp add: reads_exec_def)
  then show ?thesis using m peek_one_of [OF assms(3), of "[124]"] assms(3) by (auto simp: kres_simps one_of_def)
qed

lemma pipe_of_pipe:
  assumes "reads_exec l" "reads_pipe r" and n: "6 * cdepth l + 1 \<le> n" "6 * cdepth r + 2 \<le> n" and s: "one_of [41, 38, 59] s"
  shows "parsepipe n (p_exec l @ 124 # p_pipe r @ s) = Inr (PIPE l r, s)"
proof -
  obtain m where m: "n = Suc m" "6 * cdepth l \<le> m" "6 * cdepth r + 1 \<le> m" using n by (cases n) auto
  let ?r = "p_pipe r @ s"
  have "ends (124 # ?r)" by (simp add: ends_def)
  then have "parseexec m (p_exec l @ 124 # ?r) = Inr (l, 124 # ?r)" using assms(1) m by (simp add: reads_exec_def)
  moreover have "parsepipe m ?r = Inr (r, s)" using assms(2) m s by (simp add: reads_pipe_def)
  moreover have "peek_tok (124 # ?r) [124] = (True, 124 # ?r)" by (simp add: peek_tok_def skip_def white_def)
  ultimately show ?thesis using m by (simp add: kres_simps after_symbol)
qed

lemma line_of_back:
  assumes "reads_back c" and "6 * cdepth c + 2 \<le> n" and "one_of [41] s"
  shows "parseline n (p_back c @ s) = Inr (c, s)"
    and "parseline n (p_back c @ 38 # s) = Inr (BACK c, s)"
proof -
  obtain m where m: "n = Suc m" "6 * cdepth c + 1 \<le> m" using assms(2) by (cases n) auto
  have s: "one_of [41, 38, 59] s" "one_of [41, 59] s" using assms(3) by (auto simp: one_of_def)
  have e: "\<And>d. (case peek_tok s [59] of (True, s) \<Rightarrow> kbind (parseline m (after s)) (\<lambda>(e, s). Inr (LIST d e, s))
      | (False, s) \<Rightarrow> Inr (d, s)) = Inr (d, s)"
    using peek_one_of [OF s(1), of "[59]"] assms(3) by (auto simp: one_of_def)
  obtain c' s' where "parsepipe m (p_back c @ s) = Inr (c', s')" "backs c' s' = (c, s)"
    using assms(1) m s backs_end by (force simp: reads_back_def)
  then show "parseline n (p_back c @ s) = Inr (c, s)" using m e by (simp add: kres_simps)
  obtain c' s' where "parsepipe m (p_back c @ 38 # s) = Inr (c', s')" "backs c' s' = backs c (38 # s)"
    using assms(1) m one_of_simps(2) [of "[41, 38, 59]" 38 s] unfolding reads_back_def by fastforce
  moreover have "backs c (38 # s) = (BACK c, s)" using backs_amp backs_end [OF s(2)] by simp
  ultimately have "parsepipe m (p_back c @ 38 # s) = Inr (c', s')" "backs c' s' = (BACK c, s)" by simp_all
  then show "parseline n (p_back c @ 38 # s) = Inr (BACK c, s)" using m e by (simp add: kres_simps)
qed

lemma line_of_list:
  assumes "reads_back l" "reads_line r" and n: "6 * cdepth l + 2 \<le> n" "6 * cdepth r + 3 \<le> n" and s: "one_of [41] s"
  shows "parseline n (p_back l @ 59 # p_line r @ s) = Inr (LIST l r, s)"
proof -
  obtain m where m: "n = Suc m" "6 * cdepth l + 1 \<le> m" "6 * cdepth r + 2 \<le> m" using n by (cases n) auto
  let ?r = "p_line r @ s"
  obtain c' s' where "parsepipe m (p_back l @ 59 # ?r) = Inr (c', s')" "backs c' s' = (l, 59 # ?r)"
    using assms(1) m backs_end [of "59 # ?r"] by (force simp: reads_back_def)
  moreover have "parseline m ?r = Inr (r, s)" using assms(2) m s by (simp add: reads_line_def)
  moreover have "peek_tok (59 # ?r) [59] = (True, 59 # ?r)" by (simp add: peek_tok_def skip_def white_def)
  ultimately show ?thesis using m by (simp add: kres_simps after_symbol)
qed


text \<open>A text in parentheses.\<close>

lemma exec_of_block:
  assumes l: "\<And>n s. 6 * d + 3 \<le> n \<Longrightarrow> one_of [41] s \<Longrightarrow> parseline n (t @ s) = Inr (c, s)"
    and rs: "list_all redir_ok rs" and n: "6 * d + 6 \<le> n" and s: "ends s"
  shows "parseexec n ((40 # t @ [41]) @ concat (map p_redir rs) @ s) = Inr (wrap c rs, s)"
proof -
  obtain m where m: "n = Suc (Suc m)" "6 * d + 3 \<le> m" using n by (cases n; cases "n - 1") auto
  let ?r = "concat (map p_redir rs) @ s"
  have "parseline m (t @ 41 # ?r) = Inr (c, 41 # ?r)" using l [OF m(2), of "41 # ?r"] by simp
  moreover have "parseredirs ?r = Inr (rs, s)" using redirs_end [OF rs s] .
  moreover have "peek_tok (40 # t @ 41 # ?r) [40] = (True, 40 # t @ 41 # ?r)" "peek_tok (41 # ?r) [41] = (True, 41 # ?r)"
    by (simp_all add: peek_tok_def skip_def white_def)
  ultimately show ?thesis using m by (simp add: kres_simps after_symbol)
qed

lemma exec_of_wrap:
  assumes b: "plain b" and ok: "cmd_ok (wrap b rs)"
    and IH: "\<And>c. size c < size b \<Longrightarrow> cmd_ok c \<Longrightarrow> reads_exec c \<and> reads_pipe c \<and> reads_back c \<and> reads_line c"
  shows "reads_exec (wrap b rs)"
proof -
  have rs: "list_all redir_ok rs" and bok: "cmd_ok b" using ok by (simp_all add: wrap_simps)
  have "parseexec n (p_exec b @ concat (map p_redir rs) @ s) = Inr (wrap b rs, s)"
    if n: "6 * cdepth b \<le> n" and s: "ends s" for n s
  proof (cases b)
    case (EXEC ws)
    then obtain m where "n = Suc m" using n by (cases n) auto
    then show ?thesis using parseexec_simple [of ws rs s m] EXEC bok rs s by simp
  next
    case (PIPE l r)
    let ?d = "max (cdepth l) (cdepth r)"
    have "parseline k ((p_exec l @ 124 # p_pipe r) @ t) = Inr (b, t)" if k: "6 * ?d + 3 \<le> k" and t: "one_of [41] t" for k t
    proof -
      obtain j where j: "k = Suc j" "6 * ?d + 2 \<le> j" using k by (cases k) auto
      have t': "one_of [41, 38, 59] t" "one_of [41, 59] t" using t by (auto simp: one_of_def)
      have "parsepipe j (p_exec l @ 124 # p_pipe r @ t) = Inr (b, t)"
        using pipe_of_pipe [of l r j t] IH [of l] IH [of r] PIPE bok j t' by simp
      then show ?thesis using j backs_end [OF t'(2)] peek_one_of [OF t'(1), of "[59]"] t
        by (auto simp: kres_simps one_of_def)
    qed
    from exec_of_block [OF this rs _ s] n PIPE show ?thesis by simp
  next
    case (LIST l r)
    let ?d = "max (cdepth l) (cdepth r)"
    have "parseline k ((p_back l @ 59 # p_line r) @ t) = Inr (b, t)" if "6 * ?d + 3 \<le> k" "one_of [41] t" for k t
      using line_of_list [of l r k t] IH [of l] IH [of r] LIST bok that by simp
    from exec_of_block [OF this rs _ s] n LIST show ?thesis by simp
  next
    case (BACK c)
    have "parseline k ((p_back c @ [38]) @ t) = Inr (b, t)" if "6 * cdepth c + 3 \<le> k" "one_of [41] t" for k t
      using line_of_back(2) [of c k t] IH [of c] BACK bok that by simp
    from exec_of_block [OF this rs _ s] n BACK show ?thesis by simp
  qed (use b in simp)
  then show ?thesis by (simp add: reads_exec_def wrap_simps)
qed


lemma reads_all:
  "cmd_ok c \<Longrightarrow> reads_exec c \<and> reads_pipe c \<and> reads_back c \<and> reads_line c"
proof (induction c rule: measure_induct_rule [of size])
  case (less c)
  obtain b rs where c: "c = wrap b rs" "plain b" using unwrap by blast
  have E: "reads_exec c"
    using exec_of_wrap [OF c(2), of rs] less c wrap_simps(4) [of b rs] by (meson order_less_le_trans)
  have P: "reads_pipe c"
    using less E pipe_of_exec [OF E] pipe_of_pipe unfolding reads_pipe_def by (cases c) auto
  have B: "reads_back c"
  proof (cases c)
    case (BACK d)
    have "\<exists>c' s'. parsepipe n (p_back d @ 38 # s) = Inr (c', s') \<and> backs c' s' = backs (BACK d) s"
      if "6 * cdepth c + 1 \<le> n" for n s
      using less.IH [of d] less.prems BACK that by (auto simp: reads_back_def simp flip: backs_amp)
    then show ?thesis using BACK by (simp add: reads_back_def)
  qed (use P in \<open>auto simp: reads_pipe_def reads_back_def\<close>)
  have "reads_line c"
    using less B line_of_back(1) [OF B] line_of_list unfolding reads_line_def by (cases c) auto
  with E P B show ?case by simp
qed

lemma cdepth_length:
  "cdepth c \<le> Suc (length (p_exec c)) \<and> cdepth c \<le> Suc (length (p_pipe c)) \<and>
   cdepth c \<le> Suc (length (p_back c)) \<and> cdepth c \<le> Suc (length (p_line c))"
  by (induction c) auto

text \<open>
  C20. The parser inverts the grammar: for every command tree whose words are non-empty, hold no blank, symbol
  or NUL, and number at most nine to a command, \<open>parsecmd\<close> reads the text of the tree (redirections behind the
  words, parentheses around a compound that stands in the place of a simple command) back to that tree, however
  deeply it is nested.
\<close>

theorem parsecmd_roundtrip:
  assumes "cmd_ok c"
  shows "parsecmd (p_line c) = Inr c"
proof -
  have "6 * cdepth c + 2 \<le> parse_fuel (p_line c)" using cdepth_length [of c] by (simp add: parse_fuel_def)
  then have "parseline (parse_fuel (p_line c)) (p_line c @ []) = Inr (c, [])"
    using reads_all [OF assms] unfolding reads_line_def by (meson one_of_simps(1))
  then show ?thesis by (simp add: parsecmd_def peek_tok_def skip_def kres_simps)
qed

text \<open>\<open>(a | b > f ; c &) & d < g\<close>, as a tree.\<close>

definition sample_cmd :: cmd where
  "sample_cmd =
     LIST (BACK (REDIR (LIST (PIPE (EXEC [[97]]) (REDIR (EXEC [[98]]) [102] (O_WRONLY OR O_CREATE) 1)) (BACK (EXEC [[99]])))
             [104] O_RDONLY 0))
       (REDIR (EXEC [[100], [101, 101]]) [103] O_RDONLY 0)"

lemma parsecmd_roundtrip_witness:
  "parsecmd (p_line sample_cmd) = Inr sample_cmd \<and>
   p_line sample_cmd = [40, 97, 32, 124, 98, 32, 62, 102, 32, 59, 99, 32, 38, 41, 60, 104, 32, 38, 59,
     100, 32, 101, 101, 32, 60, 103, 32]"
proof -
  have "cmd_ok sample_cmd"
    by (simp add: sample_cmd_def redir_ok_def word_ok_def white_def symbol_def MAXARGS_def)
  then show ?thesis
    using parsecmd_roundtrip [of sample_cmd] by (simp add: sample_cmd_def p_word_def p_redir_def)
qed

subsection \<open>The parser always returns\<close>

text \<open>
  A call consumes no text it gives back, and each opening parenthesis, bar and semicolon is consumed before the
  recursive call behind it: four calls per byte suffice.
\<close>

definition bounded :: "nat \<Rightarrow> (cmd \<times> u8 list) kres \<Rightarrow> bool" where
  "bounded k r \<longleftrightarrow> r \<noteq> Inl Spin \<and> (\<forall>c t. r = Inr (c, t) \<longrightarrow> length t \<le> k)"

lemma bounded_bind:
  assumes "bounded k m" and "\<And>c t. length t \<le> k \<Longrightarrow> m = Inr (c, t) \<Longrightarrow> bounded j (f (c, t))"
  shows "bounded j (kbind m f)"
  using assms by (cases m) (auto simp: bounded_def)

lemma bounded_mono: "bounded j r \<Longrightarrow> j \<le> k \<Longrightarrow> bounded k r"
  by (auto simp: bounded_def)

lemma bounded_simps [simp]: "bounded k (Inr (c, t)) \<longleftrightarrow> length t \<le> k" "bounded k (Inl e) \<longleftrightarrow> e \<noteq> Spin"
  by (auto simp: bounded_def)

lemma parseredirs_spin: "parseredirs s \<noteq> Inl Spin"
proof (induction "length s" arbitrary: s rule: less_induct)
  case less
  obtain b x where p: "peek_tok s [60, 62] = (b, x)" by fastforce
  note x = peek_skip [OF p]
  have "length (after (after x)) < length s" if b
    using x that length_after [of x] length_after_le [of "after x"] length_skip [of s] by fastforce
  with less.hyps have "b \<Longrightarrow> parseredirs (after (after x)) \<noteq> Inl Spin" by blast
  then show ?case
    using p by (subst parseredirs.simps) (auto simp: kres_simps after_def split: prod.splits bool.splits)
qed

lemma parsewords_spin: "parsewords argc s \<noteq> Inl Spin"
proof (induction "length s" arbitrary: argc s rule: less_induct)
  case less
  obtain b x where p: "peek_tok s [124, 41, 38, 59] = (b, x)" by fastforce
  note x = peek_skip [OF p]
  have "parsewords (argc + 1) t \<noteq> Inl Spin" if "fst (gettoken x) \<noteq> 0" "parseredirs (after x) = Inr (rs, t)" for rs t
  proof (rule less.hyps)
    have "x \<noteq> []" using that(1) by (auto simp: gettoken_def skip_def)
    then show "length t < length s"
      using x parseredirs_length [OF that(2)] length_after [of x] length_skip [of s] by fastforce
  qed
  then show ?case
    using p parseredirs_spin [of "after x"]
    by (subst parsewords.simps) (auto simp: kres_simps after_def split: prod.splits bool.splits)
qed

lemma parsewords_length: "parsewords argc s = Inr (ws, rs, t) \<Longrightarrow> length t \<le> length s"
proof (induction "length s" arbitrary: argc s ws rs rule: less_induct)
  case less
  obtain b x where p: "peek_tok s [124, 41, 38, 59] = (b, x)" by fastforce
  note x = peek_skip [OF p]
  have le: "length x \<le> length s" using x length_skip [of s] by simp
  show ?case
  proof (cases "b \<or> fst (gettoken x) = 0")
    case True
    then have "t = x \<or> t = after x"
      using less.prems p by (subst (asm) parsewords.simps) (auto simp: after_def split: prod.splits bool.splits)
    then show ?thesis using le length_after_le [of x] by auto
  next
    case False
    then obtain rs' u ws' rs'' where u: "parseredirs (after x) = Inr (rs', u)" "parsewords (argc + 1) u = Inr (ws', rs'', t)"
      using less.prems p
      by (subst (asm) parsewords.simps) (auto simp: kres_simps after_def split: prod.splits bool.splits if_splits)
    have "x \<noteq> []" using False by (auto simp: gettoken_def skip_def)
    then have "length u < length s" using x parseredirs_length [OF u(1)] length_after [of x] le by fastforce
    with less.hyps [OF this u(2)] show ?thesis by simp
  qed
qed

lemma backs_length: "backs c s = (d, t) \<Longrightarrow> length t \<le> length s"
proof (induction "length s" arbitrary: c s rule: less_induct)
  case less
  obtain b x where p: "peek_tok s [38] = (b, x)" by fastforce
  note x = peek_skip [OF p]
  have le: "length x \<le> length s" using x length_skip [of s] by simp
  show ?case
  proof (cases b)
    case True
    then have "backs (BACK c) (after x) = (d, t)" using less.prems p by (subst (asm) backs.simps) simp
    moreover have "length (after x) < length s" using True x le length_after [of x] by fastforce
    ultimately show ?thesis using less.hyps by fastforce
  next
    case False
    then show ?thesis using less.prems p le by (subst (asm) backs.simps) simp
  qed
qed


text \<open>The text behind a one byte token, within the bound of the text before it.\<close>

lemma after_peek: "peek_tok s toks = (True, x) \<Longrightarrow> length (after x) < length s"
  using peek_skip [of s toks True x] length_after [of x] length_skip [of s] by fastforce

lemma peek_length: "peek_tok s toks = (b, x) \<Longrightarrow> length x \<le> length s"
  using peek_skip [of s toks b x] length_skip [of s] by simp

definition calls_bounded :: "nat \<Rightarrow> bool" where
  "calls_bounded n \<longleftrightarrow> (\<forall>s.
     (4 * length s + 4 \<le> n \<longrightarrow> bounded (length s) (parseline n s)) \<and>
     (4 * length s + 3 \<le> n \<longrightarrow> bounded (length s) (parsepipe n s)) \<and>
     (4 * length s + 2 \<le> n \<longrightarrow> bounded (length s) (parseexec n s)) \<and>
     (4 * length s + 1 \<le> n \<longrightarrow> bounded (length s) (parseblock n s)))"

lemma calls_boundedD:
  assumes "calls_bounded n"
  shows "4 * length s + 4 \<le> n \<Longrightarrow> length s \<le> k \<Longrightarrow> bounded k (parseline n s)"
    and "4 * length s + 3 \<le> n \<Longrightarrow> length s \<le> k \<Longrightarrow> bounded k (parsepipe n s)"
    and "4 * length s + 2 \<le> n \<Longrightarrow> length s \<le> k \<Longrightarrow> bounded k (parseexec n s)"
    and "4 * length s + 1 \<le> n \<Longrightarrow> length s \<le> k \<Longrightarrow> bounded k (parseblock n s)"
  using assms unfolding calls_bounded_def by (blast intro: bounded_mono)+

lemma bounded_line:
  assumes IH: "calls_bounded n" and n: "4 * length s + 3 \<le> n"
  shows "bounded (length s) (parseline (Suc n) s)"
  unfolding parseline.simps
proof (rule bounded_bind)
  show "bounded (length s) (parsepipe n s)" using calls_boundedD(2) [OF IH n] by simp
  fix c :: cmd and t :: "u8 list"
  assume t: "length t \<le> length s"
  obtain d u b x where b: "backs c t = (d, u)" "peek_tok u [59] = (b, x)" by (metis surj_pair)
  have u: "length u \<le> length s" using backs_length [OF b(1)] t by simp
  then have "b \<Longrightarrow> bounded (length s) (parseline n (after x))"
    using after_peek [of u "[59]" x] b(2) n by (intro calls_boundedD(1) [OF IH]) auto
  then show "bounded (length s) (case (c, t) of (c, s) \<Rightarrow> case backs c s of (c, s) \<Rightarrow> case peek_tok s [59] of
      (True, s) \<Rightarrow> kbind (parseline n (after s)) (\<lambda>(d, s). Inr (LIST c d, s)) | (False, s) \<Rightarrow> Inr (c, s))"
    using b u peek_length [OF b(2)] by (auto split: bool.splits intro: bounded_bind)
qed

lemma bounded_pipe:
  assumes IH: "calls_bounded n" and n: "4 * length s + 2 \<le> n"
  shows "bounded (length s) (parsepipe (Suc n) s)"
  unfolding parsepipe.simps
proof (rule bounded_bind)
  show "bounded (length s) (parseexec n s)" using calls_boundedD(3) [OF IH n] by simp
  fix c :: cmd and t :: "u8 list"
  assume t: "length t \<le> length s"
  obtain b x where b: "peek_tok t [124] = (b, x)" by fastforce
  have "b \<Longrightarrow> bounded (length s) (parsepipe n (after x))"
    using after_peek [of t "[124]" x] b n t by (intro calls_boundedD(2) [OF IH]) auto
  then show "bounded (length s) (case (c, t) of (c, s) \<Rightarrow> case peek_tok s [124] of
      (True, s) \<Rightarrow> kbind (parsepipe n (after s)) (\<lambda>(d, s). Inr (PIPE c d, s)) | (False, s) \<Rightarrow> Inr (c, s))"
    using b t peek_length [OF b] by (auto split: bool.splits intro: bounded_bind)
qed

lemma bounded_exec:
  assumes IH: "calls_bounded n" and n: "4 * length s + 1 \<le> n"
  shows "bounded (length s) (parseexec (Suc n) s)"
proof -
  obtain b x where b: "peek_tok s [40] = (b, x)" by fastforce
  have x: "length x \<le> length s" using peek_length [OF b] .
  have "bounded (length s) (parseblock n x)" using x n by (intro calls_boundedD(4) [OF IH]) auto
  moreover have "bounded (length s) (kbind (parseredirs x) (\<lambda>(rs, s).
      kbind (parsewords 0 s) (\<lambda>(ws, rs', s). Inr (wrap (EXEC ws) (rs @ rs'), s))))"
    using parseredirs_spin [of x] parsewords_spin parseredirs_length [of x] parsewords_length x
    by (auto simp: kbind_def bounded_def split: sum.splits) (meson order_trans)
  ultimately show ?thesis using b by (auto split: bool.splits)
qed

lemma bounded_block:
  assumes IH: "calls_bounded n" and n: "4 * length s \<le> n"
  shows "bounded (length s) (parseblock (Suc n) s)"
proof -
  obtain b x where b: "peek_tok s [40] = (b, x)" by fastforce
  have "bounded (length s) (kbind (parseline n (after x)) (\<lambda>(c, s).
          case peek_tok s [41] of
            (False, s) \<Rightarrow> Inl (Panic ''syntax - missing )'')
          | (True, s) \<Rightarrow> kbind (parseredirs (after s)) (\<lambda>(rs, s). Inr (wrap c rs, s))))" if b
  proof (rule bounded_bind)
    show "bounded (length s) (parseline n (after x))"
      using after_peek [of s "[40]" x] b that n by (intro calls_boundedD(1) [OF IH]) auto
    fix c :: cmd and t :: "u8 list"
    assume t: "length t \<le> length s"
    obtain b' y where y: "peek_tok t [41] = (b', y)" by fastforce
    have "length (after y) \<le> length s" using peek_length [OF y] length_after_le [of y] t by linarith
    then show "bounded (length s) (case (c, t) of (c, s) \<Rightarrow> case peek_tok s [41] of
            (False, s) \<Rightarrow> Inl (Panic ''syntax - missing )'')
          | (True, s) \<Rightarrow> kbind (parseredirs (after s)) (\<lambda>(rs, s). Inr (wrap c rs, s)))"
      using y parseredirs_spin [of "after y"] parseredirs_length [of "after y"]
      by (fastforce simp: kbind_def bounded_def split: sum.splits bool.splits)
  qed
  then show ?thesis using b by (auto split: bool.splits)
qed

lemma parse_bounded: "calls_bounded n"
proof (induction n)
  case (Suc n)
  then show ?case unfolding calls_bounded_def
    using bounded_line [OF Suc] bounded_pipe [OF Suc] bounded_exec [OF Suc] bounded_block [OF Suc] by simp
qed (simp add: calls_bounded_def)


end
