(* ===== verification/Shrun.thy ===== *)
theory Shrun
  imports Sh
begin

text \<open>
  What the shell (\<open>sh.c\<close>) asks of the kernel: \<open>runcmd\<close>, the loop of \<open>main\<close> that opens the three standard
  descriptors, and one turn of its loop over lines. A process is its table of descriptors and the list of what
  it does; the work of a child stands inside the \<open>Fork\<close> of its parent. Whether the \<open>n\<close>th call that may fail
  succeeds is a parameter, so every failure path is covered.
\<close>

subsection \<open>Descriptors\<close>

datatype obj = Device | Opened "u8 list" u32 | ReadEnd nat | WriteEnd nat

type_synonym fdt = "nat \<Rightarrow> obj option"

text \<open>\<open>fdalloc\<close> of the kernel: the lowest free descriptor.\<close>

definition lowfd :: "fdt \<Rightarrow> nat option" where
  "lowfd t = find (\<lambda>i. t i = None) [0..<NOFILE]"

definition closefd :: "nat \<Rightarrow> fdt \<Rightarrow> fdt" where
  "closefd fd t = t(fd := None)"

definition openobj :: "obj \<Rightarrow> fdt \<Rightarrow> (nat \<times> fdt) option" where
  "openobj x t = map_option (\<lambda>fd. (fd, t(fd \<mapsto> x))) (lowfd t)"

definition dupfd :: "nat \<Rightarrow> fdt \<Rightarrow> fdt" where
  "dupfd fd t = (case t fd of None \<Rightarrow> t | Some x \<Rightarrow> (case openobj x t of None \<Rightarrow> t | Some (_, t) \<Rightarrow> t))"

definition pipefds :: "nat \<Rightarrow> fdt \<Rightarrow> (nat \<times> nat \<times> fdt) option" where
  "pipefds k t =
     (case openobj (ReadEnd k) t of
        None \<Rightarrow> None
      | Some (r, t) \<Rightarrow> map_option (\<lambda>(w, t). (r, w, t)) (openobj (WriteEnd k) t))"

text \<open>
  The table is the one the kernel keeps: seen through what the shell knows of an open file, \<open>openobj\<close> is the
  kernel's \<open>fdalloc\<close>.
\<close>

definition fds_of :: "(nat \<Rightarrow> obj) \<Rightarrow> ('d, 'z) sysst_scheme \<Rightarrow> fdt" where
  "fds_of g s = (\<lambda>i. if i < length (us_ofile s) then map_option g (us_ofile s ! i) else None)"

lemma openobj_fdalloc:
  assumes "length (us_ofile s) = NOFILE"
  shows "openobj (g f) (fds_of g s) =
    (case fdalloc f s of (None, _) \<Rightarrow> None | (Some fd, s') \<Rightarrow> Some (fd, fds_of g s'))"
proof -
  have "lowfd (fds_of g s) = first_index (\<lambda>x. x = None) (us_ofile s)"
  proof (cases "first_index (\<lambda>x. x = None) (us_ofile s)")
    case None
    then have "\<forall>i<NOFILE. fds_of g s i \<noteq> None"
      using assms by (auto simp: first_index_None fds_of_def in_set_conv_nth)
    then show ?thesis using None by (auto simp: lowfd_def find_None_iff)
  next
    case (Some i)
    then have "find (\<lambda>i. fds_of g s i = None) [0..<NOFILE] = Some i"
      using assms by (subst find_Some_iff, intro exI [of _ i]) (auto simp: first_index_Some fds_of_def)
    then show ?thesis using Some by (simp add: lowfd_def)
  qed
  moreover have "first_index (\<lambda>x. x = None) (us_ofile s) = Some i \<Longrightarrow> i < NOFILE" for i
    using assms by (auto simp: first_index_Some)
  ultimately show ?thesis using assms
    by (auto simp: openobj_def fdalloc_def fds_of_def split: option.splits)
qed

subsection \<open>Running a command\<close>

datatype ev =
    Runs "u8 list list" fdt
  | Printed string "u8 list"
  | Fork "ev list"
  | Wait
  | Chdir "u8 list"

record shw =
  sh_calls :: nat
  sh_pipes :: nat

text \<open>The outcome of the next call that may fail.\<close>

definition attempt :: "(nat \<Rightarrow> bool) \<Rightarrow> shw \<Rightarrow> bool \<times> shw" where
  "attempt ok w = (ok (sh_calls w), w\<lparr>sh_calls := Suc (sh_calls w)\<rparr>)"

text \<open>\<open>fork1\<close>: the child's list behind \<open>Fork\<close>, then what the parent does; a failure ends the parent.\<close>

definition fork1 :: "(nat \<Rightarrow> bool) \<Rightarrow> (shw \<Rightarrow> ev list \<times> shw) \<Rightarrow> (shw \<Rightarrow> ev list \<times> shw) \<Rightarrow> shw \<Rightarrow> ev list \<times> shw" where
  "fork1 ok child parent w =
     (case attempt ok w of (okay, w) \<Rightarrow>
        if \<not> okay then ([Printed ''fork'' []], w)
        else case child w of (es, w) \<Rightarrow> case parent w of (es', w) \<Rightarrow> (Fork es # es', w))"

lemma fork1_cong [fundef_cong]:
  assumes "ok = ok'" "w = w'" "\<And>v. child v = child' v" "\<And>v. parent v = parent' v"
  shows "fork1 ok child parent w = fork1 ok' child' parent' w'"
proof -
  have "child = child'" "parent = parent'" using assms(3,4) by (auto intro: ext)
  then show ?thesis using assms(1,2) by simp
qed

fun runcmd :: "(nat \<Rightarrow> bool) \<Rightarrow> cmd \<Rightarrow> fdt \<Rightarrow> shw \<Rightarrow> ev list \<times> shw" where
  "runcmd ok (EXEC ws) t w =
     (case ws of
        [] \<Rightarrow> ([], w)
      | prog # args \<Rightarrow>
          (case attempt ok w of (okay, w) \<Rightarrow> if okay then ([Runs ws t], w) else ([Printed ''exec failed'' prog], w)))"
| "runcmd ok (REDIR c f mode fd) t w =
     (let t = closefd (nat fd) t in
      case attempt ok w of (okay, w) \<Rightarrow>
        (case openobj (Opened f mode) t of
           Some (_, t) \<Rightarrow> if okay then runcmd ok c t w else ([Printed ''open failed'' f], w)
         | None \<Rightarrow> ([Printed ''open failed'' f], w)))"
| "runcmd ok (LIST l r) t w =
     fork1 ok (runcmd ok l t) (\<lambda>w. case runcmd ok r t w of (es, w) \<Rightarrow> (Wait # es, w)) w"
| "runcmd ok (PIPE l r) t w =
     (case attempt ok w of (okay, w) \<Rightarrow>
        (case pipefds (sh_pipes w) t of
           Some (p0, p1, t) \<Rightarrow>
             if \<not> okay then ([Printed ''pipe'' []], w)
             else
               fork1 ok (runcmd ok l (closefd p1 (closefd p0 (dupfd p1 (closefd 1 t)))))
                 (fork1 ok (runcmd ok r (closefd p1 (closefd p0 (dupfd p0 (closefd 0 t)))))
                    (\<lambda>w. ([Wait, Wait], w)))
                 (w\<lparr>sh_pipes := Suc (sh_pipes w)\<rparr>)
         | None \<Rightarrow> ([Printed ''pipe'' []], w)))"
| "runcmd ok (BACK c) t w = fork1 ok (runcmd ok c t) (\<lambda>w. ([], w)) w"

subsection \<open>The main loop\<close>

text \<open>The loop that ensures that three descriptors are open; \<open>ok\<close> tells whether the console can be opened.\<close>

fun open_three :: "nat \<Rightarrow> bool \<Rightarrow> fdt \<Rightarrow> fdt option" where
  "open_three 0 ok t = None"
| "open_three (Suc n) ok t =
     (case openobj Device t of
        None \<Rightarrow> Some t
      | Some (fd, t') \<Rightarrow>
          if \<not> ok then Some t
          else if 3 \<le> fd then Some (closefd fd t')
          else open_three n ok t')"

text \<open>One line of input: \<open>cd\<close> in the shell itself, everything else in a child.\<close>

definition run_line :: "(nat \<Rightarrow> bool) \<Rightarrow> u8 list \<Rightarrow> fdt \<Rightarrow> shw \<Rightarrow> ev list \<times> shw" where
  "run_line ok buf t w =
     (if take 3 buf = [99, 100, 32] then
        (let d = drop 3 (butlast buf) in
         case attempt ok w of (okay, w) \<Rightarrow> ([if okay then Chdir d else Printed ''cannot cd'' d], w))
      else
        fork1 ok
          (\<lambda>w. case parsecmd buf of
              Inr c \<Rightarrow> runcmd ok c t w
            | Inl e \<Rightarrow> ([Printed (case e of Panic m \<Rightarrow> m | _ \<Rightarrow> []) []], w))
          (\<lambda>w. ([Wait], w)) w)"


subsection \<open>What the programs are given\<close>

text \<open>The programs that are started, each with its descriptors, in the order of the text.\<close>

fun prog_of :: "ev \<Rightarrow> (u8 list list \<times> fdt) list" where
  "prog_of (Runs ws t) = [(ws, t)]"
| "prog_of (Fork es) = concat (map prog_of es)"
| "prog_of (Printed m a) = []"
| "prog_of Wait = []"
| "prog_of (Chdir d) = []"

definition programs :: "ev list \<Rightarrow> (u8 list list \<times> fdt) list" where
  "programs es = concat (map prog_of es)"

lemma programs_simps [simp]:
  "programs [] = []"
  "programs (e # es) = prog_of e @ programs es"
  "prog_of (Fork es) = programs es"
  by (simp_all add: programs_def)

declare prog_of.simps(2) [simp del]

text \<open>The meaning of a command: every simple command with the descriptors its place in the tree gives it.\<close>

fun stages :: "cmd \<Rightarrow> fdt \<Rightarrow> nat \<Rightarrow> (u8 list list \<times> fdt) list \<times> nat" where
  "stages (EXEC ws) t k = (if ws = [] then [] else [(ws, t)], k)"
| "stages (REDIR c f mode fd) t k = stages c (t(nat fd \<mapsto> Opened f mode)) k"
| "stages (LIST l r) t k = (case stages l t k of (a, k) \<Rightarrow> case stages r t k of (b, k) \<Rightarrow> (a @ b, k))"
| "stages (PIPE l r) t k =
     (case stages l (t(1 \<mapsto> WriteEnd k)) (Suc k) of (a, k') \<Rightarrow>
      case stages r (t(0 \<mapsto> ReadEnd k)) k' of (b, k') \<Rightarrow> (a @ b, k'))"
| "stages (BACK c) t k = stages c t k"

fun std_redirs :: "cmd \<Rightarrow> bool" where
  "std_redirs (EXEC ws) \<longleftrightarrow> True"
| "std_redirs (REDIR c f mode fd) \<longleftrightarrow> fd \<in> {0, 1} \<and> std_redirs c"
| "std_redirs (LIST l r) \<longleftrightarrow> std_redirs l \<and> std_redirs r"
| "std_redirs (PIPE l r) \<longleftrightarrow> std_redirs l \<and> std_redirs r"
| "std_redirs (BACK c) \<longleftrightarrow> std_redirs c"

subsection \<open>Descriptors of the standard streams\<close>

definition std :: "fdt \<Rightarrow> bool" where
  "std t \<longleftrightarrow> dom t = {0, 1, 2}"

lemma lowfd_least: "t i = None \<Longrightarrow> i < NOFILE \<Longrightarrow> (\<And>j. j < i \<Longrightarrow> t j \<noteq> None) \<Longrightarrow> lowfd t = Some i"
  unfolding lowfd_def by (subst find_Some_iff) (auto intro!: exI [of _ i])

lemma std_at: "std t \<Longrightarrow> j < 3 \<Longrightarrow> t j \<noteq> None" "std t \<Longrightarrow> 3 \<le> j \<Longrightarrow> t j = None"
proof -
  have "j \<in> dom t \<longleftrightarrow> j < 3" if "std t" using that by (auto simp: std_def)
  then show "std t \<Longrightarrow> j < 3 \<Longrightarrow> t j \<noteq> None" "std t \<Longrightarrow> 3 \<le> j \<Longrightarrow> t j = None" by (auto simp: domIff)
qed

lemma std_upd [simp]: "std t \<Longrightarrow> j < 3 \<Longrightarrow> std (t(j \<mapsto> x))"
  by (auto simp: std_def)

lemma lowfd_gap:
  assumes "std t" and "j < 3" and "\<And>i. i < 3 \<Longrightarrow> i \<noteq> j \<Longrightarrow> u i = t i" and "u j = None"
  shows "lowfd u = Some j"
proof (rule lowfd_least)
  show "u i \<noteq> None" if "i < j" for i using std_at(1) [OF assms(1), of i] assms(2,3) that by simp
qed (use assms in \<open>simp_all add: NOFILE_def\<close>)

lemma pipefds_std:
  assumes "std t"
  shows "pipefds k t = Some (3, 4, t(3 \<mapsto> ReadEnd k, 4 \<mapsto> WriteEnd k))"
proof -
  have "lowfd t = Some 3"
    by (rule lowfd_least) (use std_at [OF assms] in \<open>simp_all add: NOFILE_def\<close>)
  moreover have "lowfd (t(3 \<mapsto> ReadEnd k)) = Some 4"
    by (rule lowfd_least) (use std_at [OF assms] in \<open>auto simp: NOFILE_def\<close>)
  ultimately show ?thesis by (simp add: pipefds_def openobj_def)
qed

lemma plumb:
  assumes "std t" and "j < 3" and "p \<in> {3, 4}" and "u p = Some x" and "\<And>i. i < 3 \<or> 4 < i \<Longrightarrow> u i = t i"
  shows "closefd 4 (closefd 3 (dupfd p (closefd j u))) = t(j \<mapsto> x)"
proof -
  have "lowfd (closefd j u) = Some j"
    by (rule lowfd_gap [OF assms(1,2)]) (use assms(5) in \<open>simp_all add: closefd_def\<close>)
  moreover have "closefd j u p = Some x" using assms(2-4) by (auto simp: closefd_def)
  ultimately have "dupfd p (closefd j u) = u(j \<mapsto> x)" by (simp add: dupfd_def openobj_def closefd_def)
  moreover have "t 3 = None" "t 4 = None" using std_at(2) [OF assms(1)] by simp_all
  ultimately show ?thesis using assms(2,5) by (intro ext) (auto simp: closefd_def nat_neq_iff)
qed

lemma redirect:
  assumes "std t" and "fd \<in> {0, 1}"
  shows "openobj x (closefd (nat fd) t) = Some (nat fd, t(nat fd \<mapsto> x))"
proof -
  have "lowfd (closefd (nat fd) t) = Some (nat fd)"
    by (rule lowfd_gap [OF assms(1)]) (use assms(2) in \<open>auto simp: closefd_def\<close>)
  then show ?thesis by (simp add: openobj_def closefd_def)
qed


subsection \<open>Plumbing\<close>

lemma runcmd_pipe:
  assumes "std t"
  shows "runcmd ok (PIPE l r) t w =
    (case attempt ok w of (okay, w) \<Rightarrow>
       if \<not> okay then ([Printed ''pipe'' []], w)
       else
         fork1 ok (runcmd ok l (t(1 \<mapsto> WriteEnd (sh_pipes w))))
           (fork1 ok (runcmd ok r (t(0 \<mapsto> ReadEnd (sh_pipes w)))) (\<lambda>w. ([Wait, Wait], w)))
           (w\<lparr>sh_pipes := Suc (sh_pipes w)\<rparr>))"
proof -
  have "closefd 4 (closefd 3 (dupfd 4 (closefd 1 (t(3 \<mapsto> ReadEnd k, 4 \<mapsto> WriteEnd k))))) = t(1 \<mapsto> WriteEnd k)"
    "closefd 4 (closefd 3 (dupfd 3 (closefd 0 (t(3 \<mapsto> ReadEnd k, 4 \<mapsto> WriteEnd k))))) = t(0 \<mapsto> ReadEnd k)" for k
    by (rule plumb [OF assms]; auto)+
  then show ?thesis by (simp add: pipefds_std [OF assms] attempt_def)
qed

lemma runcmd_redir:
  assumes "std t" and "fd \<in> {0, 1}"
  shows "runcmd ok (REDIR c f mode fd) t w =
    (case attempt ok w of (okay, w) \<Rightarrow>
       if okay then runcmd ok c (t(nat fd \<mapsto> Opened f mode)) w else ([Printed ''open failed'' f], w))"
  by (simp add: redirect [OF assms] Let_def split: prod.splits)

declare runcmd.simps(2,4) [simp del]

lemma programs_fork1:
  "programs (fst (fork1 ok child parent w)) =
    (let w' = snd (attempt ok w) in
     if fst (attempt ok w) then programs (fst (child w')) @ programs (fst (parent (snd (child w')))) else [])"
  by (simp add: fork1_def Let_def split: prod.splits)

lemma pipes_fork1:
  "sh_pipes (snd (fork1 ok child parent w)) =
    (let w' = snd (attempt ok w) in
     if fst (attempt ok w) then sh_pipes (snd (parent (snd (child w')))) else sh_pipes w)"
  by (auto simp: fork1_def Let_def attempt_def split: prod.splits)

definition all_std :: "ev list \<Rightarrow> bool" where
  "all_std es \<longleftrightarrow> list_all (\<lambda>(ws, t). std t) (programs es)"

lemma all_std_simps [simp]:
  "all_std []"
  "all_std (Runs ws t # es) \<longleftrightarrow> std t \<and> all_std es"
  "all_std (Printed m a # es) \<longleftrightarrow> all_std es"
  "all_std (Wait # es) \<longleftrightarrow> all_std es"
  by (simp_all add: all_std_def)

lemma all_std_fork1:
  "(\<And>w. all_std (fst (child w))) \<Longrightarrow> (\<And>w. all_std (fst (parent w))) \<Longrightarrow> all_std (fst (fork1 ok child parent w))"
  by (auto simp: all_std_def programs_fork1 Let_def)

lemma runcmd_no_leak: "std t \<Longrightarrow> std_redirs c \<Longrightarrow> all_std (fst (runcmd ok c t w))"
proof (induction c arbitrary: t w)
  case (EXEC ws)
  then show ?case by (auto split: list.splits prod.splits)
next
  case (REDIR c f mode fd)
  have "std (t(nat fd \<mapsto> Opened f mode))" using REDIR.prems by (intro std_upd) auto
  then show ?case using REDIR by (auto simp: runcmd_redir split: prod.splits)
next
  case (PIPE l r)
  have "std (t(Suc 0 \<mapsto> x))" for x using PIPE.prems by simp
  then show ?case unfolding runcmd_pipe [OF PIPE.prems(1)]
    using PIPE by (auto split: prod.splits intro!: all_std_fork1 std_upd)
next
  case (LIST l r)
  then show ?case by (auto split: prod.splits intro!: all_std_fork1) (metis fst_conv)
next
  case (BACK c)
  then show ?case by (auto intro!: all_std_fork1)
qed

lemma runcmd_stages:
  assumes "std t" and "std_redirs c"
  shows "programs (fst (runcmd (\<lambda>_. True) c t w)) = fst (stages c t (sh_pipes w)) \<and>
    sh_pipes (snd (runcmd (\<lambda>_. True) c t w)) = snd (stages c t (sh_pipes w))"
  using assms
proof (induction c arbitrary: t w)
  case (EXEC ws)
  then show ?case by (simp add: attempt_def split: list.splits)
next
  case (REDIR c f mode fd)
  define u where "u = t(nat fd \<mapsto> Opened f mode)"
  have "std u" using REDIR.prems unfolding u_def by (intro std_upd) auto
  then show ?case
    using REDIR.prems REDIR.IH [of u "w\<lparr>sh_calls := Suc (sh_calls w)\<rparr>"]
    by (simp add: runcmd_redir attempt_def flip: u_def)
next
  case (PIPE l r)
  have "std (t(1 \<mapsto> x))" "std (t(0 \<mapsto> x))" for x using PIPE.prems by (auto intro: std_upd)
  then show ?case
    using PIPE by (simp add: runcmd_pipe programs_fork1 pipes_fork1 attempt_def Let_def split: prod.splits)
next
  case (LIST l r)
  define w1 where "w1 = w\<lparr>sh_calls := Suc (sh_calls w)\<rparr>"
  obtain es1 w2 es2 w3 where l: "runcmd (\<lambda>_. True) l t w1 = (es1, w2)" and r: "runcmd (\<lambda>_. True) r t w2 = (es2, w3)" by (metis surj_pair)
  have "sh_pipes w1 = sh_pipes w" by (simp add: w1_def)
  then show ?case
    using LIST.IH(1) [of t w1] LIST.IH(2) [of t w2] LIST.prems l r
    by (simp add: programs_fork1 pipes_fork1 attempt_def Let_def flip: w1_def split: prod.splits)
next
  case (BACK c)
  then show ?case by (simp add: programs_fork1 pipes_fork1 attempt_def Let_def split: prod.splits)
qed


text \<open>The parser makes redirections of the standard streams only.\<close>

abbreviation std_rs :: "redir list \<Rightarrow> bool" where
  "std_rs rs \<equiv> list_all (\<lambda>(f, mode, fd). fd \<in> {0, 1}) rs"

lemma std_wrap: "std_redirs (wrap c rs) \<longleftrightarrow> std_redirs c \<and> std_rs rs"
  by (induction rs rule: rev_induct) (auto simp: wrap_snoc)

lemma parseredirs_std: "parseredirs s = Inr (rs, t) \<Longrightarrow> std_rs rs"
proof (induction "length s" arbitrary: s rs rule: less_induct)
  case less
  obtain b x where p: "peek_tok s [60, 62] = (b, x)" by fastforce
  note x = peek_skip [OF p]
  have "length (after (after x)) < length s" if b
    using x that length_after [of x] length_after_le [of "after x"] length_skip [of s] by fastforce
  with less.hyps have "\<And>rs. b \<Longrightarrow> parseredirs (after (after x)) = Inr (rs, t) \<Longrightarrow> std_rs rs" by blast
  then show ?case
    using less.prems p by (subst (asm) parseredirs.simps)
      (auto simp: kres_simps after_def redir_of_def split: prod.splits bool.splits if_splits)
qed

lemma parsewords_eq:
  assumes "peek_tok s [124, 41, 38, 59] = (b, x)" and "gettoken x = (tok, q, y)"
  shows "parsewords argc s =
    (if b then Inr ([], [], x) else if tok = 0 then Inr ([], [], y)
     else if tok \<noteq> 97 then Inl (Panic ''syntax'')
     else if MAXARGS \<le> argc + 1 then Inl (Panic ''too many args'')
     else kbind (parseredirs y) (\<lambda>(rs, s''). kbind (parsewords (argc + 1) s'') (\<lambda>(ws, rs', t). Inr (q # ws, rs @ rs', t))))"
  by (subst parsewords.simps) (simp add: assms split: bool.split)

lemma parsewords_step:
  assumes "parsewords argc s = Inr (ws, rs, t)" and "rs \<noteq> []"
  obtains rs' u v ws' rs'' where "parseredirs u = Inr (rs', v)" "length v < length s"
    "parsewords (argc + 1) v = Inr (ws', rs'', t)" "rs = rs' @ rs''"
proof -
  obtain b x tok q y where p: "peek_tok s [124, 41, 38, 59] = (b, x)" and g: "gettoken x = (tok, q, y)" by (metis surj_pair)
  note x = peek_skip [OF p]
  from assms have f: "\<not> b" "tok \<noteq> 0" unfolding parsewords_eq [OF p g] by (auto split: if_splits)
  then obtain rs' v ws' rs'' where v: "parseredirs y = Inr (rs', v)" "parsewords (argc + 1) v = Inr (ws', rs'', t)"
    "rs = rs' @ rs''"
    using assms(1) unfolding parsewords_eq [OF p g] by (auto simp: kres_simps split: if_splits)
  have "x \<noteq> []" using f g by (auto simp: gettoken_def skip_def)
  moreover have "y = after x" using g by (simp add: after_def)
  ultimately have "length v < length s"
    using x parseredirs_length [OF v(1)] length_after [of x] length_skip [of s] by fastforce
  with v that show ?thesis by blast
qed

lemma parsewords_std: "parsewords argc s = Inr (ws, rs, t) \<Longrightarrow> std_rs rs"
proof (induction "length s" arbitrary: argc s ws rs rule: less_induct)
  case less
  show ?case
  proof (cases "rs = []")
    case False
    with less.prems show ?thesis
      by (rule parsewords_step) (use less.hyps parseredirs_std in auto)
  qed simp
qed

lemma backs_std: "backs c s = (d, t) \<Longrightarrow> std_redirs c \<Longrightarrow> std_redirs d"
proof (induction "length s" arbitrary: c s rule: less_induct)
  case less
  obtain b x where p: "peek_tok s [38] = (b, x)" by fastforce
  have "std_redirs d" if "b" "backs (BACK c) (after x) = (d, t)"
    using less.hyps [OF _ that(2)] less.prems(2) after_peek [of s "[38]" x] p that(1) by simp
  moreover have "backs c s = (if b then backs (BACK c) (after x) else (c, x))"
    by (subst backs.simps) (simp add: p split: bool.split)
  ultimately show ?case using less.prems by (auto split: if_splits)
qed

definition std_res :: "(cmd \<times> u8 list) kres \<Rightarrow> bool" where
  "std_res r \<longleftrightarrow> (\<forall>c t. r = Inr (c, t) \<longrightarrow> std_redirs c)"

lemma std_res_simps [simp]: "std_res (Inl e)" "std_res (Inr (c, t)) \<longleftrightarrow> std_redirs c"
  by (simp_all add: std_res_def)

lemma std_res_bind:
  assumes "std_res m" and "\<And>c t. std_redirs c \<Longrightarrow> std_res (f (c, t))"
  shows "std_res (kbind m f)"
proof (cases m)
  case (Inr a)
  obtain c t where "a = (c, t)" by (cases a)
  then show ?thesis using assms(1) assms(2) [of c t] Inr by simp
qed simp

lemma parse_std:
  "std_res (parseline n s) \<and> std_res (parsepipe n s) \<and> std_res (parseexec n s) \<and> std_res (parseblock n s)"
proof (induction n arbitrary: s)
  case (Suc n)
  have "std_res (kbind (parseredirs x) (\<lambda>(rs, s). kbind (parsewords 0 s) (\<lambda>(ws, rs', s). Inr (wrap (EXEC ws) (rs @ rs'), s))))" for x
    using parseredirs_std parsewords_std by (auto simp: std_res_def kres_simps std_wrap split: prod.splits)
  moreover have "std_redirs c \<Longrightarrow> std_res (kbind (parseredirs x) (\<lambda>(rs, s). Inr (wrap c rs, s)))" for c x
    using parseredirs_std by (auto simp: std_res_def kres_simps std_wrap split: prod.splits)
  ultimately show ?case
    using Suc.IH backs_std by (auto split: prod.splits bool.splits intro!: std_res_bind)
qed simp

lemma parsecmd_std: "parsecmd s = Inr c \<Longrightarrow> std_redirs c"
  using parse_std [of "parse_fuel s" s] by (auto simp: parsecmd_def kres_simps std_res_def split: if_splits)

text \<open>The three descriptors of the shell.\<close>

lemma std_iff: "std t \<longleftrightarrow> t 0 \<noteq> None \<and> t 1 \<noteq> None \<and> t 2 \<noteq> None \<and> (\<forall>i\<ge>3. t i = None)"
proof
  assume "std t"
  then show "t 0 \<noteq> None \<and> t 1 \<noteq> None \<and> t 2 \<noteq> None \<and> (\<forall>i\<ge>3. t i = None)" using std_at [of t] by simp
next
  assume a: "t 0 \<noteq> None \<and> t 1 \<noteq> None \<and> t 2 \<noteq> None \<and> (\<forall>i\<ge>3. t i = None)"
  have "i \<in> dom t \<longleftrightarrow> i \<in> {0, 1, 2}" for i
    using a by (cases "3 \<le> i") (auto simp: not_le numeral_3_eq_3 less_Suc_eq numeral_2_eq_2)
  then show "std t" unfolding std_def by blast
qed

lemma lowfd_cases: "lowfd t = (if t 0 = None then Some 0 else if t 1 = None then Some 1 else if t 2 = None then Some 2
    else if t 3 = None then Some 3 else find (\<lambda>i. t i = None) [4..<NOFILE])"
proof -
  have "[0..<NOFILE] = 0 # 1 # 2 # 3 # [4..<NOFILE]" by (simp add: NOFILE_def upt_rec)
  then show ?thesis by (simp add: lowfd_def)
qed

lemma open_three_std:
  assumes "\<And>i. 3 \<le> i \<Longrightarrow> t i = None"
  shows "\<exists>u. open_three 4 True t = Some u \<and> std u"
proof -
  have n: "(4 :: nat) = Suc (Suc (Suc (Suc 0)))" by simp
  show ?thesis unfolding n
    using assms by (cases "t 0"; cases "t 1"; cases "t 2") (simp_all add: openobj_def lowfd_cases closefd_def std_iff)
qed

text \<open>
  C21. The plumbing of the shell. Take a shell whose three standard descriptors are open and a line that parses
  and is no \<open>cd\<close>. Whatever calls fail, every program the line starts has exactly the descriptors 0, 1 and 2: no
  end of a pipe leaks into a program, so a reader sees the end of its input. When no call fails, the programs
  that run, in order, are those of the tree, each with the descriptors its place gives it: the left side of a
  bar writes the pipe the right side reads, and a redirection replaces the stream it names inside its command
  only.
\<close>

theorem shell_plumbing:
  assumes "std t" and "parsecmd buf = Inr c" and "take 3 buf \<noteq> [99, 100, 32]"
  shows "list_all (\<lambda>(ws, u). dom u = {0, 1, 2}) (programs (fst (run_line ok buf t w))) \<and>
    programs (fst (run_line (\<lambda>_. True) buf t w)) = fst (stages c t (sh_pipes w))"
proof -
  note c = parsecmd_std [OF assms(2)]
  have "all_std (fst (run_line ok buf t w))"
    unfolding run_line_def using assms(2,3) runcmd_no_leak [OF assms(1) c] by (auto intro!: all_std_fork1)
  moreover have "programs (fst (run_line (\<lambda>_. True) buf t w)) = fst (stages c t (sh_pipes w))"
    using assms(2,3) runcmd_stages [OF assms(1) c] by (simp add: run_line_def programs_fork1 attempt_def Let_def)
  ultimately show ?thesis by (simp add: all_std_def std_def)
qed

text \<open>\<open>(a < f | b) ; c\<close> in a shell on the console.\<close>

lemma shell_plumbing_witness:
  "\<exists>t. open_three 4 True (\<lambda>_. None) = Some t \<and>
    programs (fst (run_line (\<lambda>_. True) [40, 97, 60, 102, 124, 98, 41, 59, 99, 10] t \<lparr>sh_calls = 0, sh_pipes = 0\<rparr>)) =
      [([[97]], t(1 \<mapsto> WriteEnd 0, 0 \<mapsto> Opened [102] O_RDONLY)), ([[98]], t(0 \<mapsto> ReadEnd 0)), ([[99]], t)]"
proof -
  let ?c = "LIST (PIPE (REDIR (EXEC [[97]]) [102] O_RDONLY 0) (EXEC [[98]])) (EXEC [[99]])"
  obtain t where t: "open_three 4 True (\<lambda>_. None) = Some t" "std t" using open_three_std [of "\<lambda>_. None"] by auto
  have "parsecmd [40, 97, 60, 102, 124, 98, 41, 59, 99, 10] = Inr ?c"
    by code_simp
  then show ?thesis
    using shell_plumbing [OF t(2), of _ ?c "\<lambda>_. True" "\<lparr>sh_calls = 0, sh_pipes = 0\<rparr>"] t(1) by simp
qed

end
