(* ===== verification/Airport.thy ===== *)
theory Airport
  imports Prelude
begin

text \<open>
  The simulation of an airport (\<open>src/offline_2\<close>): one thread per passenger, and between the threads semaphores,
  mutexes, counters and two arrays of flags. A thread stands at a statement that touches what the threads share;
  a step executes that statement and the private work up to the next one. What a mutex protects is one step; a
  counter that is read and written under different mutexes is a load and a store. The sleeps and the lines
  printed are left out. A thread that waits does not step.
\<close>

subsection \<open>The places of a thread\<close>

text \<open>\<open>check_in\<close>, \<open>security_check\<close>, the two directions of the channel, the special kiosk and boarding.\<close>

datatype ci = CiWait | CiLock | CiTake | CiUnlock | CiLock' | CiFree | CiUnlock' | CiPost

datatype sc = ScWait | ScLock | ScTake | ScWaitBelt | ScUnlock | ScLock' | ScFree | ScUnlock' | ScPost

datatype lr =
    LrWaiting | LrLoad | LrStore | LrTest | LrPriority | LrWaited
  | LrLock | LrLoad' | LrStore' | LrTest' | LrPriority' | LrCount | LrClose | LrEntered
  | LrLock' | LrCount' | LrOpen | LrLeft

datatype rl =
    RlPriority | RlPriority' | RlLock | RlCount | RlClose | RlEntered
  | RlLock' | RlCount' | RlOpen | RlLeft

datatype place =
    Check ci | Belt sc | Chan_LR lr | Chan_RL rl | Kiosk_lock | Kiosk_unlock | Board_lock | Board_unlock | Gone

record pax =
  pax_at :: place
  VIP :: bool
  kiosk :: nat
  belt_slot :: nat
  seen :: int

record airport =
  check_in_empty :: nat
  sec_check_empty :: nat
  belt_empty :: nat
  boarding_mutex :: bool
  check_in_count_mutex :: bool
  belts_count_mutex :: bool
  VIP_LR_mutex :: bool
  VIP_RL_mutex :: bool
  VIP_waiting_mutex :: bool
  VIP_priority_mutex :: bool
  special_kiosk_mutex :: bool
  check_in_count :: int
  belts_count :: int
  VIP_LR_count :: int
  VIP_RL_count :: int
  VIP_LR_waiting :: int
  kiosks :: "bool list"
  belts :: "bool list"
  nbelts :: nat
  passenger_per_belt :: nat
  people :: "pax list"

text \<open>A step goes on, waits, or leaves the meaning of the language (an index outside an array, a division by zero).\<close>

datatype 'a out = Goes 'a | Waits | Wrong

text \<open>\<open>sem_wait\<close> and \<open>pthread_mutex_lock\<close>: the new value, if the call returns.\<close>

definition sem_wait :: "nat \<Rightarrow> (nat \<Rightarrow> 'a) \<Rightarrow> 'a out" where
  "sem_wait v k = (if v = 0 then Waits else Goes (k (v - 1)))"

definition mutex_lock :: "bool \<Rightarrow> (bool \<Rightarrow> 'a) \<Rightarrow> 'a out" where
  "mutex_lock b k = (if b then Waits else Goes (k True))"

definition get_idx :: "bool list \<Rightarrow> bool \<Rightarrow> int" where
  "get_idx arr e = (case first_index (\<lambda>x. x = e) arr of None \<Rightarrow> -1 | Some i \<Rightarrow> int i)"

text \<open>\<open>arr[i] = b\<close>.\<close>

definition store_flag :: "int \<Rightarrow> bool \<Rightarrow> bool list \<Rightarrow> (bool list \<Rightarrow> 'a out) \<Rightarrow> 'a out" where
  "store_flag i b arr k = (if 0 \<le> i \<and> i < int (length arr) then k (arr[nat i := b]) else Wrong)"

subsection \<open>The functions of a passenger\<close>

text \<open>Each function is given the place it stands at; \<open>None\<close> as the next place is its return.\<close>

fun check_in :: "ci \<Rightarrow> pax \<Rightarrow> airport \<Rightarrow> (ci option \<times> pax \<times> airport) out" where
  "check_in CiWait p s = sem_wait (check_in_empty s) (\<lambda>v. (Some CiLock, p, s\<lparr>check_in_empty := v\<rparr>))"
| "check_in CiLock p s = mutex_lock (check_in_count_mutex s) (\<lambda>b. (Some CiTake, p, s\<lparr>check_in_count_mutex := b\<rparr>))"
| "check_in CiTake p s =
     (let s = s\<lparr>check_in_count := check_in_count s + 1\<rparr>;
          i = get_idx (kiosks s) False
      in store_flag i True (kiosks s) (\<lambda>ks. Goes (Some CiUnlock, p\<lparr>kiosk := nat i\<rparr>, s\<lparr>kiosks := ks\<rparr>)))"
| "check_in CiUnlock p s = Goes (Some CiLock', p, s\<lparr>check_in_count_mutex := False\<rparr>)"
| "check_in CiLock' p s = mutex_lock (check_in_count_mutex s) (\<lambda>b. (Some CiFree, p, s\<lparr>check_in_count_mutex := b\<rparr>))"
| "check_in CiFree p s =
     (let s = s\<lparr>check_in_count := check_in_count s - 1\<rparr>
      in store_flag (int (kiosk p)) False (kiosks s) (\<lambda>ks. Goes (Some CiUnlock', p, s\<lparr>kiosks := ks\<rparr>)))"
| "check_in CiUnlock' p s = Goes (Some CiPost, p, s\<lparr>check_in_count_mutex := False\<rparr>)"
| "check_in CiPost p s = Goes (None, p, s\<lparr>check_in_empty := check_in_empty s + 1\<rparr>)"

fun security_check :: "sc \<Rightarrow> pax \<Rightarrow> airport \<Rightarrow> (sc option \<times> pax \<times> airport) out" where
  "security_check ScWait p s = sem_wait (belt_empty s) (\<lambda>v. (Some ScLock, p, s\<lparr>belt_empty := v\<rparr>))"
| "security_check ScLock p s = mutex_lock (belts_count_mutex s) (\<lambda>b. (Some ScTake, p, s\<lparr>belts_count_mutex := b\<rparr>))"
| "security_check ScTake p s =
     (let s = s\<lparr>belts_count := belts_count s + 1\<rparr>;
          i = get_idx (belts s) False
      in store_flag i True (belts s) (\<lambda>bs.
           if passenger_per_belt s = 0 then Wrong
           else Goes (Some (if belts_count s mod int (passenger_per_belt s) = 0 then ScWaitBelt else ScUnlock),
             p\<lparr>belt_slot := nat i\<rparr>, s\<lparr>belts := bs\<rparr>)))"
| "security_check ScWaitBelt p s = sem_wait (sec_check_empty s) (\<lambda>v. (Some ScUnlock, p, s\<lparr>sec_check_empty := v\<rparr>))"
| "security_check ScUnlock p s = Goes (Some ScLock', p, s\<lparr>belts_count_mutex := False\<rparr>)"
| "security_check ScLock' p s = mutex_lock (belts_count_mutex s) (\<lambda>b. (Some ScFree, p, s\<lparr>belts_count_mutex := b\<rparr>))"
| "security_check ScFree p s =
     (let s = s\<lparr>belts_count := belts_count s - 1\<rparr>
      in store_flag (int (belt_slot p)) False (belts s) (\<lambda>bs.
           if passenger_per_belt s = 0 then Wrong
           else Goes (Some ScUnlock', p,
             (if (belts_count s + 1) mod int (passenger_per_belt s) = 0
              then s\<lparr>belts := bs, sec_check_empty := sec_check_empty s + 1\<rparr> else s\<lparr>belts := bs\<rparr>))))"
| "security_check ScUnlock' p s = Goes (Some ScPost, p, s\<lparr>belts_count_mutex := False\<rparr>)"
| "security_check ScPost p s = Goes (None, p, s\<lparr>belt_empty := belt_empty s + 1\<rparr>)"

fun VIP_channel_LR :: "lr \<Rightarrow> pax \<Rightarrow> airport \<Rightarrow> (lr option \<times> pax \<times> airport) out" where
  "VIP_channel_LR LrWaiting p s = mutex_lock (VIP_waiting_mutex s) (\<lambda>b. (Some LrLoad, p, s\<lparr>VIP_waiting_mutex := b\<rparr>))"
| "VIP_channel_LR LrLoad p s = Goes (Some LrStore, p\<lparr>seen := VIP_LR_waiting s\<rparr>, s)"
| "VIP_channel_LR LrStore p s = Goes (Some LrTest, p, s\<lparr>VIP_LR_waiting := seen p + 1\<rparr>)"
| "VIP_channel_LR LrTest p s = Goes (Some (if VIP_LR_waiting s = 1 then LrPriority else LrWaited), p, s)"
| "VIP_channel_LR LrPriority p s =
     mutex_lock (VIP_priority_mutex s) (\<lambda>b. (Some LrWaited, p, s\<lparr>VIP_priority_mutex := b\<rparr>))"
| "VIP_channel_LR LrWaited p s = Goes (Some LrLock, p, s\<lparr>VIP_waiting_mutex := False\<rparr>)"
| "VIP_channel_LR LrLock p s = mutex_lock (VIP_LR_mutex s) (\<lambda>b. (Some LrLoad', p, s\<lparr>VIP_LR_mutex := b\<rparr>))"
| "VIP_channel_LR LrLoad' p s = Goes (Some LrStore', p\<lparr>seen := VIP_LR_waiting s\<rparr>, s)"
| "VIP_channel_LR LrStore' p s = Goes (Some LrTest', p, s\<lparr>VIP_LR_waiting := seen p - 1\<rparr>)"
| "VIP_channel_LR LrTest' p s = Goes (Some (if VIP_LR_waiting s = 0 then LrPriority' else LrCount), p, s)"
| "VIP_channel_LR LrPriority' p s = Goes (Some LrCount, p, s\<lparr>VIP_priority_mutex := False\<rparr>)"
| "VIP_channel_LR LrCount p s =
     (let s = s\<lparr>VIP_LR_count := VIP_LR_count s + 1\<rparr>
      in Goes (Some (if VIP_LR_count s = 1 then LrClose else LrEntered), p, s))"
| "VIP_channel_LR LrClose p s = mutex_lock (VIP_RL_mutex s) (\<lambda>b. (Some LrEntered, p, s\<lparr>VIP_RL_mutex := b\<rparr>))"
| "VIP_channel_LR LrEntered p s = Goes (Some LrLock', p, s\<lparr>VIP_LR_mutex := False\<rparr>)"
| "VIP_channel_LR LrLock' p s = mutex_lock (VIP_LR_mutex s) (\<lambda>b. (Some LrCount', p, s\<lparr>VIP_LR_mutex := b\<rparr>))"
| "VIP_channel_LR LrCount' p s =
     (let s = s\<lparr>VIP_LR_count := VIP_LR_count s - 1\<rparr>
      in Goes (Some (if VIP_LR_count s = 0 then LrOpen else LrLeft), p, s))"
| "VIP_channel_LR LrOpen p s = Goes (Some LrLeft, p, s\<lparr>VIP_RL_mutex := False\<rparr>)"
| "VIP_channel_LR LrLeft p s = Goes (None, p, s\<lparr>VIP_LR_mutex := False\<rparr>)"

fun VIP_channel_RL :: "rl \<Rightarrow> pax \<Rightarrow> airport \<Rightarrow> (rl option \<times> pax \<times> airport) out" where
  "VIP_channel_RL RlPriority p s =
     mutex_lock (VIP_priority_mutex s) (\<lambda>b. (Some RlPriority', p, s\<lparr>VIP_priority_mutex := b\<rparr>))"
| "VIP_channel_RL RlPriority' p s = Goes (Some RlLock, p, s\<lparr>VIP_priority_mutex := False\<rparr>)"
| "VIP_channel_RL RlLock p s = mutex_lock (VIP_RL_mutex s) (\<lambda>b. (Some RlCount, p, s\<lparr>VIP_RL_mutex := b\<rparr>))"
| "VIP_channel_RL RlCount p s =
     (let s = s\<lparr>VIP_RL_count := VIP_RL_count s + 1\<rparr>
      in Goes (Some (if VIP_RL_count s = 1 then RlClose else RlEntered), p, s))"
| "VIP_channel_RL RlClose p s = mutex_lock (VIP_LR_mutex s) (\<lambda>b. (Some RlEntered, p, s\<lparr>VIP_LR_mutex := b\<rparr>))"
| "VIP_channel_RL RlEntered p s = Goes (Some RlLock', p, s\<lparr>VIP_RL_mutex := False\<rparr>)"
| "VIP_channel_RL RlLock' p s = mutex_lock (VIP_RL_mutex s) (\<lambda>b. (Some RlCount', p, s\<lparr>VIP_RL_mutex := b\<rparr>))"
| "VIP_channel_RL RlCount' p s =
     (let s = s\<lparr>VIP_RL_count := VIP_RL_count s - 1\<rparr>
      in Goes (Some (if VIP_RL_count s = 0 then RlOpen else RlLeft), p, s))"
| "VIP_channel_RL RlOpen p s = Goes (Some RlLeft, p, s\<lparr>VIP_LR_mutex := False\<rparr>)"
| "VIP_channel_RL RlLeft p s = Goes (None, p, s\<lparr>VIP_RL_mutex := False\<rparr>)"

text \<open>
  \<open>simulate\<close>. Where a function has returned the passenger goes on to the next one; \<open>lost\<close> is the outcome of the
  draw that decides whether the boarding pass is lost.
\<close>

definition after_draw :: "bool \<Rightarrow> place" where
  "after_draw lost = (if lost then Chan_RL RlPriority else Board_lock)"

definition resume :: "('a \<Rightarrow> place) \<Rightarrow> place \<Rightarrow> ('a option \<times> pax \<times> airport) out \<Rightarrow> (pax \<times> airport) out" where
  "resume con nxt r =
     (case r of
        Goes (Some c, p, s) \<Rightarrow> Goes (p\<lparr>pax_at := con c\<rparr>, s)
      | Goes (None, p, s) \<Rightarrow> Goes (p\<lparr>pax_at := nxt\<rparr>, s)
      | Waits \<Rightarrow> Waits
      | Wrong \<Rightarrow> Wrong)"

definition simulate :: "bool \<Rightarrow> pax \<Rightarrow> airport \<Rightarrow> (pax \<times> airport) out" where
  "simulate lost p s =
     (case pax_at p of
        Check c \<Rightarrow> resume Check (if VIP p then Chan_LR LrWaiting else Belt ScWait) (check_in c p s)
      | Belt c \<Rightarrow> resume Belt (after_draw lost) (security_check c p s)
      | Chan_LR c \<Rightarrow> resume Chan_LR (after_draw lost) (VIP_channel_LR c p s)
      | Chan_RL c \<Rightarrow> resume Chan_RL Kiosk_lock (VIP_channel_RL c p s)
      | Kiosk_lock \<Rightarrow> mutex_lock (special_kiosk_mutex s) (\<lambda>b. (p\<lparr>pax_at := Kiosk_unlock\<rparr>, s\<lparr>special_kiosk_mutex := b\<rparr>))
      | Kiosk_unlock \<Rightarrow> Goes (p\<lparr>pax_at := Chan_LR LrWaiting\<rparr>, s\<lparr>special_kiosk_mutex := False\<rparr>)
      | Board_lock \<Rightarrow> mutex_lock (boarding_mutex s) (\<lambda>b. (p\<lparr>pax_at := Board_unlock\<rparr>, s\<lparr>boarding_mutex := b\<rparr>))
      | Board_unlock \<Rightarrow> Goes (p\<lparr>pax_at := Gone\<rparr>, s\<lparr>boarding_mutex := False\<rparr>)
      | Gone \<Rightarrow> Waits)"

text \<open>A step of thread \<open>i\<close>, and the start: all kiosks and belts free, the passengers that are to come.\<close>

definition air_step :: "nat \<Rightarrow> bool \<Rightarrow> airport \<Rightarrow> airport out" where
  "air_step i lost s =
     (if length (people s) \<le> i then Waits
      else case simulate lost (people s ! i) s of
          Goes (p, s) \<Rightarrow> Goes (s\<lparr>people := (people s)[i := p]\<rparr>)
        | Waits \<Rightarrow> Waits
        | Wrong \<Rightarrow> Wrong)"

definition new_pax :: "bool \<Rightarrow> pax" where
  "new_pax vip = \<lparr>pax_at = Check CiWait, VIP = vip, kiosk = 0, belt_slot = 0, seen = 0\<rparr>"

definition airport_start :: "nat \<Rightarrow> nat \<Rightarrow> nat \<Rightarrow> bool list \<Rightarrow> airport" where
  "airport_start M N P vips =
     \<lparr>check_in_empty = M, sec_check_empty = N, belt_empty = N * P,
      boarding_mutex = False, check_in_count_mutex = False, belts_count_mutex = False, VIP_LR_mutex = False,
      VIP_RL_mutex = False, VIP_waiting_mutex = False, VIP_priority_mutex = False, special_kiosk_mutex = False,
      check_in_count = 0, belts_count = 0, VIP_LR_count = 0, VIP_RL_count = 0, VIP_LR_waiting = 0,
      kiosks = replicate M False, belts = replicate (N * P) False, nbelts = N, passenger_per_belt = P,
      people = map new_pax vips\<rparr>"

text \<open>A schedule names the thread of each step and its draw; a passenger that has not arrived has not stepped.\<close>

fun air_run :: "(nat \<times> bool) list \<Rightarrow> airport \<Rightarrow> airport out" where
  "air_run [] s = Goes s"
| "air_run ((i, lost) # is) s = (case air_step i lost s of Goes s \<Rightarrow> air_run is s | Waits \<Rightarrow> Waits | Wrong \<Rightarrow> Wrong)"

inductive air_reach :: "airport \<Rightarrow> airport \<Rightarrow> bool" for s0 where
  air_refl: "air_reach s0 s0"
| air_next: "air_reach s0 s \<Longrightarrow> air_step i lost s = Goes s' \<Longrightarrow> air_reach s0 s'"

subsection \<open>Steps and runs\<close>

text \<open>What a step is: thread \<open>i\<close> runs \<open>simulate\<close>.\<close>

lemma air_stepE:
  assumes "air_step i lost s = Goes s'"
  obtains p t where "i < length (people s)" "simulate lost (people s ! i) s = Goes (p, t)"
    "s' = t\<lparr>people := (people t)[i := p]\<rparr>"
  using assms by (auto simp: air_step_def split: if_splits out.splits prod.splits)

lemmas sim_simps = simulate_def resume_def sem_wait_def mutex_lock_def Let_def

lemma simulate_people: "simulate lost p s = Goes (p', t) \<Longrightarrow> people t = people s"
  by (auto simp: sim_simps store_flag_def split: place.splits out.splits option.splits prod.splits if_splits
      elim!: check_in.elims security_check.elims VIP_channel_LR.elims VIP_channel_RL.elims)

lemma air_run_reach: "air_reach s0 s \<Longrightarrow> air_run is s = Goes s' \<Longrightarrow> air_reach s0 s'"
proof (induction "is" arbitrary: s)
  case (Cons x "is")
  then show ?case by (cases x) (auto split: out.splits intro: air_next)
qed simp

subsection \<open>Counting threads\<close>

definition cnt :: "('a \<Rightarrow> bool) \<Rightarrow> 'a list \<Rightarrow> nat" where
  "cnt Q xs = length (filter Q xs)"

lemma cnt_update:
  "i < length xs \<Longrightarrow> cnt Q (xs[i := y]) + of_bool (Q (xs ! i)) = cnt Q xs + of_bool (Q y)"
proof (induction xs arbitrary: i)
  case (Cons x xs)
  then show ?case by (cases i) (force simp: cnt_def)+
qed simp

lemma int_cnt_update:
  "i < length xs \<Longrightarrow> int (cnt Q (xs[i := y])) = int (cnt Q xs) + of_bool (Q y) - of_bool (Q (xs ! i))"
  using cnt_update [of i xs Q y] by auto

lemma cnt_ge: "i < length xs \<Longrightarrow> Q (xs ! i) \<Longrightarrow> 0 < cnt Q xs"
  using nth_mem by (fastforce simp: cnt_def filter_empty_conv)

lemma cnt_two:
  assumes "i < j" and "j < length xs" and "Q (xs ! i)" and "Q (xs ! j)"
  shows "2 \<le> cnt Q xs"
proof -
  have "cnt Q xs = cnt Q (take j xs) + cnt Q (drop j xs)"
    by (metis append_take_drop_id cnt_def filter_append length_append)
  moreover have "0 < cnt Q (take j xs)" using cnt_ge [of i "take j xs" Q] assms by simp
  moreover have "0 < cnt Q (drop j xs)" using cnt_ge [of 0 "drop j xs" Q] assms by simp
  ultimately show ?thesis by linarith
qed

lemma cnt_mono: "(\<And>x. Q x \<Longrightarrow> R x) \<Longrightarrow> cnt Q xs \<le> cnt R xs"
  unfolding cnt_def by (induction xs) (auto simp: le_Suc_eq)

lemma cnt_map: "cnt Q (map f xs) = cnt (\<lambda>x. Q (f x)) xs"
  by (simp add: cnt_def filter_map o_def)

lemma map_update_same: "i < length xs \<Longrightarrow> f y = f (xs ! i) \<Longrightarrow> map f (xs[i := y]) = map f xs"
  by (metis list_update_id map_update)

lemma cnt_none: "(\<And>x. x \<in> set xs \<Longrightarrow> \<not> Q x) \<Longrightarrow> cnt Q xs = 0"
  by (auto simp: cnt_def filter_empty_conv)

end
