(* ===== verification/Stations.thy ===== *)
theory Stations
  imports Airport
begin

text \<open>
  The kiosks and the belts of the airport as two instances of one abstract station: places given out under a
  semaphore and a mutex. The invariant is proved of the abstract station; every step of the program is a step of
  each station or leaves it alone. For the belts, the second semaphore is accounted for besides.
\<close>

subsection \<open>A station: places given out under a semaphore and a mutex\<close>

text \<open>
  What the kiosks and the belts have in common. The role of a passenger at a station: outside, with a ticket of
  the semaphore, or holding a place; the flag says whether it has the mutex.
\<close>

datatype role = Outside | Ticket bool | Holding nat bool

record station =
  st_free :: nat
  st_mutex :: bool
  st_taken :: "bool list"
  st_roles :: "role list"

fun has_mutex :: "role \<Rightarrow> bool" where
  "has_mutex Outside = False"
| "has_mutex (Ticket b) = b"
| "has_mutex (Holding j b) = b"

fun holds :: "nat \<Rightarrow> role \<Rightarrow> bool" where
  "holds j (Holding i b) \<longleftrightarrow> i = j"
| "holds j r \<longleftrightarrow> False"

fun holding :: "role \<Rightarrow> bool" where
  "holding (Holding i b) = True"
| "holding r = False"

text \<open>The steps of a station, each of one passenger.\<close>

inductive st_step :: "station \<Rightarrow> station \<Rightarrow> bool" where
  st_enter: "0 < st_free s \<Longrightarrow> i < length (st_roles s) \<Longrightarrow> st_roles s ! i = Outside \<Longrightarrow>
    st_step s (s\<lparr>st_free := st_free s - 1, st_roles := (st_roles s)[i := Ticket False]\<rparr>)"
| st_lock: "\<not> st_mutex s \<Longrightarrow> i < length (st_roles s) \<Longrightarrow> st_roles s ! i = Ticket False \<Longrightarrow>
    st_step s (s\<lparr>st_mutex := True, st_roles := (st_roles s)[i := Ticket True]\<rparr>)"
| st_take: "i < length (st_roles s) \<Longrightarrow> st_roles s ! i = Ticket True \<Longrightarrow>
    j < length (st_taken s) \<Longrightarrow> \<not> st_taken s ! j \<Longrightarrow>
    st_step s (s\<lparr>st_taken := (st_taken s)[j := True], st_roles := (st_roles s)[i := Holding j True]\<rparr>)"
| st_unlock: "i < length (st_roles s) \<Longrightarrow> st_roles s ! i = Holding j True \<Longrightarrow>
    st_step s (s\<lparr>st_mutex := False, st_roles := (st_roles s)[i := Holding j False]\<rparr>)"
| st_relock: "\<not> st_mutex s \<Longrightarrow> i < length (st_roles s) \<Longrightarrow> st_roles s ! i = Holding j False \<Longrightarrow>
    st_step s (s\<lparr>st_mutex := True, st_roles := (st_roles s)[i := Holding j True]\<rparr>)"
| st_give: "i < length (st_roles s) \<Longrightarrow> st_roles s ! i = Holding j True \<Longrightarrow>
    st_step s (s\<lparr>st_taken := (st_taken s)[j := False], st_roles := (st_roles s)[i := Ticket True]\<rparr>)"
| st_done: "i < length (st_roles s) \<Longrightarrow> st_roles s ! i = Ticket True \<Longrightarrow>
    st_step s (s\<lparr>st_mutex := False, st_roles := (st_roles s)[i := Ticket False]\<rparr>)"
| st_leave: "i < length (st_roles s) \<Longrightarrow> st_roles s ! i = Ticket False \<Longrightarrow>
    st_step s (s\<lparr>st_free := st_free s + 1, st_roles := (st_roles s)[i := Outside]\<rparr>)"

text \<open>The clauses of the invariant.\<close>

definition st_mutual :: "station \<Rightarrow> bool" where
  "st_mutual s \<longleftrightarrow> of_bool (st_mutex s) = cnt has_mutex (st_roles s)"

definition st_tickets :: "station \<Rightarrow> bool" where
  "st_tickets s \<longleftrightarrow> st_free s + cnt (\<lambda>r. r \<noteq> Outside) (st_roles s) = length (st_taken s)"

definition st_places :: "station \<Rightarrow> bool" where
  "st_places s \<longleftrightarrow> (\<forall>j. cnt (holds j) (st_roles s) = of_bool (j < length (st_taken s) \<and> st_taken s ! j))"

definition st_full :: "station \<Rightarrow> bool" where
  "st_full s \<longleftrightarrow> cnt id (st_taken s) = cnt holding (st_roles s)"

lemmas st_defs = st_mutual_def st_tickets_def st_places_def st_full_def

definition station_ok :: "station \<Rightarrow> bool" where
  "station_ok s \<longleftrightarrow> st_mutual s \<and> st_tickets s \<and> st_places s \<and> st_full s"

lemma holds_in:
  assumes "st_places s" and "i < length (st_roles s)" and "st_roles s ! i = Holding j b"
  shows "j < length (st_taken s)" "st_taken s ! j"
proof -
  have "0 < cnt (holds j) (st_roles s)" using cnt_ge [OF assms(2), of "holds j"] assms(3) by simp
  then show "j < length (st_taken s)" "st_taken s ! j" using assms(1) by (auto simp: st_places_def split: if_splits)
qed

lemma st_step_ok:
  assumes "st_step s s'" and "station_ok s"
  shows "station_ok s'"
  using assms
proof (cases rule: st_step.cases)
  case (st_enter i)
  note u = cnt_update [OF st_enter(3), of _ "Ticket False"]
  show ?thesis
    using assms(2) st_enter u [of has_mutex] u [of "\<lambda>r. r \<noteq> Outside"] u [of "holds _"] u [of holding]
    by (auto simp: station_ok_def st_defs)
next
  case (st_lock i)
  note u = cnt_update [OF st_lock(3), of _ "Ticket True"]
  show ?thesis
    using assms(2) st_lock u [of has_mutex] u [of "\<lambda>r. r \<noteq> Outside"] u [of "holds _"] u [of holding]
    by (auto simp: station_ok_def st_defs)
next
  case (st_take i j)
  note u = cnt_update [OF st_take(2), of _ "Holding j True"]
  have p: "cnt (holds k) ((st_roles s)[i := Holding j True]) =
      of_bool (k < length (st_taken s) \<and> (st_taken s)[j := True] ! k)" for k
    using assms(2) st_take u [of "holds k"] by (cases "k = j") (auto simp: station_ok_def st_places_def)
  show ?thesis
    using assms(2) st_take u [of has_mutex] u [of "\<lambda>r. r \<noteq> Outside"] u [of holding] p
      cnt_update [OF st_take(4), of id True]
    by (simp add: station_ok_def st_defs)
next
  case (st_unlock i j)
  note u = cnt_update [OF st_unlock(2), of _ "Holding j False"]
  show ?thesis
    using assms(2) st_unlock u [of has_mutex] u [of "\<lambda>r. r \<noteq> Outside"] u [of "holds _"] u [of holding]
      cnt_ge [OF st_unlock(2), of has_mutex]
    by (cases "st_mutex s") (auto simp: station_ok_def st_defs)
next
  case (st_relock i j)
  note u = cnt_update [OF st_relock(3), of _ "Holding j True"]
  show ?thesis
    using assms(2) st_relock u [of has_mutex] u [of "\<lambda>r. r \<noteq> Outside"] u [of "holds _"] u [of holding]
    by (auto simp: station_ok_def st_defs)
next
  case (st_give i j)
  note u = cnt_update [OF st_give(2), of _ "Ticket True"]
  note j = holds_in [OF _ st_give(2,3)]
  have p: "cnt (holds k) ((st_roles s)[i := Ticket True]) =
      of_bool (k < length (st_taken s) \<and> (st_taken s)[j := False] ! k)" for k
    using assms(2) st_give u [of "holds k"] j by (cases "k = j") (auto simp: station_ok_def st_places_def)
  show ?thesis
    using assms(2) st_give u [of has_mutex] u [of "\<lambda>r. r \<noteq> Outside"] u [of holding] p j
      cnt_update [of j "st_taken s" id False]
    by (simp add: station_ok_def st_defs)
next
  case (st_done i)
  note u = cnt_update [OF st_done(2), of _ "Ticket False"]
  show ?thesis
    using assms(2) st_done u [of has_mutex] u [of "\<lambda>r. r \<noteq> Outside"] u [of "holds _"] u [of holding]
      cnt_ge [OF st_done(2), of has_mutex]
    by (cases "st_mutex s") (auto simp: station_ok_def st_defs)
next
  case (st_leave i)
  note u = cnt_update [OF st_leave(2), of _ Outside]
  show ?thesis
    using assms(2) st_leave u [of has_mutex] u [of "\<lambda>r. r \<noteq> Outside"] u [of "holds _"] u [of holding]
    by (auto simp: station_ok_def st_defs)
qed

text \<open>A passenger that is about to take a place finds one free.\<close>

lemma station_has_place:
  assumes "station_ok s" and "i < length (st_roles s)" and "st_roles s ! i = Ticket True"
  shows "\<exists>j. j < length (st_taken s) \<and> \<not> st_taken s ! j"
proof (rule ccontr)
  assume "\<not> ?thesis"
  then have "\<forall>x\<in>set (st_taken s). id x" by (auto simp: in_set_conv_nth)
  then have "cnt id (st_taken s) = length (st_taken s)" by (simp add: cnt_def)
  then have f: "cnt holding (st_roles s) = length (st_taken s)" using assms(1) by (simp add: station_ok_def st_full_def)
  have "cnt holding ((st_roles s)[i := Outside]) \<le> cnt (\<lambda>r. r \<noteq> Outside) ((st_roles s)[i := Outside])"
    by (rule cnt_mono) (auto elim: holding.elims)
  then have "cnt holding (st_roles s) < cnt (\<lambda>r. r \<noteq> Outside) (st_roles s)"
    using cnt_update [OF assms(2), of holding Outside] cnt_update [OF assms(2), of "\<lambda>r. r \<noteq> Outside" Outside] assms(3) by simp
  then show False using f assms(1) by (simp add: station_ok_def st_tickets_def)
qed

text \<open>Two passengers never hold the same place.\<close>

lemma station_exclusive:
  assumes "station_ok s" and "i < j" and "j < length (st_roles s)" and "holds k (st_roles s ! i)"
  shows "\<not> holds k (st_roles s ! j)"
  using cnt_two [of i j "st_roles s" "holds k"] assms
  by (auto simp: station_ok_def st_places_def of_bool_def split: if_splits)

subsection \<open>The kiosks and the belts are stations\<close>

definition ci_role :: "pax \<Rightarrow> role" where
  "ci_role p =
     (case pax_at p of
        Check CiLock \<Rightarrow> Ticket False
      | Check CiTake \<Rightarrow> Ticket True
      | Check CiUnlock \<Rightarrow> Holding (kiosk p) True
      | Check CiLock' \<Rightarrow> Holding (kiosk p) False
      | Check CiFree \<Rightarrow> Holding (kiosk p) True
      | Check CiUnlock' \<Rightarrow> Ticket True
      | Check CiPost \<Rightarrow> Ticket False
      | _ \<Rightarrow> Outside)"

definition sc_role :: "pax \<Rightarrow> role" where
  "sc_role p =
     (case pax_at p of
        Belt ScLock \<Rightarrow> Ticket False
      | Belt ScTake \<Rightarrow> Ticket True
      | Belt ScWaitBelt \<Rightarrow> Holding (belt_slot p) True
      | Belt ScUnlock \<Rightarrow> Holding (belt_slot p) True
      | Belt ScLock' \<Rightarrow> Holding (belt_slot p) False
      | Belt ScFree \<Rightarrow> Holding (belt_slot p) True
      | Belt ScUnlock' \<Rightarrow> Ticket True
      | Belt ScPost \<Rightarrow> Ticket False
      | _ \<Rightarrow> Outside)"

definition kiosk_station :: "airport \<Rightarrow> station" where
  "kiosk_station s =
     \<lparr>st_free = check_in_empty s, st_mutex = check_in_count_mutex s, st_taken = kiosks s,
      st_roles = map ci_role (people s)\<rparr>"

definition belt_station :: "airport \<Rightarrow> station" where
  "belt_station s =
     \<lparr>st_free = belt_empty s, st_mutex = belts_count_mutex s, st_taken = belts s,
      st_roles = map sc_role (people s)\<rparr>"

lemma get_idx_store:
  assumes "store_flag (get_idx arr False) b arr k = Goes r"
  obtains j where "get_idx arr False = int j" "j < length arr" "\<not> arr ! j" "k (arr[j := b]) = Goes r"
  using assms by (auto simp: store_flag_def get_idx_def split: if_splits option.splits)

text \<open>Outside a section the fields of its station stay, and the passenger stays outside or enters.\<close>

lemma check_frame:
  assumes "simulate lost p s = Goes (p', t)" and "\<nexists>c. pax_at p = Check c"
  shows "ci_role p' = Outside \<and> ci_role p = Outside \<and> check_in_empty t = check_in_empty s \<and>
    check_in_count_mutex t = check_in_count_mutex s \<and> kiosks t = kiosks s"
  using assms
  by (cases "pax_at p")
     (auto simp: sim_simps store_flag_def ci_role_def after_draw_def split: out.splits option.splits prod.splits if_splits
      elim!: security_check.elims VIP_channel_LR.elims VIP_channel_RL.elims)

lemma belt_frame:
  assumes "simulate lost p s = Goes (p', t)" and "\<nexists>c. pax_at p = Belt c"
  shows "sc_role p' = Outside \<and> sc_role p = Outside \<and> belt_empty t = belt_empty s \<and>
    belts_count_mutex t = belts_count_mutex s \<and> belts t = belts s \<and> belts_count t = belts_count s \<and>
    sec_check_empty t = sec_check_empty s \<and> pax_at p' \<noteq> Belt ScWaitBelt"
  using assms
  by (cases "pax_at p")
     (auto simp: sim_simps store_flag_def sc_role_def after_draw_def split: out.splits option.splits prod.splits if_splits
      elim!: check_in.elims VIP_channel_LR.elims VIP_channel_RL.elims)

lemma kiosk_sim:
  assumes "air_step i lost s = Goes s'"
  shows "kiosk_station s' = kiosk_station s \<or> st_step (kiosk_station s) (kiosk_station s')"
proof -
  from assms obtain p t where i: "i < length (people s)" and t: "simulate lost (people s ! i) s = Goes (p, t)"
    and s': "s' = t\<lparr>people := (people t)[i := p]\<rparr>" by (rule air_stepE)
  note pt = simulate_people [OF t]
  have r: "i < length (st_roles (kiosk_station s))" "st_roles (kiosk_station s) ! i = ci_role (people s ! i)"
    using i by (simp_all add: kiosk_station_def)
  show ?thesis
  proof (cases "\<exists>c. pax_at (people s ! i) = Check c")
    case False
    then show ?thesis
      using check_frame [OF t False] s' i pt by (simp add: kiosk_station_def map_update_same)
  next
    case True
    then obtain c where c: "pax_at (people s ! i) = Check c" by blast
    have upd: "map ci_role ((people t)[i := p]) = (map ci_role (people s))[i := ci_role p]" using pt by (simp add: map_update)
    show ?thesis
    proof (cases c)
      case CiTake
      then obtain j where "j < length (kiosks s)" "\<not> kiosks s ! j" "t = s\<lparr>check_in_count := check_in_count s + 1, kiosks := (kiosks s)[j := True]\<rparr>"
        "p = (people s ! i)\<lparr>kiosk := j, pax_at := Check CiUnlock\<rparr>"
        using t c by (auto simp: sim_simps split: out.splits elim!: get_idx_store)
      then show ?thesis
        using st_take [of i "kiosk_station s" j] r c CiTake upd s' by (simp add: kiosk_station_def ci_role_def)
    next
      case CiWait
      then show ?thesis using t c r upd s' st_enter [of "kiosk_station s" i]
        by (auto simp: sim_simps store_flag_def kiosk_station_def ci_role_def after_draw_def split: out.splits if_splits)
    next
      case CiLock
      then show ?thesis using t c r upd s' st_lock [of "kiosk_station s" i]
        by (auto simp: sim_simps store_flag_def kiosk_station_def ci_role_def after_draw_def split: out.splits if_splits)
    next
      case CiUnlock
      then show ?thesis using t c r upd s' st_unlock [of i "kiosk_station s"]
        by (auto simp: sim_simps store_flag_def kiosk_station_def ci_role_def after_draw_def split: out.splits if_splits)
    next
      case CiLock'
      then show ?thesis using t c r upd s' st_relock [of "kiosk_station s" i]
        by (auto simp: sim_simps store_flag_def kiosk_station_def ci_role_def after_draw_def split: out.splits if_splits)
    next
      case CiFree
      then show ?thesis using t c r upd s' st_give [of i "kiosk_station s"]
        by (auto simp: sim_simps store_flag_def kiosk_station_def ci_role_def after_draw_def split: out.splits if_splits)
    next
      case CiUnlock'
      then show ?thesis using t c r upd s' st_done [of i "kiosk_station s"]
        by (auto simp: sim_simps store_flag_def kiosk_station_def ci_role_def after_draw_def split: out.splits if_splits)
    next
      case CiPost
      then show ?thesis using t c r upd s' st_leave [of i "kiosk_station s"]
        by (auto simp: sim_simps store_flag_def kiosk_station_def ci_role_def after_draw_def split: out.splits if_splits)
    qed
  qed
qed

lemma belt_sim:
  assumes "air_step i lost s = Goes s'"
  shows "belt_station s' = belt_station s \<or> st_step (belt_station s) (belt_station s')"
proof -
  from assms obtain p t where i: "i < length (people s)" and t: "simulate lost (people s ! i) s = Goes (p, t)"
    and s': "s' = t\<lparr>people := (people t)[i := p]\<rparr>" by (rule air_stepE)
  note pt = simulate_people [OF t]
  have r: "i < length (st_roles (belt_station s))" "st_roles (belt_station s) ! i = sc_role (people s ! i)"
    using i by (simp_all add: belt_station_def)
  have same: "sc_role p = sc_role (people s ! i) \<Longrightarrow> map sc_role ((people t)[i := p]) = map sc_role (people s)"
    using pt i by (simp add: map_update_same)
  show ?thesis
  proof (cases "\<exists>c. pax_at (people s ! i) = Belt c")
    case False
    then show ?thesis
      using belt_frame [OF t False] s' i pt by (simp add: belt_station_def map_update_same)
  next
    case True
    then obtain c where c: "pax_at (people s ! i) = Belt c" by blast
    have upd: "map sc_role ((people t)[i := p]) = (map sc_role (people s))[i := sc_role p]" using pt by (simp add: map_update)
    show ?thesis
    proof (cases c)
      case ScTake
      then obtain j where "j < length (belts s)" "\<not> belts s ! j" "belts t = (belts s)[j := True]"
        "belt_empty t = belt_empty s" "belts_count_mutex t = belts_count_mutex s" "sc_role p = Holding j True"
        using t c by (auto simp: sim_simps sc_role_def split: out.splits if_splits elim!: get_idx_store)
      then show ?thesis
        using st_take [of i "belt_station s" j] r c ScTake upd s' by (simp add: belt_station_def sc_role_def)
    next
      case ScWaitBelt
      then have "sc_role p = sc_role (people s ! i)" "belt_empty t = belt_empty s"
        "belts_count_mutex t = belts_count_mutex s" "belts t = belts s"
        using t c by (auto simp: sim_simps sc_role_def split: out.splits if_splits)
      then show ?thesis using same s' by (simp add: belt_station_def)
    next
      case ScWait
      then show ?thesis using t c r upd s' st_enter [of "belt_station s" i]
        by (auto simp: sim_simps store_flag_def belt_station_def sc_role_def after_draw_def split: out.splits if_splits)
    next
      case ScLock
      then show ?thesis using t c r upd s' st_lock [of "belt_station s" i]
        by (auto simp: sim_simps store_flag_def belt_station_def sc_role_def after_draw_def split: out.splits if_splits)
    next
      case ScUnlock
      then show ?thesis using t c r upd s' st_unlock [of i "belt_station s"]
        by (auto simp: sim_simps store_flag_def belt_station_def sc_role_def after_draw_def split: out.splits if_splits)
    next
      case ScLock'
      then show ?thesis using t c r upd s' st_relock [of "belt_station s" i]
        by (auto simp: sim_simps store_flag_def belt_station_def sc_role_def after_draw_def split: out.splits if_splits)
    next
      case ScFree
      then show ?thesis using t c r upd s' st_give [of i "belt_station s"]
        by (auto simp: sim_simps store_flag_def belt_station_def sc_role_def after_draw_def split: out.splits if_splits)
    next
      case ScUnlock'
      then show ?thesis using t c r upd s' st_done [of i "belt_station s"]
        by (auto simp: sim_simps store_flag_def belt_station_def sc_role_def after_draw_def split: out.splits if_splits)
    next
      case ScPost
      then show ?thesis using t c r upd s' st_leave [of i "belt_station s"]
        by (auto simp: sim_simps store_flag_def belt_station_def sc_role_def after_draw_def split: out.splits if_splits)
    qed
  qed
qed

subsection \<open>The semaphore of the belts\<close>

text \<open>The count of occupied slots, and what the semaphore \<open>sec_check_empty\<close> is taken down by.\<close>

definition at_belt_wait :: "pax \<Rightarrow> bool" where
  "at_belt_wait p \<longleftrightarrow> pax_at p = Belt ScWaitBelt"

definition belts_ok :: "airport \<Rightarrow> bool" where
  "belts_ok s \<longleftrightarrow>
     length (belts s) = nbelts s * passenger_per_belt s \<and>
     (0 < passenger_per_belt s \<longrightarrow>
       belts_count s = int (cnt holding (st_roles (belt_station s))) \<and>
       int (sec_check_empty s) + belts_count s div int (passenger_per_belt s) =
       int (nbelts s) + int (cnt at_belt_wait (people s)))"

lemma div_step:
  assumes "0 < (b :: int)"
  shows "(a + 1) div b = a div b + of_bool ((a + 1) mod b = 0)"
proof (cases "(a + 1) mod b = 0")
  case True
  then obtain q where "a + 1 = b * q" by (meson mod_0_imp_dvd dvdE)
  then have "a = b * (q - 1) + (b - 1)" by (simp add: algebra_simps)
  from int_div_pos_eq [OF this] have "a div b = q - 1" using assms by simp
  moreover have "(a + 1) div b = q" using \<open>a + 1 = b * q\<close> assms by simp
  ultimately show ?thesis using True by simp
next
  case False
  have a: "a = b * ((a + 1) div b) + ((a + 1) mod b - 1)" using mult_div_mod_eq [of b "a + 1"] by linarith
  have "1 \<le> (a + 1) mod b" "(a + 1) mod b < b" using False assms pos_mod_bound [of b "a + 1"] pos_mod_sign [of b "a + 1"]
    by linarith+
  then have "a div b = (a + 1) div b" using int_div_pos_eq [OF a] by simp
  then show ?thesis using False by simp
qed

lemma simulate_sizes:
  "simulate lost p s = Goes (p', t) \<Longrightarrow> nbelts t = nbelts s \<and> passenger_per_belt t = passenger_per_belt s \<and>
    length (belts t) = length (belts s)"
  by (auto simp: sim_simps store_flag_def split: place.splits out.splits option.splits prod.splits if_splits
      elim!: check_in.elims security_check.elims VIP_channel_LR.elims VIP_channel_RL.elims)

text \<open>What a step at the belts does to the two counts.\<close>

lemma belts_step:
  assumes "simulate lost p s = Goes (p', t)" and "0 < passenger_per_belt s"
  shows "belts_count t + of_bool (holding (sc_role p)) = belts_count s + of_bool (holding (sc_role p')) \<and>
    int (sec_check_empty t) + belts_count t div int (passenger_per_belt s) + of_bool (at_belt_wait p) =
    int (sec_check_empty s) + belts_count s div int (passenger_per_belt s) + of_bool (at_belt_wait p')"
proof (cases "\<exists>c. pax_at p = Belt c")
  case False
  then show ?thesis using belt_frame [OF assms(1) False] by (auto simp: at_belt_wait_def)
next
  case True
  then obtain c where c: "pax_at p = Belt c" by blast
  let ?P = "int (passenger_per_belt s)"
  have up: "(belts_count s + 1) div ?P = belts_count s div ?P + of_bool ((belts_count s + 1) mod ?P = 0)"
    and down: "belts_count s div ?P = (belts_count s - 1) div ?P + of_bool (belts_count s mod ?P = 0)"
    using div_step [of ?P "belts_count s"] div_step [of ?P "belts_count s - 1"] assms(2) by simp_all
  show ?thesis
    by (cases c)
       (use assms c up down in \<open>auto simp: sim_simps store_flag_def sc_role_def at_belt_wait_def after_draw_def
          split: out.splits option.splits prod.splits if_splits\<close>)
qed

lemma belts_ok_step:
  assumes "air_step i lost s = Goes s'" and "belts_ok s"
  shows "belts_ok s'"
proof -
  from assms(1) obtain p t where i: "i < length (people s)" and t: "simulate lost (people s ! i) s = Goes (p, t)"
    and s': "s' = t\<lparr>people := (people t)[i := p]\<rparr>" by (rule air_stepE)
  note f = simulate_sizes [OF t] simulate_people [OF t]
  note u = int_cnt_update [OF i, of "\<lambda>p. holding (sc_role p)" p] int_cnt_update [OF i, of at_belt_wait p]
  show ?thesis
    using assms(2) belts_step [OF t] f u s'
    by (cases "passenger_per_belt s = 0") (auto simp: belts_ok_def belt_station_def cnt_map)
qed

subsection \<open>The stations of the airport\<close>

definition stations_ok :: "airport \<Rightarrow> bool" where
  "stations_ok s \<longleftrightarrow> station_ok (kiosk_station s) \<and> station_ok (belt_station s) \<and> belts_ok s"

lemma stations_start: "stations_ok (airport_start M N P vips)"
proof -
  have "ci_role (new_pax v) = Outside \<and> sc_role (new_pax v) = Outside" for v
    by (simp add: ci_role_def sc_role_def new_pax_def)
  then have r: "map ci_role (map new_pax vips) = replicate (length vips) Outside"
    "map sc_role (map new_pax vips) = replicate (length vips) Outside"
    by (induction vips) simp_all
  have z: "cnt Q (replicate n x) = 0" if "\<not> Q x" for Q n and x :: 'a
    using that by (intro cnt_none) (simp split: if_splits)
  have "cnt at_belt_wait (map new_pax vips) = 0"
    by (rule cnt_none) (auto simp: at_belt_wait_def new_pax_def)
  then show ?thesis
    using r z
    by (simp add: stations_ok_def station_ok_def st_defs kiosk_station_def belt_station_def belts_ok_def airport_start_def cnt_def)
qed

lemma stations_step: "air_step i lost s = Goes s' \<Longrightarrow> stations_ok s \<Longrightarrow> stations_ok s'"
  using kiosk_sim [of i lost s s'] belt_sim [of i lost s s'] belts_ok_step [of i lost s s'] st_step_ok
  by (auto simp: stations_ok_def)

lemma stations_reach: "air_reach (airport_start M N P vips) s \<Longrightarrow> stations_ok s"
  by (induction rule: air_reach.induct) (auto intro: stations_start stations_step)

lemma get_idx_free:
  assumes "j < length arr" and "\<not> arr ! j"
  shows "0 \<le> get_idx arr False \<and> get_idx arr False < int (length arr)"
  using first_index_ex [of "arr ! j" arr "\<lambda>x. x = False"] nth_mem [OF assms(1)] assms
  by (auto simp: get_idx_def split: option.splits)

text \<open>No access outside an array and no division by zero.\<close>

lemma stations_not_wrong:
  assumes "stations_ok s"
  shows "air_step i lost s \<noteq> Wrong"
proof (cases "i < length (people s)")
  case True
  let ?p = "people s ! i"
  have k: "station_ok (kiosk_station s)" and b: "station_ok (belt_station s)" and bs: "belts_ok s"
    using assms by (simp_all add: stations_ok_def)
  have r: "i < length (st_roles (kiosk_station s))" "st_roles (kiosk_station s) ! i = ci_role ?p"
    "i < length (st_roles (belt_station s))" "st_roles (belt_station s) ! i = sc_role ?p"
    using True by (simp_all add: kiosk_station_def belt_station_def)
  have take: "0 \<le> get_idx (kiosks s) False \<and> get_idx (kiosks s) False < int (length (kiosks s))" if "ci_role ?p = Ticket True"
    using station_has_place [OF k r(1)] r(2) that get_idx_free by (auto simp: kiosk_station_def)
  have take': "0 \<le> get_idx (belts s) False \<and> get_idx (belts s) False < int (length (belts s))" if "sc_role ?p = Ticket True"
    using station_has_place [OF b r(3)] r(4) that get_idx_free by (auto simp: belt_station_def)
  have give: "kiosk ?p < length (kiosks s)" if "ci_role ?p = Holding (kiosk ?p) True"
    using holds_in(1) [of "kiosk_station s" i "kiosk ?p" True] k r that by (simp add: station_ok_def kiosk_station_def)
  have give': "belt_slot ?p < length (belts s)" if "sc_role ?p = Holding (belt_slot ?p) True"
    using holds_in(1) [of "belt_station s" i "belt_slot ?p" True] b r that by (simp add: station_ok_def belt_station_def)
  have P: "passenger_per_belt s \<noteq> 0" if "j < length (belts s)" for j using bs that by (cases "passenger_per_belt s") (auto simp: belts_ok_def)
  have "simulate lost ?p s \<noteq> Wrong"
  proof (cases "pax_at ?p")
    case (Check c)
    then show ?thesis using take give
      by (cases c) (auto simp: sim_simps store_flag_def ci_role_def split: out.splits option.splits if_splits)
  next
    case (Belt c)
    then show ?thesis using take' give' P
      by (cases c) (force simp: sim_simps store_flag_def sc_role_def split: out.splits option.splits if_splits)+
  next
    case (Chan_LR c)
    then show ?thesis by (cases c) (auto simp: sim_simps split: out.splits option.splits)
  next
    case (Chan_RL c)
    then show ?thesis by (cases c) (auto simp: sim_simps split: out.splits option.splits)
  qed (auto simp: sim_simps)
  then show ?thesis by (auto simp: air_step_def split: out.splits prod.splits)
qed (simp add: air_step_def)

lemma belts_never_wait:
  assumes "stations_ok s" and "p \<in> set (people s)" and "at_belt_wait p"
  shows "0 < sec_check_empty s"
proof -
  have b: "station_ok (belt_station s)" and bs: "belts_ok s" using assms by (simp_all add: stations_ok_def)
  have w: "0 < cnt at_belt_wait (people s)" using assms(2,3) by (auto simp: cnt_def filter_empty_conv)
  obtain i where i: "i < length (people s)" "people s ! i = p" using assms(2) by (auto simp: in_set_conv_nth)
  have "belt_slot p < length (belts s)"
    using holds_in(1) [of "belt_station s" i "belt_slot p" True] b i assms(3)
    by (simp add: station_ok_def belt_station_def sc_role_def at_belt_wait_def)
  then have P: "0 < passenger_per_belt s" using bs by (cases "passenger_per_belt s") (auto simp: belts_ok_def)
  have "cnt holding (st_roles (belt_station s)) \<le> cnt (\<lambda>r. r \<noteq> Outside) (st_roles (belt_station s))"
    by (rule cnt_mono) (auto elim: holding.elims)
  also have "\<dots> \<le> length (belts s)" using b by (simp add: station_ok_def st_tickets_def belt_station_def)
  finally have "belts_count s \<le> int (nbelts s) * int (passenger_per_belt s)"
    using bs P by (simp add: belts_ok_def flip: of_nat_mult)
  then have "belts_count s div int (passenger_per_belt s) \<le> int (nbelts s)"
    using zdiv_mono1 [of "belts_count s" "int (nbelts s) * int (passenger_per_belt s)" "int (passenger_per_belt s)"] P by simp
  moreover have "int (sec_check_empty s) + belts_count s div int (passenger_per_belt s) =
      int (nbelts s) + int (cnt at_belt_wait (people s))" using bs P unfolding belts_ok_def by blast
  ultimately show ?thesis using w by linarith
qed

text \<open>
  C22. The stations of the airport. In every interleaving of any number of passengers and for any numbers of
  kiosks, belts and places on a belt, no step leaves an array or divides by zero (the search for a free place
  never comes back with -1), no two passengers hold the same kiosk or the same place on a belt, and the wait for
  the second semaphore of the belts, which is made with the mutex held, never waits.
\<close>

theorem airport_stations:
  assumes "air_reach (airport_start M N P vips) s"
  shows "air_step i lost s \<noteq> Wrong \<and>
    \<not> (\<exists>j k h. j < k \<and> k < length (people s) \<and> holds h (ci_role (people s ! j)) \<and> holds h (ci_role (people s ! k))) \<and>
    \<not> (\<exists>j k h. j < k \<and> k < length (people s) \<and> holds h (sc_role (people s ! j)) \<and> holds h (sc_role (people s ! k))) \<and>
    \<not> (\<exists>p\<in>set (people s). at_belt_wait p \<and> sec_check_empty s = 0)"
proof -
  note ok = stations_reach [OF assms]
  have k: "station_ok (kiosk_station s)" and b: "station_ok (belt_station s)" using ok by (simp_all add: stations_ok_def)
  have "\<not> (\<exists>j k h. j < k \<and> k < length (people s) \<and> holds h (ci_role (people s ! j)) \<and> holds h (ci_role (people s ! k)))"
    using station_exclusive [OF k] by (auto simp: kiosk_station_def)
  moreover have "\<not> (\<exists>j k h. j < k \<and> k < length (people s) \<and> holds h (sc_role (people s ! j)) \<and> holds h (sc_role (people s ! k)))"
    using station_exclusive [OF b] by (auto simp: belt_station_def)
  ultimately show ?thesis using stations_not_wrong [OF ok] belts_never_wait [OF ok] by fastforce
qed

text \<open>Two passengers at the security check of one belt with two places; the second fills the belt.\<close>

definition to_belts :: "nat \<Rightarrow> (nat \<times> bool) list" where
  "to_belts i = replicate 11 (i, False)"

lemma airport_stations_witness:
  "\<exists>s. air_run (to_belts 0 @ [(0, False)] @ to_belts 1) (airport_start 2 1 2 [False, False]) = Goes s \<and>
    map pax_at (people s) = [Belt ScLock', Belt ScWaitBelt] \<and> belts s = [True, True] \<and>
    air_step 1 False s \<noteq> Wrong \<and> \<not> (\<exists>p\<in>set (people s). at_belt_wait p \<and> sec_check_empty s = 0)"
proof -
  define r where "r = air_run (to_belts 0 @ [(0, False)] @ to_belts 1) (airport_start 2 1 2 [False, False])"
  have "case r of Goes s \<Rightarrow> map pax_at (people s) = [Belt ScLock', Belt ScWaitBelt] \<and> belts s = [True, True] | _ \<Rightarrow> False"
    unfolding r_def by code_simp
  then obtain s where s: "r = Goes s" "map pax_at (people s) = [Belt ScLock', Belt ScWaitBelt]" "belts s = [True, True]"
    by (auto split: out.splits)
  note reach = air_run_reach [OF air_refl s(1) [unfolded r_def]]
  from airport_stations [OF reach, of 1 False] have "air_step 1 False s \<noteq> Wrong"
    "\<not> (\<exists>p\<in>set (people s). at_belt_wait p \<and> sec_check_empty s = 0)" by blast+
  with s show ?thesis unfolding r_def [symmetric] by - (rule exI [of _ s], intro conjI, assumption+)
qed

end
