(* ===== verification/Channel.thy ===== *)
theory Channel
  imports Airport
begin

text \<open>
  The VIP channel of the airport. The passengers of one direction share a lock that keeps the other direction
  out: the first to enter takes it, the last to leave gives it back. The two directions are two instances of one
  side; the invariant is proved once, of a side against the other. Then what the opposite order of the two locks
  and the two mutexes around one counter lead to.
\<close>

subsection \<open>A side of a channel\<close>

datatype phase = Away | Inside | Closing | Entered | Crossing | Leaving | Opening | Left

record side =
  sd_mutex :: bool
  sd_count :: int
  sd_phases :: "phase list"

text \<open>\<open>side_step (x, y) (x', y')\<close>: a step of a passenger of side \<open>x\<close>; \<open>y\<close> is the other side.\<close>

inductive side_step :: "side \<times> side \<Rightarrow> side \<times> side \<Rightarrow> bool" where
  sd_lock: "\<not> sd_mutex x \<Longrightarrow> i < length (sd_phases x) \<Longrightarrow> sd_phases x ! i = Away \<Longrightarrow>
    side_step (x, y) (x\<lparr>sd_mutex := True, sd_phases := (sd_phases x)[i := Inside]\<rparr>, y)"
| sd_count: "i < length (sd_phases x) \<Longrightarrow> sd_phases x ! i = Inside \<Longrightarrow>
    side_step (x, y) (x\<lparr>sd_count := sd_count x + 1,
      sd_phases := (sd_phases x)[i := if sd_count x + 1 = 1 then Closing else Entered]\<rparr>, y)"
| sd_close: "i < length (sd_phases x) \<Longrightarrow> sd_phases x ! i = Closing \<Longrightarrow> \<not> sd_mutex y \<Longrightarrow>
    side_step (x, y) (x\<lparr>sd_phases := (sd_phases x)[i := Entered]\<rparr>, y\<lparr>sd_mutex := True\<rparr>)"
| sd_unlock: "i < length (sd_phases x) \<Longrightarrow> sd_phases x ! i = Entered \<Longrightarrow>
    side_step (x, y) (x\<lparr>sd_mutex := False, sd_phases := (sd_phases x)[i := Crossing]\<rparr>, y)"
| sd_relock: "\<not> sd_mutex x \<Longrightarrow> i < length (sd_phases x) \<Longrightarrow> sd_phases x ! i = Crossing \<Longrightarrow>
    side_step (x, y) (x\<lparr>sd_mutex := True, sd_phases := (sd_phases x)[i := Leaving]\<rparr>, y)"
| sd_uncount: "i < length (sd_phases x) \<Longrightarrow> sd_phases x ! i = Leaving \<Longrightarrow>
    side_step (x, y) (x\<lparr>sd_count := sd_count x - 1,
      sd_phases := (sd_phases x)[i := if sd_count x - 1 = 0 then Opening else Left]\<rparr>, y)"
| sd_open: "i < length (sd_phases x) \<Longrightarrow> sd_phases x ! i = Opening \<Longrightarrow>
    side_step (x, y) (x\<lparr>sd_phases := (sd_phases x)[i := Left]\<rparr>, y\<lparr>sd_mutex := False\<rparr>)"
| sd_left: "i < length (sd_phases x) \<Longrightarrow> sd_phases x ! i = Left \<Longrightarrow>
    side_step (x, y) (x\<lparr>sd_mutex := False, sd_phases := (sd_phases x)[i := Away]\<rparr>, y)"

text \<open>How many passengers are in a phase, and whether a side keeps the other one out.\<close>

definition num :: "side \<Rightarrow> phase \<Rightarrow> nat" where
  "num x q = cnt (\<lambda>r. r = q) (sd_phases x)"

definition keeps :: "side \<Rightarrow> nat" where
  "keeps x = num x Entered + num x Crossing + num x Leaving + num x Opening"

definition busy :: "side \<Rightarrow> nat" where
  "busy x = num x Inside + num x Closing + num x Entered + num x Leaving + num x Opening + num x Left"

definition tally :: "side \<Rightarrow> bool" where
  "tally x \<longleftrightarrow> sd_count x = int (num x Closing + num x Entered + num x Crossing + num x Leaving) \<and>
     (num x Closing = 0 \<or> sd_count x = 1) \<and> (num x Opening = 0 \<or> sd_count x = 0)"

text \<open>
  The mutex of a side is held by one of its own passengers or by the other side; the count is right; a passenger
  that takes or gives back the other mutex is the only one; and the two sides do not keep each other out at once.
\<close>

definition side_ok :: "side \<Rightarrow> side \<Rightarrow> bool" where
  "side_ok x y \<longleftrightarrow> of_bool (sd_mutex x) = busy x + of_bool (0 < keeps y) \<and> tally x"

definition channel_ok :: "side \<Rightarrow> side \<Rightarrow> bool" where
  "channel_ok x y \<longleftrightarrow> side_ok x y \<and> side_ok y x \<and> (keeps x = 0 \<or> keeps y = 0)"

lemma num_update:
  assumes "i < length (sd_phases x)" and "sd_phases x ! i = r" and "sd_phases x' = (sd_phases x)[i := q]"
  shows "num x' p + of_bool (r = p) = num x p + of_bool (q = p)"
  using cnt_update [OF assms(1), of "\<lambda>r. r = p" q] assms by (simp add: num_def)

lemma num_pos: "i < length (sd_phases x) \<Longrightarrow> sd_phases x ! i = r \<Longrightarrow> 0 < num x r"
  unfolding num_def by (rule cnt_ge)

lemma side_other [simp]:
  "num (y\<lparr>sd_mutex := b\<rparr>) q = num y q" "keeps (y\<lparr>sd_mutex := b\<rparr>) = keeps y"
  "tally (y\<lparr>sd_mutex := b\<rparr>) = tally y" "busy (y\<lparr>sd_mutex := b\<rparr>) = busy y"
  by (simp_all add: num_def keeps_def tally_def busy_def)

text \<open>The counts of the seven phases after one passenger of the side has moved from \<open>r\<close> to \<open>q\<close>.\<close>

lemma num_moved:
  assumes "i < length (sd_phases x)" and "sd_phases x ! i = r" and "sd_phases x' = (sd_phases x)[i := q]"
  shows
    "num x' Inside + of_bool (r = Inside) = num x Inside + of_bool (q = Inside)"
    "num x' Closing + of_bool (r = Closing) = num x Closing + of_bool (q = Closing)"
    "num x' Entered + of_bool (r = Entered) = num x Entered + of_bool (q = Entered)"
    "num x' Crossing + of_bool (r = Crossing) = num x Crossing + of_bool (q = Crossing)"
    "num x' Leaving + of_bool (r = Leaving) = num x Leaving + of_bool (q = Leaving)"
    "num x' Opening + of_bool (r = Opening) = num x Opening + of_bool (q = Opening)"
    "num x' Left + of_bool (r = Left) = num x Left + of_bool (q = Left)"
  using num_update [OF assms] by simp_all

lemma owner:
  assumes "of_bool (sd_mutex x) = busy x + of_bool (0 < keeps y)" and "0 < num x q" and "q \<notin> {Away, Crossing}"
  shows "sd_mutex x" "busy x = 1" "keeps y = 0"
proof -
  have "0 < busy x" using assms(2,3) by (cases q) (simp_all add: busy_def)
  then show "sd_mutex x" "busy x = 1" "keeps y = 0" using assms(1) by (auto simp: of_bool_def split: if_splits)
qed

lemma owner_phases:
  assumes "of_bool (sd_mutex x) = busy x + of_bool (0 < keeps y)" and "0 < num x q" and "q \<notin> {Away, Crossing}"
  shows "num x Inside = of_bool (q = Inside)" "num x Closing = of_bool (q = Closing)" "num x Entered = of_bool (q = Entered)"
    "num x Leaving = of_bool (q = Leaving)" "num x Opening = of_bool (q = Opening)" "num x Left = of_bool (q = Left)"
  using owner(2) [OF assms] assms(2,3) by (cases q; simp add: busy_def)+

lemma keeps_alt: "side_ok x y \<Longrightarrow> num x Opening = 0 \<Longrightarrow> num x Closing = 0 \<Longrightarrow> int (keeps x) = sd_count x"
  by (simp add: side_ok_def keeps_def tally_def)

lemma side_mutex:
  assumes "channel_ok x y"
  shows "of_bool (sd_mutex x) = busy x + of_bool (0 < keeps y)" "of_bool (sd_mutex y) = busy y + of_bool (0 < keeps x)"
  using assms by (simp_all add: channel_ok_def side_ok_def)

subsection \<open>Every step keeps the invariant\<close>

lemma ok_lock:
  assumes ok: "channel_ok x y" and i: "i < length (sd_phases x)" "sd_phases x ! i = Away" and f: "\<not> sd_mutex x"
    and x: "x' = x\<lparr>sd_mutex := True, sd_phases := (sd_phases x)[i := Inside]\<rparr>"
  shows "channel_ok x' y"
proof -
  note m = num_moved [OF i, of x' Inside]
  have "busy x = 0" "keeps y = 0" "keeps x' = keeps x" "busy x' = busy x + 1"
    using side_mutex [OF ok] f m x by (auto simp: keeps_def busy_def of_bool_def split: if_splits)
  then show ?thesis using ok m  x tally_def [of x] tally_def [of x'] unfolding channel_ok_def side_ok_def by auto
qed

lemma ok_count:
  assumes ok: "channel_ok x y" and i: "i < length (sd_phases x)" "sd_phases x ! i = Inside"
    and x: "x' = x\<lparr>sd_count := sd_count x + 1,
      sd_phases := (sd_phases x)[i := if sd_count x + 1 = 1 then Closing else Entered]\<rparr>"
  shows "channel_ok x' y"
proof -
  have o: "sd_mutex x" "busy x = 1" "keeps y = 0"
    "num x Inside = 1" "num x Closing = 0" "num x Entered = 0" "num x Leaving = 0" "num x Opening = 0" "num x Left = 0"
    using owner [OF side_mutex(1) [OF ok] num_pos [OF i]] owner_phases [OF side_mutex(1) [OF ok] num_pos [OF i]] by simp_all
  note m = num_moved [OF i, of x' "if sd_count x + 1 = 1 then Closing else Entered"]
  have k: "int (keeps x) = sd_count x" using ok o keeps_alt [of x y] by (simp add: channel_ok_def)
  show ?thesis
  proof (cases "sd_count x = 0")
    case True
    then have "keeps x' = keeps x" "busy x' = 1" using m o k x by (auto simp: keeps_def busy_def)
    then show ?thesis using ok m o True x tally_def [of x] tally_def [of x'] unfolding channel_ok_def side_ok_def by simp
  next
    case False
    then have "0 < keeps x" "0 < keeps x'" "busy x' = 1" using m o k x by (auto simp: keeps_def busy_def)
    then show ?thesis using ok m o False x tally_def [of x] tally_def [of x'] unfolding channel_ok_def side_ok_def by simp
  qed
qed

lemma ok_close:
  assumes ok: "channel_ok x y" and i: "i < length (sd_phases x)" "sd_phases x ! i = Closing" and f: "\<not> sd_mutex y"
    and x: "x' = x\<lparr>sd_phases := (sd_phases x)[i := Entered]\<rparr>"
  shows "channel_ok x' (y\<lparr>sd_mutex := True\<rparr>)"
proof -
  have o: "sd_mutex x" "busy x = 1" "keeps y = 0"
    "num x Inside = 0" "num x Closing = 1" "num x Entered = 0" "num x Leaving = 0" "num x Opening = 0" "num x Left = 0"
    using owner [OF side_mutex(1) [OF ok] num_pos [OF i]] owner_phases [OF side_mutex(1) [OF ok] num_pos [OF i]] by simp_all
  note m = num_moved [OF i, of x' Entered]
  have "keeps x' = 1" "busy x' = 1" "busy y = 0" "keeps x = 0" "num x Crossing = 0"
    using m o x f side_mutex(2) [OF ok] ok by (auto simp: keeps_def busy_def channel_ok_def side_ok_def tally_def [of x])
  then show ?thesis using ok m o x tally_def [of x] tally_def [of x'] unfolding channel_ok_def side_ok_def by simp
qed

lemma ok_unlock:
  assumes ok: "channel_ok x y" and i: "i < length (sd_phases x)" "sd_phases x ! i = Entered"
    and x: "x' = x\<lparr>sd_mutex := False, sd_phases := (sd_phases x)[i := Crossing]\<rparr>"
  shows "channel_ok x' y"
proof -
  have o: "sd_mutex x" "busy x = 1" "keeps y = 0"
    "num x Inside = 0" "num x Closing = 0" "num x Entered = 1" "num x Leaving = 0" "num x Opening = 0" "num x Left = 0"
    using owner [OF side_mutex(1) [OF ok] num_pos [OF i]] owner_phases [OF side_mutex(1) [OF ok] num_pos [OF i]] by simp_all
  note m = num_moved [OF i, of x' Crossing]
  have "keeps x' = keeps x" "busy x' = 0" using m o x by (auto simp: keeps_def busy_def)
  then show ?thesis using ok m o x tally_def [of x] tally_def [of x'] unfolding channel_ok_def side_ok_def by simp
qed

lemma ok_relock:
  assumes ok: "channel_ok x y" and i: "i < length (sd_phases x)" "sd_phases x ! i = Crossing" and f: "\<not> sd_mutex x"
    and x: "x' = x\<lparr>sd_mutex := True, sd_phases := (sd_phases x)[i := Leaving]\<rparr>"
  shows "channel_ok x' y"
proof -
  note m = num_moved [OF i, of x' Leaving]
  have b: "busy x = 0" "keeps y = 0" "keeps x' = keeps x" "busy x' = 1"
    using side_mutex [OF ok] f m x by (auto simp: keeps_def busy_def of_bool_def split: if_splits)
  moreover have "num x Closing = 0" "num x Opening = 0" using b(1) by (simp_all add: busy_def)
  ultimately show ?thesis using ok m  x tally_def [of x] tally_def [of x'] unfolding channel_ok_def side_ok_def by simp
qed

lemma ok_uncount:
  assumes ok: "channel_ok x y" and i: "i < length (sd_phases x)" "sd_phases x ! i = Leaving"
    and x: "x' = x\<lparr>sd_count := sd_count x - 1,
      sd_phases := (sd_phases x)[i := if sd_count x - 1 = 0 then Opening else Left]\<rparr>"
  shows "channel_ok x' y"
proof -
  have o: "sd_mutex x" "busy x = 1" "keeps y = 0"
    "num x Inside = 0" "num x Closing = 0" "num x Entered = 0" "num x Leaving = 1" "num x Opening = 0" "num x Left = 0"
    using owner [OF side_mutex(1) [OF ok] num_pos [OF i]] owner_phases [OF side_mutex(1) [OF ok] num_pos [OF i]] by simp_all
  note m = num_moved [OF i, of x' "if sd_count x - 1 = 0 then Opening else Left"]
  have k: "int (keeps x) = sd_count x" using ok o keeps_alt [of x y] by (simp add: channel_ok_def)
  have "0 < keeps x" "0 < keeps x'" "busy x' = 1" using m o k x by (auto simp: keeps_def busy_def split: if_splits)
  then show ?thesis using ok m o x tally_def [of x] tally_def [of x'] unfolding channel_ok_def side_ok_def by auto
qed

lemma ok_open:
  assumes ok: "channel_ok x y" and i: "i < length (sd_phases x)" "sd_phases x ! i = Opening"
    and x: "x' = x\<lparr>sd_phases := (sd_phases x)[i := Left]\<rparr>"
  shows "channel_ok x' (y\<lparr>sd_mutex := False\<rparr>)"
proof -
  have o: "sd_mutex x" "busy x = 1" "keeps y = 0"
    "num x Inside = 0" "num x Closing = 0" "num x Entered = 0" "num x Leaving = 0" "num x Opening = 1" "num x Left = 0"
    using owner [OF side_mutex(1) [OF ok] num_pos [OF i]] owner_phases [OF side_mutex(1) [OF ok] num_pos [OF i]] by simp_all
  note m = num_moved [OF i, of x' Left]
  have "num x Crossing = 0" "sd_count x = 0" using ok o tally_def [of x] by (auto simp: channel_ok_def side_ok_def)
  then have k: "keeps x = 1" "keeps x' = 0" "busy x' = 1" using m o x by (auto simp: keeps_def busy_def)
  moreover have "busy y = 0" using side_mutex(2) [OF ok] k(1) by (auto simp: of_bool_def split: if_splits)
  ultimately show ?thesis using ok m o x tally_def [of x] tally_def [of x'] unfolding channel_ok_def side_ok_def by simp
qed

lemma ok_left:
  assumes ok: "channel_ok x y" and i: "i < length (sd_phases x)" "sd_phases x ! i = Left"
    and x: "x' = x\<lparr>sd_mutex := False, sd_phases := (sd_phases x)[i := Away]\<rparr>"
  shows "channel_ok x' y"
proof -
  have o: "sd_mutex x" "busy x = 1" "keeps y = 0"
    "num x Inside = 0" "num x Closing = 0" "num x Entered = 0" "num x Leaving = 0" "num x Opening = 0" "num x Left = 1"
    using owner [OF side_mutex(1) [OF ok] num_pos [OF i]] owner_phases [OF side_mutex(1) [OF ok] num_pos [OF i]] by simp_all
  note m = num_moved [OF i, of x' Away]
  have "keeps x' = keeps x" "busy x' = 0" using m o x by (auto simp: keeps_def busy_def)
  then show ?thesis using ok m o x tally_def [of x] tally_def [of x'] unfolding channel_ok_def side_ok_def by simp
qed

lemma side_step_ok:
  assumes "side_step (x, y) (x', y')" and "channel_ok x y"
  shows "channel_ok x' y'"
  using assms(1)
  by (cases rule: side_step.cases)
     (auto intro: ok_lock [OF assms(2)] ok_count [OF assms(2)] ok_close [OF assms(2)] ok_unlock [OF assms(2)]
       ok_relock [OF assms(2)] ok_uncount [OF assms(2)] ok_open [OF assms(2)] ok_left [OF assms(2)])

lemma channel_swap: "channel_ok x y \<longleftrightarrow> channel_ok y x"
  by (auto simp: channel_ok_def)

subsection \<open>The two directions are two sides\<close>

definition lr_phase :: "pax \<Rightarrow> phase" where
  "lr_phase p =
     (case pax_at p of
        Chan_LR LrLoad' \<Rightarrow> Inside
      | Chan_LR LrStore' \<Rightarrow> Inside
      | Chan_LR LrTest' \<Rightarrow> Inside
      | Chan_LR LrPriority' \<Rightarrow> Inside
      | Chan_LR LrCount \<Rightarrow> Inside
      | Chan_LR LrClose \<Rightarrow> Closing
      | Chan_LR LrEntered \<Rightarrow> Entered
      | Chan_LR LrLock' \<Rightarrow> Crossing
      | Chan_LR LrCount' \<Rightarrow> Leaving
      | Chan_LR LrOpen \<Rightarrow> Opening
      | Chan_LR LrLeft \<Rightarrow> Left
      | _ \<Rightarrow> Away)"

definition rl_phase :: "pax \<Rightarrow> phase" where
  "rl_phase p =
     (case pax_at p of
        Chan_RL RlCount \<Rightarrow> Inside
      | Chan_RL RlClose \<Rightarrow> Closing
      | Chan_RL RlEntered \<Rightarrow> Entered
      | Chan_RL RlLock' \<Rightarrow> Crossing
      | Chan_RL RlCount' \<Rightarrow> Leaving
      | Chan_RL RlOpen \<Rightarrow> Opening
      | Chan_RL RlLeft \<Rightarrow> Left
      | _ \<Rightarrow> Away)"

definition lr_side :: "airport \<Rightarrow> side" where
  "lr_side s = \<lparr>sd_mutex = VIP_LR_mutex s, sd_count = VIP_LR_count s, sd_phases = map lr_phase (people s)\<rparr>"

definition rl_side :: "airport \<Rightarrow> side" where
  "rl_side s = \<lparr>sd_mutex = VIP_RL_mutex s, sd_count = VIP_RL_count s, sd_phases = map rl_phase (people s)\<rparr>"

lemma channel_frame:
  assumes "simulate lost p s = Goes (p', t)" and "\<nexists>c. pax_at p = Chan_LR c" and "\<nexists>c. pax_at p = Chan_RL c"
  shows "lr_phase p' = Away \<and> lr_phase p = Away \<and> rl_phase p' = Away \<and> rl_phase p = Away \<and>
    VIP_LR_mutex t = VIP_LR_mutex s \<and> VIP_LR_count t = VIP_LR_count s \<and>
    VIP_RL_mutex t = VIP_RL_mutex s \<and> VIP_RL_count t = VIP_RL_count s"
  using assms
  by (cases "pax_at p")
     (auto simp: sim_simps store_flag_def lr_phase_def rl_phase_def after_draw_def
      split: out.splits option.splits prod.splits if_splits elim!: check_in.elims security_check.elims)

lemma lr_frame:
  assumes "simulate lost p s = Goes (p', t)" and "pax_at p = Chan_LR c"
  shows "rl_phase p' = Away \<and> rl_phase p = Away \<and> VIP_RL_count t = VIP_RL_count s"
  using assms
  by (cases c) (auto simp: sim_simps rl_phase_def after_draw_def split: out.splits if_splits)

lemma rl_frame:
  assumes "simulate lost p s = Goes (p', t)" and "pax_at p = Chan_RL c"
  shows "lr_phase p' = Away \<and> lr_phase p = Away \<and> VIP_LR_count t = VIP_LR_count s"
  using assms
  by (cases c) (auto simp: sim_simps lr_phase_def split: out.splits if_splits)

lemma lr_sim:
  assumes "i < length (people s)" and t: "simulate lost (people s ! i) s = Goes (p, t)" and c: "pax_at (people s ! i) = Chan_LR c"
    and s': "s' = t\<lparr>people := (people t)[i := p]\<rparr>"
  shows "(lr_side s', rl_side s') = (lr_side s, rl_side s) \<or>
    side_step (lr_side s, rl_side s) (lr_side s', rl_side s')"
proof -
  note pt = simulate_people [OF t]
  have r: "i < length (sd_phases (lr_side s))" "sd_phases (lr_side s) ! i = lr_phase (people s ! i)"
    using assms(1) by (simp_all add: lr_side_def)
  have other: "rl_side s' = (rl_side s)\<lparr>sd_mutex := VIP_RL_mutex t\<rparr>"
    using lr_frame [OF t c] assms(1) pt s' by (simp add: rl_side_def map_update_same)
  have upd: "lr_side s' = \<lparr>sd_mutex = VIP_LR_mutex t, sd_count = VIP_LR_count t,
      sd_phases = (map lr_phase (people s))[i := lr_phase p]\<rparr>"
    using pt s' by (simp add: lr_side_def map_update)
  have same: "(map lr_phase (people s))[i := lr_phase (people s ! i)] = map lr_phase (people s)"
    using assms(1) by (metis list_update_id map_update)
  show ?thesis
  proof (cases c)
    case LrLock
    then show ?thesis using t c r other upd sd_lock [of "lr_side s" i]
      by (auto simp: sim_simps lr_phase_def after_draw_def lr_side_def rl_side_def split: out.splits if_splits)
  next
    case LrCount
    then show ?thesis using t c r other upd sd_count [of i "lr_side s"]
      by (auto simp: sim_simps lr_phase_def after_draw_def lr_side_def rl_side_def split: out.splits if_splits)
  next
    case LrClose
    then show ?thesis using t c r other upd sd_close [of i "lr_side s" "rl_side s"]
      by (auto simp: sim_simps lr_phase_def after_draw_def lr_side_def rl_side_def split: out.splits if_splits)
  next
    case LrEntered
    then show ?thesis using t c r other upd sd_unlock [of i "lr_side s"]
      by (auto simp: sim_simps lr_phase_def after_draw_def lr_side_def rl_side_def split: out.splits if_splits)
  next
    case LrLock'
    then show ?thesis using t c r other upd sd_relock [of "lr_side s" i]
      by (auto simp: sim_simps lr_phase_def after_draw_def lr_side_def rl_side_def split: out.splits if_splits)
  next
    case LrCount'
    then show ?thesis using t c r other upd sd_uncount [of i "lr_side s"]
      by (auto simp: sim_simps lr_phase_def after_draw_def lr_side_def rl_side_def split: out.splits if_splits)
  next
    case LrOpen
    then show ?thesis using t c r other upd sd_open [of i "lr_side s" "rl_side s"]
      by (auto simp: sim_simps lr_phase_def after_draw_def lr_side_def rl_side_def split: out.splits if_splits)
  next
    case LrLeft
    then show ?thesis using t c r other upd sd_left [of i "lr_side s"]
      by (auto simp: sim_simps lr_phase_def after_draw_def lr_side_def rl_side_def split: out.splits if_splits)
  qed (use t c other upd same in \<open>auto simp: sim_simps lr_phase_def after_draw_def lr_side_def rl_side_def split: out.splits if_splits\<close>)
qed

lemma rl_sim:
  assumes "i < length (people s)" and t: "simulate lost (people s ! i) s = Goes (p, t)" and c: "pax_at (people s ! i) = Chan_RL c"
    and s': "s' = t\<lparr>people := (people t)[i := p]\<rparr>"
  shows "(rl_side s', lr_side s') = (rl_side s, lr_side s) \<or>
    side_step (rl_side s, lr_side s) (rl_side s', lr_side s')"
proof -
  note pt = simulate_people [OF t]
  have r: "i < length (sd_phases (rl_side s))" "sd_phases (rl_side s) ! i = rl_phase (people s ! i)"
    using assms(1) by (simp_all add: rl_side_def)
  have other: "lr_side s' = (lr_side s)\<lparr>sd_mutex := VIP_LR_mutex t\<rparr>"
    using rl_frame [OF t c] assms(1) pt s' by (simp add: lr_side_def map_update_same)
  have upd: "rl_side s' = \<lparr>sd_mutex = VIP_RL_mutex t, sd_count = VIP_RL_count t,
      sd_phases = (map rl_phase (people s))[i := rl_phase p]\<rparr>"
    using pt s' by (simp add: rl_side_def map_update)
  have same: "(map rl_phase (people s))[i := rl_phase (people s ! i)] = map rl_phase (people s)"
    using assms(1) by (metis list_update_id map_update)
  show ?thesis
  proof (cases c)
    case RlLock
    then show ?thesis using t c r other upd sd_lock [of "rl_side s" i]
      by (auto simp: sim_simps rl_phase_def after_draw_def lr_side_def rl_side_def split: out.splits if_splits)
  next
    case RlCount
    then show ?thesis using t c r other upd sd_count [of i "rl_side s"]
      by (auto simp: sim_simps rl_phase_def after_draw_def lr_side_def rl_side_def split: out.splits if_splits)
  next
    case RlClose
    then show ?thesis using t c r other upd sd_close [of i "rl_side s" "lr_side s"]
      by (auto simp: sim_simps rl_phase_def after_draw_def lr_side_def rl_side_def split: out.splits if_splits)
  next
    case RlEntered
    then show ?thesis using t c r other upd sd_unlock [of i "rl_side s"]
      by (auto simp: sim_simps rl_phase_def after_draw_def lr_side_def rl_side_def split: out.splits if_splits)
  next
    case RlLock'
    then show ?thesis using t c r other upd sd_relock [of "rl_side s" i]
      by (auto simp: sim_simps rl_phase_def after_draw_def lr_side_def rl_side_def split: out.splits if_splits)
  next
    case RlCount'
    then show ?thesis using t c r other upd sd_uncount [of i "rl_side s"]
      by (auto simp: sim_simps rl_phase_def after_draw_def lr_side_def rl_side_def split: out.splits if_splits)
  next
    case RlOpen
    then show ?thesis using t c r other upd sd_open [of i "rl_side s" "lr_side s"]
      by (auto simp: sim_simps rl_phase_def after_draw_def lr_side_def rl_side_def split: out.splits if_splits)
  next
    case RlLeft
    then show ?thesis using t c r other upd sd_left [of i "rl_side s"]
      by (auto simp: sim_simps rl_phase_def after_draw_def lr_side_def rl_side_def split: out.splits if_splits)
  qed (use t c other upd same in \<open>auto simp: sim_simps rl_phase_def after_draw_def lr_side_def rl_side_def split: out.splits if_splits\<close>)
qed

lemma channel_step:
  assumes "air_step i lost s = Goes s'" and ok: "channel_ok (lr_side s) (rl_side s)"
  shows "channel_ok (lr_side s') (rl_side s')"
proof -
  from assms(1) obtain p t where i: "i < length (people s)" and t: "simulate lost (people s ! i) s = Goes (p, t)"
    and s': "s' = t\<lparr>people := (people t)[i := p]\<rparr>" by (rule air_stepE)
  consider c where "pax_at (people s ! i) = Chan_LR c" | c where "pax_at (people s ! i) = Chan_RL c"
    | "\<nexists>c. pax_at (people s ! i) = Chan_LR c" "\<nexists>c. pax_at (people s ! i) = Chan_RL c" by blast
  then show ?thesis
  proof cases
    case 1
    then show ?thesis using lr_sim [OF i t _ s'] ok side_step_ok by auto
  next
    case 2
    have "channel_ok (rl_side s) (lr_side s)" using ok by (simp add: channel_swap)
    then have "channel_ok (rl_side s') (lr_side s')" using rl_sim [OF i t 2 s'] side_step_ok by auto
    then show ?thesis by (simp add: channel_swap)
  next
    case 3
    then show ?thesis
      using channel_frame [OF t 3] simulate_people [OF t] i s' ok
      by (simp add: lr_side_def rl_side_def map_update_same)
  qed
qed

lemma channel_start: "channel_ok (lr_side (airport_start M N P vips)) (rl_side (airport_start M N P vips))"
proof -
  have "lr_phase (new_pax v) = Away \<and> rl_phase (new_pax v) = Away" for v
    by (simp add: lr_phase_def rl_phase_def new_pax_def)
  then have "map lr_phase (map new_pax vips) = replicate (length vips) Away"
    "map rl_phase (map new_pax vips) = replicate (length vips) Away"
    by (induction vips) simp_all
  moreover have "cnt (\<lambda>r. r = q) (replicate n Away) = 0" if "q \<noteq> Away" for n q
    using that by (intro cnt_none) (auto split: if_splits)
  ultimately show ?thesis
    by (simp add: channel_ok_def side_ok_def tally_def busy_def keeps_def num_def lr_side_def rl_side_def airport_start_def)
qed

subsection \<open>The special kiosk and the gate\<close>

definition gates_ok :: "airport \<Rightarrow> bool" where
  "gates_ok s \<longleftrightarrow>
     of_bool (special_kiosk_mutex s) = cnt (\<lambda>p. pax_at p = Kiosk_unlock) (people s) \<and>
     of_bool (boarding_mutex s) = cnt (\<lambda>p. pax_at p = Board_unlock) (people s)"

lemma simulate_gates:
  assumes "simulate lost p s = Goes (p', t)"
  shows "of_bool (special_kiosk_mutex t) + of_bool (pax_at p = Kiosk_unlock) =
      (of_bool (special_kiosk_mutex s) + of_bool (pax_at p' = Kiosk_unlock) :: nat) \<or>
    pax_at p = Kiosk_unlock \<and> \<not> special_kiosk_mutex s"
    and "of_bool (boarding_mutex t) + of_bool (pax_at p = Board_unlock) =
      (of_bool (boarding_mutex s) + of_bool (pax_at p' = Board_unlock) :: nat) \<or>
    pax_at p = Board_unlock \<and> \<not> boarding_mutex s"
  using assms
  by (cases "pax_at p"; auto simp: sim_simps store_flag_def after_draw_def
      split: out.splits option.splits prod.splits if_splits
      elim!: check_in.elims security_check.elims VIP_channel_LR.elims VIP_channel_RL.elims)+

lemma gates_step:
  assumes "air_step i lost s = Goes s'" and ok: "gates_ok s"
  shows "gates_ok s'"
proof -
  from assms(1) obtain p t where i: "i < length (people s)" and t: "simulate lost (people s ! i) s = Goes (p, t)"
    and s': "s' = t\<lparr>people := (people t)[i := p]\<rparr>" by (rule air_stepE)
  note u = cnt_update [OF i, of "\<lambda>p. pax_at p = Kiosk_unlock" p] cnt_update [OF i, of "\<lambda>p. pax_at p = Board_unlock" p]
  have "pax_at (people s ! i) = Kiosk_unlock \<Longrightarrow> special_kiosk_mutex s"
    "pax_at (people s ! i) = Board_unlock \<Longrightarrow> boarding_mutex s"
    using ok cnt_ge [OF i, of "\<lambda>p. pax_at p = Kiosk_unlock"] cnt_ge [OF i, of "\<lambda>p. pax_at p = Board_unlock"]
    by (auto simp: gates_ok_def of_bool_def split: if_splits)
  then show ?thesis
    using simulate_gates [OF t] simulate_people [OF t] ok u s' by (auto simp: gates_ok_def)
qed

lemma gates_start: "gates_ok (airport_start M N P vips)"
proof -
  have "cnt (\<lambda>p. pax_at p = q) (map new_pax vips) = 0" if "q \<noteq> Check CiWait" for q
    using that by (intro cnt_none) (auto simp: new_pax_def)
  then show ?thesis by (simp add: gates_ok_def airport_start_def)
qed

lemma channel_reach:
  "air_reach (airport_start M N P vips) s \<Longrightarrow> channel_ok (lr_side s) (rl_side s) \<and> gates_ok s"
  by (induction rule: air_reach.induct) (auto intro: channel_start channel_step gates_start gates_step)

text \<open>
  C23. The VIP channel is used in one direction at a time, in every interleaving of any number of passengers:
  while one crosses from left to right no other crosses from right to left; and at most one passenger at a time
  is served at the special kiosk, and at most one boards.
\<close>

theorem channel_one_way:
  assumes "air_reach (airport_start M N P vips) s"
  shows "\<not> (\<exists>p\<in>set (people s). \<exists>q\<in>set (people s). pax_at p = Chan_LR LrLock' \<and> pax_at q = Chan_RL RlLock') \<and>
    cnt (\<lambda>p. pax_at p = Kiosk_unlock) (people s) \<le> 1 \<and> cnt (\<lambda>p. pax_at p = Board_unlock) (people s) \<le> 1"
proof -
  note ok = channel_reach [OF assms]
  have "0 < keeps (lr_side s)" if "p \<in> set (people s)" "pax_at p = Chan_LR LrLock'" for p
  proof -
    have "lr_phase p = Crossing" using that(2) by (simp add: lr_phase_def)
    then have "0 < num (lr_side s) Crossing" using that(1) by (auto simp: num_def lr_side_def cnt_map cnt_def filter_empty_conv)
    then show ?thesis by (simp add: keeps_def)
  qed
  moreover have "0 < keeps (rl_side s)" if "q \<in> set (people s)" "pax_at q = Chan_RL RlLock'" for q
  proof -
    have "rl_phase q = Crossing" using that(2) by (simp add: rl_phase_def)
    then have "0 < num (rl_side s) Crossing" using that(1) by (auto simp: num_def rl_side_def cnt_map cnt_def filter_empty_conv)
    then show ?thesis by (simp add: keeps_def)
  qed
  moreover have "keeps (lr_side s) = 0 \<or> keeps (rl_side s) = 0" using ok by (simp add: channel_ok_def)
  ultimately have "\<not> (\<exists>p\<in>set (people s). \<exists>q\<in>set (people s). pax_at p = Chan_LR LrLock' \<and> pax_at q = Chan_RL RlLock')"
    by fastforce
  moreover have "cnt (\<lambda>p. pax_at p = Kiosk_unlock) (people s) \<le> 1" "cnt (\<lambda>p. pax_at p = Board_unlock) (people s) \<le> 1"
    using ok by (auto simp: gates_ok_def of_bool_def split: if_splits)
  ultimately show ?thesis by blast
qed

text \<open>A VIP crosses while another has just asked for the same channel.\<close>

definition vip_run :: "(nat \<times> bool) list" where
  "vip_run = replicate 22 (0, False) @ replicate 15 (1, False)"

lemma channel_one_way_witness:
  "\<exists>s. air_run vip_run (airport_start 2 1 1 [True, True]) = Goes s \<and>
    map pax_at (people s) = [Chan_LR LrLock', Chan_LR LrLoad'] \<and>
    \<not> (\<exists>p\<in>set (people s). \<exists>q\<in>set (people s). pax_at p = Chan_LR LrLock' \<and> pax_at q = Chan_RL RlLock')"
proof -
  define r where "r = air_run vip_run (airport_start 2 1 1 [True, True])"
  have "case r of Goes s \<Rightarrow> map pax_at (people s) = [Chan_LR LrLock', Chan_LR LrLoad'] | _ \<Rightarrow> False"
    unfolding r_def by code_simp
  then obtain s where s: "r = Goes s" "map pax_at (people s) = [Chan_LR LrLock', Chan_LR LrLoad']"
    by (auto split: out.splits)
  from channel_one_way [OF air_run_reach [OF air_refl s(1) [unfolded r_def]]]
  have "\<not> (\<exists>p\<in>set (people s). \<exists>q\<in>set (people s). pax_at p = Chan_LR LrLock' \<and> pax_at q = Chan_RL RlLock')" by (rule conjunct1)
  with s show ?thesis unfolding r_def [symmetric] by - (rule exI [of _ s], intro conjI, assumption+)
qed

subsection \<open>What goes wrong\<close>

text \<open>Nobody can step any more, whatever the draws.\<close>

definition stuck :: "airport \<Rightarrow> bool" where
  "stuck s \<longleftrightarrow> (\<forall>i\<in>set [0..<length (people s)]. air_step i True s = Waits \<and> air_step i False s = Waits)"

lemma stuck_waits: "stuck s \<Longrightarrow> air_step i lost s = Waits"
  by (cases "i < length (people s)"; cases lost) (auto simp: stuck_def air_step_def)

lemma stuck_final:
  assumes "air_reach s s'" and "stuck s"
  shows "s' = s"
  using assms by (induction rule: air_reach.induct) (simp_all add: stuck_waits)

text \<open>
  C24. The channel can deadlock. The first passenger of each direction locks the mutex of its own direction and
  then, still holding it, the mutex of the other: the two orders are opposite. With one passenger that has lost
  the boarding pass and one VIP the program reaches a state in which each holds what the other waits for, and no
  thread ever moves again.
\<close>

definition deadlock_run :: "(nat \<times> bool) list" where
  "deadlock_run = replicate 16 (0, False) @ replicate 5 (0, True) @ replicate 20 (1, False)"

theorem channel_deadlock:
  "\<exists>s. air_run deadlock_run (airport_start 2 1 1 [False, True]) = Goes s \<and>
    map pax_at (people s) = [Chan_RL RlClose, Chan_LR LrClose] \<and> VIP_RL_mutex s \<and> VIP_LR_mutex s \<and>
    (\<forall>i lost. air_step i lost s = Waits)"
proof -
  define r where "r = air_run deadlock_run (airport_start 2 1 1 [False, True])"
  have "case r of Goes s \<Rightarrow> map pax_at (people s) = [Chan_RL RlClose, Chan_LR LrClose] \<and> VIP_RL_mutex s \<and> VIP_LR_mutex s \<and> stuck s
      | _ \<Rightarrow> False"
    unfolding r_def by code_simp
  then show ?thesis unfolding r_def [symmetric] by (auto split: out.splits dest: stuck_waits)
qed

text \<open>
  The counter of waiting VIPs is raised under one mutex and lowered under another. Two passengers that do so at
  once can leave it at 1 and the priority mutex locked when both are through: a passenger that lost the boarding
  pass then waits at the entrance of the channel for ever, although nobody is in it.
\<close>

definition race_run :: "(nat \<times> bool) list" where
  "race_run = replicate 16 (1, False) @ replicate 10 (2, False) @ [(1, False), (2, False)] @
     replicate 10 (1, False) @ replicate 15 (2, False) @ replicate 17 (0, True)"

theorem waiting_race_starves:
  "\<exists>s. air_run race_run (airport_start 2 1 1 [False, True, True]) = Goes s \<and>
    map pax_at (people s) = [Chan_RL RlPriority, Gone, Gone] \<and> VIP_LR_waiting s = 1 \<and> VIP_priority_mutex s \<and>
    (\<forall>i lost. air_step i lost s = Waits)"
proof -
  define r where "r = air_run race_run (airport_start 2 1 1 [False, True, True])"
  have "case r of Goes s \<Rightarrow> map pax_at (people s) = [Chan_RL RlPriority, Gone, Gone] \<and> VIP_LR_waiting s = 1 \<and>
      VIP_priority_mutex s \<and> stuck s | _ \<Rightarrow> False"
    unfolding r_def by code_simp
  then show ?thesis unfolding r_def [symmetric] by (auto split: out.splits dest: stuck_waits)
qed

end
