(* ===== verification/Passname.thy ===== *)
theory Passname
  imports Airport
begin

text \<open>
  The helpers of the airport simulation (\<open>helper.h\<close>): the text of a passenger's number and the array of
  parameters. The arrays are lists of their allocated length, and a store outside is \<open>Wrong\<close>; \<open>slack\<close> is the
  number of bytes allocated beyond the digits of the number, 0 in the code.
\<close>

text \<open>The loop that counts the digits of a passenger number.\<close>

fun digits :: "nat \<Rightarrow> nat" where
  "digits m = (if m = 0 then 0 else Suc (digits (m div 10)))"

text \<open>\<open>while(N) { arr1[++index] = N % 10 + '0'; N /= 10; }\<close>\<close>

fun split_digits :: "nat \<Rightarrow> nat \<Rightarrow> nat list \<Rightarrow> (nat \<times> nat list) out" where
  "split_digits N index arr1 =
     (if N = 0 then Goes (index, arr1)
      else if length arr1 \<le> index + 1 then Wrong
      else split_digits (N div 10) (index + 1) (arr1[index + 1 := N mod 10 + 48]))"

text \<open>\<open>for(i = 0; i < index; i++) arr[i] = arr1[index - i]; arr[i] = 0\<close>\<close>

function reverse_digits :: "nat \<Rightarrow> nat \<Rightarrow> nat list \<Rightarrow> nat list \<Rightarrow> nat list out" where
  "reverse_digits i index arr1 arr =
     (if length arr \<le> i then Wrong
      else if index \<le> i then Goes (arr[i := 0])
      else reverse_digits (i + 1) index arr1 (arr[i := arr1 ! (index - i)]))"
  by pat_completeness auto
termination by (relation "measure (\<lambda>(i, index, arr1, arr). index - i)") auto

definition int_to_char :: "nat \<Rightarrow> nat \<Rightarrow> nat list out" where
  "int_to_char slack N =
     (let arr = replicate (digits N + slack) 0; arr1 = replicate (digits N + slack) 0
      in case split_digits N 0 arr1 of
          Goes (index, arr1) \<Rightarrow> reverse_digits 0 index arr1 arr
        | Waits \<Rightarrow> Waits
        | Wrong \<Rightarrow> Wrong)"

text \<open>\<open>get_params\<close>: the numbers of the file into an array of seven; what is not read stays undefined.\<close>

definition n_params :: nat where "n_params = 7"

fun read_params :: "nat \<Rightarrow> int list \<Rightarrow> int option list \<Rightarrow> int option list out" where
  "read_params idx [] params = Goes params"
| "read_params idx (x # xs) params =
     (if idx < length params then read_params (idx + 1) xs (params[idx := Some x]) else Wrong)"

definition get_params :: "int list \<Rightarrow> int option list out" where
  "get_params file = read_params 0 file (replicate n_params None)"

subsection \<open>What they do\<close>

text \<open>The decimal text of a number.\<close>

fun decimal :: "nat \<Rightarrow> nat list" where
  "decimal N = (if N = 0 then [] else decimal (N div 10) @ [N mod 10 + 48])"

declare digits.simps [simp del] split_digits.simps [simp del] reverse_digits.simps [simp del] decimal.simps [simp del]

lemma length_decimal: "length (decimal N) = digits N"
  by (induction N rule: decimal.induct) (subst decimal.simps, subst digits.simps, simp)

lemma split_digits_enough:
  "length arr1 = index + digits N + 1 \<Longrightarrow>
    split_digits N index arr1 = Goes (index + digits N, take (index + 1) arr1 @ rev (decimal N))"
proof (induction N arbitrary: index arr1 rule: decimal.induct)
  case (1 N)
  show ?case
  proof (cases "N = 0")
    case True
    then show ?thesis using 1 by (simp add: split_digits.simps decimal.simps digits.simps)
  next
    case False
    then have d: "digits N = Suc (digits (N div 10))" by (subst digits.simps) simp
    have "take (index + 2) (arr1[index + 1 := x]) = take (index + 1) arr1 @ [x]" for x
      using 1 d by (simp add: take_Suc_conv_app_nth)
    then show ?thesis
      using "1.IH" [OF False, of "arr1[index + 1 := N mod 10 + 48]" "index + 1"] "1.prems" False d
      by (subst split_digits.simps, subst decimal.simps) simp
  qed
qed

lemma split_digits_short: "length arr1 = index + digits N \<Longrightarrow> 0 < N \<Longrightarrow> split_digits N index arr1 = Wrong"
proof (induction N arbitrary: index arr1 rule: decimal.induct)
  case (1 N)
  have d: "digits N = Suc (digits (N div 10))" using "1.prems"(2) by (subst digits.simps) simp
  show ?case
  proof (cases "N div 10 = 0")
    case True
    then show ?thesis using "1.prems" d by (subst split_digits.simps) (simp add: digits.simps)
  next
    case False
    then show ?thesis
      using "1.IH" [of "arr1[index + 1 := N mod 10 + 48]" "index + 1"] "1.prems" d
      by (subst split_digits.simps) simp
  qed
qed

lemma reverse_digits_enough:
  "i \<le> index \<Longrightarrow> length arr = index + 1 \<Longrightarrow>
    reverse_digits i index arr1 arr = Goes (take i arr @ map (\<lambda>j. arr1 ! (index - j)) [i..<index] @ [0])"
proof (induction "index - i" arbitrary: i arr)
  case 0
  then show ?case by (subst reverse_digits.simps) (simp add: upd_conv_take_nth_drop)
next
  case (Suc n)
  then have "take (Suc i) (arr[i := x]) = take i arr @ [x]" for x by (simp add: take_Suc_conv_app_nth)
  moreover have "i < index" using Suc.hyps(2) by simp
  ultimately show ?case using Suc by (subst reverse_digits.simps) (simp add: upt_conv_Cons)
qed

text \<open>
  The text of a passenger's number. With one byte more for each of its two arrays \<open>int_to_char\<close> writes the
  decimal text and a NUL; as it stands it writes outside an array for every number.
\<close>

theorem int_to_char_one_short: "int_to_char 1 N = Goes (decimal N @ [0]) \<and> int_to_char 0 N = Wrong"
proof
  have "map (\<lambda>j. (0 # rev (decimal N)) ! (digits N - j)) [0..<digits N] = decimal N"
    by (intro nth_equalityI) (auto simp: length_decimal rev_nth nth_Cons' Suc_diff_Suc)
  then show "int_to_char 1 N = Goes (decimal N @ [0])"
    by (simp add: int_to_char_def split_digits_enough reverse_digits_enough)
  show "int_to_char 0 N = Wrong"
  proof (cases "N = 0")
    case True
    then show ?thesis by (simp add: int_to_char_def digits.simps split_digits.simps reverse_digits.simps)
  next
    case False
    then show ?thesis using split_digits_short [of "replicate (digits N) 0" 0 N] by (simp add: int_to_char_def)
  qed
qed

lemma read_params_bound:
  "read_params idx xs params = Wrong \<longleftrightarrow> length params < idx + length xs \<and> xs \<noteq> []"
  by (induction xs arbitrary: idx params) auto

lemma get_params_bound: "get_params file = Wrong \<longleftrightarrow> n_params < length file"
  by (auto simp: get_params_def read_params_bound)

end
