(* ===== verification/Ide.thy ===== *)
theory Ide
  imports Bio Log
begin

unbundle bit_operations_syntax

text \<open>
  The disk driver (\<open>ide.c\<close>) behind the contract \<open>iderw\<close> that the buffer cache uses: the queue of requests as a
  list linked through the buffers, the command written to the ports for the first of them, the interrupt that
  completes it and starts the next. The functions run with \<open>idelock\<close> held, so each is one step. The device is a
  parameter: the values its status register gives when it is read, and the data it delivers.
\<close>

subsection \<open>Driver\<close>

datatype port = Outb u32 u8 | Outsl u32 "u8 list"

record ide =
  ide_bufs :: "nat \<Rightarrow> buf"
  idequeue :: "nat option"
  qnext :: "nat \<Rightarrow> nat option"
  havedisk1 :: bool
  ports :: "port list"

definition SECTOR_SIZE :: nat where "SECTOR_SIZE = 512"
definition IDE_BSY :: u8 where "IDE_BSY = 0x80"
definition IDE_DRDY :: u8 where "IDE_DRDY = 0x40"
definition IDE_DF :: u8 where "IDE_DF = 0x20"
definition IDE_ERR :: u8 where "IDE_ERR = 0x01"
definition IDE_CMD_READ :: u8 where "IDE_CMD_READ = 0x20"
definition IDE_CMD_WRITE :: u8 where "IDE_CMD_WRITE = 0x30"
definition IDE_CMD_RDMUL :: u8 where "IDE_CMD_RDMUL = 0xc4"
definition IDE_CMD_WRMUL :: u8 where "IDE_CMD_WRMUL = 0xc5"
definition FSSIZE :: u32 where "FSSIZE = 1000"

text \<open>\<open>idewait\<close>: \<open>status\<close> lists what the reads of the status register give; the loop goes on while it is not ready.\<close>

fun idewait :: "bool \<Rightarrow> u8 list \<Rightarrow> int kres" where
  "idewait checkerr [] = Inl Spin"
| "idewait checkerr (r # status) =
     (if r AND (IDE_BSY OR IDE_DRDY) \<noteq> IDE_DRDY then idewait checkerr status
      else if checkerr \<and> r AND (IDE_DF OR IDE_ERR) \<noteq> 0 then Inr (-1) else Inr 0)"

text \<open>The loop of \<open>ideinit\<close> that looks for disk 1, with what up to 1000 reads give.\<close>

definition find_disk1 :: "u8 list \<Rightarrow> bool" where
  "find_disk1 status \<longleftrightarrow> (\<exists>r\<in>set (take 1000 status). r \<noteq> 0)"

definition ideinit :: "u8 list \<Rightarrow> u8 list \<Rightarrow> ide \<Rightarrow> ide kres" where
  "ideinit status probe s =
     kbind (idewait False status) (\<lambda>_.
       Inr (s\<lparr>havedisk1 := find_disk1 probe \<or> havedisk1 s,
              ports := ports s @ [Outb 0x1f6 (0xe0 OR push_bit 4 1), Outb 0x1f6 (0xe0 OR push_bit 4 0)]\<rparr>))"

definition start_ports :: "buf \<Rightarrow> port list" where
  "start_ports b =
     (let sector_per_block = of_nat (BSIZE div SECTOR_SIZE) :: u32;
          sector = b_blockno b * sector_per_block;
          read_cmd = if sector_per_block = 1 then IDE_CMD_READ else IDE_CMD_RDMUL;
          write_cmd = if sector_per_block = 1 then IDE_CMD_WRITE else IDE_CMD_WRMUL
      in [Outb 0x3f6 0,
          Outb 0x1f2 (ucast sector_per_block),
          Outb 0x1f3 (ucast (sector AND 0xff)),
          Outb 0x1f4 (ucast (drop_bit 8 sector AND 0xff)),
          Outb 0x1f5 (ucast (drop_bit 16 sector AND 0xff)),
          Outb 0x1f6 (0xe0 OR push_bit 4 (ucast (b_dev b AND 1)) OR ucast (drop_bit 24 sector AND 0x0f))] @
         (if b_dirty b then [Outb 0x1f7 write_cmd, Outsl 0x1f0 (b_data b)] else [Outb 0x1f7 read_cmd]))"

definition idestart :: "u8 list \<Rightarrow> nat option \<Rightarrow> ide \<Rightarrow> ide kres" where
  "idestart status p s =
     (case p of
        None \<Rightarrow> Inl (Panic ''idestart'')
      | Some i \<Rightarrow>
          if FSSIZE \<le> b_blockno (ide_bufs s i) then Inl (Panic ''incorrect blockno'')
          else if 7 < BSIZE div SECTOR_SIZE then Inl (Panic ''idestart'')
          else kbind (idewait False status) (\<lambda>_. Inr (s\<lparr>ports := ports s @ start_ports (ide_bufs s i)\<rparr>)))"

text \<open>
  The interrupt: \<open>status\<close> is what the wait before the transfer reads, \<open>status'\<close> the wait before the next start,
  \<open>din\<close> the block the device delivers. With the new state comes the buffer whose sleepers are woken.
\<close>

definition ideintr :: "u8 list \<Rightarrow> u8 list \<Rightarrow> u8 list \<Rightarrow> ide \<Rightarrow> (nat option \<times> ide) kres" where
  "ideintr status status' din s =
     (case idequeue s of
        None \<Rightarrow> Inr (None, s)
      | Some i \<Rightarrow>
          let s = s\<lparr>idequeue := qnext s i\<rparr>; b = ide_bufs s i in
          kbind (if b_dirty b then Inr b
                 else kbind (idewait True status) (\<lambda>r. Inr (if 0 \<le> r then b\<lparr>b_data := din\<rparr> else b))) (\<lambda>b.
          let s = s\<lparr>ide_bufs := (ide_bufs s)(i := b\<lparr>b_valid := True, b_dirty := False\<rparr>)\<rparr> in
          if idequeue s \<noteq> None then kbind (idestart status' (idequeue s) s) (\<lambda>s. Inr (Some i, s))
          else Inr (Some i, s)))"

text \<open>The walk to the end of the queue, for at most \<open>fuel\<close> links, and the request as far as its sleep.\<close>

fun queue_end :: "(nat \<Rightarrow> nat option) \<Rightarrow> nat \<Rightarrow> nat \<Rightarrow> nat option" where
  "queue_end nx 0 i = None"
| "queue_end nx (Suc fuel) i = (case nx i of None \<Rightarrow> Some i | Some j \<Rightarrow> queue_end nx fuel j)"

definition append_queue :: "nat \<Rightarrow> nat \<Rightarrow> ide \<Rightarrow> ide kres" where
  "append_queue fuel i s =
     (let s = s\<lparr>qnext := (qnext s)(i := None)\<rparr> in
      case idequeue s of
        None \<Rightarrow> Inr (s\<lparr>idequeue := Some i\<rparr>)
      | Some h \<Rightarrow>
          (case queue_end (qnext s) fuel h of
             None \<Rightarrow> Inl Spin
           | Some l \<Rightarrow> Inr (s\<lparr>qnext := (qnext s)(l := Some i)\<rparr>)))"

definition iderw_enter :: "nat \<Rightarrow> u32 \<Rightarrow> nat \<Rightarrow> u8 list \<Rightarrow> ide \<Rightarrow> ide kres" where
  "iderw_enter fuel pid i status s =
     (let b = ide_bufs s i in
      if \<not> holdingsleep pid (b_lock b) then Inl (Panic ''iderw: buf not locked'')
      else if b_valid b \<and> \<not> b_dirty b then Inl (Panic ''iderw: nothing to do'')
      else if b_dev b \<noteq> 0 \<and> \<not> havedisk1 s then Inl (Panic ''iderw: ide disk 1 not present'')
      else kbind (append_queue fuel i s) (\<lambda>s. if idequeue s = Some i then idestart status (Some i) s else Inr s))"

text \<open>The condition of the loop around \<open>sleep\<close>.\<close>

definition iderw_waits :: "nat \<Rightarrow> ide \<Rightarrow> bool" where
  "iderw_waits i s \<longleftrightarrow> \<not> (b_valid (ide_bufs s i) \<and> \<not> b_dirty (ide_bufs s i))"

subsection \<open>What the device is told\<close>

text \<open>A command as the registers of the device describe it when the command register is written.\<close>

datatype dcmd = DRead bool nat | DWrite bool nat "u8 list"

type_synonym regs = "u32 \<Rightarrow> u8"

definition lba :: "regs \<Rightarrow> nat" where
  "lba r = unat (r 0x1f3) + 256 * unat (r 0x1f4) + 65536 * unat (r 0x1f5) + 16777216 * (unat (r 0x1f6) mod 16)"

fun hear :: "port \<Rightarrow> regs \<times> dcmd list \<Rightarrow> regs \<times> dcmd list" where
  "hear (Outb p v) (r, cs) =
     (if p \<noteq> 0x1f7 then (r(p := v), cs)
      else if v = IDE_CMD_READ then (r, cs @ [DRead (bit (r 0x1f6) 4) (lba r)])
      else if v = IDE_CMD_WRITE then (r, cs @ [DWrite (bit (r 0x1f6) 4) (lba r) []])
      else (r, cs))"
| "hear (Outsl p d) (r, cs) =
     (if cs = [] then (r, cs)
      else case last cs of DWrite u n e \<Rightarrow> (r, butlast cs @ [DWrite u n (e @ d)]) | _ \<Rightarrow> (r, cs))"

definition heard :: "port list \<Rightarrow> dcmd list" where
  "heard ps = snd (fold hear ps (\<lambda>_. 0, []))"

definition request :: "buf \<Rightarrow> dcmd" where
  "request b =
     (if b_dirty b then DWrite (bit (b_dev b) 0) (unat (b_blockno b)) (b_data b)
      else DRead (bit (b_dev b) 0) (unat (b_blockno b)))"

lemma sector_bytes:
  assumes "x < FSSIZE"
  shows "unat (ucast (x AND 0xff) :: u8) + 256 * unat (ucast (drop_bit 8 x AND 0xff) :: u8) = unat x"
    and "(ucast (drop_bit 16 x AND 0xff) :: u8) = 0" and "(ucast (drop_bit 24 x AND 0x0f) :: u8) = 0"
proof -
  have n: "unat x < 1000" using assms by (simp add: FSSIZE_def word_less_nat_alt)
  have m: "(y :: u32) AND 0xff = take_bit 8 y" for y by (simp add: take_bit_eq_mask mask_eq_exp_minus_1)
  have d: "drop_bit k x = 0" if "16 \<le> k" for k
  proof -
    have "(65536 :: nat) \<le> 2 ^ k" using power_increasing [of 16 k "2 :: nat"] that by simp
    then have "unat x div 2 ^ k = 0" using n by (intro div_less) linarith
    then have "unat (drop_bit k x) = 0" by (simp only: unat_drop_bit_eq drop_bit_eq_div [of k "unat x"])
    then show ?thesis by (simp only: unat_eq_0)
  qed
  show "(ucast (drop_bit 16 x AND 0xff) :: u8) = 0" "(ucast (drop_bit 24 x AND 0x0f) :: u8) = 0" by (simp_all add: d)
  have u: "unat (ucast (y AND 0xff) :: u8) = unat y mod 256" for y :: u32
    unfolding m by (simp add: unsigned_ucast_eq unsigned_take_bit_eq) (simp add: take_bit_eq_mod)
  show "unat (ucast (x AND 0xff) :: u8) + 256 * unat (ucast (drop_bit 8 x AND 0xff) :: u8) = unat x"
    unfolding u unat_drop_bit_eq using n by (simp add: drop_bit_eq_div [of _ "unat x"])
qed

text \<open>The ports written for a buffer are the command for it.\<close>

lemma hear_start:
  assumes "b_blockno b < FSSIZE"
  shows "snd (fold hear (start_ports b) (r, cs)) = cs @ [request b]"
proof -
  note z = sector_bytes [OF assms]
  have one: "BSIZE div SECTOR_SIZE = 1" by (simp add: BSIZE_def SECTOR_SIZE_def)
  have r6: "bit (0xe0 OR push_bit 4 (ucast (d AND 1)) OR 0 :: u8) 4 = bit d 0"
    "unat (0xe0 OR push_bit 4 (ucast (d AND 1)) OR 0 :: u8) mod 16 = 0" for d :: u32
  proof -
    have "d AND 1 = of_bool (bit d 0)" by (simp add: and_one_eq mod_2_eq_odd bit_0)
    then show "bit (0xe0 OR push_bit 4 (ucast (d AND 1)) OR 0 :: u8) 4 = bit d 0"
      "unat (0xe0 OR push_bit 4 (ucast (d AND 1)) OR 0 :: u8) mod 16 = 0" by (cases "bit d 0"; simp)+
  qed
  define x y v where "x = (ucast (b_blockno b AND 0xff) :: u8)" and "y = (ucast (drop_bit 8 (b_blockno b) AND 0xff) :: u8)"
    and "v = (0xe0 OR push_bit 4 (ucast (b_dev b AND 1)) OR 0 :: u8)"
  have l: "unat x + 256 * unat y = unat (b_blockno b)" using z(1) by (simp add: x_def y_def)
  have v: "bit v 4 = bit (b_dev b) 0" "unat v mod 16 = 0" using r6 [of "b_dev b"] by (simp_all add: v_def)
  have "start_ports b = [Outb 0x3f6 0, Outb 0x1f2 1, Outb 0x1f3 x, Outb 0x1f4 y, Outb 0x1f5 0, Outb 0x1f6 v] @
      (if b_dirty b then [Outb 0x1f7 IDE_CMD_WRITE, Outsl 0x1f0 (b_data b)] else [Outb 0x1f7 IDE_CMD_READ])"
    using z by (simp add: start_ports_def one x_def y_def v_def Let_def)
  then show ?thesis using l v by (simp add: lba_def request_def IDE_CMD_WRITE_def IDE_CMD_READ_def)
qed

lemma heard_start: "b_blockno b < FSSIZE \<Longrightarrow> heard (ps @ start_ports b) = heard ps @ [request b]"
  using hear_start [of b "fst (fold hear ps (\<lambda>_. 0, []))" "snd (fold hear ps (\<lambda>_. 0, []))"]
  by (simp add: heard_def)

subsection \<open>The queue\<close>

text \<open>The requests from \<open>p\<close> on, along the links.\<close>

fun qchain :: "(nat \<Rightarrow> nat option) \<Rightarrow> nat option \<Rightarrow> nat list \<Rightarrow> bool" where
  "qchain nx p [] \<longleftrightarrow> p = None"
| "qchain nx p (x # xs) \<longleftrightarrow> p = Some x \<and> qchain nx (nx x) xs"

lemma qchain_frame: "i \<notin> set xs \<Longrightarrow> qchain (nx(i := q)) p xs = qchain nx p xs"
  by (induction xs arbitrary: p) auto

lemma qchain_snoc:
  "xs \<noteq> [] \<Longrightarrow> distinct xs \<Longrightarrow> i \<notin> set xs \<Longrightarrow> nx i = None \<Longrightarrow> qchain nx p xs \<Longrightarrow>
    qchain (nx(last xs := Some i)) p (xs @ [i])"
proof (induction xs arbitrary: p)
  case (Cons x xs)
  show ?case
  proof (cases "xs = []")
    case True
    then show ?thesis using Cons.prems by auto
  next
    case False
    then have "x \<noteq> last xs" using Cons.prems(2) by auto
    then show ?thesis using Cons.IH [of "nx x"] Cons.prems False by simp
  qed
qed simp

lemma queue_end_last:
  "xs \<noteq> [] \<Longrightarrow> qchain nx (Some h) xs \<Longrightarrow> length xs \<le> fuel \<Longrightarrow> queue_end nx fuel h = Some (last xs)"
proof (induction xs arbitrary: h fuel)
  case (Cons x xs)
  then obtain n where n: "fuel = Suc n" by (cases fuel) auto
  show ?case
  proof (cases xs)
    case Nil
    then show ?thesis using Cons.prems n by simp
  next
    case (Cons y ys)
    then have "nx x = Some y" using Cons.prems by simp
    then show ?thesis using Cons.IH [of y n] Cons.prems n Cons by simp
  qed
qed simp

lemma append_queue_chain:
  assumes "qchain (qnext s) (idequeue s) xs" and "distinct xs" and "i \<notin> set xs" and "length xs \<le> fuel"
  shows "\<exists>s'. append_queue fuel i s = Inr s' \<and> qchain (qnext s') (idequeue s') (xs @ [i]) \<and>
    s' = s\<lparr>qnext := qnext s', idequeue := idequeue s'\<rparr> \<and> (idequeue s' = Some i \<longleftrightarrow> xs = [])"
proof (cases xs)
  case Nil
  then show ?thesis using assms(1) by (auto simp: append_queue_def Let_def)
next
  case (Cons h t)
  let ?nx = "(qnext s)(i := None)"
  have c: "qchain ?nx (Some h) xs" using assms(1,3) Cons by (simp add: qchain_frame)
  have "queue_end ?nx fuel h = Some (last xs)" using queue_end_last [OF _ c assms(4)] Cons by simp
  moreover have "qchain (?nx(last xs := Some i)) (Some h) (xs @ [i])" using qchain_snoc [OF _ assms(2,3) _ c] Cons by simp
  moreover have "idequeue s = Some h" "h \<noteq> i" using assms(1,3) Cons by auto
  ultimately show ?thesis using Cons by (simp add: append_queue_def Let_def)
qed

subsection \<open>Requests and interrupts\<close>

text \<open>
  The driver with the history of its requests. A process that holds the lock of a buffer, which is then in no
  request, may have changed it before it makes a request of it; \<open>pending\<close> lists the buffers of the requests that
  are not complete.
\<close>

record disk_sys =
  drv :: ide
  pending :: "nat list"
  history :: "dcmd list"
  completed :: nat

inductive disk_step :: "disk_sys \<Rightarrow> disk_sys \<Rightarrow> bool" where
  disk_request: "i \<notin> set (pending d) \<Longrightarrow> length (pending d) \<le> fuel \<Longrightarrow>
    iderw_enter fuel pid i status ((drv d)\<lparr>ide_bufs := (ide_bufs (drv d))(i := b)\<rparr>) = Inr s \<Longrightarrow> b_blockno b < FSSIZE \<Longrightarrow>
    disk_step d \<lparr>drv = s, pending = pending d @ [i], history = history d @ [request b], completed = completed d\<rparr>"
| disk_interrupt: "ideintr status status' din (drv d) = Inr (w, s) \<Longrightarrow>
    disk_step d \<lparr>drv = s, pending = tl (pending d), history = history d,
      completed = completed d + of_bool (pending d \<noteq> [])\<rparr>"

definition disk_boot :: "bool \<Rightarrow> (nat \<Rightarrow> buf) \<Rightarrow> disk_sys" where
  "disk_boot disk1 bs =
     \<lparr>drv = \<lparr>ide_bufs = bs, idequeue = None, qnext = (\<lambda>_. None), havedisk1 = disk1, ports = []\<rparr>,
      pending = [], history = [], completed = 0\<rparr>"

inductive disk_reach :: "disk_sys \<Rightarrow> disk_sys \<Rightarrow> bool" for d0 where
  disk_refl: "disk_reach d0 d0"
| disk_next: "disk_reach d0 d \<Longrightarrow> disk_step d d' \<Longrightarrow> disk_reach d0 d'"

text \<open>The clauses of the invariant: the links are the pending requests, each is still to do, and the commands.\<close>

definition disk_queue :: "disk_sys \<Rightarrow> bool" where
  "disk_queue d \<longleftrightarrow> qchain (qnext (drv d)) (idequeue (drv d)) (pending d) \<and> distinct (pending d)"

definition disk_todo :: "disk_sys \<Rightarrow> bool" where
  "disk_todo d \<longleftrightarrow> (\<forall>i\<in>set (pending d). iderw_waits i (drv d) \<and> b_blockno (ide_bufs (drv d) i) < FSSIZE)"

definition disk_commands :: "disk_sys \<Rightarrow> bool" where
  "disk_commands d \<longleftrightarrow> completed d \<le> length (history d) \<and>
     map (\<lambda>i. request (ide_bufs (drv d) i)) (pending d) = drop (completed d) (history d) \<and>
     heard (ports (drv d)) = take (completed d + of_bool (pending d \<noteq> [])) (history d)"

definition driver_ok :: "disk_sys \<Rightarrow> bool" where
  "driver_ok d \<longleftrightarrow> disk_queue d \<and> disk_todo d \<and> disk_commands d"

lemmas disk_defs = disk_queue_def disk_todo_def disk_commands_def

lemma disk_boot_ok: "driver_ok (disk_boot disk1 bs)"
  by (simp add: driver_ok_def disk_defs disk_boot_def heard_def)

lemma idestart_Inr:
  "idestart status (Some i) s = Inr s' \<Longrightarrow> s' = s\<lparr>ports := ports s @ start_ports (ide_bufs s i)\<rparr>"
  by (auto simp: idestart_def kres_simps split: if_splits)

lemma iderw_enter_ok:
  assumes "driver_ok d" and i: "i \<notin> set (pending d)" and "length (pending d) \<le> fuel"
    and e: "iderw_enter fuel pid i status ((drv d)\<lparr>ide_bufs := (ide_bufs (drv d))(i := b)\<rparr>) = Inr s"
    and b: "b_blockno b < FSSIZE"
  shows "driver_ok \<lparr>drv = s, pending = pending d @ [i], history = history d @ [request b], completed = completed d\<rparr>"
proof -
  let ?s = "(drv d)\<lparr>ide_bufs := (ide_bufs (drv d))(i := b)\<rparr>"
  have q: "qchain (qnext ?s) (idequeue ?s) (pending d)" "distinct (pending d)"
    using assms(1) by (simp_all add: driver_ok_def disk_queue_def)
  obtain s1 where s1: "append_queue fuel i ?s = Inr s1" "qchain (qnext s1) (idequeue s1) (pending d @ [i])"
    "s1 = ?s\<lparr>qnext := qnext s1, idequeue := idequeue s1\<rparr>" "idequeue s1 = Some i \<longleftrightarrow> pending d = []"
    using append_queue_chain [OF q i assms(3)] by blast
  have f: "ide_bufs s1 = (ide_bufs (drv d))(i := b)" "ports s1 = ports (drv d)"
    using arg_cong [OF s1(3), of ide_bufs] arg_cong [OF s1(3), of ports] by simp_all
  have w: "\<not> (b_valid b \<and> \<not> b_dirty b)"
    and st: "(if idequeue s1 = Some i then idestart status (Some i) s1 else Inr s1) = Inr s"
    using e s1(1) by (simp_all add: iderw_enter_def Let_def split: if_splits)
  have s: "ide_bufs s = (ide_bufs (drv d))(i := b)" "qchain (qnext s) (idequeue s) (pending d @ [i])"
    "ports s = ports (drv d) @ (if pending d = [] then start_ports b else [])"
    using st s1(2,4) f idestart_Inr [of status i s1 s] by (auto split: if_splits)
  have m: "map (\<lambda>j. request (ide_bufs s j)) (pending d) = map (\<lambda>j. request (ide_bufs (drv d) j)) (pending d)"
    using i s(1) by (intro map_cong) auto
  have h: "heard (ports s) = take (completed d + 1) (history d @ [request b])"
  proof (cases "pending d = []")
    case True
    then have "completed d = length (history d)" using assms(1) by (auto simp: driver_ok_def disk_commands_def)
    then show ?thesis using True s(3) assms(1) heard_start [OF b] by (simp add: driver_ok_def disk_commands_def)
  next
    case False
    then have "completed d < length (history d)"
      using assms(1) by (metis driver_ok_def disk_commands_def drop_all leI map_is_Nil_conv)
    then show ?thesis using False s(3) assms(1) by (simp add: driver_ok_def disk_commands_def)
  qed
  let ?d = "\<lparr>drv = s, pending = pending d @ [i], history = history d @ [request b], completed = completed d\<rparr>"
  have "disk_queue ?d" using s(2) q(2) i by (simp add: disk_queue_def)
  moreover have "disk_todo ?d" using assms(1) w b s(1) by (auto simp: driver_ok_def disk_todo_def iderw_waits_def)
  moreover have "disk_commands ?d" using assms(1) m h s(1) by (simp add: driver_ok_def disk_commands_def)
  ultimately show ?thesis by (simp add: driver_ok_def)
qed

lemma idewait_values: "idewait checkerr status = Inr r \<Longrightarrow> r = 0 \<or> r = -1"
  by (induction status) (auto split: if_splits)

text \<open>The interrupt completes the first request and starts the second.\<close>

lemma ideintr_Inr:
  assumes "ideintr status status' din s = Inr (w, s')" and "idequeue s = Some i"
  obtains b where "ide_bufs s' = (ide_bufs s)(i := b\<lparr>b_valid := True, b_dirty := False\<rparr>)" "w = Some i"
    "b = (if b_dirty (ide_bufs s i) \<or> idewait True status = Inr (-1) then ide_bufs s i else (ide_bufs s i)\<lparr>b_data := din\<rparr>)"
    "qnext s' = qnext s" "idequeue s' = qnext s i"
    "ports s' = ports s @ (case qnext s i of None \<Rightarrow> [] | Some j \<Rightarrow> start_ports (ide_bufs s' j))"
proof -
  let ?b = "ide_bufs s i"
  obtain b where b: "(if b_dirty ?b then Inr ?b
      else kbind (idewait True status) (\<lambda>r. Inr (if 0 \<le> r then ?b\<lparr>b_data := din\<rparr> else ?b))) = Inr b"
    and r: "(let s = s\<lparr>idequeue := qnext s i, ide_bufs := (ide_bufs s)(i := b\<lparr>b_valid := True, b_dirty := False\<rparr>)\<rparr> in
          if idequeue s \<noteq> None then kbind (idestart status' (idequeue s) s) (\<lambda>s. Inr (Some i, s))
          else Inr (Some i, s)) = Inr (w, s')"
    using assms by (auto simp: ideintr_def Let_def kres_simps cong: if_cong)
  have "b = (if b_dirty ?b \<or> idewait True status = Inr (-1) then ?b else ?b\<lparr>b_data := din\<rparr>)"
    using b idewait_values [of True status] by (auto simp: kres_simps split: if_splits)
  moreover have "ide_bufs s' = (ide_bufs s)(i := b\<lparr>b_valid := True, b_dirty := False\<rparr>)" "w = Some i"
    "qnext s' = qnext s" "idequeue s' = qnext s i"
    "ports s' = ports s @ (case qnext s i of None \<Rightarrow> [] | Some j \<Rightarrow> start_ports (ide_bufs s' j))"
    using r by (auto simp: Let_def kres_simps dest!: idestart_Inr split: if_splits option.splits)
  ultimately show ?thesis using that by blast
qed

lemma ideintr_ok:
  assumes ok: "driver_ok d" and e: "ideintr status status' din (drv d) = Inr (w, s)"
  shows "driver_ok \<lparr>drv = s, pending = tl (pending d), history = history d,
    completed = completed d + of_bool (pending d \<noteq> [])\<rparr>"
proof (cases "pending d")
  case Nil
  then have "idequeue (drv d) = None" using ok by (simp add: driver_ok_def disk_queue_def)
  then have "s = drv d" using e by (simp add: ideintr_def)
  then show ?thesis using Nil ok by (simp add: driver_ok_def disk_defs)
next
  case (Cons i xs)
  have q: "idequeue (drv d) = Some i" "qchain (qnext (drv d)) (qnext (drv d) i) xs" "distinct xs" "i \<notin> set xs"
    using ok Cons by (simp_all add: driver_ok_def disk_queue_def)
  from e q(1) obtain b where s: "ide_bufs s = (ide_bufs (drv d))(i := b\<lparr>b_valid := True, b_dirty := False\<rparr>)"
    "qnext s = qnext (drv d)" "idequeue s = qnext (drv d) i"
    "ports s = ports (drv d) @ (case qnext (drv d) i of None \<Rightarrow> [] | Some j \<Rightarrow> start_ports (ide_bufs s j))"
    by (rule ideintr_Inr) blast
  have old: "ide_bufs s j = ide_bufs (drv d) j" if "j \<in> set xs" for j using that q(4) s(1) by auto
  then have m: "map (\<lambda>j. request (ide_bufs s j)) xs = map (\<lambda>j. request (ide_bufs (drv d) j)) xs"
    by (intro map_cong) simp_all
  have dr: "drop (completed d) (history d) = request (ide_bufs (drv d) i) # map (\<lambda>j. request (ide_bufs (drv d) j)) xs"
    and he: "heard (ports (drv d)) = take (completed d + 1) (history d)"
    using ok Cons by (simp_all add: driver_ok_def disk_commands_def)
  have le: "completed d < length (history d)" using dr by (metis drop_all leI list.distinct(1))
  have dr': "drop (completed d + 1) (history d) = map (\<lambda>j. request (ide_bufs (drv d) j)) xs"
    using dr by (metis drop_Suc tl_drop list.sel(3) Suc_eq_plus1)
  have "heard (ports s) = take (completed d + 1 + of_bool (xs \<noteq> [])) (history d)"
  proof (cases xs)
    case Nil
    then show ?thesis using q(2) s(4) he by simp
  next
    case (Cons j ys)
    then have j: "qnext (drv d) i = Some j" "b_blockno (ide_bufs s j) < FSSIZE"
      using q(2) ok old [of j] \<open>pending d = i # xs\<close> by (simp_all add: driver_ok_def disk_todo_def)
    have "history d ! (completed d + 1) = request (ide_bufs s j)" "completed d + 1 < length (history d)"
      using dr' Cons old [of j] by (metis nth_via_drop list.simps(9) list.set_intros(1), metis drop_all leI list.distinct(1) list.simps(9))
    then show ?thesis using Cons j he s(4) heard_start [OF j(2)] by (simp add: take_Suc_conv_app_nth)
  qed
  then show ?thesis
    using Cons ok q s m dr' le old by (simp add: driver_ok_def disk_defs iderw_waits_def)
qed

lemma disk_reach_ok: "disk_reach (disk_boot disk1 bs) d \<Longrightarrow> driver_ok d"
proof (induction rule: disk_reach.induct)
  case (disk_next d d')
  from disk_next.hyps(2) disk_next.IH show ?case
  proof (cases rule: disk_step.cases)
    case (disk_request i fuel pid status b s)
    then show ?thesis using iderw_enter_ok [OF disk_next.IH] by simp
  next
    case (disk_interrupt status status' din w s)
    then show ?thesis using ideintr_ok [OF disk_next.IH disk_interrupt(2)] by simp
  qed
qed (rule disk_boot_ok)

text \<open>
  C29. The disk serves requests in order, one at a time. In every sequence of requests and interrupts from the
  start of the system, the commands the device has been given, read back from the writes to its ports, are the
  requests in the order they were made, up to the one in progress. The interrupt then completes the first
  pending request: its buffer becomes valid and clean, so the process that waits for it goes on, it holds the
  data the device delivered if it was read, no other buffer changes, and the next request is started. A read
  that the device reports as failed leaves the old data in the buffer and marks it valid all the same.
\<close>

theorem disk_in_order:
  assumes "disk_reach (disk_boot disk1 bs) d" and "pending d = i # is"
    and "ideintr status status' din (drv d) = Inr (w, s)"
  shows "heard (ports (drv d)) = take (completed d + 1) (history d) \<and>
    heard (ports s) = take (completed d + 1 + of_bool (is \<noteq> [])) (history d) \<and> w = Some i \<and>
    \<not> iderw_waits i s \<and> ide_bufs s = (ide_bufs (drv d))(i := ide_bufs s i) \<and>
    b_data (ide_bufs s i) =
      (if b_dirty (ide_bufs (drv d) i) \<or> idewait True status = Inr (-1) then b_data (ide_bufs (drv d) i) else din)"
proof -
  note ok = disk_reach_ok [OF assms(1)]
  have q: "idequeue (drv d) = Some i" using ok assms(2) by (simp add: driver_ok_def disk_queue_def)
  have "heard (ports (drv d)) = take (completed d + 1) (history d)" using ok assms(2) by (simp add: driver_ok_def disk_commands_def)
  moreover have "heard (ports s) = take (completed d + 1 + of_bool (is \<noteq> [])) (history d)"
    using ideintr_ok [OF ok assms(3)] assms(2) by (simp add: driver_ok_def disk_commands_def)
  ultimately show ?thesis
    using assms(3) q by (auto elim!: ideintr_Inr simp: iderw_waits_def)
qed

text \<open>Two requests, a write of block 5 and a read of block 300 of disk 0, and the interrupt that ends the write.\<close>

definition sample_buf :: "bool \<Rightarrow> u32 \<Rightarrow> buf" where
  "sample_buf dirty n =
     \<lparr>b_valid = False, b_dirty = dirty, b_dev = 0, b_blockno = n, b_lock = \<lparr>sl_locked = True, sl_pid = 7\<rparr>,
      b_refcnt = 1, b_data = [1, 2]\<rparr>"

lemma disk_in_order_witness:
  "\<exists>d w s. disk_reach (disk_boot False (\<lambda>_. sample_buf False 0)) d \<and> ideintr [0x40] [0x40] [9] (drv d) = Inr (w, s) \<and>
    heard (ports s) = [DWrite False 5 [1, 2], DRead False 300] \<and> w = Some 0"
proof -
  let ?d0 = "disk_boot False (\<lambda>_. sample_buf False 0)"
  define s1 s2 where "s1 = \<lparr>ide_bufs = (\<lambda>_. sample_buf False 0)(0 := sample_buf True 5), idequeue = Some 0,
      qnext = \<lambda>_. None, havedisk1 = False, ports = start_ports (sample_buf True 5)\<rparr>"
    and "s2 = s1\<lparr>ide_bufs := (ide_bufs s1)(1 := sample_buf False 300), qnext := (\<lambda>_. None)(0 := Some 1)\<rparr>"
  let ?d1 = "\<lparr>drv = s1, pending = [0], history = [request (sample_buf True 5)], completed = 0\<rparr>"
  let ?d2 = "\<lparr>drv = s2, pending = [0, 1], history = [request (sample_buf True 5), request (sample_buf False 300)], completed = 0\<rparr>"
  note ev = iderw_enter_def append_queue_def idestart_def sample_buf_def holdingsleep_def FSSIZE_def BSIZE_def SECTOR_SIZE_def
    IDE_BSY_def IDE_DRDY_def IDE_DF_def IDE_ERR_def Let_def
  have "iderw_enter 5 7 0 [0x40] ((drv ?d0)\<lparr>ide_bufs := (ide_bufs (drv ?d0))(0 := sample_buf True 5)\<rparr>) = Inr s1"
    by (simp add: ev disk_boot_def s1_def)
  from disk_request [OF _ _ this] have "disk_step ?d0 ?d1" by (simp add: disk_boot_def sample_buf_def FSSIZE_def)
  moreover have "iderw_enter 5 7 1 [0x40] ((drv ?d1)\<lparr>ide_bufs := (ide_bufs (drv ?d1))(1 := sample_buf False 300)\<rparr>) = Inr s2"
    by (simp add: ev s1_def s2_def eval_nat_numeral)
  from disk_request [OF _ _ this] have "disk_step ?d1 ?d2" by (simp add: sample_buf_def FSSIZE_def)
  ultimately have d2: "disk_reach ?d0 ?d2" by (meson disk_refl disk_next)
  obtain w s where e: "ideintr [0x40] [0x40] [9] (drv ?d2) = Inr (w, s)"
    by (simp add: ideintr_def s1_def s2_def ev)
  then show ?thesis using disk_in_order [OF d2 _ e] d2 by (auto simp: request_def sample_buf_def)
qed

end
