(* ===== verification/Online.thy ===== *)
theory Online
  imports Sysfile
begin

text \<open>
  The system calls of \<open>src/online_2\<close>: \<open>addi\<close>, which sums an array of the caller, \<open>atta\<close>, a fixed number of steps
  of a linear congruential generator, and two that return a number. A variable that a failed \<open>argint\<close> or \<open>argptr\<close>
  leaves undefined is an argument of the model.
\<close>

definition sys_getsize :: "('d, 'z) sysst_scheme \<Rightarrow> u32" where
  "sys_getsize s = us_sz s"

definition sys_papachari :: u32 where
  "sys_papachari = 1705108"

fun addi_loop :: "memory \<Rightarrow> u32 \<Rightarrow> nat \<Rightarrow> nat \<Rightarrow> u32 \<Rightarrow> u32" where
  "addi_loop m arr i 0 acc = acc"
| "addi_loop m arr i (Suc n) acc = addi_loop m arr (Suc i) n (acc + load32 m (arr + 4 * of_nat i))"

definition sys_addi :: "u32 \<Rightarrow> u32 \<Rightarrow> ('d, 'z) sysst_scheme \<Rightarrow> u32" where
  "sys_addi size0 arr0 s =
     (let cells = (case argint 0 s of None \<Rightarrow> size0 | Some x \<Rightarrow> x);
          arr = (case argptr 1 4 s of None \<Rightarrow> arr0 | Some x \<Rightarrow> x)
      in addi_loop (us_mem s) arr 0 (nat (sint cells)) 0)"

fun atta_loop :: "nat \<Rightarrow> u32 \<Rightarrow> u32" where
  "atta_loop 0 xn = xn"
| "atta_loop (Suc n) xn = atta_loop n ((5 * xn + 11) mod 1705108)"

definition sys_atta :: u32 where
  "sys_atta = atta_loop 500 1705108"

subsection \<open>What they return\<close>

text \<open>
  The sum wraps around at 32 bits. The words read are as many as the caller says, although the check of the
  pointer covers the first of them only.
\<close>

lemma addi_loop_sum:
  "addi_loop m arr i n acc = acc + sum_list (map (\<lambda>k. load32 m (arr + 4 * of_nat k)) [i..<i + n])"
proof (induction n arbitrary: i acc)
  case (Suc n)
  have "[i..<i + Suc n] = i # [Suc i..<Suc i + n]" by (simp add: upt_conv_Cons)
  then show ?case by (simp only: addi_loop.simps Suc.IH) (simp add: add.assoc)
qed simp

lemma sys_addi_sum:
  assumes "argint 0 s = Some cells" and "argptr 1 4 s = Some arr" and "0 \<le> sint cells"
  shows "sys_addi g h s = sum_list (map (\<lambda>k. load32 (us_mem s) (arr + 4 * of_nat k)) [0..<nat (sint cells)])"
  using assms by (simp add: sys_addi_def addi_loop_sum)

text \<open>The generator stays in the range of its modulus, so its signed arithmetic never overflows.\<close>

fun lcg :: "nat \<Rightarrow> int \<Rightarrow> int" where
  "lcg 0 x = x"
| "lcg (Suc n) x = lcg n ((5 * x + 11) mod 1705108)"

lemma atta_loop_lcg:
  "uint x \<le> 1705108 \<Longrightarrow> uint (atta_loop n x) = lcg n (uint x)"
proof (induction n arbitrary: x)
  case (Suc n)
  have "uint (5 * x + 11) = 5 * uint x + 11"
    using Suc.prems by (simp add: uint_word_ariths)
  then have "uint ((5 * x + 11) mod 1705108) = (5 * uint x + 11) mod 1705108" by (simp add: uint_mod)
  moreover have "(5 * uint x + 11) mod 1705108 \<le> 1705108" using pos_mod_bound [of 1705108 "5 * uint x + 11"] by simp
  ultimately show ?case using Suc.IH [of "(5 * x + 11) mod 1705108"] by simp
qed simp

lemma sys_atta_lcg: "uint sys_atta = lcg 500 1705108"
  using atta_loop_lcg [of 1705108 500] by (simp add: sys_atta_def)

end
