(* ===== verification/Mkfs.thy ===== *)
theory Mkfs
  imports Dir Ide
begin

text \<open>
  The program that builds the disk image (\<open>mkfs.c\<close>). The image is the list of its sectors; a failed assertion
  and an \<open>exit(1)\<close> are a \<^const>\<open>Panic\<close> with the assertion or the call that failed. What the build host has is
  an argument: for each name on the command line the results of \<open>read\<close>, if the file can be opened. Opening and
  writing the image does not fail. The messages are left out.
\<close>

subsection \<open>The image\<close>

definition NINODES :: u32 where "NINODES = 200"
definition nbitmap :: u32 where "nbitmap = FSSIZE div of_nat (BSIZE * 8) + 1"
definition ninodeblocks :: u32 where "ninodeblocks = NINODES div IPB + 1"
definition nlog :: u32 where "nlog = of_int LOGSIZE"
definition nmeta :: u32 where "nmeta = 2 + nlog + ninodeblocks + nbitmap"
definition nblocks :: u32 where "nblocks = FSSIZE - nmeta"

record imgst =
  sectors :: "block list"
  img_sb :: superblock
  freeinode :: u32
  freeblock :: u32

text \<open>Intel byte order, on a machine that has it.\<close>

definition xshort :: "u16 \<Rightarrow> u16" where
  "xshort x = get16 [ucast x, ucast (drop_bit 8 x)] 0"

definition xint :: "u32 \<Rightarrow> u32" where
  "xint x = get32 [ucast x, ucast (drop_bit 8 x), ucast (drop_bit 16 x), ucast (drop_bit 24 x)] 0"

text \<open>A write behind the end of the file fills the gap with zeros; a read there returns nothing.\<close>

definition wsect :: "u32 \<Rightarrow> block \<Rightarrow> imgst \<Rightarrow> imgst" where
  "wsect sec buf s = s\<lparr>sectors :=
     (sectors s @ replicate (Suc (unat sec) - length (sectors s)) (replicate BSIZE 0))[unat sec := buf]\<rparr>"

definition rsect :: "u32 \<Rightarrow> imgst \<Rightarrow> block kres" where
  "rsect sec s = (if unat sec < length (sectors s) then Inr (sectors s ! unat sec) else Inl (Panic ''read''))"

definition winode :: "u32 \<Rightarrow> dinode \<Rightarrow> imgst \<Rightarrow> imgst kres" where
  "winode inum ip s =
     (let bn = IBLOCK inum (img_sb s) in
      kbind (rsect bn s) (\<lambda>buf. Inr (wsect bn (put_dinode inum ip buf) s)))"

definition rinode :: "u32 \<Rightarrow> imgst \<Rightarrow> dinode kres" where
  "rinode inum s =
     (let bn = IBLOCK inum (img_sb s) in kbind (rsect bn s) (\<lambda>buf. Inr (get_dinode buf inum)))"

definition mkfs_ialloc :: "u16 \<Rightarrow> imgst \<Rightarrow> (u32 \<times> imgst) kres" where
  "mkfs_ialloc type s =
     (let inum = freeinode s;
          din = zero_dinode\<lparr>d_type := xshort type, d_nlink := xshort 1, d_size := xint 0\<rparr> in
      kbind (winode inum din (s\<lparr>freeinode := inum + 1\<rparr>)) (\<lambda>s. Inr (inum, s)))"

definition mkfs_balloc :: "u32 \<Rightarrow> imgst \<Rightarrow> imgst kres" where
  "mkfs_balloc n s =
     (if \<not> sint n < of_nat (BSIZE * 8) then Inl (Panic ''used < BSIZE*8'')
      else
        let buf = fold (\<lambda>i buf. buf[i div 8 := buf ! (i div 8) OR push_bit (i mod 8) 1]) [0..<nat (sint n)] (replicate BSIZE 0)
        in Inr (wsect (sb_bmapstart (img_sb s)) buf s))"

subsection \<open>Files\<close>

text \<open>\<open>xint(freeblock++)\<close>\<close>

definition next_block :: "imgst \<Rightarrow> u32 \<times> imgst" where
  "next_block s = (xint (freeblock s), s\<lparr>freeblock := freeblock s + 1\<rparr>)"

text \<open>The first half of a turn of the loop of \<open>iappend\<close>: the sector of the block \<open>fbn\<close> of the file.\<close>

definition file_sector :: "u32 \<Rightarrow> dinode \<Rightarrow> imgst \<Rightarrow> (u32 \<times> dinode \<times> imgst) kres" where
  "file_sector fbn din s =
     (let n = unat fbn in
      if n < NDIRECT then
        let (din, s) =
              (if xint (d_addrs din ! n) = 0
               then let (x, s) = next_block s in (din\<lparr>d_addrs := (d_addrs din)[n := x]\<rparr>, s) else (din, s))
        in Inr (xint (d_addrs din ! n), din, s)
      else
        let (din, s) =
              (if xint (d_addrs din ! NDIRECT) = 0
               then let (x, s) = next_block s in (din\<lparr>d_addrs := (d_addrs din)[NDIRECT := x]\<rparr>, s) else (din, s));
            ind = xint (d_addrs din ! NDIRECT); k = 4 * (n - NDIRECT)
        in kbind (rsect ind s) (\<lambda>indirect.
             if get32 indirect k = 0
             then let (x, s) = next_block s; indirect = put32 k x indirect
                  in Inr (xint (get32 indirect k), din, wsect ind indirect s)
             else Inr (xint (get32 indirect k), din, s)))"

text \<open>The bytes of one turn.\<close>

definition room :: "u32 \<Rightarrow> nat \<Rightarrow> nat" where
  "room off n = min n (unat ((off div of_nat BSIZE + 1) * of_nat BSIZE - off))"

lemma room_chunk: "room off n = chunk off n"
proof -
  have d: "off = off div 512 * 512 + off mod 512" by (simp add: word_mod_div_equality)
  have "(off div 512 + 1) * 512 - off = (off div 512 + 1) * 512 - (off div 512 * 512 + off mod 512)"
    using d by argo
  then have e: "(off div 512 + 1) * 512 - off = 512 - off mod 512" by (simp add: algebra_simps)
  have "off mod 512 \<le> 512" by (simp add: word_le_nat_alt unat_mod_distrib less_imp_le)
  then have "unat (512 - off mod 512) = 512 - unat (off mod 512)" by (simp add: unat_sub)
  with e show ?thesis unfolding room_def chunk_def BSIZE_def by (simp only: of_nat_numeral)
qed

function iappend_loop :: "dinode \<Rightarrow> u32 \<Rightarrow> u8 list \<Rightarrow> imgst \<Rightarrow> (dinode \<times> u32 \<times> imgst) kres" where
  "iappend_loop din off p s =
     (if p = [] then Inr (din, off, s)
      else let fbn = off div of_nat BSIZE in
        if \<not> unat fbn < MAXFILE then Inl (Panic ''fbn < MAXFILE'')
        else kbind (file_sector fbn din s) (\<lambda>(x, din, s).
          let n1 = room off (length p); k = unat (off - fbn * of_nat BSIZE) in
          kbind (rsect x s) (\<lambda>buf.
            iappend_loop din (off + of_nat n1) (drop n1 p) (wsect x (take k buf @ take n1 p @ drop (k + n1) buf) s))))"
  by pat_completeness auto
termination
  by (relation "measure (\<lambda>(din, off, p, s). length p)") (auto simp: room_chunk chunk_pos)

declare iappend_loop.simps [simp del]

definition iappend :: "u32 \<Rightarrow> u8 list \<Rightarrow> imgst \<Rightarrow> imgst kres" where
  "iappend inum p s =
     kbind (rinode inum s) (\<lambda>din.
     kbind (iappend_loop din (xint (d_size din)) p s) (\<lambda>(din, off, s).
       winode inum (din\<lparr>d_size := xint off\<rparr>) s))"

text \<open>\<open>while((cc = read(fd, buf, sizeof(buf))) > 0)\<close>\<close>

fun append_reads :: "u32 \<Rightarrow> u8 list list \<Rightarrow> imgst \<Rightarrow> imgst kres" where
  "append_reads inum [] s = Inr s"
| "append_reads inum (buf # reads) s =
     (if buf = [] then Inr s else kbind (iappend inum buf s) (append_reads inum reads))"

subsection \<open>The program\<close>

type_synonym host = "u8 list \<Rightarrow> u8 list list option"

definition host_name :: "u8 list \<Rightarrow> u8 list" where
  "host_name arg = (if first_byte arg = 95 then tl arg else arg)"

definition add_file :: "host \<Rightarrow> u32 \<Rightarrow> u8 list \<Rightarrow> imgst \<Rightarrow> imgst kres" where
  "add_file host rootino arg s =
     (if 47 \<in> set arg then Inl (Panic ''index'')
      else case host arg of
        None \<Rightarrow> Inl (Panic ''open'')
      | Some reads \<Rightarrow>
          kbind (mkfs_ialloc T_FILE s) (\<lambda>(inum, s).
          kbind (iappend rootino (put_dirent \<lparr>de_inum = xshort (ucast inum), de_name = strncpy_bytes DIRSIZ (host_name arg)\<rparr>) s)
            (append_reads inum reads)))"

fun add_files :: "host \<Rightarrow> u32 \<Rightarrow> u8 list list \<Rightarrow> imgst \<Rightarrow> imgst kres" where
  "add_files host rootino [] s = Inr s"
| "add_files host rootino (arg # args) s = kbind (add_file host rootino arg s) (add_files host rootino args)"

definition new_sb :: superblock where
  "new_sb = \<lparr>sb_size = xint FSSIZE, sb_nblocks = xint nblocks, sb_ninodes = xint NINODES, sb_nlog = xint nlog,
     sb_logstart = xint 2, sb_inodestart = xint (2 + nlog), sb_bmapstart = xint (2 + nlog + ninodeblocks)\<rparr>"

definition put_sb :: "superblock \<Rightarrow> block \<Rightarrow> block" where
  "put_sb b = put32s 0 [sb_size b, sb_nblocks b, sb_ninodes b, sb_nlog b, sb_logstart b, sb_inodestart b, sb_bmapstart b]"

text \<open>From the start to the two entries of the root directory.\<close>

definition mkfs_start :: "imgst" where
  "mkfs_start =
     (let s = \<lparr>sectors = [], img_sb = new_sb, freeinode = 1, freeblock = nmeta\<rparr>;
          s = fold (\<lambda>i. wsect (of_nat i) (replicate BSIZE 0)) [0..<unat FSSIZE] s
      in wsect 1 (put_sb new_sb (replicate BSIZE 0)) s)"

definition mkfs_root :: "imgst \<Rightarrow> (u32 \<times> imgst) kres" where
  "mkfs_root s =
     kbind (mkfs_ialloc T_DIR s) (\<lambda>(rootino, s).
     if rootino \<noteq> ROOTINO then Inl (Panic ''rootino == ROOTINO'')
     else
       kbind (iappend rootino (put_dirent \<lparr>de_inum = xshort (ucast rootino), de_name = strncpy_bytes DIRSIZ [46]\<rparr>) s) (\<lambda>s.
       kbind (iappend rootino (put_dirent \<lparr>de_inum = xshort (ucast rootino), de_name = strncpy_bytes DIRSIZ [46, 46]\<rparr>) s) (\<lambda>s.
         Inr (rootino, s))))"

definition mkfs_finish :: "u32 \<Rightarrow> imgst \<Rightarrow> imgst kres" where
  "mkfs_finish rootino s =
     kbind (rinode rootino s) (\<lambda>din.
     let off = xint (d_size din); off = (off div of_nat BSIZE + 1) * of_nat BSIZE in
     kbind (winode rootino (din\<lparr>d_size := xint off\<rparr>) s) (\<lambda>s. mkfs_balloc (freeblock s) s))"

definition mkfs :: "host \<Rightarrow> u8 list list \<Rightarrow> imgst kres" where
  "mkfs host args =
     kbind (mkfs_root mkfs_start) (\<lambda>(rootino, s).
     kbind (add_files host rootino args s) (mkfs_finish rootino))"

end
