(* ===== verification/Layout.thy ===== *)
theory Layout
  imports Bytes
begin

text \<open>
  Where the files of a disk image are, apart from how the image represents it: \<open>R i k\<close> is the sector in the
  place \<open>k\<close> of inode \<open>i\<close> (13 addresses of the inode, then the entries of its indirect block), \<open>Z i\<close> the number
  of bytes, \<open>X\<close> the sectors, and \<open>fb\<close> the first sector that has not been given out. The inode area has 208
  inodes in front of sector 59.
\<close>

text \<open>The place of the sector that holds the block \<open>n\<close> of a file: place 12 is the indirect block.\<close>

definition slot :: "nat \<Rightarrow> nat" where
  "slot n = (if n < 12 then n else n + 1)"

lemma slot_simps [simp]: "slot n \<noteq> 12" "slot n < 141 \<longleftrightarrow> n < 140" "slot n = slot m \<longleftrightarrow> n = m"
  by (auto simp: slot_def split: if_splits)

definition places_ok :: "(nat \<Rightarrow> nat \<Rightarrow> u32) \<Rightarrow> nat \<Rightarrow> bool" where
  "places_ok R fb \<longleftrightarrow> (\<forall>i<208. \<forall>k<141. R i k \<noteq> 0 \<longrightarrow> 59 \<le> unat (R i k) \<and> unat (R i k) < fb \<and>
     (\<forall>j<208. \<forall>l<141. R j l = R i k \<longrightarrow> j = i \<and> l = k))"

definition sectors_ok :: "u8 list list \<Rightarrow> nat \<Rightarrow> bool" where
  "sectors_ok X fb \<longleftrightarrow> length X = 1000 \<and> (\<forall>b<1000. length (X ! b) = 512) \<and> 59 \<le> fb \<and> fb \<le> 1000 \<and>
     (\<forall>b<1000. fb \<le> b \<longrightarrow> X ! b = replicate 512 0)"

definition sizes_ok :: "(nat \<Rightarrow> nat \<Rightarrow> u32) \<Rightarrow> (nat \<Rightarrow> nat) \<Rightarrow> u8 list list \<Rightarrow> bool" where
  "sizes_ok R Z X \<longleftrightarrow> (\<forall>i<208. Z i \<le> 71680 \<and> (\<forall>n<140.
     (512 * n < Z i \<longrightarrow> R i (slot n) \<noteq> 0) \<and>
     (R i (slot n) \<noteq> 0 \<longrightarrow> (\<forall>p<512. Z i \<le> 512 * n + p \<longrightarrow> X ! unat (R i (slot n)) ! p = 0))))"

definition layout_ok :: "(nat \<Rightarrow> nat \<Rightarrow> u32) \<Rightarrow> (nat \<Rightarrow> nat) \<Rightarrow> u8 list list \<Rightarrow> nat \<Rightarrow> bool" where
  "layout_ok R Z X fb \<longleftrightarrow> places_ok R fb \<and> sectors_ok X fb \<and> sizes_ok R Z X"

definition filebyte :: "(nat \<Rightarrow> nat \<Rightarrow> u32) \<Rightarrow> u8 list list \<Rightarrow> nat \<Rightarrow> nat \<Rightarrow> u8" where
  "filebyte R X i p = X ! unat (R i (slot (p div 512))) ! (p mod 512)"

definition contents :: "(nat \<Rightarrow> nat \<Rightarrow> u32) \<Rightarrow> (nat \<Rightarrow> nat) \<Rightarrow> u8 list list \<Rightarrow> nat \<Rightarrow> u8 list" where
  "contents R Z X i = map (filebyte R X i) [0..<Z i]"

lemma places_okD:
  assumes "places_ok R fb" "i < 208" "k < 141" "R i k \<noteq> 0"
  shows "59 \<le> unat (R i k)" "unat (R i k) < fb" "j < 208 \<Longrightarrow> l < 141 \<Longrightarrow> R j l = R i k \<Longrightarrow> j = i \<and> l = k"
  using assms unfolding places_ok_def by blast+

lemma sectors_okD:
  assumes "sectors_ok X fb"
  shows "length X = 1000" "b < 1000 \<Longrightarrow> length (X ! b) = 512" "59 \<le> fb" "fb \<le> 1000"
    "b < 1000 \<Longrightarrow> fb \<le> b \<Longrightarrow> X ! b = replicate 512 0"
  using assms unfolding sectors_ok_def by blast+

lemma sizes_okD:
  assumes "sizes_ok R Z X" "i < 208"
  shows "Z i \<le> 71680" "n < 140 \<Longrightarrow> 512 * n < Z i \<Longrightarrow> R i (slot n) \<noteq> 0"
    "n < 140 \<Longrightarrow> R i (slot n) \<noteq> 0 \<Longrightarrow> p < 512 \<Longrightarrow> Z i \<le> 512 * n + p \<Longrightarrow> X ! unat (R i (slot n)) ! p = 0"
  using assms unfolding sizes_ok_def by blast+

text \<open>The block of a byte below the size.\<close>

lemma byte_block:
  assumes "layout_ok R Z X fb" "i < 208" "p < Z i"
  shows "p div 512 < 140" "R i (slot (p div 512)) \<noteq> 0"
proof -
  have z: "sizes_ok R Z X" using assms(1) by (simp add: layout_ok_def)
  have "Z i \<le> 71680" by (rule sizes_okD(1) [OF z assms(2)])
  then show l: "p div 512 < 140" using assms(3) by linarith
  have "512 * (p div 512) < Z i" using assms(3) by linarith
  then show "R i (slot (p div 512)) \<noteq> 0" using sizes_okD(2) [OF z assms(2) l] by blast
qed

lemma contents_cong:
  assumes "Z' i = Z i" "\<And>p. p < Z i \<Longrightarrow> filebyte R' X' i p = filebyte R X i p"
  shows "contents R' Z' X' i = contents R Z X i"
  using assms by (simp add: contents_def)

subsection \<open>Giving out the next sector\<close>

text \<open>The place \<open>k\<close> of the inode \<open>i\<close> gets the next sector; the indirect block of the inode may change.\<close>

definition assigned ::
    "(nat \<Rightarrow> nat \<Rightarrow> u32) \<Rightarrow> u8 list list \<Rightarrow> nat \<Rightarrow> nat \<Rightarrow> nat \<Rightarrow> (nat \<Rightarrow> nat \<Rightarrow> u32) \<Rightarrow> u8 list list \<Rightarrow> bool" where
  "assigned R X fb i k R' X' \<longleftrightarrow> fb < 1000 \<and> i < 208 \<and> k < 141 \<and> R i k = 0 \<and> R' = R(i := (R i)(k := of_nat fb)) \<and>
     length X' = 1000 \<and> (\<forall>b<1000. length (X' ! b) = 512) \<and>
     (\<forall>b<1000. (R i 12 \<noteq> 0 \<longrightarrow> b \<noteq> unat (R i 12)) \<longrightarrow> X' ! b = X ! b)"

lemma assignedD:
  assumes "assigned R X fb i k R' X'"
  shows "fb < 1000" "i < 208" "k < 141" "R i k = 0" "R' = R(i := (R i)(k := of_nat fb))" "unat (of_nat fb :: u32) = fb"
    and "b < 1000 \<Longrightarrow> R i 12 \<noteq> 0 \<longrightarrow> b \<noteq> unat (R i 12) \<Longrightarrow> X' ! b = X ! b"
proof -
  show f: "fb < 1000" and "i < 208" "k < 141" "R i k = 0" "R' = R(i := (R i)(k := of_nat fb))"
    using assms by (simp_all add: assigned_def)
  show "unat (of_nat fb :: u32) = fb" using f by (simp add: unat_of_nat take_bit_nat_eq_self)
  show "X' ! b = X ! b" if "b < 1000" "R i 12 \<noteq> 0 \<longrightarrow> b \<noteq> unat (R i 12)"
    using assms that unfolding assigned_def by metis
qed

lemma fresh_place:
  assumes "places_ok R fb" "sectors_ok X fb" "assigned R X fb i k R' X'"
  shows "(of_nat fb :: u32) \<noteq> 0" "j < 208 \<Longrightarrow> l < 141 \<Longrightarrow> R j l \<noteq> of_nat fb"
proof -
  note un = assignedD(6) [OF assms(3)]
  show nz: "(of_nat fb :: u32) \<noteq> 0" using sectors_okD(3) [OF assms(2)] un by force
  show "R j l \<noteq> of_nat fb" if "j < 208" "l < 141"
    using places_okD(2) [OF assms(1) that] nz un by force
qed

lemma assigned_places:
  assumes p: "places_ok R fb" and x: "sectors_ok X fb" and a: "assigned R X fb i k R' X'"
  shows "places_ok R' (fb + 1)"
  unfolding places_ok_def
proof (intro allI impI)
  fix j l
  assume j: "j < 208" and l: "l < 141" and nz: "R' j l \<noteq> 0"
  note new = fresh_place [OF p x a] and R' = assignedD(5) [OF a] and un = assignedD(6) [OF a]
  show "59 \<le> unat (R' j l) \<and> unat (R' j l) < fb + 1 \<and> (\<forall>j'<208. \<forall>l'<141. R' j' l' = R' j l \<longrightarrow> j' = j \<and> l' = l)"
  proof (cases "j = i \<and> l = k")
    case True
    then have "R' j l = of_nat fb" by (simp add: R')
    moreover have "j' = i \<and> l' = k" if "R' j' l' = of_nat fb" "j' < 208" "l' < 141" for j' l'
      using that new(2) [of j' l'] by (auto simp: R' split: if_splits)
    ultimately show ?thesis using True sectors_okD(3) [OF x] by (simp add: un)
  next
    case False
    then have e: "R' j l = R j l" by (auto simp: R')
    note r = places_okD [OF p j l nz [unfolded e]]
    have "j' = j \<and> l' = l" if "R' j' l' = R j l" "j' < 208" "l' < 141" for j' l'
      using that new(2) [OF j l] r(3) [of j' l'] by (auto simp: R' split: if_splits)
    then show ?thesis using r(1,2) by (simp add: e)
  qed
qed

lemma assigned_data:
  assumes p: "places_ok R fb" and a: "assigned R X fb i k R' X'" and j: "j < 208" "n < 140" "R j (slot n) \<noteq> 0"
  shows "X' ! unat (R j (slot n)) = X ! unat (R j (slot n))"
proof (rule assignedD(7) [OF a])
  show "unat (R j (slot n)) < 1000" using places_okD(2) [OF p j(1) _ j(3)] j(2) assignedD(1) [OF a] by simp
  show "R i 12 \<noteq> 0 \<longrightarrow> unat (R j (slot n)) \<noteq> unat (R i 12)"
    using places_okD(3) [OF p assignedD(2) [OF a] _ _ j(1), of 12 "slot n"] j(2) by (auto simp: word_unat_eq_iff)
qed

lemma assigned_fresh:
  "places_ok R fb \<Longrightarrow> sectors_ok X fb \<Longrightarrow> assigned R X fb i k R' X' \<Longrightarrow> b < 1000 \<Longrightarrow> fb \<le> b \<Longrightarrow> X' ! b = replicate 512 0"
  using assignedD(7) [of R X fb i k R' X' b] places_okD(2) [of R fb i 12] sectors_okD(5) [of X fb b] assignedD(2) [of R X fb i k R' X']
  by fastforce

lemma assigned_sizes:
  assumes p: "places_ok R fb" and x: "sectors_ok X fb" and z: "sizes_ok R Z X" and a: "assigned R X fb i k R' X'"
  shows "sizes_ok R' Z X'"
  unfolding sizes_ok_def
proof (intro allI impI conjI)
  note R' = assignedD(5) [OF a]
  fix j :: nat and n :: nat
  assume j: "j < 208"
  show "Z j \<le> 71680" by (rule sizes_okD(1) [OF z j])
  assume n: "n < 140"
  show "R' j (slot n) \<noteq> 0" if "512 * n < Z j"
    using sizes_okD(2) [OF z j n that] fresh_place(1) [OF p x a] by (auto simp: R')
  fix q :: nat
  assume r: "R' j (slot n) \<noteq> 0" and q: "q < 512" "Z j \<le> 512 * n + q"
  show "X' ! unat (R' j (slot n)) ! q = 0"
  proof (cases "j = i \<and> slot n = k")
    case True
    then show ?thesis using assigned_fresh [OF p x a assignedD(1) [OF a]] q by (simp add: R' assignedD(6) [OF a])
  next
    case False
    then have e: "R' j (slot n) = R j (slot n)" by (auto simp: R')
    with r show ?thesis using assigned_data [OF p a j n] sizes_okD(3) [OF z j n _ q] by simp
  qed
qed

lemma assigned_ok:
  assumes ok: "layout_ok R Z X fb" and a: "assigned R X fb i k R' X'"
  shows "layout_ok R' Z X' (fb + 1)" and "j < 208 \<Longrightarrow> contents R' Z X' j = contents R Z X j"
proof -
  have p: "places_ok R fb" and x: "sectors_ok X fb" and z: "sizes_ok R Z X" using ok by (simp_all add: layout_ok_def)
  have "sectors_ok X' (fb + 1)"
    using a assigned_fresh [OF p x a] sectors_okD(3) [OF x] by (simp add: sectors_ok_def assigned_def)
  then show "layout_ok R' Z X' (fb + 1)"
    using assigned_places [OF p x a] assigned_sizes [OF p x z a] by (simp add: layout_ok_def)
  show "contents R' Z X' j = contents R Z X j" if j: "j < 208"
  proof (rule contents_cong [OF refl])
    fix q
    assume "q < Z j"
    note b = byte_block [OF ok j this]
    then have "R' j (slot (q div 512)) = R j (slot (q div 512))" using assignedD(4,5) [OF a] by auto
    then show "filebyte R' X' j q = filebyte R X j q" using assigned_data [OF p a j b] by (simp add: filebyte_def)
  qed
qed

subsection \<open>Writing\<close>

text \<open>Bytes are written behind the last one, inside the sector that holds it or comes next.\<close>

definition written :: "(nat \<Rightarrow> nat \<Rightarrow> u32) \<Rightarrow> (nat \<Rightarrow> nat) \<Rightarrow> u8 list list \<Rightarrow> nat \<Rightarrow> u8 list \<Rightarrow> u8 list list \<Rightarrow> bool" where
  "written R Z X i bs X' \<longleftrightarrow> i < 208 \<and> Z i div 512 < 140 \<and> R i (slot (Z i div 512)) \<noteq> 0 \<and> Z i mod 512 + length bs \<le> 512 \<and>
     (let x = unat (R i (slot (Z i div 512))); k = Z i mod 512
      in X' = X[x := take k (X ! x) @ bs @ drop (k + length bs) (X ! x)])"

lemma writtenD:
  assumes "written R Z X i bs X'"
  shows "i < 208" "Z i div 512 < 140" "R i (slot (Z i div 512)) \<noteq> 0" "Z i mod 512 + length bs \<le> 512"
    and "X' = X[unat (R i (slot (Z i div 512))) := take (Z i mod 512) (X ! unat (R i (slot (Z i div 512)))) @ bs @
           drop (Z i mod 512 + length bs) (X ! unat (R i (slot (Z i div 512))))]"
  using assms unfolding written_def Let_def by blast+

lemma written_range:
  assumes "places_ok R fb" "sectors_ok X fb" "written R Z X i bs X'"
  shows "59 \<le> unat (R i (slot (Z i div 512)))" "unat (R i (slot (Z i div 512))) < 1000" "unat (R i (slot (Z i div 512))) < fb"
  using places_okD(1,2) [OF assms(1) writtenD(1) [OF assms(3)] _ writtenD(3) [OF assms(3)]] writtenD(2) [OF assms(3)]
    sectors_okD(4) [OF assms(2)] by auto

lemma written_other:
  assumes p: "places_ok R fb" and w: "written R Z X i bs X'"
    and j: "j < 208" "l < 141" "R j l \<noteq> 0" "\<not> (j = i \<and> l = slot (Z i div 512))"
  shows "X' ! unat (R j l) = X ! unat (R j l)"
proof -
  have "R j l \<noteq> R i (slot (Z i div 512))"
    using places_okD(3) [OF p writtenD(1) [OF w] _ writtenD(3) [OF w] j(1,2)] writtenD(2) [OF w] j(4) by auto
  then have "unat (R i (slot (Z i div 512))) \<noteq> unat (R j l)" by (metis word_unat_eq_iff)
  then show ?thesis by (simp add: writtenD(5) [OF w])
qed

lemma written_own:
  assumes p: "places_ok R fb" and x: "sectors_ok X fb" and w: "written R Z X i bs X'" and q: "q < 512"
  shows "X' ! unat (R i (slot (Z i div 512))) ! q =
    (if Z i mod 512 \<le> q \<and> q < Z i mod 512 + length bs then bs ! (q - Z i mod 512)
     else X ! unat (R i (slot (Z i div 512))) ! q)"
proof -
  define k where "k = Z i mod 512"
  define y where "y = X ! unat (R i (slot (Z i div 512)))"
  have len: "length y = 512" using sectors_okD(2) [OF x written_range(2) [OF p x w]] by (simp add: y_def)
  have "X' ! unat (R i (slot (Z i div 512))) = take k y @ bs @ drop (k + length bs) y"
    using written_range(2) [OF p x w] sectors_okD(1) [OF x] by (simp add: writtenD(5) [OF w] k_def y_def)
  moreover have "k + length bs \<le> 512" using writtenD(4) [OF w] by (simp add: k_def)
  ultimately show ?thesis using q len unfolding k_def [symmetric] y_def [symmetric] by (auto simp: nth_append)
qed

lemma written_sizes:
  assumes p: "places_ok R fb" and x: "sectors_ok X fb" and z: "sizes_ok R Z X" and w: "written R Z X i bs X'"
  shows "sizes_ok R (Z(i := Z i + length bs)) X'"
  unfolding sizes_ok_def
proof (intro allI impI conjI)
  let ?Z = "Z(i := Z i + length bs)"
  note n = writtenD(2) [OF w] and bs = writtenD(4) [OF w]
  fix j :: nat and m :: nat
  assume j: "j < 208"
  have e: "Z i = 512 * (Z i div 512) + Z i mod 512" by simp
  have "Z i + length bs \<le> 71680" using e bs n by linarith
  then show "?Z j \<le> 71680" using sizes_okD(1) [OF z j] by simp
  assume m: "m < 140"
  show "R j (slot m) \<noteq> 0" if a: "512 * m < ?Z j"
  proof (cases "512 * m < Z j")
    case True
    then show ?thesis using sizes_okD(2) [OF z j m] by simp
  next
    case False
    with a have i: "j = i" by (auto split: if_splits)
    have "512 * m < Z i + length bs" "Z i \<le> 512 * m" using a False i by simp_all
    then have "m = Z i div 512" using e bs by linarith
    with i show ?thesis using writtenD(3) [OF w] by simp
  qed
  fix q :: nat
  assume r: "R j (slot m) \<noteq> 0" and q: "q < 512" and le: "?Z j \<le> 512 * m + q"
  show "X' ! unat (R j (slot m)) ! q = 0"
  proof (cases "j = i \<and> m = Z i div 512")
    case True
    with le have "Z i + length bs \<le> 512 * (Z i div 512) + q" by simp
    then have "Z i mod 512 + length bs \<le> q" "Z i \<le> 512 * m + q" using e True by linarith+
    then show ?thesis using written_own [OF p x w q] sizes_okD(3) [OF z j m r q] True by simp
  next
    case False
    moreover have "Z j \<le> 512 * m + q" using le by (auto split: if_splits)
    ultimately show ?thesis using written_other [OF p w j _ r] m sizes_okD(3) [OF z j m r q] by auto
  qed
qed

lemma written_bytes:
  assumes ok: "layout_ok R Z X fb" and w: "written R Z X i bs X'" and q: "q < Z i + length bs"
  shows "filebyte R X' i q = (if q < Z i then filebyte R X i q else bs ! (q - Z i))"
proof -
  have p: "places_ok R fb" and x: "sectors_ok X fb" using ok by (simp_all add: layout_ok_def)
  note own = written_own [OF p x w, of "q mod 512"] and bs = writtenD(4) [OF w]
  consider "q div 512 = Z i div 512" "q < Z i" | "q div 512 \<noteq> Z i div 512" "q < Z i" | "Z i \<le> q" by linarith
  then show ?thesis
  proof cases
    case 1
    then have "q mod 512 < Z i mod 512" by (metis add_less_cancel_left div_mult_mod_eq)
    then show ?thesis using own 1 by (simp add: filebyte_def)
  next
    case 2
    then show ?thesis using written_other [OF p w writtenD(1) [OF w], of "slot (q div 512)"] byte_block [OF ok writtenD(1) [OF w] 2(2)]
      by (simp add: filebyte_def)
  next
    case 3
    then obtain d where d: "q = Z i + d" "d < length bs" using q le_Suc_ex [of "Z i" q] by auto
    have s: "Z i mod 512 + d < 512" using d(2) bs by linarith
    have "q = 512 * (Z i div 512) + (Z i mod 512 + d)" unfolding d(1) by simp
    then have "q div 512 = Z i div 512" "q mod 512 = Z i mod 512 + d"
      using s div_less [OF s] mod_less [OF s] by (metis add.right_neutral div_mult_self4 zero_neq_numeral, metis mod_mult_self4)
    then show ?thesis using own d by (simp add: filebyte_def)
  qed
qed

lemma written_ok:
  assumes ok: "layout_ok R Z X fb" and w: "written R Z X i bs X'" and Z': "Z' = Z(i := Z i + length bs)"
  shows "layout_ok R Z' X' fb" and "contents R Z' X' i = contents R Z X i @ bs"
    and "j < 208 \<Longrightarrow> j \<noteq> i \<Longrightarrow> contents R Z' X' j = contents R Z X j"
proof -
  have p: "places_ok R fb" and x: "sectors_ok X fb" and z: "sizes_ok R Z X" using ok by (simp_all add: layout_ok_def)
  have "sectors_ok X' fb"
    using x written_range(2,3) [OF p x w] writtenD(4) [OF w]
    by (auto simp del: append_take_drop_id simp add: sectors_ok_def writtenD(5) [OF w] nth_list_update)
  then show "layout_ok R Z' X' fb" using p written_sizes [OF p x z w] by (simp add: layout_ok_def Z')
  show "contents R Z' X' i = contents R Z X i @ bs"
    using written_bytes [OF ok w] by (auto simp: contents_def Z' nth_append intro!: nth_equalityI)
  show "contents R Z' X' j = contents R Z X j" if "j < 208" "j \<noteq> i"
    using written_other [OF p w that(1), of "slot (_ div 512)"] byte_block [OF ok that(1)] that(2)
    by (intro contents_cong) (simp_all add: Z' filebyte_def)
qed

end
