(* ===== verification/Image.thy ===== *)
theory Image
  imports FileData Mkfs Layout
begin

text \<open>
  The disk image while \<^theory_text>\<open>Mkfs\<close> builds it: which sectors belong to which inode, and what every step does to the
  contents of the files. Inside \<open>iappend\<close> the inode is in memory, so the invariant is about a family of
  inodes that may differ from the disk in one of them.
\<close>

subsection \<open>What the image says\<close>

lemma xint_id [simp]: "xint x = x"
  by (simp add: xint_def get32_def join32)

lemma xshort_id [simp]: "xshort x = x"
  by (simp add: xshort_def get16_def join16)

lemma new_sb_simps [simp]:
  "sb_size new_sb = 1000" "sb_ninodes new_sb = 200" "sb_inodestart new_sb = 32" "sb_bmapstart new_sb = 58" "nmeta = 59"
  by (simp_all add: new_sb_def FSSIZE_def NINODES_def nlog_def LOGSIZE_def ninodeblocks_def IPB_def nmeta_def nbitmap_def BSIZE_def)

text \<open>The fields of an inode are written and read back; the other inodes of the sector stay.\<close>

definition ioff :: "u32 \<Rightarrow> nat" where
  "ioff inum = 64 * unat (inum mod IPB)"

lemma ioff_le: "ioff inum \<le> 448"
  by (simp add: ioff_def IPB_def unat_mod_distrib)

lemma get_put_dinode:
  assumes "length x = 512" "length (d_addrs d) = 13"
  shows "get_dinode (put_dinode inum d x) inum = d"
proof -
  define k where "k = ioff inum"
  have k: "k \<le> 448" using ioff_le by (simp add: k_def)
  have "map (\<lambda>j. get32 (put_dinode inum d x) (k + 12 + 4 * j)) [0..<13] = d_addrs d"
    using assms k by (intro nth_equalityI) (simp_all add: put_dinode_def ioff_def [symmetric] k_def [symmetric] get32_put32s)
  then show ?thesis
    using assms k by (simp add: get_dinode_def put_dinode_def ioff_def [symmetric] k_def [symmetric] NDIRECT_def
        get32_put32s_before get16_put32s_before get_put_other get16_put16 get32_put32)
qed

lemma put_dinode_other:
  "length (d_addrs d) = 13 \<Longrightarrow> p < ioff inum \<or> ioff inum + 64 \<le> p \<Longrightarrow> put_dinode inum d x ! p = x ! p"
  by (auto simp: put_dinode_def Let_def ioff_def [symmetric] put32s_nth_other put_nth_other)

lemma length_put_dinode [simp]: "length (put_dinode inum d x) = length x"
  by (simp add: put_dinode_def Let_def)

lemma get_dinode_cong:
  assumes "\<And>p. ioff inum \<le> p \<Longrightarrow> p < ioff inum + 64 \<Longrightarrow> x ! p = y ! p"
  shows "get_dinode x inum = get_dinode y inum"
  using assms by (auto simp: get_dinode_def Let_def ioff_def [symmetric] get16_def get32_def NDIRECT_def)

lemma get_other_dinode:
  assumes "ioff i \<noteq> ioff j" "length (d_addrs d) = 13"
  shows "get_dinode (put_dinode i d x) j = get_dinode x j"
proof (rule get_dinode_cong)
  fix p
  assume p: "ioff j \<le> p" "p < ioff j + 64"
  have "ioff i + 64 \<le> ioff j \<or> ioff j + 64 \<le> ioff i" using assms(1) by (auto simp: ioff_def)
  then show "put_dinode i d x ! p = x ! p" using p by (intro put_dinode_other [OF assms(2)]) auto
qed

subsection \<open>Inodes of the image\<close>

definition isector :: "nat \<Rightarrow> nat" where
  "isector i = i div 8 + 32"

definition ondisk :: "block list \<Rightarrow> nat \<Rightarrow> dinode" where
  "ondisk X i = get_dinode (X ! isector i) (of_nat i)"

lemma inode_number:
  assumes "i < 208"
  shows "unat (IBLOCK (of_nat i) new_sb) = isector i" "ioff (of_nat i) = 64 * (i mod 8)" "isector i < 58" "32 \<le> isector i"
proof -
  have u: "unat (of_nat i :: u32) = i" using assms by (simp add: unat_of_nat take_bit_nat_eq_self)
  have d: "unat (of_nat i div 8 :: u32) = i div 8" by (simp add: unat_div_distrib u)
  show "unat (IBLOCK (of_nat i) new_sb) = isector i"
    using assms by (simp add: IBLOCK_def IPB_def isector_def d unat_add_small)
  show "ioff (of_nat i) = 64 * (i mod 8)" by (simp add: ioff_def IPB_def unat_mod_distrib u)
  show "isector i < 58" "32 \<le> isector i" using assms by (simp_all add: isector_def)
qed

lemma ondisk_put:
  assumes "i < 208" "j < 208" "length X = 1000" "length (X ! isector i) = 512" "length (d_addrs d) = 13"
  shows "ondisk (X[isector i := put_dinode (of_nat i) d (X ! isector i)]) j = (if j = i then d else ondisk X j)"
proof -
  note n = inode_number [OF assms(1)] inode_number [OF assms(2)]
  have "i mod 8 \<noteq> j mod 8" if "isector i = isector j" "i \<noteq> j"
    using that by (auto simp: isector_def) (metis div_mult_mod_eq)
  then show ?thesis
    using assms n by (auto simp: ondisk_def nth_list_update get_put_dinode get_other_dinode)
qed

text \<open>The place \<open>k\<close> of an inode: an address in the inode, or an entry of the indirect block.\<close>

definition places :: "(nat \<Rightarrow> dinode) \<Rightarrow> block list \<Rightarrow> nat \<Rightarrow> nat \<Rightarrow> u32" where
  "places D X i k =
     (if 208 \<le> i \<or> 141 \<le> k then 0
      else if k < 13 then d_addrs (D i) ! k
      else if d_addrs (D i) ! 12 = 0 then 0
      else get32 (X ! unat (d_addrs (D i) ! 12)) (4 * (k - 13)))"

text \<open>The inodes are \<open>D\<close>, their sizes \<open>Z\<close>: inside \<open>iappend\<close> one of them is not on the disk yet.\<close>

definition img_ok :: "(nat \<Rightarrow> dinode) \<Rightarrow> (nat \<Rightarrow> nat) \<Rightarrow> imgst \<Rightarrow> bool" where
  "img_ok D Z s \<longleftrightarrow> layout_ok (places D (sectors s)) Z (sectors s) (unat (freeblock s)) \<and> img_sb s = new_sb \<and>
     (\<forall>i<208. length (d_addrs (D i)) = 13)"

definition bytes_of :: "(nat \<Rightarrow> dinode) \<Rightarrow> (nat \<Rightarrow> nat) \<Rightarrow> imgst \<Rightarrow> nat \<Rightarrow> u8 list" where
  "bytes_of D Z s = contents (places D (sectors s)) Z (sectors s)"

lemma img_okD:
  assumes "img_ok D Z s"
  shows "layout_ok (places D (sectors s)) Z (sectors s) (unat (freeblock s))" "img_sb s = new_sb"
    "i < 208 \<Longrightarrow> length (d_addrs (D i)) = 13" "places_ok (places D (sectors s)) (unat (freeblock s))"
    "sectors_ok (sectors s) (unat (freeblock s))" "sizes_ok (places D (sectors s)) Z (sectors s)"
  using assms by (auto simp: img_ok_def layout_ok_def)

lemma get32_zeros: "j + 3 < 512 \<Longrightarrow> get32 (replicate 512 0) j = 0"
  by (simp add: get32_def)

text \<open>An address of the inode is given out.\<close>

lemma give_address:
  assumes ok: "img_ok D Z s" and i: "i < 208" and k: "k < 13" and z: "d_addrs (D i) ! k = 0" and fb: "unat (freeblock s) < 1000"
  defines "D' \<equiv> D(i := (D i)\<lparr>d_addrs := (d_addrs (D i))[k := freeblock s]\<rparr>)"
    and "s' \<equiv> s\<lparr>freeblock := freeblock s + 1\<rparr>"
  shows "img_ok D' Z s'" "j < 208 \<Longrightarrow> bytes_of D' Z s' j = bytes_of D Z s j"
proof -
  let ?X = "sectors s"
  note D = img_okD [OF ok]
  have len: "length (d_addrs (D i)) = 13" by (rule D(3) [OF i])
  have zero: "?X ! unat (freeblock s) = replicate 512 0" using sectors_okD(5) [OF D(5) fb] by simp
  have "places D' ?X j l = ((places D ?X)(i := (places D ?X i)(k := of_nat (unat (freeblock s))))) j l" for j l
    using i k z len zero by (auto simp: places_def D'_def get32_zeros nth_list_update)
  then have p: "places D' ?X = (places D ?X)(i := (places D ?X i)(k := of_nat (unat (freeblock s))))"
    by (intro ext)
  have a: "assigned (places D ?X) ?X (unat (freeblock s)) i k (places D' ?X) ?X"
    using p i k z fb sectors_okD(1,2) [OF D(5)] by (simp add: assigned_def places_def)
  have un: "unat (freeblock s + 1) = unat (freeblock s) + 1" using fb by (simp add: unat_add_small)
  show "img_ok D' Z s'"
    using assigned_ok(1) [OF D(1) a] D(2,3) len by (auto simp: img_ok_def s'_def un D'_def)
  show "bytes_of D' Z s' j = bytes_of D Z s j" if "j < 208"
    using assigned_ok(2) [OF D(1) a that] by (simp add: bytes_of_def s'_def)
qed

text \<open>An entry of the indirect block is given out.\<close>

lemma give_entry:
  assumes ok: "img_ok D Z s" and i: "i < 208" and k: "13 \<le> k" "k < 141" and ind: "d_addrs (D i) ! 12 = b" "b \<noteq> 0"
    and z: "get32 (sectors s ! unat b) (4 * (k - 13)) = 0" and fb: "unat (freeblock s) < 1000"
    and X': "sectors s' = (sectors s)[unat b := put32 (4 * (k - 13)) (freeblock s) (sectors s ! unat b)]"
    and s': "freeblock s' = freeblock s + 1" "img_sb s' = img_sb s"
  shows "img_ok D Z s'" "j < 208 \<Longrightarrow> bytes_of D Z s' j = bytes_of D Z s j"
    "places D (sectors s') i k = freeblock s"
proof -
  let ?X = "sectors s" and ?X' = "sectors s'"
  note D = img_okD [OF ok]
  have b: "places D ?X i 12 = b" using i ind by (simp add: places_def)
  have lb: "unat b < unat (freeblock s)" using places_okD(2) [OF D(4) i, of 12] ind b by simp
  then have lb': "unat b < 1000" using fb by simp
  have len: "length (?X ! unat b) = 512" "length ?X = 1000" using sectors_okD(1,2) [OF D(5)] lb' by auto
  have other: "d_addrs (D j) ! 12 \<noteq> b" if "j < 208" "j \<noteq> i" for j
    using places_okD(3) [OF D(4) i, of 12 j 12] that ind i by (auto simp: places_def)
  have e: "get32 (put32 (4 * (k - 13)) w (?X ! unat b)) (4 * (l - 13)) =
      (if l = k then w else get32 (?X ! unat b) (4 * (l - 13)))" if "13 \<le> l" "l < 141" for l w
  proof (cases l k rule: linorder_cases)
    case less
    then have "4 * (l - 13) + 3 < 4 * (k - 13)" using that k by linarith
    then show ?thesis using less by (simp add: get_put_other)
  next
    case greater
    then have "4 * (k - 13) + 3 < 4 * (l - 13)" using that k by linarith
    then show ?thesis using greater by (simp add: get_put_other)
  qed (use k len in \<open>simp add: get32_put32\<close>)
  have "places D ?X' j l = ((places D ?X)(i := (places D ?X i)(k := of_nat (unat (freeblock s))))) j l" for j l
  proof (cases "j = i")
    case True
    then show ?thesis using i k ind len lb' e by (simp add: places_def X')
  next
    case False
    then have "j < 208 \<Longrightarrow> d_addrs (D j) ! 12 \<noteq> 0 \<Longrightarrow> unat (d_addrs (D j) ! 12) \<noteq> unat b"
      using other [of j] by (metis word_unat_eq_iff)
    then show ?thesis using False by (auto simp: places_def X' nth_list_update)
  qed
  then have p: "places D ?X' = (places D ?X)(i := (places D ?X i)(k := of_nat (unat (freeblock s))))"
    by (intro ext)
  then show "places D (sectors s') i k = freeblock s" by simp
  have lx: "length (?X' ! c) = 512" if "c < 1000" for c
    using sectors_okD(2) [OF D(5) that] that len by (cases "c = unat b") (simp_all add: X')
  have "places D ?X i k = 0" using z k i ind by (simp add: places_def)
  then have a: "assigned (places D ?X) ?X (unat (freeblock s)) i k (places D ?X') ?X'"
    using p i k fb len b ind(2) lx by (simp add: assigned_def) (simp add: X')
  have un: "unat (freeblock s + 1) = unat (freeblock s) + 1" using fb by (simp add: unat_add_small)
  show "img_ok D Z s'" using assigned_ok(1) [OF D(1) a] D(2,3) by (simp add: img_ok_def un s')
  show "bytes_of D Z s' j = bytes_of D Z s j" if "j < 208"
    using assigned_ok(2) [OF D(1) a that] by (simp add: bytes_of_def)
qed

subsection \<open>Appending to a file\<close>

lemma rsect_eq [simp]: "rsect b s = Inr x \<longleftrightarrow> unat b < length (sectors s) \<and> x = sectors s ! unat b"
  by (auto simp: rsect_def)

lemma wsect_sectors: "unat b < length (sectors s) \<Longrightarrow> sectors (wsect b x s) = (sectors s)[unat b := x]"
  by (simp add: wsect_def)

lemma wsect_simps [simp]:
  "freeblock (wsect b x s) = freeblock s" "freeinode (wsect b x s) = freeinode s" "img_sb (wsect b x s) = img_sb s"
  by (simp_all add: wsect_def)

text \<open>What a stretch of \<open>iappend\<close> leaves alone: the sectors in front of the files and the other fields of the inode.\<close>

definition kept :: "dinode \<Rightarrow> imgst \<Rightarrow> dinode \<Rightarrow> imgst \<Rightarrow> bool" where
  "kept d s d' s' \<longleftrightarrow> d' = d\<lparr>d_addrs := d_addrs d'\<rparr> \<and> freeinode s' = freeinode s \<and> take 59 (sectors s') = take 59 (sectors s)"

lemma kept_refl [simp]: "kept d s d s" and kept_trans: "kept d s d' s' \<Longrightarrow> kept d' s' d'' s'' \<Longrightarrow> kept d s d'' s''"
  by (auto simp: kept_def) (metis dinode.surjective dinode.update_convs(6))

text \<open>One address of the inode, given out if there is none.\<close>

definition address :: "nat \<Rightarrow> dinode \<times> imgst \<Rightarrow> dinode \<times> imgst" where
  "address k = (\<lambda>(din, s).
     if d_addrs din ! k = 0
     then (din\<lparr>d_addrs := (d_addrs din)[k := freeblock s]\<rparr>, s\<lparr>freeblock := freeblock s + 1\<rparr>) else (din, s))"

lemma address_ok:
  assumes ok: "img_ok D Z s" and i: "i < 208" and k: "k < 13" and a: "address k (D i, s) = (din', s')"
    and r: "unat (d_addrs din' ! k) < 1000"
  shows "img_ok (D(i := din')) Z s' \<and> (\<forall>j<208. bytes_of (D(i := din')) Z s' j = bytes_of D Z s j) \<and>
    places (D(i := din')) (sectors s') i k = d_addrs din' ! k \<and> d_addrs din' ! k \<noteq> 0 \<and> kept (D i) s din' s'"
proof (cases "d_addrs (D i) ! k = 0")
  case True
  have len: "length (d_addrs (D i)) = 13" by (rule img_okD(3) [OF ok i])
  have e: "din' = (D i)\<lparr>d_addrs := (d_addrs (D i))[k := freeblock s]\<rparr>" "s' = s\<lparr>freeblock := freeblock s + 1\<rparr>"
    using a True by (auto simp: address_def)
  have fb: "unat (freeblock s) < 1000" using r k len by (simp add: e)
  have "59 \<le> unat (freeblock s)" by (rule sectors_okD(3) [OF img_okD(5) [OF ok]])
  then have "freeblock s \<noteq> 0" by force
  then show ?thesis using give_address [OF ok i k True fb] k len i by (simp add: e places_def kept_def)
next
  case False
  then have "din' = D i" "s' = s" using a by (auto simp: address_def)
  then show ?thesis using ok False i k by (simp add: places_def)
qed

lemma file_sector_alt:
  "file_sector fbn din s =
     (if unat fbn < 12 then (case address (unat fbn) (din, s) of (din, s) \<Rightarrow> Inr (d_addrs din ! unat fbn, din, s))
      else (case address 12 (din, s) of (din, s) \<Rightarrow>
        let ind = d_addrs din ! 12; k = 4 * (unat fbn - 12) in
        kbind (rsect ind s) (\<lambda>indirect.
          if get32 indirect k = 0
          then let indirect = put32 k (freeblock s) indirect
               in Inr (get32 indirect k, din, wsect ind indirect (s\<lparr>freeblock := freeblock s + 1\<rparr>))
          else Inr (get32 indirect k, din, s))))"
  by (auto simp: file_sector_def address_def next_block_def NDIRECT_def Let_def intro!: arg_cong [where f = "kbind _"])

lemma file_sector_ok:
  assumes ok: "img_ok D Z s" and i: "i < 208" and n: "unat fbn < 140"
    and f: "file_sector fbn (D i) s = Inr (x, din', s')" and r: "rsect x s' = Inr buf"
  shows "img_ok (D(i := din')) Z s' \<and> (\<forall>j<208. bytes_of (D(i := din')) Z s' j = bytes_of D Z s j) \<and>
    places (D(i := din')) (sectors s') i (slot (unat fbn)) = x \<and> x \<noteq> 0 \<and> kept (D i) s din' s'"
proof (cases "unat fbn < 12")
  case True
  then obtain a: "address (unat fbn) (D i, s) = (din', s')" "x = d_addrs din' ! unat fbn"
    using f by (auto simp: file_sector_alt split: prod.splits)
  then have "sectors s' = sectors s" by (auto simp: address_def split: if_splits)
  then have "unat x < 1000" using r sectors_okD(1) [OF img_okD(5) [OF ok]] by simp
  then show ?thesis using address_ok [OF ok i _ a(1)] a(2) True by (simp add: slot_def)
next
  case False
  define k where "k = unat fbn + 1"
  obtain d1 s1 where a: "address 12 (D i, s) = (d1, s1)" by fastforce
  define ind where "ind = d_addrs d1 ! 12"
  have s1: "sectors s1 = sectors s" using a by (auto simp: address_def split: if_splits)
  have k: "13 \<le> k" "k < 141" "4 * (unat fbn - 12) = 4 * (k - 13)" "slot (unat fbn) = k" using False n by (auto simp: k_def slot_def)
  have len: "length (sectors s) = 1000" by (rule sectors_okD(1) [OF img_okD(5) [OF ok]])
  have ri: "unat ind < 1000" and din: "din' = d1" using f False s1 len
    by (auto simp: file_sector_alt a ind_def Let_def kres_simps split: if_splits)
  note A = address_ok [OF ok i _ a, folded ind_def]
  have A: "img_ok (D(i := d1)) Z s1" "\<forall>j<208. bytes_of (D(i := d1)) Z s1 j = bytes_of D Z s j"
    "places (D(i := d1)) (sectors s1) i 12 = ind" "ind \<noteq> 0" "kept (D i) s d1 s1" using A ri by simp_all
  note ok1 = img_okD [OF A(1)]
  have li: "59 \<le> unat ind" using places_okD(1) [OF ok1(4) i, of 12] A(3,4) by simp
  let ?y = "sectors s1 ! unat ind"
  have ly: "length ?y = 512" using sectors_okD(2) [OF ok1(5) ri] .
  show ?thesis
  proof (cases "get32 ?y (4 * (k - 13)) = 0")
    case True
    then have s': "s' = wsect ind (put32 (4 * (k - 13)) (freeblock s1) ?y) (s1\<lparr>freeblock := freeblock s1 + 1\<rparr>)"
      and x: "x = freeblock s1"
      using f False ri ly k by (auto simp: file_sector_alt a ind_def [symmetric] Let_def kres_simps get32_put32)
    have X': "sectors s' = (sectors s1)[unat ind := put32 (4 * (k - 13)) (freeblock s1) ?y]"
      using ri len s1 by (simp add: s' wsect_sectors)
    have fb: "unat (freeblock s1) < 1000" using r len s1 by (simp add: X' x)
    note G = give_entry [OF A(1) i k(1,2) _ A(4) True fb X']
    have "59 \<le> unat (freeblock s1)" by (rule sectors_okD(3) [OF ok1(5)])
    then have "freeblock s1 \<noteq> 0" by force
    moreover have "freeinode s' = freeinode s1" by (simp add: s')
    then have "kept d1 s1 d1 s'" using li by (simp add: kept_def X')
    ultimately show ?thesis
      using G A kept_trans [OF A(5)] by (simp add: din x k(4) s' ind_def [symmetric])
  next
    case False
    then have "x = get32 ?y (4 * (k - 13))" "s' = s1"
      using f \<open>\<not> unat fbn < 12\<close> k by (auto simp: file_sector_alt a ind_def [symmetric] Let_def kres_simps)
    moreover from False k i A(4) have "places (D(i := d1)) (sectors s1) i k = get32 ?y (4 * (k - 13))"
      by (simp add: places_def ind_def [symmetric])
    ultimately show ?thesis using A False by (simp add: din k(4))
  qed
qed

lemma room_mod: "room off n = min n (512 - unat off mod 512)"
  by (simp add: room_chunk chunk_def BSIZE_def unat_mod_distrib)

lemma off_mod: "unat (off - off div of_nat BSIZE * of_nat BSIZE) = unat off mod 512" for off :: u32
proof -
  have "off - off div 512 * 512 = off mod 512" by (metis add_diff_cancel_left' word_mod_div_equality)
  then show ?thesis by (simp add: BSIZE_def unat_mod_distrib)
qed

text \<open>The second half of a turn.\<close>

lemma write_turn:
  assumes ok: "img_ok D Z s" and i: "i < 208" and x: "places D (sectors s) i (slot (Z i div 512)) = x" "x \<noteq> 0"
    and n: "Z i div 512 < 140" and bs: "length bs \<le> 512 - Z i mod 512"
  defines "k \<equiv> Z i mod 512"
  defines "s' \<equiv> wsect x (take k (sectors s ! unat x) @ bs @ drop (k + length bs) (sectors s ! unat x)) s"
    and "Z' \<equiv> Z(i := Z i + length bs)"
  shows "img_ok D Z' s'" "bytes_of D Z' s' i = bytes_of D Z s i @ bs" "j < 208 \<Longrightarrow> j \<noteq> i \<Longrightarrow> bytes_of D Z' s' j = bytes_of D Z s j"
    "kept (D i) s (D i) s'"
proof -
  note D = img_okD [OF ok]
  have lx: "59 \<le> unat x" "unat x < 1000"
    using places_okD(1,2) [OF D(4) i, of "slot (Z i div 512)"] x n sectors_okD(4) [OF D(5)] by auto
  have s': "sectors s' = (sectors s)[unat x := take k (sectors s ! unat x) @ bs @ drop (k + length bs) (sectors s ! unat x)]"
    using lx sectors_okD(1) [OF D(5)] by (simp add: s'_def wsect_sectors)
  have m: "Z i mod 512 < 512" by simp
  have w: "written (places D (sectors s)) Z (sectors s) i bs (sectors s')"
    using i x n bs m by (simp add: written_def s' k_def)
  have ind: "sectors s' ! unat (d_addrs (D j) ! 12) = sectors s ! unat (d_addrs (D j) ! 12)"
    if "j < 208" "d_addrs (D j) ! 12 \<noteq> 0" for j
    using written_other [OF D(4) w that(1), of 12] that by (simp add: places_def)
  have p: "places D (sectors s') = places D (sectors s)"
    using ind by (intro ext) (simp add: places_def)
  note W = written_ok [OF D(1) w Z'_def [THEN meta_eq_to_obj_eq]]
  show "img_ok D Z' s'" using W(1) D(2,3) p by (simp add: img_ok_def s'_def)
  show "bytes_of D Z' s' i = bytes_of D Z s i @ bs" using W(2) p by (simp add: bytes_of_def)
  show "j < 208 \<Longrightarrow> j \<noteq> i \<Longrightarrow> bytes_of D Z' s' j = bytes_of D Z s j" using W(3) p by (simp add: bytes_of_def)
  show "kept (D i) s (D i) s'" using lx(1) by (simp add: kept_def s') (simp add: s'_def)
qed

lemma iappend_loop_turn:
  assumes "p \<noteq> []" "iappend_loop din off p s = Inr r"
  obtains x d1 s1 where "file_sector (off div of_nat BSIZE) din s = Inr (x, d1, s1)" "unat x < length (sectors s1)"
    "unat off div 512 < 140"
    "iappend_loop d1 (off + of_nat (room off (length p))) (drop (room off (length p)) p)
       (wsect x (take (unat off mod 512) (sectors s1 ! unat x) @ take (room off (length p)) p @
         drop (unat off mod 512 + room off (length p)) (sectors s1 ! unat x)) s1) = Inr r"
proof -
  have d: "unat (off div of_nat BSIZE) < MAXFILE \<longleftrightarrow> unat off div 512 < 140"
    by (simp add: BSIZE_def unat_div_distrib MAXFILE_def NDIRECT_def NINDIRECT_def)
  have e: "iappend_loop din off p s =
    (if \<not> unat off div 512 < 140 then Inl (Panic ''fbn < MAXFILE'')
     else kbind (file_sector (off div of_nat BSIZE) din s) (\<lambda>(x, d1, s1).
       kbind (rsect x s1) (\<lambda>buf.
         iappend_loop d1 (off + of_nat (room off (length p))) (drop (room off (length p)) p)
           (wsect x (take (unat off mod 512) buf @ take (room off (length p)) p @
             drop (unat off mod 512 + room off (length p)) buf) s1))))"
    by (subst iappend_loop.simps) (simp only: assms(1) Let_def d off_mod if_False)
  show ?thesis
    using assms(2) [unfolded e] that by (auto simp: kbind_eq_Inr split: if_splits)
qed

lemma iappend_loop_ok:
  assumes "img_ok D Z s" "i < 208" "Z i = unat off" "iappend_loop (D i) off p s = Inr (din', off', s')"
  shows "img_ok (D(i := din')) (Z(i := Z i + length p)) s' \<and>
    bytes_of (D(i := din')) (Z(i := Z i + length p)) s' i = bytes_of D Z s i @ p \<and>
    (\<forall>j<208. j \<noteq> i \<longrightarrow> bytes_of (D(i := din')) (Z(i := Z i + length p)) s' j = bytes_of D Z s j) \<and>
    kept (D i) s din' s' \<and> unat off' = unat off + length p"
  using assms
proof (induction "length p" arbitrary: p D Z s off rule: less_induct)
  case less
  note ok = less.prems(1) and i = less.prems(2) and z = less.prems(3)
  show ?case
  proof (cases "p = []")
    case True
    with less.prems show ?thesis by (auto simp: iappend_loop.simps fun_upd_idem)
  next
    case False
    define n1 where "n1 = room off (length p)"
    have n1: "n1 = min (length p) (512 - Z i mod 512)" by (simp add: n1_def room_mod z)
    have pos: "0 < n1" using False by (simp add: n1)
    have fbn: "unat (off div of_nat BSIZE) = Z i div 512" by (simp add: BSIZE_def unat_div_distrib z)
    obtain x d1 s1 where f: "file_sector (off div of_nat BSIZE) (D i) s = Inr (x, d1, s1)" and r: "unat x < length (sectors s1)"
      and l: "iappend_loop d1 (off + of_nat n1) (drop n1 p)
        (wsect x (take (Z i mod 512) (sectors s1 ! unat x) @ take n1 p @ drop (Z i mod 512 + n1) (sectors s1 ! unat x)) s1) = Inr (din', off', s')"
      and n: "Z i div 512 < 140"
      using iappend_loop_turn [OF False less.prems(4)] unfolding n1_def [symmetric] z [symmetric] by blast
    let ?D = "D(i := d1)" and ?Z = "Z(i := Z i + n1)"
    have F: "img_ok ?D Z s1" "\<forall>j<208. bytes_of ?D Z s1 j = bytes_of D Z s j"
      "places ?D (sectors s1) i (slot (Z i div 512)) = x" "x \<noteq> 0" "kept (D i) s d1 s1"
      using file_sector_ok [OF ok i _ f, of "sectors s1 ! unat x"] n r by (simp_all add: fbn)
    have len: "length (take n1 p) = n1" by (simp add: n1)
    note W = write_turn [OF F(1) i F(3,4) n, of "take n1 p", unfolded len]
    define s2 where "s2 = wsect x (take (Z i mod 512) (sectors s1 ! unat x) @ take n1 p @ drop (Z i mod 512 + n1) (sectors s1 ! unat x)) s1"
    have W: "img_ok ?D ?Z s2" "bytes_of ?D ?Z s2 i = bytes_of D Z s i @ take n1 p"
      "\<forall>j<208. j \<noteq> i \<longrightarrow> bytes_of ?D ?Z s2 j = bytes_of D Z s j" "kept d1 s1 d1 s2"
      using W F(2) i by (simp_all add: s2_def n1)
    have "Z i + n1 \<le> 71680" using sizes_okD(1) [OF img_okD(6) [OF W(1)] i] by simp
    then have u: "unat (of_nat n1 :: u32) = n1" "unat (off + of_nat n1) = unat off + n1"
      using z by (simp_all add: unat_of_nat take_bit_nat_eq_self unat_add_small)
    have "img_ok (?D(i := din')) (?Z(i := ?Z i + length (drop n1 p))) s' \<and>
      bytes_of (?D(i := din')) (?Z(i := ?Z i + length (drop n1 p))) s' i = bytes_of ?D ?Z s2 i @ drop n1 p \<and>
      (\<forall>j<208. j \<noteq> i \<longrightarrow> bytes_of (?D(i := din')) (?Z(i := ?Z i + length (drop n1 p))) s' j = bytes_of ?D ?Z s2 j) \<and>
      kept (?D i) s2 din' s' \<and> unat off' = unat (off + of_nat n1) + length (drop n1 p)"
      by (rule less.hyps) (use pos False l W(1) i u z in \<open>simp_all add: s2_def\<close>)
    moreover have "n1 \<le> length p" by (simp add: n1)
    ultimately show ?thesis using W kept_trans [OF F(5) kept_trans [OF W(4)]] by (simp add: u)
  qed
qed

text \<open>The invariant between the operations: the inodes are those on the disk, and the ones not given out are empty.\<close>

abbreviation dsize :: "block list \<Rightarrow> nat \<Rightarrow> nat" where
  "dsize X i \<equiv> unat (d_size (ondisk X i))"

definition img_wf :: "imgst \<Rightarrow> bool" where
  "img_wf s \<longleftrightarrow> img_ok (ondisk (sectors s)) (dsize (sectors s)) s \<and> sectors s ! 1 = put_sb new_sb (replicate 512 0) \<and>
     (\<forall>i<208. unat (freeinode s) \<le> i \<longrightarrow> d_addrs (ondisk (sectors s) i) = replicate 13 0 \<and> d_size (ondisk (sectors s) i) = 0)"

definition file_of :: "imgst \<Rightarrow> nat \<Rightarrow> u8 list" where
  "file_of s = bytes_of (ondisk (sectors s)) (dsize (sectors s)) s"

definition type_of :: "imgst \<Rightarrow> nat \<Rightarrow> u16" where
  "type_of s i = d_type (ondisk (sectors s) i)"

text \<open>A change in front of sector 59, where the blocks of the files begin.\<close>

lemma meta_change:
  assumes ok: "img_ok D Z s" and D': "\<And>i. i < 208 \<Longrightarrow> d_addrs (D' i) = d_addrs (D i)" "\<And>i. i < 208 \<Longrightarrow> Z' i = Z i"
    and X': "length (sectors s') = 1000" "\<And>b. b < 1000 \<Longrightarrow> length (sectors s' ! b) = 512"
      "\<And>b. 59 \<le> b \<Longrightarrow> b < 1000 \<Longrightarrow> sectors s' ! b = sectors s ! b"
    and s': "freeblock s' = freeblock s" "img_sb s' = img_sb s"
  shows "img_ok D' Z' s'" "j < 208 \<Longrightarrow> bytes_of D' Z' s' j = bytes_of D Z s j"
proof -
  let ?X = "sectors s" and ?X' = "sectors s'"
  note D = img_okD [OF ok]
  have r: "59 \<le> unat (places D ?X i k) \<and> unat (places D ?X i k) < 1000" if "i < 208" "k < 141" "places D ?X i k \<noteq> 0" for i k
    using places_okD(1,2) [OF D(4) that] sectors_okD(4) [OF D(5)] by linarith
  have "places D' ?X' i k = places D ?X i k" for i k
    using D'(1) [of i] X'(3) [of "unat (d_addrs (D i) ! 12)"] r [of i 12] by (auto simp: places_def)
  then have p: "places D' ?X' = places D ?X" by (intro ext)
  have "layout_ok (places D ?X) Z' ?X' (unat (freeblock s))"
    using D(1) r D'(2) X' by (simp add: layout_ok_def sizes_ok_def sectors_ok_def)
  then show "img_ok D' Z' s'" using D(2,3) D' s' by (simp add: img_ok_def p)
  show "bytes_of D' Z' s' j = bytes_of D Z s j" if "j < 208"
    unfolding bytes_of_def p
  proof (rule contents_cong)
    fix q
    assume "q < Z j"
    note b = byte_block [OF D(1) that this]
    then show "filebyte (places D ?X) ?X' j q = filebyte (places D ?X) ?X j q"
      using r [of j "slot (q div 512)"] that X'(3) by (simp add: filebyte_def)
  qed (simp add: D' that)
qed

lemma winode_effect:
  assumes ok: "img_ok D Z s" and i: "i < 208" and len: "length (d_addrs d) = 13" and w: "winode (of_nat i) d s = Inr s'"
  shows "length (sectors s') = 1000" "b < 1000 \<Longrightarrow> length (sectors s' ! b) = 512" "59 \<le> b \<Longrightarrow> sectors s' ! b = sectors s ! b"
    "sectors s' ! 1 = sectors s ! 1" "j < 208 \<Longrightarrow> ondisk (sectors s') j = (if j = i then d else ondisk (sectors s) j)"
    "freeblock s' = freeblock s" "img_sb s' = img_sb s" "freeinode s' = freeinode s"
proof -
  note o = img_okD [OF ok] and n = inode_number [OF i]
  have X: "length (sectors s) = 1000" "length (sectors s ! isector i) = 512" using sectors_okD(1,2) [OF o(5)] n(3) by auto
  have s': "s' = wsect (IBLOCK (of_nat i) (img_sb s)) (put_dinode (of_nat i) d (sectors s ! isector i)) s"
    using w by (auto simp: winode_def Let_def kres_simps o(2) n(1))
  have X': "sectors s' = (sectors s)[isector i := put_dinode (of_nat i) d (sectors s ! isector i)]"
    using n X by (simp add: s' wsect_sectors o(2))
  show "length (sectors s' ! b) = 512" if "b < 1000"
    using sectors_okD(2) [OF o(5) that] X that by (cases "b = isector i") (simp_all add: X')
  show "length (sectors s') = 1000" "59 \<le> b \<Longrightarrow> sectors s' ! b = sectors s ! b" "sectors s' ! 1 = sectors s ! 1"
    using X n(3,4) by (simp_all add: X')
  show "ondisk (sectors s') j = (if j = i then d else ondisk (sectors s) j)" if "j < 208"
    unfolding X' by (rule ondisk_put [OF i that X len])
  show "freeblock s' = freeblock s" "img_sb s' = img_sb s" "freeinode s' = freeinode s" by (simp_all add: s')
qed

lemma winode_ok:
  assumes ok: "img_ok D Z s" and i: "i < 208" and Z: "\<And>j. j < 208 \<Longrightarrow> Z j = unat (d_size (D' j))"
    and D: "\<And>j. j < 208 \<Longrightarrow> j \<noteq> i \<Longrightarrow> ondisk (sectors s) j = D' j" "\<And>j. j < 208 \<Longrightarrow> d_addrs (D' j) = d_addrs (D j)"
    and w: "winode (of_nat i) (D' i) s = Inr s'"
  shows "img_ok (ondisk (sectors s')) (dsize (sectors s')) s' \<and> (\<forall>j<208. file_of s' j = bytes_of D Z s j) \<and>
    (\<forall>j<208. ondisk (sectors s') j = D' j) \<and> freeinode s' = freeinode s \<and> sectors s' ! 1 = sectors s ! 1"
proof -
  have len: "length (d_addrs (D' i)) = 13" using D(2) img_okD(3) [OF ok] i by simp
  note e = winode_effect [OF ok i len w]
  have d: "ondisk (sectors s') j = D' j" if "j < 208" for j using e(5) [OF that] D(1) [OF that] by simp
  have "img_ok (ondisk (sectors s')) (dsize (sectors s')) s'"
    "\<And>j. j < 208 \<Longrightarrow> bytes_of (ondisk (sectors s')) (dsize (sectors s')) s' j = bytes_of D Z s j"
    using d D(2) Z by (intro meta_change [OF ok _ _ e(1-3) e(6,7)]; simp)+
  then show ?thesis using d e(4,8) by (simp add: file_of_def)
qed

lemma rinode_ok:
  assumes "img_wf s" "i < 208" "rinode (of_nat i) s = Inr d"
  shows "d = ondisk (sectors s) i"
  using assms inode_number(1) [OF assms(2)]
  by (auto simp: rinode_def Let_def kres_simps ondisk_def img_wf_def img_ok_def)

lemma iappend_ok:
  assumes wf: "img_wf s" and i: "i < 208" "i < unat (freeinode s)" and a: "iappend (of_nat i) p s = Inr s'"
  shows "img_wf s' \<and> file_of s' i = file_of s i @ p \<and> (\<forall>j<208. j \<noteq> i \<longrightarrow> file_of s' j = file_of s j) \<and>
    (\<forall>j<208. type_of s' j = type_of s j) \<and> freeinode s' = freeinode s"
proof -
  let ?D = "ondisk (sectors s)" and ?Z = "dsize (sectors s)"
  obtain d1 off s1 where r: "rinode (of_nat i) s = Inr (?D i)" and l: "iappend_loop (?D i) (d_size (?D i)) p s = Inr (d1, off, s1)"
    and w: "winode (of_nat i) (d1\<lparr>d_size := off\<rparr>) s1 = Inr s'"
  proof -
    obtain d d1 off s1 where "rinode (of_nat i) s = Inr d" "iappend_loop d (d_size d) p s = Inr (d1, off, s1)"
      "winode (of_nat i) (d1\<lparr>d_size := off\<rparr>) s1 = Inr s'"
      using a unfolding iappend_def kbind_eq_Inr xint_id by (auto split: prod.splits)
    then show ?thesis using that rinode_ok [OF wf i(1)] by simp
  qed
  have ok: "img_ok ?D ?Z s" using wf by (simp add: img_wf_def)
  note L = iappend_loop_ok [OF ok i(1) refl l]
  have k: "d1 = (?D i)\<lparr>d_addrs := d_addrs d1\<rparr>" "take 59 (sectors s1) = take 59 (sectors s)" "freeinode s1 = freeinode s"
    using L by (simp_all add: kept_def)
  have "ondisk (sectors s1) j = ?D j" if "j < 208" for j
    using k(2) inode_number(3) [OF that] nth_take [of "isector j" 59 "sectors s1"] nth_take [of "isector j" 59 "sectors s"]
    by (simp add: ondisk_def)
  then have W: "img_ok (ondisk (sectors s')) (dsize (sectors s')) s' \<and>
    (\<forall>j<208. file_of s' j = bytes_of (?D(i := d1)) (?Z(i := ?Z i + length p)) s1 j) \<and>
    (\<forall>j<208. ondisk (sectors s') j = (?D(i := d1\<lparr>d_size := off\<rparr>)) j) \<and> freeinode s' = freeinode s1 \<and>
    sectors s' ! 1 = sectors s1 ! 1"
    using L w by (intro winode_ok [where i = i]) (auto simp: i)
  have "sectors s1 ! 1 = sectors s ! 1"
    using k(2) nth_take [of 1 59 "sectors s1"] nth_take [of 1 59 "sectors s"] by simp
  moreover have "d_type d1 = d_type (?D i)" using k(1) by (metis dinode.select_convs(1) dinode.surjective dinode.update_convs(6))
  ultimately show ?thesis
    using W L wf i k(3) by (auto simp: img_wf_def type_of_def file_of_def)
qed

lemma mkfs_ialloc_ok:
  assumes wf: "img_wf s" and i: "unat (freeinode s) < 208" and a: "mkfs_ialloc ty s = Inr (inum, s')"
  shows "img_wf s' \<and> inum = freeinode s \<and> file_of s' (unat inum) = [] \<and> type_of s' (unat inum) = ty \<and>
    (\<forall>j<208. j \<noteq> unat inum \<longrightarrow> file_of s' j = file_of s j \<and> type_of s' j = type_of s j) \<and> freeinode s' = freeinode s + 1"
proof -
  let ?D = "ondisk (sectors s)" and ?Z = "dsize (sectors s)" and ?i = "unat (freeinode s)"
    and ?d = "zero_dinode\<lparr>d_type := ty, d_nlink := 1, d_size := 0\<rparr>"
  let ?s = "s\<lparr>freeinode := freeinode s + 1\<rparr>"
  have w: "winode (of_nat ?i) ?d ?s = Inr s'" and n: "inum = freeinode s"
    using a by (auto simp: mkfs_ialloc_def Let_def kres_simps)
  have z: "d_addrs (?D ?i) = replicate 13 0" "d_size (?D ?i) = 0" and ok: "img_ok ?D ?Z s" using wf i by (auto simp: img_wf_def)
  have ok': "img_ok ?D ?Z ?s" "bytes_of ?D ?Z ?s = bytes_of ?D ?Z s" using ok by (simp_all add: img_ok_def bytes_of_def)
  have W: "img_ok (ondisk (sectors s')) (dsize (sectors s')) s' \<and>
    (\<forall>j<208. file_of s' j = bytes_of ?D ?Z ?s j) \<and>
    (\<forall>j<208. ondisk (sectors s') j = (?D(?i := ?d)) j) \<and> freeinode s' = freeinode ?s \<and> sectors s' ! 1 = sectors ?s ! 1"
    using w z by (intro winode_ok [where i = ?i] ok'(1) i) (auto simp: zero_dinode_def)
  have "unat (freeinode s + 1) = ?i + 1" using i by (simp add: unat_add_small)
  moreover have "bytes_of ?D ?Z s ?i = []" by (simp add: bytes_of_def contents_def z)
  ultimately show ?thesis
    using W wf i by (auto simp: img_wf_def type_of_def file_of_def ok'(2) n)
qed

subsection \<open>The whole program\<close>

lemma sectors_zeroed:
  "sectors s = [] \<Longrightarrow> n < 2 ^ 32 \<Longrightarrow> fold (\<lambda>i. wsect (of_nat i) (replicate BSIZE 0)) [0..<n] s =
     s\<lparr>sectors := replicate n (replicate BSIZE 0)\<rparr>"
proof (induction n)
  case (Suc n)
  have "unat (of_nat n :: u32) = n" using Suc.prems by (simp add: unat_of_nat take_bit_nat_eq_self)
  then show ?case using Suc by (simp add: wsect_def replicate_append_same list_update_append)
qed simp

lemma mkfs_start_sectors:
  "mkfs_start = \<lparr>sectors = (replicate 1000 (replicate 512 0))[1 := put_sb new_sb (replicate 512 0)],
     img_sb = new_sb, freeinode = 1, freeblock = 59\<rparr>"
  by (simp add: mkfs_start_def FSSIZE_def sectors_zeroed [unfolded BSIZE_def] wsect_def Let_def BSIZE_def del: upt_conv_Cons upt_rec_numeral)

lemma length_put_sb [simp]: "length (put_sb b x) = length x"
  by (simp add: put_sb_def)

lemma get_zero_dinode: "get_dinode (replicate 512 0) i = zero_dinode"
proof -
  have k: "ioff i \<le> 448" by (rule ioff_le)
  show ?thesis
    using k by (auto simp: get_dinode_def Let_def ioff_def [symmetric] zero_dinode_def get16_def get32_def NDIRECT_def
        intro!: nth_equalityI)
qed

lemma mkfs_start_wf: "img_wf mkfs_start"
proof -
  have o: "ondisk (sectors mkfs_start) i = zero_dinode" if "i < 208" for i
    using inode_number(3,4) [OF that] by (simp add: ondisk_def mkfs_start_sectors get_zero_dinode)
  have "places (ondisk (sectors mkfs_start)) (sectors mkfs_start) i k = 0" for i k
    using o [of i] by (simp add: places_def zero_dinode_def)
  then show ?thesis
    using o by (simp add: img_wf_def img_ok_def layout_ok_def places_ok_def sizes_ok_def zero_dinode_def)
      (auto simp: sectors_ok_def mkfs_start_sectors nth_list_update)
qed

lemma append_reads_ok:
  assumes "img_wf s" "i < 208" "i < unat (freeinode s)" "append_reads (of_nat i) reads s = Inr s'"
  shows "img_wf s' \<and> file_of s' i = file_of s i @ concat (takeWhile (\<lambda>b. b \<noteq> []) reads) \<and>
    (\<forall>j<208. j \<noteq> i \<longrightarrow> file_of s' j = file_of s j) \<and> (\<forall>j<208. type_of s' j = type_of s j) \<and> freeinode s' = freeinode s"
  using assms
proof (induction reads arbitrary: s)
  case (Cons b reads)
  show ?case
  proof (cases "b = []")
    case False
    with Cons.prems(4) obtain s1 where a: "iappend (of_nat i) b s = Inr s1" "append_reads (of_nat i) reads s1 = Inr s'"
      by (auto simp: kres_simps)
    note A = iappend_ok [OF Cons.prems(1-3) a(1)]
    note R = Cons.IH [of s1] A a(2) Cons.prems(2,3)
    then show ?thesis using False by simp
  qed (use Cons.prems in simp)
qed simp

text \<open>What a name on the command line puts into the root directory and into its file.\<close>

definition entry :: "nat \<Rightarrow> u8 list \<Rightarrow> u8 list" where
  "entry i name = put_dirent \<lparr>de_inum = of_nat i, de_name = strncpy_bytes DIRSIZ name\<rparr>"

definition host_bytes :: "host \<Rightarrow> u8 list \<Rightarrow> u8 list" where
  "host_bytes host arg = concat (takeWhile (\<lambda>b. b \<noteq> []) (the (host arg)))"

lemma add_file_ok:
  assumes wf: "img_wf s" and n: "unat (freeinode s) = n" "2 \<le> n" "n < 208" and a: "add_file host 1 arg s = Inr s'"
  shows "img_wf s' \<and> unat (freeinode s') = n + 1 \<and> file_of s' n = host_bytes host arg \<and> type_of s' n = T_FILE \<and>
    file_of s' 1 = file_of s 1 @ entry n (host_name arg) \<and>
    (\<forall>j<208. j \<noteq> n \<longrightarrow> j \<noteq> 1 \<longrightarrow> file_of s' j = file_of s j) \<and> (\<forall>j<208. j \<noteq> n \<longrightarrow> type_of s' j = type_of s j)"
proof -
  obtain reads inum s1 s2 where h: "host arg = Some reads" and i: "mkfs_ialloc T_FILE s = Inr (inum, s1)"
    and e: "iappend 1 (put_dirent \<lparr>de_inum = ucast inum, de_name = strncpy_bytes DIRSIZ (host_name arg)\<rparr>) s1 = Inr s2"
    and r: "append_reads inum reads s2 = Inr s'"
    using a by (auto simp: add_file_def kres_simps split: if_splits option.splits)
  note I = mkfs_ialloc_ok [OF wf _ i, unfolded n(1)]
  have inum: "inum = freeinode s" "unat inum = n" "of_nat n = inum" "ucast inum = (of_nat n :: u16)" using I n by auto
  have f: "unat (freeinode s1) = n + 1" using I n by (simp add: unat_add_small)
  have E: "img_wf s2 \<and> file_of s2 1 = file_of s1 1 @ entry n (host_name arg) \<and> (\<forall>j<208. j \<noteq> 1 \<longrightarrow> file_of s2 j = file_of s1 j) \<and>
    (\<forall>j<208. type_of s2 j = type_of s1 j) \<and> freeinode s2 = freeinode s1"
    using iappend_ok [of s1 1 "entry n (host_name arg)" s2] I e f n by (simp add: entry_def inum(4) [symmetric])
  have R: "img_wf s' \<and> file_of s' n = file_of s2 n @ host_bytes host arg \<and>
    (\<forall>j<208. j \<noteq> n \<longrightarrow> file_of s' j = file_of s2 j) \<and> (\<forall>j<208. type_of s' j = type_of s2 j) \<and> freeinode s' = freeinode s2"
    using append_reads_ok [of s2 n reads s'] E r f n by (simp add: inum(3) host_bytes_def h)
  show ?thesis using I E R f n by (simp add: inum(2))
qed

lemma add_files_ok:
  assumes "img_wf s" "unat (freeinode s) = n" "2 \<le> n" "n + length args \<le> 208" "add_files host 1 args s = Inr s'"
  shows "img_wf s' \<and> (\<forall>k<length args. file_of s' (n + k) = host_bytes host (args ! k) \<and> type_of s' (n + k) = T_FILE) \<and>
    file_of s' 1 = file_of s 1 @ concat (map (\<lambda>k. entry (n + k) (host_name (args ! k))) [0..<length args]) \<and>
    (\<forall>j<n. j \<noteq> 1 \<longrightarrow> file_of s' j = file_of s j) \<and> (\<forall>j<n. type_of s' j = type_of s j)"
  using assms
proof (induction args arbitrary: s n)
  case (Cons arg args)
  then obtain s1 where a: "add_file host 1 arg s = Inr s1" "add_files host 1 args s1 = Inr s'" by (auto simp: kres_simps)
  have lt: "n < 208" using Cons.prems(4) by simp
  note A = add_file_ok [OF Cons.prems(1-3) lt a(1)]
  have R: "img_wf s' \<and> (\<forall>k<length args. file_of s' (n + 1 + k) = host_bytes host (args ! k) \<and> type_of s' (n + 1 + k) = T_FILE) \<and>
    file_of s' 1 = file_of s1 1 @ concat (map (\<lambda>k. entry (n + 1 + k) (host_name (args ! k))) [0..<length args]) \<and>
    (\<forall>j<n + 1. j \<noteq> 1 \<longrightarrow> file_of s' j = file_of s1 j) \<and> (\<forall>j<n + 1. type_of s' j = type_of s1 j)"
    using A Cons.prems(3,4) a(2) by (intro Cons.IH) simp_all
  have s: "map (\<lambda>k. entry (n + k) (host_name ((arg # args) ! k))) [0..<length (arg # args)] =
      entry n (host_name arg) # map (\<lambda>k. entry (n + 1 + k) (host_name (args ! k))) [0..<length args]"
    by (simp add: upt_conv_Cons map_Suc_upt [symmetric] del: upt_Suc)
  have "file_of s' (n + k) = host_bytes host ((arg # args) ! k) \<and> type_of s' (n + k) = T_FILE" if "k < length (arg # args)" for k
    using that A R Cons.prems(3) by (cases k) simp_all
  then show ?case using A R Cons.prems(3) lt unfolding s by simp
qed simp

subsection \<open>The bitmap\<close>

lemma bitmap_fold:
  assumes "n \<le> 4096" "b < 4096"
  shows "length (fold (\<lambda>i buf. buf[i div 8 := buf ! (i div 8) OR push_bit (i mod 8) 1]) [0..<n] (replicate 512 (0 :: u8))) = 512 \<and>
    bit_free (fold (\<lambda>i buf. buf[i div 8 := buf ! (i div 8) OR push_bit (i mod 8) 1]) [0..<n] (replicate 512 0)) b = (n \<le> b)"
  using assms(1)
proof (induction n)
  case 0
  then show ?case using assms(2) by (simp add: bit_free_def)
next
  case (Suc n)
  let ?f = "fold (\<lambda>i buf. buf[i div 8 := buf ! (i div 8) OR push_bit (i mod 8) 1]) [0..<n] (replicate 512 (0 :: u8))"
  have "length ?f = 512" "bit_free ?f b = (n \<le> b)" using Suc by simp_all
  then show ?case
    using bit_free_set [of n ?f b] Suc.prems by (simp add: bitmask_def) (use assms(2) in auto)
qed

lemma mkfs_balloc_sector:
  assumes b: "mkfs_balloc n s = Inr s'" and n: "unat n \<le> 1000" and s: "img_sb s = new_sb" "length (sectors s) = 1000"
  shows "\<exists>x. sectors s' = (sectors s)[58 := x] \<and> length x = 512 \<and> (\<forall>b<4096. bit_free x b \<longleftrightarrow> unat n \<le> b)"
    "freeblock s' = freeblock s" "img_sb s' = img_sb s" "freeinode s' = freeinode s"
proof -
  have "sint n = int (unat n)" using n by (intro sint_small) simp
  define y where "y = fold (\<lambda>i buf. buf[i div 8 := buf ! (i div 8) OR push_bit (i mod 8) 1]) [0..<unat n] (replicate 512 (0 :: u8))"
  have s': "s' = wsect 58 y s"
    using b s(1) \<open>sint n = int (unat n)\<close> by (auto simp: mkfs_balloc_def Let_def BSIZE_def y_def split: if_splits)
  have "length y = 512 \<and> bit_free y b = (unat n \<le> b)" if "b < 4096" for b
    unfolding y_def by (rule bitmap_fold) (use n that in simp_all)
  from this [of 0] this have "length y = 512" "\<forall>b<4096. bit_free y b = (unat n \<le> b)" by simp_all
  then show "\<exists>x. sectors s' = (sectors s)[58 := x] \<and> length x = 512 \<and> (\<forall>b<4096. bit_free x b \<longleftrightarrow> unat n \<le> b)"
    using s(2) by (intro exI [of _ y]) (simp add: s' wsect_sectors)
  show "freeblock s' = freeblock s" "img_sb s' = img_sb s" "freeinode s' = freeinode s" by (simp_all add: s')
qed

text \<open>What the finished image holds. The size of the root directory has been rounded up; \<open>Z\<close> says how much was written.\<close>

definition built :: "(nat \<Rightarrow> nat) \<Rightarrow> imgst \<Rightarrow> bool" where
  "built Z s \<longleftrightarrow> img_ok (ondisk (sectors s)) Z s \<and> sectors s ! 1 = put_sb new_sb (replicate 512 0) \<and>
     (\<forall>b<4096. bit_free (sectors s ! 58) b \<longleftrightarrow> unat (freeblock s) \<le> b) \<and>
     (\<forall>j<208. Z j \<le> dsize (sectors s) j \<and> (j \<noteq> 1 \<longrightarrow> Z j = dsize (sectors s) j)) \<and>
     dsize (sectors s) 1 = (Z 1 div 512 + 1) * 512"

lemma mkfs_finish_ok:
  assumes wf: "img_wf s" and sz: "length (file_of s 1) \<le> 10000" and f: "mkfs_finish 1 s = Inr s'"
  shows "built (dsize (sectors s)) s' \<and> (\<forall>j<208. bytes_of (ondisk (sectors s')) (dsize (sectors s)) s' j = file_of s j) \<and>
    (\<forall>j<208. type_of s' j = type_of s j)"
proof -
  let ?D = "ondisk (sectors s)" and ?Z = "dsize (sectors s)"
  let ?off = "(d_size (?D 1) div 512 + 1) * 512 :: u32"
  let ?D' = "?D(1 := (?D 1)\<lparr>d_size := ?off\<rparr>)"
  obtain s1 where w: "winode (of_nat 1) (?D' 1) s = Inr s1" and b: "mkfs_balloc (freeblock s1) s1 = Inr s'"
    using f rinode_ok [OF wf, of 1] by (auto simp: mkfs_finish_def Let_def kres_simps BSIZE_def)
  have ok: "img_ok ?D ?Z s" using wf by (simp add: img_wf_def)
  have len: "length (d_addrs (?D' 1)) = 13" using img_okD(3) [OF ok, of 1] by simp
  note e = winode_effect [OF ok _ len w, simplified]
  have fb: "unat (freeblock s) \<le> 1000" using sectors_okD(4) [OF img_okD(5) [OF ok]] .
  then obtain x where x: "sectors s' = (sectors s1)[58 := x]" "length x = 512" "\<forall>b<4096. bit_free x b \<longleftrightarrow> unat (freeblock s) \<le> b"
    and f: "freeblock s' = freeblock s" "img_sb s' = img_sb s"
    using mkfs_balloc_sector [OF b] e img_okD(2) [OF ok] by auto
  have o: "ondisk (sectors s') j = ?D' j" if "j < 208" for j
    using e(5) [OF that] inode_number(3) [OF that] by (simp add: x(1) ondisk_def)
  have lx: "length (sectors s' ! b) = 512" if "b < 1000" for b
    using e(1,2) that x(2) by (cases "b = 58") (simp_all add: x(1))
  have M: "img_ok (ondisk (sectors s')) ?Z s'" "\<And>j. j < 208 \<Longrightarrow> bytes_of (ondisk (sectors s')) ?Z s' j = bytes_of ?D ?Z s j"
    using o e(1,3) f by (intro meta_change [OF ok _ _ _ lx]; simp add: x(1))+
  have z: "?Z 1 \<le> 10000" using sz by (simp add: file_of_def bytes_of_def contents_def)
  have "unat ?off = (?Z 1 div 512 + 1) * 512"
    using z by (simp add: unat_word_ariths unat_div_distrib)
  then have "built ?Z s'" using M(1) wf e(4) x o by (auto simp: built_def img_wf_def f(1) e(1))
  then show ?thesis using M(2) o by (simp add: file_of_def type_of_def)
qed

end
