(* ===== verification/Mount.thy ===== *)
theory Mount
  imports Image
begin

text \<open>
  The image that \<^theory_text>\<open>Mkfs\<close> builds, on the disk of the kernel: \<open>iinit\<close>, \<open>iget\<close>, \<open>ilock\<close> and \<open>readi\<close> of \<open>fs.c\<close> give
  back the files and the root directory that \<open>mkfs.c\<close> was asked to put there.
\<close>

definition root_bytes :: "u8 list list \<Rightarrow> u8 list" where
  "root_bytes args = entry 1 [46] @ entry 1 [46, 46] @ concat (map (\<lambda>k. entry (2 + k) (host_name (args ! k))) [0..<length args])"

lemma length_strncpy [simp]: "length (strncpy_bytes n x) = n"
  by (induction n x rule: strncpy_bytes.induct) auto

lemma length_entry [simp]: "length (entry i x) = 16"
  by (simp add: entry_def put_dirent_def DIRSIZ_def)

lemma length_root_bytes [simp]: "length (root_bytes args) = 16 * (length args + 2)"
  by (simp add: root_bytes_def length_concat comp_def sum_list_triv)

lemma mkfs_root_ok:
  assumes "mkfs_root mkfs_start = Inr (r, s)"
  shows "r = 1 \<and> img_wf s \<and> unat (freeinode s) = 2 \<and> file_of s 1 = entry 1 [46] @ entry 1 [46, 46] \<and> type_of s 1 = T_DIR"
proof -
  obtain s1 s2 where a: "mkfs_ialloc T_DIR mkfs_start = Inr (1, s1)" and r: "r = 1"
    and b: "iappend (of_nat 1) (entry 1 [46]) s1 = Inr s2" "iappend (of_nat 1) (entry 1 [46, 46]) s2 = Inr s"
    using assms by (auto simp: mkfs_root_def kres_simps ROOTINO_def entry_def split: if_splits)
  have "freeinode mkfs_start = 1" by (simp add: mkfs_start_sectors)
  then have A: "img_wf s1 \<and> file_of s1 1 = [] \<and> type_of s1 1 = T_DIR \<and> freeinode s1 = 2"
    using mkfs_ialloc_ok [OF mkfs_start_wf _ a] by simp
  have B: "img_wf s2 \<and> file_of s2 1 = entry 1 [46] \<and> type_of s2 1 = T_DIR \<and> freeinode s2 = 2"
    using iappend_ok [OF _ _ _ b(1)] A by simp
  show ?thesis using iappend_ok [OF _ _ _ b(2)] B r by simp
qed

lemma mkfs_built:
  assumes m: "mkfs host args = Inr s" and n: "length args \<le> 198"
  shows "\<exists>Z. built Z s \<and> bytes_of (ondisk (sectors s)) Z s 1 = root_bytes args \<and> type_of s 1 = T_DIR \<and>
    (\<forall>k<length args. bytes_of (ondisk (sectors s)) Z s (k + 2) = host_bytes host (args ! k) \<and> type_of s (k + 2) = T_FILE)"
proof -
  obtain r s1 s2 where a: "mkfs_root mkfs_start = Inr (r, s1)" "add_files host r args s1 = Inr s2" "mkfs_finish r s2 = Inr s"
    using m by (auto simp: mkfs_def kres_simps)
  note R = mkfs_root_ok [OF a(1)]
  have F: "img_wf s2 \<and> (\<forall>k<length args. file_of s2 (2 + k) = host_bytes host (args ! k) \<and> type_of s2 (2 + k) = T_FILE) \<and>
    file_of s2 1 = file_of s1 1 @ concat (map (\<lambda>k. entry (2 + k) (host_name (args ! k))) [0..<length args]) \<and>
    (\<forall>j<2. j \<noteq> 1 \<longrightarrow> file_of s2 j = file_of s1 j) \<and> (\<forall>j<2. type_of s2 j = type_of s1 j)"
    by (rule add_files_ok) (use R a(2) n in simp_all)
  then have root: "file_of s2 1 = root_bytes args" using R by (simp add: root_bytes_def)
  have "built (dsize (sectors s2)) s \<and> (\<forall>j<208. bytes_of (ondisk (sectors s)) (dsize (sectors s2)) s j = file_of s2 j) \<and>
    (\<forall>j<208. type_of s j = type_of s2 j)"
    by (rule mkfs_finish_ok) (use R a(3) F root n in simp_all)
  then show ?thesis using F R root n by (intro exI [of _ "dsize (sectors s2)"]) (simp add: add.commute)
qed

subsection \<open>What the kernel reads\<close>

text \<open>The kernel on a disk with the image: the inode cache is empty, the superblock is read from sector 1.\<close>

definition boot_fs :: "imgst \<Rightarrow> (unit, unit) fsys_scheme" where
  "boot_fs s =
     \<lparr>flog = \<lparr>disk = (\<lambda>b. if unat b < length (sectors s) then sectors s ! unat b else replicate BSIZE 0), cache = (\<lambda>b. None),
        wr = [], lstart = 2, lsize = 30, outstanding = 1, committing = False, lh = []\<rparr>,
      fsb = \<lparr>sb_size = 0, sb_nblocks = 0, sb_ninodes = 0, sb_nlog = 0, sb_logstart = 0, sb_inodestart = 0, sb_bmapstart = 0\<rparr>,
      icache = replicate 50 \<lparr>i_dev = 0, i_inum = 0, i_ref = 0, i_lock = initsleeplock, i_valid = False, i_type = 0,
        i_major = 0, i_minor = 0, i_nlink = 0, i_size = 0, i_addrs = replicate 13 0\<rparr>,
      fdev = (), devsw = (\<lambda>m. \<lparr>dev_read = None, dev_write = None\<rparr>)\<rparr>"

text \<open>The type and the size of an inode and its first \<open>n\<close> bytes, read by process \<open>pid\<close>.\<close>

definition kernel_read :: "u32 \<Rightarrow> nat \<Rightarrow> nat \<Rightarrow> imgst \<Rightarrow> (u16 \<times> u32 \<times> u8 list) kres" where
  "kernel_read pid i n s =
     kbind (iget 1 (of_nat i) (iinit (boot_fs s))) (\<lambda>(ip, t).
     kbind (ilock pid ip t) (\<lambda>t.
     kbind (readi ip 0 (of_nat n) t) (\<lambda>(r, bs, u). Inr (i_type (inode_at ip t), i_size (inode_at ip t), bs))))"

definition mounted :: "u32 \<Rightarrow> nat \<Rightarrow> imgst \<Rightarrow> (unit, unit) fsys_scheme" where
  "mounted pid i s = (let d = ondisk (sectors s) i in
     (boot_fs s)\<lparr>fsb := new_sb, icache :=
        \<lparr>i_dev = 1, i_inum = of_nat i, i_ref = 1, i_lock = initsleeplock\<lparr>sl_locked := True, sl_pid := pid\<rparr>, i_valid = True,
          i_type = d_type d, i_major = d_major d, i_minor = d_minor d, i_nlink = d_nlink d, i_size = d_size d, i_addrs = d_addrs d\<rparr>
        # drop 1 (icache (boot_fs s))\<rparr>)"

lemma get32_sb: "k < 7 \<Longrightarrow> get32 (put_sb b (replicate 512 0)) (4 * k) =
    [sb_size b, sb_nblocks b, sb_ninodes b, sb_nlog b, sb_logstart b, sb_inodestart b, sb_bmapstart b] ! k"
  unfolding put_sb_def using get32_put32s [of k "[_, _, _, _, _, _, _]" 0] by simp

lemma readsb_boot:
  assumes "sectors s ! 1 = put_sb new_sb (replicate 512 0)" "length (sectors s) = 1000"
  shows "readsb (boot_fs s) = new_sb"
proof -
  have "blk 1 (boot_fs s) = put_sb new_sb (replicate 512 0)" using assms by (simp add: boot_fs_def bview_def)
  then show ?thesis
    using get32_sb [of 0 new_sb] get32_sb [of 1 new_sb] get32_sb [of 2 new_sb] get32_sb [of 3 new_sb] get32_sb [of 4 new_sb]
      get32_sb [of 5 new_sb] get32_sb [of 6 new_sb] by (simp add: readsb_def Let_def)
qed

lemma kernel_open:
  assumes b: "built Z s" and i: "0 < i" "i < 208" and ty: "type_of s i \<noteq> 0"
  shows "kbind (iget 1 (of_nat i) (iinit (boot_fs s))) (\<lambda>(ip, t). kbind (ilock pid ip t) (\<lambda>t. f ip t)) = f 0 (mounted pid i s)"
proof -
  let ?e = "\<lparr>i_dev = 0, i_inum = 0, i_ref = 0, i_lock = initsleeplock, i_valid = False, i_type = 0,
        i_major = 0, i_minor = 0, i_nlink = 0, i_size = 0, i_addrs = replicate 13 0\<rparr> :: inode"
  have X: "length (sectors s) = 1000" "sectors s ! 1 = put_sb new_sb (replicate 512 0)"
    using b sectors_okD(1) [OF img_okD(5)] by (auto simp: built_def)
  have ini: "iinit (boot_fs s) = (boot_fs s)\<lparr>fsb := new_sb\<rparr>" "icache (boot_fs s) = ?e # replicate 49 ?e"
    using readsb_boot [OF X(2,1)] by (simp_all add: iinit_def) (simp_all add: boot_fs_def map_replicate_const eval_nat_numeral)
  have no: "first_index P (replicate n ?e) = None" if "\<not> P ?e" for P n using that by (simp add: first_index_None)
  have ig: "iget 1 (of_nat i) (iinit (boot_fs s)) =
      Inr (0, (boot_fs s)\<lparr>fsb := new_sb, icache := ?e\<lparr>i_dev := 1, i_inum := of_nat i, i_ref := 1\<rparr> # replicate 49 ?e\<rparr>)"
    by (simp add: iget_def ini no upd_inode_def modify_def)
  have blk: "blk (IBLOCK (of_nat i) new_sb) (boot_fs s) = sectors s ! isector i"
    using inode_number(1,3) [OF i(2)] X by (simp add: bview_def boot_fs_def)
  show ?thesis
    unfolding ig using ty blk by (simp add: ilock_def lock_inode_def acquiresleep_def initsleeplock_def upd_inode_def modify_def Let_def
        mounted_def type_of_def ondisk_def ini)
qed

text \<open>Blocks of the mounted disk, the bitmap, and the block map of the inode.\<close>

lemma mounted_facts:
  fixes pid :: u32
  assumes b: "built Z s" and i: "0 < i" "i < 208"
  defines "t \<equiv> mounted pid i s"
  shows "blk c t = (if unat c < 1000 then sectors s ! unat c else replicate 512 0)"
    "fsb t = new_sb" "valid t c \<longleftrightarrow> unat c < 1000" "unat c < 1000 \<Longrightarrow> BBLOCK c (fsb t) = 58"
    "unat c < 1000 \<Longrightarrow> used t c \<longleftrightarrow> unat c < unat (freeblock s)"
    "i_addrs (inode_at 0 t) = d_addrs (ondisk (sectors s) i)"
    "i_size (inode_at 0 t) = d_size (ondisk (sectors s) i)" "i_type (inode_at 0 t) = type_of s i"
    "IBLOCK (i_inum (inode_at 0 t)) (fsb t) = IBLOCK (of_nat i) new_sb"
proof -
  have X: "length (sectors s) = 1000" using b sectors_okD(1) [OF img_okD(5)] by (auto simp: built_def)
  show bl: "blk c t = (if unat c < 1000 then sectors s ! unat c else replicate 512 0)" for c
    by (simp add: t_def mounted_def Let_def boot_fs_def bview_def X BSIZE_def)
  show f: "fsb t = new_sb" by (simp add: t_def mounted_def Let_def)
  then show "valid t c \<longleftrightarrow> unat c < 1000" by (simp add: valid_def)
  show bb: "BBLOCK c (fsb t) = 58" if "unat c < 1000"
  proof -
    have "unat (c div 4096) = 0" using that by (simp add: unat_div_4096)
    then show ?thesis by (simp add: BBLOCK_eq f unat_eq_0)
  qed
  show "used t c \<longleftrightarrow> unat c < unat (freeblock s)" if "unat c < 1000"
    using b that by (simp add: used_def bb bl built_def not_le)
qed (simp_all add: t_def mounted_def Let_def type_of_def)

lemma mounted_fmap:
  assumes b: "built Z s" and i: "0 < i" "i < 208" and n: "n < 140"
  shows "fmap 0 (mounted pid i s) n = places (ondisk (sectors s)) (sectors s) i (slot n)"
    and "ind_block 0 (mounted pid i s) = places (ondisk (sectors s)) (sectors s) i 12"
proof -
  note M = mounted_facts [OF b i, where pid = pid] and o = img_okD [of "ondisk (sectors s)" Z s]
  have ok: "img_ok (ondisk (sectors s)) Z s" using b by (simp add: built_def)
  let ?R = "places (ondisk (sectors s)) (sectors s)"
  show ind: "ind_block 0 (mounted pid i s) = ?R i 12" using i by (simp add: ind_block_def M(6) places_def)
  have "unat (?R i 12) < 1000" if "?R i 12 \<noteq> 0"
    using places_okD(2) [OF o(4) [OF ok] i(2) _ that] sectors_okD(4) [OF o(5) [OF ok]] by simp
  then show "fmap 0 (mounted pid i s) n = ?R i (slot n)"
    using i n ind by (auto simp: fmap_def ind_block_def M(1,6) places_def slot_def)
qed

lemma mounted_ok:
  assumes b: "built Z s" and i: "0 < i" "i < 208"
  shows "file_ok 0 (mounted pid i s)"
proof -
  note M = mounted_facts [OF b i, where pid = pid] and F = mounted_fmap [OF b i, where pid = pid]
  have ok: "img_ok (ondisk (sectors s)) Z s" using b by (simp add: built_def)
  note o = img_okD [OF ok]
  let ?R = "places (ondisk (sectors s)) (sectors s)" and ?t = "mounted pid i s"
  have fb: "59 \<le> unat (freeblock s)" "unat (freeblock s) \<le> 1000" by (rule sectors_okD(3,4) [OF o(5)])+
  have "length (blk c ?t) = 512" for c using sectors_okD(2) [OF o(5)] by (simp add: M(1))
  then have wf: "disk_wf ?t" using fb by (simp add: disk_wf_def M(3-5))
  have ib: "unat (IBLOCK (i_inum (inode_at 0 ?t)) (fsb ?t)) = isector i" using inode_number(1) [OF i(2)] by (simp add: M(9))
  then have ne: "c \<noteq> IBLOCK (i_inum (inode_at 0 ?t)) (fsb ?t)" if "59 \<le> unat c" for c
    using that inode_number(3) [OF i(2)] by auto
  have fm: "file_meta ?t (IBLOCK (i_inum (inode_at 0 ?t)) (fsb ?t))"
    using inode_number(3) [OF i(2)] fb ib by (auto simp: file_meta_def M(3-5))
  have blocks: "file_block 0 ?t (?R i k)" if "k < 141" "?R i k \<noteq> 0" for k
  proof -
    note r = places_okD(1,2) [OF o(4) i(2) that]
    have "unat (?R i k) < 1000" using r fb by simp
    moreover have "?R i k \<noteq> 58" using r(1) by auto
    ultimately show ?thesis using r that(2) ne [OF r(1)] M(4) by (simp add: file_block_def M(3,5))
  qed
  have inj: "k = l" if "k < 141" "?R i k \<noteq> 0" "l < 141" "?R i l = ?R i k" for k l
    using places_okD(3) [OF o(4) i(2) that(1,2) i(2) that(3,4)] by simp
  have "0 < length (icache ?t)" by (simp add: mounted_def Let_def)
  moreover have "ind_block 0 ?t \<noteq> 0 \<longrightarrow> file_block 0 ?t (ind_block 0 ?t)" using blocks [of 12] F(2) [of 0] by simp
  moreover have "file_block 0 ?t (fmap 0 ?t n) \<and> fmap 0 ?t n \<noteq> ind_block 0 ?t \<and> (\<forall>m<140. fmap 0 ?t m = fmap 0 ?t n \<longrightarrow> m = n)"
    if "n < 140" "fmap 0 ?t n \<noteq> 0" for n
    using that blocks [of "slot n"] inj [of "slot n" 12] inj [of "slot n" "slot _"] by (auto simp: F)
  ultimately show ?thesis using wf fm o(3) [OF i(2)] by (simp add: file_ok_def M(6))
qed

text \<open>\<open>readi\<close> from the start, as far as blocks have been allocated.\<close>

lemma readi_prefix:
  assumes ok: "file_ok k t" and ty: "i_type (inode_at k t) \<noteq> T_DEV" and n: "n \<le> unat (i_size (inode_at k t))" "n \<le> 71680"
    and full: "\<And>m. m < 140 \<Longrightarrow> 512 * m < n \<Longrightarrow> fmap k t m \<noteq> 0"
  shows "readi k 0 (of_nat n) t = Inr (int n, map (fbyte k t) [0..<n], t)"
proof -
  have un: "unat (of_nat n :: u32) = n" using n(2) by (simp add: unat_of_nat take_bit_nat_eq_self)
  obtain bs where l: "readi_loop k 0 n t = Inr (bs, t)"
    using readi_loop_total [of 0 n k t] full n(2) by auto
  then have "bs = map (fbyte k t) [0..<n]" using readi_loop_spec [OF l ok] n(2) by simp
  moreover have "sint (of_nat n :: u32) = int n" using n(2) sint_small [of "of_nat n"] un by simp
  moreover have "\<not> i_size (inode_at k t) < of_nat n" using n(1) un by (simp add: word_less_nat_alt)
  ultimately show ?thesis using ty l un by (simp add: readi_def Let_def del: readi_loop.simps)
qed

lemma kernel_read_ok:
  assumes b: "built Z s" and i: "0 < i" "i < 208" and ty: "type_of s i \<noteq> 0" "type_of s i \<noteq> T_DEV"
  shows "kernel_read pid i (Z i) s = Inr (type_of s i, d_size (ondisk (sectors s) i), bytes_of (ondisk (sectors s)) Z s i)"
proof -
  let ?t = "mounted pid i s"
  note M = mounted_facts [OF b i, where pid = pid] and F = mounted_fmap [OF b i, where pid = pid]
  have ok: "img_ok (ondisk (sectors s)) Z s" and zs: "Z i \<le> dsize (sectors s) i" using b i by (simp_all add: built_def)
  note o = img_okD [OF ok]
  have z: "Z i \<le> 71680" by (rule sizes_okD(1) [OF o(6) i(2)])
  have "readi 0 0 (of_nat (Z i)) ?t = Inr (int (Z i), map (fbyte 0 ?t) [0..<Z i], ?t)"
    using sizes_okD(2) [OF o(6) i(2)] zs z ty by (intro readi_prefix mounted_ok [OF b i]) (simp_all add: M F)
  moreover have "map (fbyte 0 ?t) [0..<Z i] = bytes_of (ondisk (sectors s)) Z s i"
  proof -
    have "fbyte 0 ?t p = filebyte (places (ondisk (sectors s)) (sectors s)) (sectors s) i p" if "p < Z i" for p
    proof -
      note bb = byte_block [OF o(1) i(2) that]
      then have "unat (fmap 0 ?t (p div 512)) < 1000"
        using places_okD(2) [OF o(4) i(2) _ bb(2)] sectors_okD(4) [OF o(5)] by (simp add: F)
      then show ?thesis using bb by (simp add: fbyte_def filebyte_def F M(1))
    qed
    then show ?thesis by (simp add: bytes_of_def contents_def)
  qed
  ultimately show ?thesis
    unfolding kernel_read_def kernel_open [OF b i ty(1)] by (simp add: M)
qed

text \<open>
  C18. When \<open>mkfs\<close> succeeds with at most 198 files, the kernel reads from its image in the inode 1 a directory
  that starts with the entries \<open>.\<close>, \<open>..\<close> and one entry for each file, without the leading underscore, and in
  the inode of each file its size and the bytes that the build host read.
\<close>

theorem mkfs_kernel_reads:
  assumes "mkfs host args = Inr s" and "length args \<le> 198"
  shows "(\<exists>size. kernel_read pid 1 (16 * (length args + 2)) s = Inr (T_DIR, size, root_bytes args)) \<and>
    (\<forall>k<length args. let bytes = host_bytes host (args ! k) in
       kernel_read pid (k + 2) (length bytes) s = Inr (T_FILE, of_nat (length bytes), bytes))"
proof -
  obtain Z where b: "built Z s" and r: "bytes_of (ondisk (sectors s)) Z s 1 = root_bytes args" "type_of s 1 = T_DIR"
    and f: "\<And>k. k < length args \<Longrightarrow> bytes_of (ondisk (sectors s)) Z s (k + 2) = host_bytes host (args ! k) \<and> type_of s (k + 2) = T_FILE"
    using mkfs_built [OF assms] by blast
  have len: "length (bytes_of (ondisk (sectors s)) Z s i) = Z i" for i by (simp add: bytes_of_def contents_def)
  have "kernel_read pid 1 (Z 1) s = Inr (T_DIR, d_size (ondisk (sectors s) 1), root_bytes args)"
    using kernel_read_ok [OF b, of 1 pid] r by (simp add: T_DIR_def T_DEV_def)
  moreover have "Z 1 = 16 * (length args + 2)" using len [of 1] r(1) by simp
  moreover have "kernel_read pid (k + 2) (length (host_bytes host (args ! k))) s =
      Inr (T_FILE, of_nat (length (host_bytes host (args ! k))), host_bytes host (args ! k))" if "k < length args" for k
  proof -
    have "Z (k + 2) = unat (d_size (ondisk (sectors s) (k + 2)))" using b that assms(2) by (simp add: built_def)
    then show ?thesis using kernel_read_ok [OF b, of "k + 2" pid] f [OF that] len [of "k + 2"] that assms(2)
      by (simp add: T_FILE_def T_DEV_def)
  qed
  ultimately show ?thesis by (simp add: Let_def)
qed

text \<open>An example: one file of three bytes.\<close>

lemma iappend_returns:
  assumes wf: "img_wf s" and i: "i < 208" and p: "p \<noteq> []" and fit: "length (file_of s i) mod 512 + length p \<le> 512"
    and small: "length (file_of s i) < 6144" and fb: "unat (freeblock s) < 1000"
  shows "\<exists>s'. iappend (of_nat i) p s = Inr s' \<and> unat (freeblock s') \<le> unat (freeblock s) + 1"
proof -
  let ?d = "ondisk (sectors s) i"
  let ?off = "d_size ?d"
  have ok: "img_ok (ondisk (sectors s)) (dsize (sectors s)) s" using wf by (simp add: img_wf_def)
  note o = img_okD [OF ok] and n = inode_number [OF i]
  have z: "length (file_of s i) = unat ?off" by (simp add: file_of_def bytes_of_def contents_def)
  have X: "length (sectors s) = 1000" by (rule sectors_okD(1) [OF o(5)])
  have r: "rinode (of_nat i) s = Inr ?d" using n X by (simp add: rinode_def Let_def o(2) ondisk_def rsect_def)
  let ?fbn = "?off div of_nat BSIZE"
  have fbn: "unat ?fbn = unat ?off div 512" "unat ?fbn < 12" using small z by (simp_all add: BSIZE_def unat_div_distrib)
  obtain d1 s1 where a: "address (unat ?fbn) (?d, s) = (d1, s1)" by fastforce
  let ?x = "d_addrs d1 ! unat ?fbn"
  have s1: "sectors s1 = sectors s" "unat (freeblock s1) \<le> unat (freeblock s) + 1" "img_sb s1 = img_sb s"
    using a fb by (auto simp: address_def unat_add_small split: if_splits)
  have "unat (d_addrs ?d ! unat ?fbn) < 1000" if "d_addrs ?d ! unat ?fbn \<noteq> 0"
    using places_okD(2) [OF o(4) i, of "unat ?fbn"] that fbn i sectors_okD(4) [OF o(5)] by (simp add: places_def)
  then have x: "unat ?x < 1000" using a fb fbn(2) o(3) [OF i] by (auto simp: address_def split: if_splits)
  have fs: "file_sector ?fbn ?d s = Inr (?x, d1, s1)" using fbn(2) a by (simp add: file_sector_alt)
  have room: "room ?off (length p) = length p" using fit z by (simp add: room_mod)
  have "\<exists>off buf. iappend_loop ?d ?off p s = Inr (d1, off, wsect ?x buf s1)"
    using p fs x X fbn by (subst iappend_loop.simps)
      (simp add: Let_def room rsect_def s1 MAXFILE_def NDIRECT_def NINDIRECT_def BSIZE_def iappend_loop.simps [of _ _ "[]"], blast)
  then obtain off buf where l: "iappend_loop ?d ?off p s = Inr (d1, off, wsect ?x buf s1)" by blast
  have "\<exists>s'. winode (of_nat i) (d1\<lparr>d_size := off\<rparr>) (wsect ?x buf s1) = Inr s' \<and> freeblock s' = freeblock s1"
    using n x X by (simp add: winode_def Let_def s1 o(2) rsect_def wsect_sectors)
  then show ?thesis using r l s1(2) by (auto simp: iappend_def)
qed

lemma mkfs_ialloc_returns:
  assumes "img_wf s" "unat (freeinode s) < 208"
  shows "\<exists>inum s'. mkfs_ialloc ty s = Inr (inum, s') \<and> freeblock s' = freeblock s"
proof -
  have ok: "img_ok (ondisk (sectors s)) (dsize (sectors s)) s" using assms(1) by (simp add: img_wf_def)
  then show ?thesis
    using inode_number(1,3) [OF assms(2)] sectors_okD(1) [OF img_okD(5) [OF ok]] img_okD(2) [OF ok]
    by (simp add: mkfs_ialloc_def winode_def rsect_def Let_def)
qed

lemma mkfs_finish_returns:
  assumes "img_wf s"
  shows "\<exists>s'. mkfs_finish 1 s = Inr s'"
proof -
  have ok: "img_ok (ondisk (sectors s)) (dsize (sectors s)) s" using assms by (simp add: img_wf_def)
  note X = sectors_okD(1,4) [OF img_okD(5) [OF ok]] and n = inode_number(1,3) [of 1]
  have "sint (freeblock s) = int (unat (freeblock s))" using X(2) by (intro sint_small) simp
  moreover have "int (unat (freeblock s)) < 4096" using X(2) by linarith
  ultimately have "sint (freeblock s) < 4096" by simp
  then show ?thesis
    using n X img_okD(2) [OF ok]
    by (simp add: mkfs_finish_def rinode_def winode_def rsect_def Let_def mkfs_balloc_def BSIZE_def)
qed

definition one_file :: host where
  "one_file arg = (if arg = [95, 97] then Some [[1, 2, 3]] else None)"

lemma entry_not_Nil [simp]: "entry i x \<noteq> []"
  using length_entry [of i x] by fastforce

lemma mkfs_one_file: "\<exists>s. mkfs one_file [[95, 97]] = Inr s"
proof -
  have fi: "freeinode mkfs_start = 1" "freeblock mkfs_start = 59" by (simp_all add: mkfs_start_sectors)
  obtain i1 s1 where 1: "mkfs_ialloc T_DIR mkfs_start = Inr (i1, s1)" "freeblock s1 = 59"
    using mkfs_ialloc_returns [OF mkfs_start_wf, of T_DIR] fi by auto
  have w1: "img_wf s1 \<and> i1 = 1 \<and> file_of s1 1 = [] \<and> freeinode s1 = 2"
    using mkfs_ialloc_ok [OF mkfs_start_wf _ 1(1)] fi by auto
  obtain s2 where 2: "iappend (of_nat 1) (entry 1 [46]) s1 = Inr s2" "unat (freeblock s2) \<le> unat (freeblock s1) + 1"
    using iappend_returns [of s1 1 "entry 1 [46]"] w1 1(2) by auto
  have w2: "img_wf s2 \<and> file_of s2 1 = entry 1 [46] \<and> freeinode s2 = 2" using iappend_ok [OF _ _ _ 2(1)] w1 by simp
  obtain s3 where 3: "iappend (of_nat 1) (entry 1 [46, 46]) s2 = Inr s3" "unat (freeblock s3) \<le> unat (freeblock s2) + 1"
    using iappend_returns [of s2 1 "entry 1 [46, 46]"] w2 2(2) 1(2) by auto
  have w3: "img_wf s3 \<and> file_of s3 1 = entry 1 [46] @ entry 1 [46, 46] \<and> freeinode s3 = 2"
    using iappend_ok [OF _ _ _ 3(1)] w2 by simp
  have root: "mkfs_root mkfs_start = Inr (1, s3)"
    using 1 2 3 w1 by (simp add: mkfs_root_def entry_def ROOTINO_def)
  obtain i4 s4 where 4: "mkfs_ialloc T_FILE s3 = Inr (i4, s4)" "freeblock s4 = freeblock s3"
    using mkfs_ialloc_returns [of s3 T_FILE] w3 by auto
  have w4: "img_wf s4 \<and> i4 = 2 \<and> file_of s4 2 = [] \<and> file_of s4 1 = file_of s3 1 \<and> freeinode s4 = 3"
    using mkfs_ialloc_ok [OF _ _ 4(1)] w3 by auto
  obtain s5 where 5: "iappend (of_nat 1) (entry 2 [97]) s4 = Inr s5" "unat (freeblock s5) \<le> unat (freeblock s4) + 1"
    using iappend_returns [of s4 1 "entry 2 [97]"] w3 w4 2(2) 3(2) 4(2) 1(2) by auto
  have w5: "img_wf s5 \<and> file_of s5 2 = [] \<and> freeinode s5 = 3" using iappend_ok [OF _ _ _ 5(1)] w4 by simp
  obtain s6 where 6: "iappend (of_nat 2) [1, 2, 3] s5 = Inr s6"
    using iappend_returns [of s5 2 "[1, 2, 3]"] w5 5(2) 4(2) 3(2) 2(2) 1(2) by auto
  have w6: "img_wf s6" using iappend_ok [OF _ _ _ 6] w5 by simp
  have "add_files one_file 1 [[95, 97]] s3 = Inr s6"
    using 4 5 6 w4 by (simp add: add_file_def one_file_def host_name_def first_byte_def entry_def)
  then show ?thesis using root mkfs_finish_returns [OF w6] by (simp add: mkfs_def)
qed

theorem mkfs_kernel_reads_witness:
  "\<exists>s. mkfs one_file [[95, 97]] = Inr s \<and> kernel_read 1 2 3 s = Inr (T_FILE, 3, [1, 2, 3])"
proof -
  obtain s where "mkfs one_file [[95, 97]] = Inr s" using mkfs_one_file by blast
  then show ?thesis using mkfs_kernel_reads [of one_file "[[95, 97]]" s 1]
    by (auto simp: host_bytes_def one_file_def Let_def numeral_2_eq_2 numeral_3_eq_3)
qed

end
